(* ===== verification/Prelude.thy ===== *)
theory Prelude
  imports Main "HOL-Library.Multiset"
begin

text \<open>
  Shared vocabulary of the development: the Python exceptions the modelled code raises or lets
  escape, results as values of a sum type, Python's list slicing and indexing, and the generic
  list facts the component theories use.  The collection \<open>py_simps\<close> holds the unfolding
  rules of the Python primitives.
\<close>

named_theorems py_simps \<open>unfolding rules of the Python primitives\<close>

section \<open>Results\<close>

datatype py_error =
    RuntimeError
  | ValueError
  | AssertionError
  | IndexError
  | AttributeError
  | TypeError
  | NotImplementedError
  | UnboundLocalError
  | KeyError
  | ZeroDivisionError

type_synonym 'a result = "py_error + 'a"

text \<open>Token ids and KV-cache locations are Python integers held in int64 tensors.\<close>

type_synonym token = int
type_synonym slot = int

fun bind_result :: "'a result \<Rightarrow> ('a \<Rightarrow> 'b result) \<Rightarrow> 'b result" where
  "bind_result (Inl e) f = Inl e"
| "bind_result (Inr x) f = f x"

lemma bind_result_eq_Inr [simp]:
  "bind_result m f = Inr y \<longleftrightarrow> (\<exists>x. m = Inr x \<and> f x = Inr y)"
  by (cases m) auto

lemma bind_result_eq_Inl:
  "bind_result m f = Inl e \<longleftrightarrow> m = Inl e \<or> (\<exists>x. m = Inr x \<and> f x = Inl e)"
  by (cases m) auto

text \<open>A loop that applies a fallible body to each element and collects the results.\<close>

fun map_result :: "('a \<Rightarrow> 'b result) \<Rightarrow> 'a list \<Rightarrow> 'b list result" where
  "map_result f [] = Inr []"
| "map_result f (x # xs) =
     bind_result (f x) (\<lambda>y. bind_result (map_result f xs) (\<lambda>ys. Inr (y # ys)))"

lemma map_result_Inr_map: "\<forall>x \<in> set xs. f x = Inr (g x) \<Longrightarrow> map_result f xs = Inr (map g xs)"
  by (induction xs) auto

lemma map_result_length: "map_result f xs = Inr ys \<Longrightarrow> length ys = length xs"
  by (induction xs arbitrary: ys) auto

text \<open>A loop whose body updates an accumulator and may raise.\<close>

fun fold_result :: "('a \<Rightarrow> 's \<Rightarrow> 's result) \<Rightarrow> 'a list \<Rightarrow> 's \<Rightarrow> 's result" where
  "fold_result f [] s = Inr s"
| "fold_result f (x # xs) s = bind_result (f x s) (fold_result f xs)"

lemma fold_result_append:
  "fold_result f (xs @ ys) s = bind_result (fold_result f xs s) (fold_result f ys)"
proof (induction xs arbitrary: s)
  case (Cons x xs)
  then show ?case by (cases "f x s") auto
qed simp

lemma fold_result_invariant:
  assumes "fold_result f xs s = Inr t" and "P s"
    and "\<And>x s s'. x \<in> set xs \<Longrightarrow> P s \<Longrightarrow> f x s = Inr s' \<Longrightarrow> P s'"
  shows "P t"
  using assms by (induction xs arbitrary: s) auto

section \<open>Python lists\<close>

text \<open>
  \<open>py_nth xs i\<close> is \<open>xs[i]\<close> for a non-negative index, \<open>slice xs a b\<close> is \<open>xs[a:b]\<close> for
  non-negative bounds, and \<open>drop_tail xs n\<close> is \<open>xs[:-n]\<close>: Python reads \<open>xs[:-0]\<close> as
  \<open>xs[:0]\<close>, the empty list.
\<close>

definition py_nth :: "'a list \<Rightarrow> nat \<Rightarrow> 'a result" where
  "py_nth xs i = (if i < length xs then Inr (xs ! i) else Inl IndexError)"

text \<open>\<open>py_item xs k\<close> is \<open>xs[k]\<close> for an index of either sign.\<close>

definition py_item :: "'a list \<Rightarrow> int \<Rightarrow> 'a result" where
  "py_item xs k =
     (let j = (if k < 0 then k + int (length xs) else k)
      in if 0 \<le> j \<and> j < int (length xs) then Inr (xs ! nat j) else Inl IndexError)"

lemma py_item_of_nat [simp]: "i < length xs \<Longrightarrow> py_item xs (int i) = Inr (xs ! i)"
  by (simp add: py_item_def)

definition slice :: "'a list \<Rightarrow> nat \<Rightarrow> nat \<Rightarrow> 'a list" where
  "slice xs a b = take (b - a) (drop a xs)"

definition drop_tail :: "'a list \<Rightarrow> nat \<Rightarrow> 'a list" where
  "drop_tail xs n = (if n = 0 then [] else take (length xs - n) xs)"

declare py_nth_def [py_simps] slice_def [py_simps] drop_tail_def [py_simps]

lemma py_nth_ok [simp]: "i < length xs \<Longrightarrow> py_nth xs i = Inr (xs ! i)"
  by (simp add: py_nth_def)

lemma py_nth_eq_Inr: "py_nth xs i = Inr x \<longleftrightarrow> i < length xs \<and> xs ! i = x"
  by (simp add: py_nth_def)

lemma py_nth_eq_Inl: "py_nth xs i = Inl e \<longleftrightarrow> length xs \<le> i \<and> e = IndexError"
  by (auto simp: py_nth_def)

lemma length_slice [simp]: "length (slice xs a b) = min b (length xs) - a"
  by (auto simp: slice_def)

lemma nth_slice [simp]: "i < length (slice xs a b) \<Longrightarrow> slice xs a b ! i = xs ! (a + i)"
  by (cases "a \<le> length xs") (simp_all add: slice_def)

lemma slice_empty [simp]: "b \<le> a \<Longrightarrow> slice xs a b = []"
  by (simp add: slice_def)

lemma slice_0 [simp]: "slice xs 0 b = take b xs"
  by (simp add: slice_def)

lemma set_slice_subset: "set (slice xs a b) \<subseteq> set xs"
  unfolding slice_def by (meson order_trans set_drop_subset set_take_subset)

lemma slice_append_slice: "a \<le> b \<Longrightarrow> b \<le> c \<Longrightarrow> slice xs a b @ slice xs b c = slice xs a c"
proof -
  assume "a \<le> b" "b \<le> c"
  then obtain i j where b: "b = a + i" and c: "c = a + i + j"
    by (metis le_add_diff_inverse)
  have "take i (drop a xs) @ take j (drop (a + i) xs) = take (i + j) (drop a xs)"
    by (simp add: take_add add.commute)
  then show ?thesis by (simp add: slice_def b c)
qed

lemma take_append_slice: "a \<le> b \<Longrightarrow> take a xs @ slice xs a b = take b xs"
  using slice_append_slice [of 0 a b xs] by simp

lemma drop_as_slice: "length xs \<le> b \<Longrightarrow> slice xs a b = drop a xs"
  by (simp add: slice_def)

lemma length_drop_tail [simp]: "length (drop_tail xs n) = (if n = 0 then 0 else length xs - n)"
  by (simp add: drop_tail_def)

lemma drop_tail_append [simp]: "ys \<noteq> [] \<Longrightarrow> drop_tail (xs @ ys) (length ys) = xs"
  by (simp add: drop_tail_def)

text \<open>
  \<open>last_n xs k\<close> is \<open>xs[-k:]\<close> (all of \<open>xs\<close> for \<open>k = 0\<close>), \<open>take_int xs k\<close> is \<open>xs[:k]\<close> for an integer
  of either sign, and \<open>py_in s t\<close> is the substring test \<open>s in t\<close>.
\<close>

definition last_n :: "'a list \<Rightarrow> nat \<Rightarrow> 'a list" where
  "last_n xs k = (if k = 0 then xs else drop (length xs - k) xs)"

definition take_int :: "'a list \<Rightarrow> int \<Rightarrow> 'a list" where
  "take_int xs k = (if k < 0 then take (length xs - nat (- k)) xs else take (nat k) xs)"

fun py_in :: "string \<Rightarrow> string \<Rightarrow> bool" where
  "py_in s [] = (s = [])"
| "py_in s (c # t) = (take (length s) (c # t) = s \<or> py_in s t)"

declare last_n_def [py_simps] take_int_def [py_simps]

text \<open>Slices with integer bounds: a negative bound counts from the end.\<close>

definition py_clip :: "nat \<Rightarrow> int \<Rightarrow> nat" where
  "py_clip n i = (if i < 0 then nat (int n + i) else nat i)"

definition py_slice :: "'a list \<Rightarrow> int \<Rightarrow> int \<Rightarrow> 'a list" where
  "py_slice xs a b = slice xs (py_clip (length xs) a) (py_clip (length xs) b)"

definition drop_int :: "'a list \<Rightarrow> int \<Rightarrow> 'a list" where
  "drop_int xs a = drop (py_clip (length xs) a) xs"

lemma py_slice_of_nat [simp]: "py_slice xs (int a) (int b) = slice xs a b"
  by (simp add: py_slice_def py_clip_def)

lemma take_int_of_nat [simp]: "take_int xs (int n) = take n xs"
  by (simp add: take_int_def)

lemma py_in_iff: "py_in s t \<longleftrightarrow> (\<exists>u v. t = u @ s @ v)"
proof (induction s t rule: py_in.induct)
  case (2 s c t)
  show ?case
  proof
    assume "py_in s (c # t)"
    then consider "take (length s) (c # t) = s" | "py_in s t" by auto
    then show "\<exists>u v. c # t = u @ s @ v"
    proof cases
      case 1
      then have "c # t = [] @ s @ drop (length s) (c # t)" by (metis append_Nil append_take_drop_id)
      then show ?thesis by blast
    next
      case 2
      then obtain u v where "t = u @ s @ v" using "2.IH" by blast
      then have "c # t = (c # u) @ s @ v" by simp
      then show ?thesis by blast
    qed
  next
    assume "\<exists>u v. c # t = u @ s @ v"
    then obtain u v where uv: "c # t = u @ s @ v" by blast
    show "py_in s (c # t)"
    proof (cases u)
      case Nil
      then have "take (length s) (c # t) = s" using uv by (metis append_Nil append_eq_conv_conj)
      then show ?thesis by simp
    next
      case (Cons d u')
      then have "t = u' @ s @ v" using uv by simp
      then show ?thesis using "2.IH" by auto
    qed
  qed
qed auto

section \<open>Rounding up to a multiple\<close>

text \<open>\<open>((n + p - 1) // p) * p\<close>, the page alignment the code writes out at every allocation.\<close>

definition ceil_div :: "nat \<Rightarrow> nat \<Rightarrow> nat" where
  "ceil_div n p = (n + p - 1) div p"

definition ceil_align :: "nat \<Rightarrow> nat \<Rightarrow> nat" where
  "ceil_align n p = ceil_div n p * p"

lemma ceil_div_1 [simp]: "ceil_div n (Suc 0) = n"
  by (simp add: ceil_div_def)

lemma ceil_align_1 [simp]: "ceil_align n (Suc 0) = n"
  by (simp add: ceil_align_def)

lemma ceil_align_ge: "0 < p \<Longrightarrow> n \<le> ceil_align n p"
proof -
  assume p: "0 < p"
  have "n + p - 1 = (n + p - 1) div p * p + (n + p - 1) mod p" by simp
  moreover have "(n + p - 1) mod p \<le> p - 1" using p
    by (metis Suc_pred' less_Suc_eq_le mod_less_divisor)
  ultimately show ?thesis unfolding ceil_align_def ceil_div_def using p by linarith
qed

lemma ceil_align_less: "0 < p \<Longrightarrow> ceil_align n p < n + p"
  unfolding ceil_align_def ceil_div_def
  by (metis Suc_diff_1 add_gr_0 div_times_less_eq_dividend le_imp_less_Suc)

lemma ceil_align_dvd [simp]: "p dvd ceil_align n p"
  by (simp add: ceil_align_def)

lemma ceil_align_id: "p dvd n \<Longrightarrow> 0 < p \<Longrightarrow> ceil_align n p = n"
proof -
  assume d: "p dvd n" and p: "0 < p"
  then obtain k where n: "n = k * p" by (metis dvdE mult.commute)
  obtain q where q: "p = Suc q" using p by (cases p) auto
  have "(q + k * Suc q) div Suc q = k + q div Suc q" by (rule div_mult_self1) simp
  then have "(k * p + p - 1) div p = k" by (simp add: q add.commute)
  then show ?thesis by (simp add: ceil_align_def ceil_div_def n)
qed

end
