(* ===== verification/Allocator.thy ===== *)
theory Allocator
  imports Prelude
begin

text \<open>
  The KV-cache slot allocators of \<open>mem_cache/allocator.py\<close>: the state and the shared operations
  of \<open>BaseTokenToKVPoolAllocator\<close>, the one-token \<open>TokenToKVPoolAllocator\<close>, the page-aligned
  \<open>PagedTokenToKVPoolAllocator\<close> with its extend and decode kernels, and the naive extend
  routine.  The locale \<open>slot_pool\<close> states what a client of an allocator relies on; it is
  interpreted on both classes and on the dynamic dispatch between them.  Tensors of page numbers
  and slots are lists of integers.
\<close>

section \<open>State\<close>

record allocator =
  pool_size :: nat
  page_size :: nat
  need_sort :: bool
  debug_mode :: bool
  is_paged :: bool
  free_pages :: "int list"
  release_pages :: "int list"
  is_not_in_free_group :: bool
  free_group :: "slot list list"
  seen_max_num_extend_tokens :: nat

text \<open>\<open>is_paged\<close> tells the two subclasses apart.  A debug assertion of the source that fails is
  the result \<open>Inl AssertionError\<close>.\<close>

definition init_base :: "nat \<Rightarrow> nat \<Rightarrow> bool \<Rightarrow> bool \<Rightarrow> bool \<Rightarrow> allocator" where
  "init_base sz psz srt dbg paged =
     \<lparr>pool_size = sz, page_size = psz, need_sort = srt, debug_mode = dbg, is_paged = paged,
      free_pages = [], release_pages = [], is_not_in_free_group = True, free_group = [],
      seen_max_num_extend_tokens = 1\<rparr>"

definition num_pages :: "allocator \<Rightarrow> nat" where
  "num_pages a = pool_size a div page_size a"

definition available_size :: "allocator \<Rightarrow> nat" where
  "available_size a = (length (free_pages a) + length (release_pages a)) * page_size a"

definition backup_state :: "allocator \<Rightarrow> int list \<times> int list" where
  "backup_state a = (free_pages a, release_pages a)"

definition restore_state :: "int list \<times> int list \<Rightarrow> allocator \<Rightarrow> allocator" where
  "restore_state st a = a\<lparr>free_pages := fst st, release_pages := snd st\<rparr>"

definition free_group_begin :: "allocator \<Rightarrow> allocator" where
  "free_group_begin a = a\<lparr>is_not_in_free_group := False, free_group := []\<rparr>"

definition merge_and_sort_free :: "allocator \<Rightarrow> allocator" where
  "merge_and_sort_free a =
     (if 0 < length (release_pages a)
      then a\<lparr>free_pages := sort (free_pages a @ release_pages a), release_pages := []\<rparr>
      else a)"

section \<open>The token allocator\<close>

definition token_clear :: "allocator \<Rightarrow> allocator" where
  "token_clear a =
     a\<lparr>free_pages := map int [1..<Suc (pool_size a)], is_not_in_free_group := True,
       free_group := [], release_pages := []\<rparr>"

definition token_init :: "nat \<Rightarrow> bool \<Rightarrow> allocator" where
  "token_init sz srt = token_clear (init_base sz 1 srt False False)"

definition token_alloc :: "allocator \<Rightarrow> nat \<Rightarrow> (slot list option \<times> allocator) result" where
  "token_alloc a need_size =
     (let a1 = (if need_sort a \<and> length (free_pages a) < need_size
                then merge_and_sort_free a else a)
      in if length (free_pages a1) < need_size then Inr (None, a1)
         else Inr (Some (take need_size (free_pages a1)),
                   a1\<lparr>free_pages := drop need_size (free_pages a1)\<rparr>))"

definition token_free :: "allocator \<Rightarrow> slot list \<Rightarrow> allocator result" where
  "token_free a free_index =
     (if length free_index = 0 then Inr a
      else if is_not_in_free_group a
      then (if need_sort a
            then Inr (a\<lparr>release_pages := release_pages a @ free_index\<rparr>)
            else Inr (a\<lparr>free_pages := free_pages a @ free_index\<rparr>))
      else Inr (a\<lparr>free_group := free_group a @ [free_index]\<rparr>))"

section \<open>The paged allocator\<close>

text \<open>\<open>torch.unique\<close> returns the distinct elements in ascending order.\<close>

definition torch_unique :: "int list \<Rightarrow> int list" where
  "torch_unique xs = sort (remdups xs)"

text \<open>The slots of one page, and of a tensor of pages.\<close>

definition page_slots :: "nat \<Rightarrow> int \<Rightarrow> slot list" where
  "page_slots psz p = map (\<lambda>j. p * int psz + int j) [0..<psz]"

definition pages_slots :: "nat \<Rightarrow> int list \<Rightarrow> slot list" where
  "pages_slots psz ps = concat (map (page_slots psz) ps)"

definition paged_clear :: "allocator \<Rightarrow> allocator" where
  "paged_clear a =
     a\<lparr>free_pages := map int [1..<Suc (num_pages a)], is_not_in_free_group := True,
       free_group := [], release_pages := []\<rparr>"

definition paged_init :: "nat \<Rightarrow> nat \<Rightarrow> bool \<Rightarrow> bool \<Rightarrow> allocator" where
  "paged_init sz psz srt dbg = paged_clear (init_base sz psz srt dbg True)"

definition paged_alloc :: "allocator \<Rightarrow> nat \<Rightarrow> (slot list option \<times> allocator) result" where
  "paged_alloc a need_size =
     (if debug_mode a \<and> need_size mod page_size a \<noteq> 0 then Inl AssertionError
      else
        (let n = need_size div page_size a;
             a1 = (if need_sort a \<and> length (free_pages a) < n
                   then merge_and_sort_free a else a)
         in if length (free_pages a1) < n then Inr (None, a1)
            else Inr (Some (pages_slots (page_size a) (take n (free_pages a1))),
                      a1\<lparr>free_pages := drop n (free_pages a1)\<rparr>)))"

definition paged_free :: "allocator \<Rightarrow> slot list \<Rightarrow> allocator result" where
  "paged_free a free_index =
     (if length free_index = 0 then Inr a
      else
        (let free_page_indices = torch_unique (map (\<lambda>x. x div int (page_size a)) free_index);
             a1 = (if is_not_in_free_group a
                   then (if need_sort a
                         then a\<lparr>release_pages := free_page_indices @ release_pages a\<rparr>
                         else a\<lparr>free_pages := free_page_indices @ free_pages a\<rparr>)
                   else a\<lparr>free_group := free_group a @ [free_index]\<rparr>)
         in if debug_mode a1 \<and> length (torch_unique (free_pages a1)) \<noteq> length (free_pages a1)
            then Inl AssertionError else Inr a1))"

section \<open>Dynamic dispatch and the end of a free group\<close>

definition alloc :: "allocator \<Rightarrow> nat \<Rightarrow> (slot list option \<times> allocator) result" where
  "alloc a n = (if is_paged a then paged_alloc a n else token_alloc a n)"

definition free :: "allocator \<Rightarrow> slot list \<Rightarrow> allocator result" where
  "free a xs = (if is_paged a then paged_free a xs else token_free a xs)"

definition clear :: "allocator \<Rightarrow> allocator" where
  "clear a = (if is_paged a then paged_clear a else token_clear a)"

definition free_group_end :: "allocator \<Rightarrow> allocator result" where
  "free_group_end a =
     (let a1 = a\<lparr>is_not_in_free_group := True\<rparr>
      in if free_group a1 \<noteq> [] then free a1 (concat (free_group a1)) else Inr a1)"

lemmas allocator_defs =
  available_size_def merge_and_sort_free_def token_alloc_def token_free_def paged_alloc_def
  paged_free_def alloc_def free_def free_group_begin_def free_group_end_def

section \<open>What a client of an allocator relies on\<close>

text \<open>
  \<open>avail\<close> is the multiset of slots an allocation can still take, \<open>pending\<close> the slots handed back
  inside an open free group, \<open>whole\<close> says that a list of slots consists of complete allocation
  units (single slots, or full pages).  An allocation of a multiple of the unit succeeds exactly
  when enough slots are available and moves them out of \<open>avail\<close>; freeing whole units that are
  lent moves them back.
\<close>

locale slot_pool =
  fixes pool_alloc :: "'s \<Rightarrow> nat \<Rightarrow> (slot list option \<times> 's) result"
    and pool_free :: "'s \<Rightarrow> slot list \<Rightarrow> 's result"
    and avail :: "'s \<Rightarrow> slot multiset"
    and pending :: "'s \<Rightarrow> slot multiset"
    and whole :: "'s \<Rightarrow> slot list \<Rightarrow> bool"
    and unit_size :: "'s \<Rightarrow> nat"
    and invar :: "'s \<Rightarrow> bool"
  assumes alloc_Some:
      "\<lbrakk>invar s; unit_size s dvd n; n \<le> size (avail s)\<rbrakk> \<Longrightarrow>
       \<exists>xs s'. pool_alloc s n = Inr (Some xs, s') \<and> length xs = n \<and> avail s = mset xs + avail s'
         \<and> pending s' = pending s \<and> invar s' \<and> whole s' xs \<and> unit_size s' = unit_size s"
    and alloc_None:
      "\<lbrakk>invar s; unit_size s dvd n; size (avail s) < n\<rbrakk> \<Longrightarrow>
       \<exists>s'. pool_alloc s n = Inr (None, s') \<and> avail s' = avail s \<and> pending s' = pending s
         \<and> invar s' \<and> unit_size s' = unit_size s"
    and free_whole:
      "\<lbrakk>invar s; whole s xs; set xs \<inter> set_mset (avail s + pending s) = {}\<rbrakk> \<Longrightarrow>
       \<exists>s'. pool_free s xs = Inr s' \<and> avail s' + pending s' = avail s + pending s + mset xs
         \<and> (pending s = {#} \<and> pending s' = {#} \<or> avail s' = avail s) \<and> invar s'
         \<and> unit_size s' = unit_size s"
    and whole_frame:
      "\<lbrakk>invar s; pool_alloc s n = Inr (r, s'); whole s xs\<rbrakk> \<Longrightarrow> whole s' xs"
    and avail_distinct: "\<lbrakk>invar s; x \<in># avail s\<rbrakk> \<Longrightarrow> count (avail s + pending s) x = 1"
    and avail_positive: "\<lbrakk>invar s; x \<in># avail s + pending s\<rbrakk> \<Longrightarrow> 0 < x"
begin

lemma alloc_SomeE:
  assumes "pool_alloc s n = Inr (Some xs, s')" "invar s" "unit_size s dvd n"
  shows "length xs = n \<and> avail s = mset xs + avail s' \<and> pending s' = pending s \<and> invar s'
    \<and> whole s' xs \<and> unit_size s' = unit_size s"
proof -
  have "n \<le> size (avail s)"
    using alloc_None [of s n] assms by (cases "n \<le> size (avail s)") auto
  then show ?thesis using alloc_Some [of s n] assms by auto
qed

lemma alloc_distinct:
  assumes "pool_alloc s n = Inr (Some xs, s')" "invar s" "unit_size s dvd n"
  shows "distinct xs" and "set xs \<inter> set_mset (avail s' + pending s') = {}" and "\<forall>x \<in> set xs. 0 < x"
proof -
  from alloc_SomeE [OF assms] have eq: "avail s = mset xs + avail s'" and pend: "pending s' = pending s"
    by auto
  have cnt: "count (mset xs) x + count (avail s') x + count (pending s') x = 1" if "x \<in> set xs" for x
    using avail_distinct [OF \<open>invar s\<close>, of x] eq pend that by simp
  have pos: "0 < count (mset xs) x" if "x \<in> set xs" for x
    using that by (simp add: count_mset_0_iff zero_less_iff_neq_zero)
  show "distinct xs"
    unfolding distinct_count_atmost_1
  proof (intro allI)
    fix x
    show "count (mset xs) x = (if x \<in> set xs then 1 else 0)"
    proof (cases "x \<in> set xs")
      case True
      then have "count (mset xs) x = 1" using cnt [OF True] pos [OF True] by linarith
      with True show ?thesis by simp
    qed (simp add: count_mset_0_iff)
  qed
  have "x \<notin># avail s' + pending s'" if "x \<in> set xs" for x
  proof -
    have "count (avail s') x + count (pending s') x = 0" using cnt [OF that] pos [OF that] by linarith
    then have "count (avail s' + pending s') x = 0" by simp
    then show ?thesis by (simp only: not_in_iff)
  qed
  then show "set xs \<inter> set_mset (avail s' + pending s') = {}" by blast
  show "\<forall>x \<in> set xs. 0 < x"
    using avail_positive [OF \<open>invar s\<close>] eq by simp
qed

text \<open>Two allocations never hand out the same slot.\<close>

lemma alloc_twice_disjoint:
  assumes "pool_alloc s n = Inr (Some xs, s1)" "pool_alloc s1 m = Inr (Some ys, s2)"
    and "invar s" "unit_size s dvd n" "unit_size s dvd m"
  shows "set xs \<inter> set ys = {}"
proof -
  from alloc_SomeE [OF assms(1,3,4)] have s1: "invar s1" "unit_size s1 = unit_size s" by auto
  then have "avail s1 = mset ys + avail s2" using alloc_SomeE [OF assms(2)] assms(5) by auto
  then have "set ys \<subseteq> set_mset (avail s1 + pending s1)" by auto
  with alloc_distinct(2) [OF assms(1,3,4)] show ?thesis by blast
qed

text \<open>Allocating and handing the same slots back restores the pool.\<close>

lemma alloc_free_restores:
  assumes a: "pool_alloc s n = Inr (Some xs, s1)" and i: "invar s" "unit_size s dvd n"
  shows "\<exists>s2. pool_free s1 xs = Inr s2 \<and> avail s2 + pending s2 = avail s + pending s \<and> invar s2"
proof -
  note E = alloc_SomeE [OF a i]
  have "\<exists>s2. pool_free s1 xs = Inr s2 \<and> avail s2 + pending s2 = avail s1 + pending s1 + mset xs
      \<and> invar s2"
    using free_whole [of s1 xs] E alloc_distinct(2) [OF a i] by blast
  with E show ?thesis by (auto simp: ac_simps)
qed

end

section \<open>Both allocators are slot pools\<close>

definition avail_slots :: "allocator \<Rightarrow> slot multiset" where
  "avail_slots a = mset (pages_slots (page_size a) (free_pages a @ release_pages a))"

definition pending_slots :: "allocator \<Rightarrow> slot multiset" where
  "pending_slots a = (if is_not_in_free_group a then {#} else mset (concat (free_group a)))"

definition pages_of :: "allocator \<Rightarrow> slot list \<Rightarrow> int list" where
  "pages_of a xs = torch_unique (map (\<lambda>x. x div int (page_size a)) xs)"

definition whole_units :: "allocator \<Rightarrow> slot list \<Rightarrow> bool" where
  "whole_units a xs \<longleftrightarrow>
     mset xs = mset (pages_slots (page_size a) (pages_of a xs)) \<and>
     (\<forall>p \<in> set (pages_of a xs). 1 \<le> p \<and> p \<le> int (num_pages a))"

definition held_pages :: "allocator \<Rightarrow> int list" where
  "held_pages a = free_pages a @ release_pages a @
     (if is_not_in_free_group a then [] else pages_of a (concat (free_group a)))"

definition allocator_ok :: "allocator \<Rightarrow> bool" where
  "allocator_ok a \<longleftrightarrow>
     0 < page_size a \<and> (\<not> is_paged a \<longrightarrow> page_size a = 1) \<and>
     (\<not> need_sort a \<longrightarrow> release_pages a = []) \<and>
     distinct (held_pages a) \<and> (\<forall>p \<in> set (held_pages a). 1 \<le> p \<and> p \<le> int (num_pages a)) \<and>
     (\<not> is_not_in_free_group a \<longrightarrow> whole_units a (concat (free_group a)))"

subsection \<open>Pages and slots\<close>

lemma set_torch_unique [simp]: "set (torch_unique xs) = set xs"
  by (simp add: torch_unique_def)

lemma distinct_torch_unique [simp]: "distinct (torch_unique xs)"
  by (simp add: torch_unique_def)

lemma mset_torch_unique: "distinct xs \<Longrightarrow> mset (torch_unique xs) = mset xs"
  by (simp add: torch_unique_def distinct_remdups_id)

lemma length_page_slots [simp]: "length (page_slots n p) = n"
  by (simp add: page_slots_def)

lemma length_pages_slots [simp]: "length (pages_slots n ps) = length ps * n"
  by (induction ps) (simp_all add: pages_slots_def)

lemma pages_slots_append [simp]: "pages_slots n (ps @ qs) = pages_slots n ps @ pages_slots n qs"
  by (simp add: pages_slots_def)

lemma pages_slots_Nil [simp]: "pages_slots n [] = []"
  by (simp add: pages_slots_def)

lemma pages_slots_1 [simp]: "pages_slots (Suc 0) ps = ps"
  by (induction ps) (simp_all add: pages_slots_def page_slots_def)

lemma in_page_slots: "0 < n \<Longrightarrow> x \<in> set (page_slots n p) \<longleftrightarrow> x div int n = p"
proof
  assume n: "0 < n" and "x \<in> set (page_slots n p)"
  then obtain j where "j < n" "x = p * int n + int j" by (auto simp: page_slots_def)
  then show "x div int n = p" by simp
next
  assume n: "0 < n" and p: "x div int n = p"
  have "x = p * int n + int (nat (x mod int n))" using n p by (metis Euclidean_Rings.pos_mod_sign
        div_mult_mod_eq nat_0_le of_nat_0_less_iff)
  moreover have "nat (x mod int n) < n" using n by (simp add: nat_less_iff)
  ultimately show "x \<in> set (page_slots n p)"
    unfolding page_slots_def set_map set_upt by (intro image_eqI) auto
qed

lemma in_pages_slots: "0 < n \<Longrightarrow> x \<in> set (pages_slots n ps) \<longleftrightarrow> x div int n \<in> set ps"
  by (auto simp: pages_slots_def in_page_slots)

lemma distinct_pages_slots: "0 < n \<Longrightarrow> distinct ps \<Longrightarrow> distinct (pages_slots n ps)"
proof (induction ps)
  case (Cons p ps)
  have "distinct (page_slots n p)" by (auto simp: page_slots_def distinct_map inj_on_def)
  moreover have "set (page_slots n p) \<inter> set (pages_slots n ps) = {}"
    using Cons.prems by (auto simp: in_page_slots in_pages_slots)
  ultimately show ?case using Cons by (simp add: pages_slots_def)
qed simp

lemma pages_of_pages_slots:
  "distinct ps \<Longrightarrow> 0 < page_size a \<Longrightarrow> mset (pages_of a (pages_slots (page_size a) ps)) = mset ps"
proof -
  assume d: "distinct ps" and n: "0 < page_size a"
  have "set (map (\<lambda>x. x div int (page_size a)) (pages_slots (page_size a) ps)) = set ps"
  proof -
    have "p \<in> (\<lambda>x. x div int (page_size a)) ` set (pages_slots (page_size a) ps)" if "p \<in> set ps" for p
      using that n by (intro image_eqI [where x = "p * int (page_size a)"]) (auto simp: in_pages_slots)
    then show ?thesis using n by (auto simp: in_pages_slots)
  qed
  then have "set (pages_of a (pages_slots (page_size a) ps)) = set ps"
    by (simp add: pages_of_def)
  moreover have "distinct (pages_of a (pages_slots (page_size a) ps))"
    by (simp add: pages_of_def)
  ultimately show ?thesis using d set_eq_iff_mset_eq_distinct by blast
qed

lemma mset_pages_slots_cong:
  assumes "mset ps = mset qs"
  shows "mset (pages_slots n ps) = mset (pages_slots n qs)"
proof -
  have "mset (pages_slots n rs) = sum_mset (image_mset (\<lambda>p. mset (page_slots n p)) (mset rs))" for rs
    by (induction rs) (simp_all add: pages_slots_def)
  with assms show ?thesis by simp
qed

lemma whole_units_pages_slots:
  assumes "distinct ps" "0 < page_size a" "\<forall>p \<in> set ps. 1 \<le> p \<and> p \<le> int (num_pages a)"
  shows "whole_units a (pages_slots (page_size a) ps)"
proof -
  have m: "mset (pages_of a (pages_slots (page_size a) ps)) = mset ps"
    by (rule pages_of_pages_slots [OF assms(1,2)])
  then have "set (pages_of a (pages_slots (page_size a) ps)) = set ps" by (rule mset_eq_setD)
  with assms(3) mset_pages_slots_cong [OF m] show ?thesis by (simp add: whole_units_def)
qed

subsection \<open>Allocation\<close>

text \<open>Both classes sort the released pages in when the free list is too short.\<close>

definition presort :: "allocator \<Rightarrow> nat \<Rightarrow> allocator" where
  "presort a n =
     (if need_sort a \<and> length (free_pages a) < n then merge_and_sort_free a else a)"

lemma presort_fields [simp]:
  "page_size (presort a n) = page_size a" "is_paged (presort a n) = is_paged a"
  "need_sort (presort a n) = need_sort a" "pool_size (presort a n) = pool_size a"
  "is_not_in_free_group (presort a n) = is_not_in_free_group a"
  "free_group (presort a n) = free_group a" "num_pages (presort a n) = num_pages a"
  "debug_mode (presort a n) = debug_mode a"
  by (simp_all add: presort_def merge_and_sort_free_def num_pages_def)

lemma pages_of_cong: "page_size b = page_size a \<Longrightarrow> pages_of b = pages_of a"
  by (simp add: pages_of_def fun_eq_iff)

lemma whole_units_cong:
  "page_size b = page_size a \<Longrightarrow> pool_size b = pool_size a \<Longrightarrow> whole_units b = whole_units a"
  by (simp add: whole_units_def fun_eq_iff num_pages_def pages_of_cong [of b a])

lemma presort_mset:
  "mset (free_pages (presort a n) @ release_pages (presort a n)) =
   mset (free_pages a @ release_pages a)"
  by (auto simp: presort_def merge_and_sort_free_def)

lemma presort_held: "mset (held_pages (presort a n)) = mset (held_pages a)"
  using presort_mset [of a n] by (auto simp: held_pages_def pages_of_cong [of "presort a n" a])

lemma allocator_ok_cong:
  assumes "allocator_ok a" "mset (held_pages b) = mset (held_pages a)"
    and "page_size b = page_size a" "pool_size b = pool_size a" "is_paged b = is_paged a"
    and "\<not> need_sort b \<longrightarrow> release_pages b = []"
    and "is_not_in_free_group b = is_not_in_free_group a" "free_group b = free_group a"
  shows "allocator_ok b"
proof -
  have "distinct (held_pages b) = distinct (held_pages a)" "set (held_pages b) = set (held_pages a)"
    using assms(2) by (auto dest: mset_eq_imp_distinct_iff mset_eq_setD)
  moreover have "num_pages b = num_pages a" using assms by (simp add: num_pages_def)
  moreover have "whole_units b = whole_units a" using assms by (intro whole_units_cong) auto
  ultimately show ?thesis using assms by (simp add: allocator_ok_def)
qed

lemma presort_ok: "allocator_ok a \<Longrightarrow> allocator_ok (presort a n)"
  by (rule allocator_ok_cong [OF _ presort_held [of a n]])
    (simp_all, simp add: presort_def allocator_ok_def)

lemma presort_avail: "avail_slots (presort a n) = avail_slots a"
  unfolding avail_slots_def presort_fields by (rule mset_pages_slots_cong) (rule presort_mset)

lemma presort_pending: "pending_slots (presort a n) = pending_slots a"
  by (simp add: pending_slots_def)

lemma presort_enough:
  "allocator_ok a \<Longrightarrow> n \<le> length (free_pages a) + length (release_pages a) \<Longrightarrow>
   n \<le> length (free_pages (presort a n))"
  by (auto simp: presort_def merge_and_sort_free_def allocator_ok_def)

lemma presort_short:
  "length (free_pages a) + length (release_pages a) < n \<Longrightarrow> length (free_pages (presort a n)) < n"
  by (auto simp: presort_def merge_and_sort_free_def)

lemma size_avail: "size (avail_slots a) = available_size a"
  by (simp add: avail_slots_def available_size_def add_mult_distrib)

text \<open>Cutting pages off the free list.\<close>

lemma take_pages:
  assumes "allocator_ok a" "n \<le> length (free_pages a)"
  defines "a' \<equiv> a\<lparr>free_pages := drop n (free_pages a)\<rparr>"
  shows "allocator_ok a'" "whole_units a' (pages_slots (page_size a) (take n (free_pages a)))"
    "avail_slots a = mset (pages_slots (page_size a) (take n (free_pages a))) + avail_slots a'"
    "pending_slots a' = pending_slots a"
proof -
  have h: "held_pages a = take n (free_pages a) @ held_pages a'"
    unfolding held_pages_def a'_def by (simp add: pages_of_def)
  have w: "whole_units a' = whole_units a" by (rule whole_units_cong) (simp_all add: a'_def)
  have np: "num_pages a' = num_pages a" by (simp add: a'_def num_pages_def)
  show "allocator_ok a'"
    using assms(1) h unfolding allocator_ok_def w np by (simp add: a'_def)
  have "distinct (take n (free_pages a))" "\<forall>p \<in> set (take n (free_pages a)). 1 \<le> p \<and> p \<le> int (num_pages a)"
    using assms(1) h by (auto simp: allocator_ok_def)
  then have "whole_units a (pages_slots (page_size a) (take n (free_pages a)))"
    using assms(1) by (intro whole_units_pages_slots) (auto simp: allocator_ok_def)
  then show "whole_units a' (pages_slots (page_size a) (take n (free_pages a)))"
    by (simp add: w)
  have "pages_slots (page_size a) (free_pages a) =
      pages_slots (page_size a) (take n (free_pages a)) @ pages_slots (page_size a) (drop n (free_pages a))"
    by (metis append_take_drop_id pages_slots_append)
  then show "avail_slots a = mset (pages_slots (page_size a) (take n (free_pages a))) + avail_slots a'"
    by (simp add: avail_slots_def a'_def)
  show "pending_slots a' = pending_slots a" by (simp add: pending_slots_def a'_def)
qed

lemma paged_alloc_alt:
  "paged_alloc a n =
     (if debug_mode a \<and> n mod page_size a \<noteq> 0 then Inl AssertionError
      else let k = n div page_size a; b = presort a k in
        if length (free_pages b) < k then Inr (None, b)
        else Inr (Some (pages_slots (page_size a) (take k (free_pages b))),
                  b\<lparr>free_pages := drop k (free_pages b)\<rparr>))"
  by (simp add: paged_alloc_def presort_def Let_def)

lemma token_alloc_is_paged_alloc:
  "page_size a = 1 \<Longrightarrow> token_alloc a n = paged_alloc a n"
  by (simp add: paged_alloc_alt token_alloc_def presort_def Let_def)

lemma paged_alloc_Some:
  assumes ok: "allocator_ok a" and d: "page_size a dvd n" and n: "n \<le> size (avail_slots a)"
  shows "\<exists>xs a'. paged_alloc a n = Inr (Some xs, a') \<and> length xs = n
     \<and> avail_slots a = mset xs + avail_slots a' \<and> pending_slots a' = pending_slots a
     \<and> allocator_ok a' \<and> whole_units a' xs \<and> page_size a' = page_size a"
proof -
  obtain k where k: "n = k * page_size a" using d by (metis dvdE mult.commute)
  have p: "0 < page_size a" using ok by (simp add: allocator_ok_def)
  let ?b = "presort a k"
  have "k \<le> length (free_pages a) + length (release_pages a)"
    using n p by (simp add: k size_avail available_size_def)
  then have len: "k \<le> length (free_pages ?b)" by (rule presort_enough [OF ok])
  have eq: "paged_alloc a n = Inr (Some (pages_slots (page_size a) (take k (free_pages ?b))),
      ?b\<lparr>free_pages := drop k (free_pages ?b)\<rparr>)"
    using len p by (simp add: paged_alloc_alt k Let_def)
  note tp = take_pages [OF presort_ok [OF ok] len]
  show ?thesis
    unfolding eq using tp len p k
    by (auto simp: presort_avail presort_pending min_def)
qed

lemma paged_alloc_None:
  assumes ok: "allocator_ok a" and d: "page_size a dvd n" and n: "size (avail_slots a) < n"
  shows "\<exists>a'. paged_alloc a n = Inr (None, a') \<and> avail_slots a' = avail_slots a
     \<and> pending_slots a' = pending_slots a \<and> allocator_ok a' \<and> page_size a' = page_size a"
proof -
  obtain k where k: "n = k * page_size a" using d by (metis dvdE mult.commute)
  have p: "0 < page_size a" using ok by (simp add: allocator_ok_def)
  have "length (free_pages a) + length (release_pages a) < k"
    using n p by (simp add: k size_avail available_size_def)
  then have "length (free_pages (presort a k)) < k" by (rule presort_short)
  then have "paged_alloc a n = Inr (None, presort a k)"
    using p by (simp add: paged_alloc_alt k Let_def)
  then show ?thesis by (simp add: presort_avail presort_pending presort_ok [OF ok])
qed

lemma paged_alloc_frame:
  "paged_alloc a n = Inr (r, a') \<Longrightarrow> page_size a' = page_size a \<and> pool_size a' = pool_size a
     \<and> is_paged a' = is_paged a \<and> need_sort a' = need_sort a
     \<and> is_not_in_free_group a' = is_not_in_free_group a \<and> free_group a' = free_group a"
  by (auto simp: paged_alloc_alt Let_def split: if_splits)

subsection \<open>Freeing\<close>

lemma whole_units_slot:
  "whole_units a xs \<Longrightarrow> 0 < page_size a \<Longrightarrow> x div int (page_size a) \<in> set (pages_of a xs) \<longleftrightarrow> x \<in> set xs"
  by (metis in_pages_slots mset_eq_setD whole_units_def)

lemma pages_of_slot:
  "0 < page_size a \<Longrightarrow> p \<in> set (pages_of a xs) \<Longrightarrow> whole_units a xs \<Longrightarrow> p * int (page_size a) \<in> set xs"
  using whole_units_slot [of a xs "p * int (page_size a)"] by simp

text \<open>Whole units that are lent have no page in common with the pages the allocator holds.\<close>

lemma lent_pages_disjoint:
  assumes ok: "allocator_ok a" and w: "whole_units a xs"
    and d: "set xs \<inter> set_mset (avail_slots a + pending_slots a) = {}"
  shows "set (pages_of a xs) \<inter> set (held_pages a) = {}"
proof (rule ccontr)
  assume "\<not> ?thesis"
  then obtain p where p: "p \<in> set (pages_of a xs)" "p \<in> set (held_pages a)" by blast
  have ps: "0 < page_size a" using ok by (simp add: allocator_ok_def)
  let ?x = "p * int (page_size a)"
  have x: "?x \<in> set xs" using pages_of_slot [OF ps p(1) w] .
  show False
  proof (cases "p \<in> set (free_pages a @ release_pages a)")
    case True
    then have "?x \<in> set (pages_slots (page_size a) (free_pages a @ release_pages a))"
      using ps by (subst in_pages_slots) auto
    then have "?x \<in># avail_slots a" by (simp only: avail_slots_def set_mset_mset)
    with x d show False by auto
  next
    case False
    with p(2) have g: "\<not> is_not_in_free_group a" "p \<in> set (pages_of a (concat (free_group a)))"
      by (auto simp: held_pages_def split: if_splits)
    then have "?x \<in> set (concat (free_group a))"
      using ok ps by (intro pages_of_slot) (auto simp: allocator_ok_def)
    with g have "?x \<in># pending_slots a" by (simp only: pending_slots_def if_False set_mset_mset)
    with x d show False by auto
  qed
qed

text \<open>Returning the pages to the free or the release list.\<close>

lemma return_pages:
  assumes ok: "allocator_ok a" and w: "whole_units a xs"
    and d: "set xs \<inter> set_mset (avail_slots a + pending_slots a) = {}"
    and closed: "is_not_in_free_group a"
    and b: "mset (free_pages b @ release_pages b) = mset (free_pages a @ release_pages a) + mset (pages_of a xs)"
    and frame: "page_size b = page_size a" "pool_size b = pool_size a" "is_paged b = is_paged a"
      "is_not_in_free_group b" "\<not> need_sort b \<longrightarrow> release_pages b = []"
  shows "allocator_ok b" "avail_slots b = avail_slots a + mset xs" "pending_slots b = {#}"
    "distinct (free_pages b)"
proof -
  have held: "mset (held_pages b) = mset (held_pages a) + mset (pages_of a xs)"
    using b closed frame(4) by (simp add: held_pages_def)
  have np: "num_pages b = num_pages a" using frame by (simp add: num_pages_def)
  have "distinct (held_pages a @ pages_of a xs)"
    using ok lent_pages_disjoint [OF ok w d] by (auto simp: allocator_ok_def pages_of_def)
  moreover have h: "mset (held_pages b) = mset (held_pages a @ pages_of a xs)"
    using held by simp
  ultimately have dist: "distinct (held_pages b)" using mset_eq_imp_distinct_iff by blast
  have "set (held_pages b) = set (held_pages a) \<union> set (pages_of a xs)"
    using mset_eq_setD [OF h] by simp
  then show "allocator_ok b"
    using ok w dist frame by (auto simp: allocator_ok_def np whole_units_def)
  show "distinct (free_pages b)" using dist by (simp add: held_pages_def)
  have "mset (pages_slots (page_size a) (free_pages b @ release_pages b)) =
      mset (pages_slots (page_size a) ((free_pages a @ release_pages a) @ pages_of a xs))"
    by (rule mset_pages_slots_cong) (use b in simp)
  then show "avail_slots b = avail_slots a + mset xs"
    using w by (simp add: avail_slots_def frame(1) whole_units_def)
  show "pending_slots b = {#}" by (simp add: pending_slots_def frame(4))
qed

lemma pages_of_append_disjoint:
  assumes "set (pages_of a xs) \<inter> set (pages_of a ys) = {}"
  shows "mset (pages_of a (xs @ ys)) = mset (pages_of a xs @ pages_of a ys)"
proof -
  have "distinct (pages_of a xs @ pages_of a ys)" using assms by (simp add: pages_of_def)
  moreover have "distinct (pages_of a (xs @ ys))" by (simp add: pages_of_def)
  moreover have "set (pages_of a (xs @ ys)) = set (pages_of a xs @ pages_of a ys)"
    by (auto simp: pages_of_def)
  ultimately show ?thesis by (simp only: set_eq_iff_mset_eq_distinct)
qed

text \<open>Deferring the pages inside a free group.\<close>

lemma defer_pages:
  assumes ok: "allocator_ok a" and w: "whole_units a xs"
    and d: "set xs \<inter> set_mset (avail_slots a + pending_slots a) = {}"
    and opened: "\<not> is_not_in_free_group a"
  defines "b \<equiv> a\<lparr>free_group := free_group a @ [xs]\<rparr>"
  shows "allocator_ok b" "avail_slots b = avail_slots a" "pending_slots b = pending_slots a + mset xs"
proof -
  let ?g = "concat (free_group a)"
  have wu: "whole_units b = whole_units a" by (rule whole_units_cong) (simp_all add: b_def)
  have np: "num_pages b = num_pages a" by (simp add: b_def num_pages_def)
  have disj: "set (pages_of a xs) \<inter> set (held_pages a) = {}" by (rule lent_pages_disjoint [OF ok w d])
  then have g: "mset (pages_of a (?g @ xs)) = mset (pages_of a ?g @ pages_of a xs)"
    using opened by (intro pages_of_append_disjoint) (auto simp: held_pages_def)
  have h: "mset (held_pages b) = mset (held_pages a @ pages_of a xs)"
    using opened g by (simp add: held_pages_def b_def pages_of_cong [of "a\<lparr>free_group := free_group a @ [xs]\<rparr>" a])
  have "distinct (held_pages a @ pages_of a xs)"
    using ok disj by (auto simp: allocator_ok_def pages_of_def)
  then have dist: "distinct (held_pages b)" using h mset_eq_imp_distinct_iff by blast
  have st: "set (held_pages b) = set (held_pages a) \<union> set (pages_of a xs)"
    using mset_eq_setD [OF h] by simp
  have wg: "whole_units a ?g" using ok opened by (simp add: allocator_ok_def)
  have "mset (pages_slots (page_size a) (pages_of a (?g @ xs))) = mset (?g @ xs)"
    using mset_pages_slots_cong [OF g, of "page_size a"] wg w by (simp add: whole_units_def)
  then have "whole_units a (?g @ xs)"
    using wg w mset_eq_setD [OF g] by (auto simp: whole_units_def)
  then show "allocator_ok b"
    using ok dist st w unfolding allocator_ok_def wu np by (auto simp: b_def whole_units_def)
  show "avail_slots b = avail_slots a" by (simp add: b_def avail_slots_def)
  show "pending_slots b = pending_slots a + mset xs" using opened by (simp add: b_def pending_slots_def)
qed

text \<open>A free either hands the pages back at once or defers them to the end of the group.\<close>

lemma free_law:
  assumes ok: "allocator_ok a" and w: "whole_units a xs"
    and d: "set xs \<inter> set_mset (avail_slots a + pending_slots a) = {}"
    and closed: "is_not_in_free_group a \<Longrightarrow>
        \<exists>b. r = Inr b \<and> page_size b = page_size a \<and> pool_size b = pool_size a \<and> is_paged b = is_paged a
          \<and> is_not_in_free_group b \<and> (\<not> need_sort b \<longrightarrow> release_pages b = [])
          \<and> mset (free_pages b @ release_pages b) = mset (free_pages a @ release_pages a) + mset (pages_of a xs)"
    and opened: "\<not> is_not_in_free_group a \<Longrightarrow> r = Inr (a\<lparr>free_group := free_group a @ [xs]\<rparr>)"
  shows "\<exists>b. r = Inr b \<and> avail_slots b + pending_slots b = avail_slots a + pending_slots a + mset xs
     \<and> (pending_slots a = {#} \<and> pending_slots b = {#} \<or> avail_slots b = avail_slots a)
     \<and> allocator_ok b \<and> page_size b = page_size a"
proof (cases "is_not_in_free_group a")
  case True
  from closed [OF this] obtain b where r: "r = Inr b" and f: "page_size b = page_size a"
    "pool_size b = pool_size a" "is_paged b = is_paged a" "is_not_in_free_group b"
    "\<not> need_sort b \<longrightarrow> release_pages b = []"
    and m: "mset (free_pages b @ release_pages b) = mset (free_pages a @ release_pages a) + mset (pages_of a xs)"
    by (elim exE conjE) (rule that)
  note R = return_pages [OF ok w d True m f]
  show ?thesis using R(1-3) f(1) True unfolding r by (simp add: pending_slots_def)
next
  case False
  show ?thesis
    unfolding opened [OF False] using defer_pages [OF ok w d False] by simp
qed

lemma whole_units_Nil [simp]: "whole_units a []"
  by (simp add: whole_units_def pages_of_def torch_unique_def)

lemma paged_free_law:
  assumes ok: "allocator_ok a" and w: "whole_units a xs"
    and d: "set xs \<inter> set_mset (avail_slots a + pending_slots a) = {}"
  shows "\<exists>b. paged_free a xs = Inr b
     \<and> avail_slots b + pending_slots b = avail_slots a + pending_slots a + mset xs
     \<and> (pending_slots a = {#} \<and> pending_slots b = {#} \<or> avail_slots b = avail_slots a)
     \<and> allocator_ok b \<and> page_size b = page_size a"
proof (cases "xs = []")
  case False
  have dist: "distinct (pages_of a xs @ free_pages a)" "distinct (free_pages a)"
    using ok lent_pages_disjoint [OF ok w d] by (auto simp: allocator_ok_def pages_of_def held_pages_def)
  have eq: "length (torch_unique ys) = length ys" if "distinct ys" for ys
    using that by (simp add: torch_unique_def distinct_remdups_id)
  have rel: "\<not> need_sort a \<longrightarrow> release_pages a = []" using ok by (simp add: allocator_ok_def)
  let ?b = "if need_sort a then a\<lparr>release_pages := pages_of a xs @ release_pages a\<rparr>
            else a\<lparr>free_pages := pages_of a xs @ free_pages a\<rparr>"
  have closed: "paged_free a xs = Inr ?b" if "is_not_in_free_group a"
    using that False dist by (simp add: paged_free_def Let_def pages_of_def [symmetric] eq)
  have opened: "paged_free a xs = Inr (a\<lparr>free_group := free_group a @ [xs]\<rparr>)" if "\<not> is_not_in_free_group a"
    using that False dist by (simp add: paged_free_def Let_def eq)
  show ?thesis
  proof (rule free_law [OF ok w d _ opened])
    assume "is_not_in_free_group a"
    with rel show "\<exists>b. paged_free a xs = Inr b \<and> page_size b = page_size a \<and> pool_size b = pool_size a
        \<and> is_paged b = is_paged a \<and> is_not_in_free_group b \<and> (\<not> need_sort b \<longrightarrow> release_pages b = [])
        \<and> mset (free_pages b @ release_pages b) = mset (free_pages a @ release_pages a) + mset (pages_of a xs)"
      by (intro exI [of _ ?b] conjI closed) simp_all
  qed
qed (simp add: paged_free_def ok)

lemma token_free_law:
  assumes ok: "allocator_ok a" and w: "whole_units a xs"
    and d: "set xs \<inter> set_mset (avail_slots a + pending_slots a) = {}"
    and p1: "page_size a = 1"
  shows "\<exists>b. token_free a xs = Inr b
     \<and> avail_slots b + pending_slots b = avail_slots a + pending_slots a + mset xs
     \<and> (pending_slots a = {#} \<and> pending_slots b = {#} \<or> avail_slots b = avail_slots a)
     \<and> allocator_ok b \<and> page_size b = page_size a"
proof (cases "xs = []")
  case False
  have "mset xs = mset (pages_of a xs)" using w p1 by (simp add: whole_units_def)
  moreover have "\<not> need_sort a \<longrightarrow> release_pages a = []" using ok by (simp add: allocator_ok_def)
  ultimately show ?thesis
    by (intro free_law [OF ok w d]) (use False in \<open>simp_all add: token_free_def\<close>)
qed (simp add: token_free_def ok)

lemma allocator_distinct:
  assumes ok: "allocator_ok a" and x: "x \<in># avail_slots a"
  shows "count (avail_slots a + pending_slots a) x = 1"
proof -
  have ps: "0 < page_size a" using ok by (simp add: allocator_ok_def)
  have "avail_slots a + pending_slots a = mset (pages_slots (page_size a) (held_pages a))"
    using ok by (auto simp: avail_slots_def pending_slots_def held_pages_def allocator_ok_def whole_units_def)
  moreover have "distinct (pages_slots (page_size a) (held_pages a))"
    using ok ps by (intro distinct_pages_slots) (auto simp: allocator_ok_def)
  moreover have "x \<in># avail_slots a + pending_slots a" using x by simp
  ultimately show ?thesis by (simp only: distinct_count_atmost_1 set_mset_mset if_True)
qed

lemma allocator_positive:
  assumes ok: "allocator_ok a" and x: "x \<in># avail_slots a + pending_slots a"
  shows "0 < x"
proof -
  have ps: "0 < page_size a" using ok by (simp add: allocator_ok_def)
  have "avail_slots a + pending_slots a = mset (pages_slots (page_size a) (held_pages a))"
    using ok by (auto simp: avail_slots_def pending_slots_def held_pages_def allocator_ok_def whole_units_def)
  then have "x div int (page_size a) \<in> set (held_pages a)" using x ps by (simp add: in_pages_slots)
  then have "1 \<le> x div int (page_size a)" using ok by (auto simp: allocator_ok_def)
  then show ?thesis using ps by (smt (verit) div_nonpos_pos_le0 of_nat_0_less_iff)
qed

lemma paged_alloc_whole_frame:
  "paged_alloc a n = Inr (r, a') \<Longrightarrow> whole_units a xs \<Longrightarrow> whole_units a' xs"
  using paged_alloc_frame [of a n r a'] whole_units_cong [of a' a] by auto

interpretation paged: slot_pool paged_alloc paged_free avail_slots pending_slots whole_units page_size allocator_ok
proof (unfold_locales, goal_cases)
  case (1 s n)
  then show ?case by (rule paged_alloc_Some)
next
  case (2 s n)
  then show ?case by (rule paged_alloc_None)
next
  case (3 s xs)
  then show ?case by (rule paged_free_law)
next
  case (4 s n r s' xs)
  then show ?case by (intro paged_alloc_whole_frame [of s n r s' xs])
next
  case (5 s x)
  then show ?case by (rule allocator_distinct)
next
  case (6 s x)
  then show ?case by (rule allocator_positive)
qed

lemma token_alloc_laws:
  assumes "allocator_ok a" "page_size a = 1"
  shows "n \<le> size (avail_slots a) \<Longrightarrow>
       \<exists>xs b. token_alloc a n = Inr (Some xs, b) \<and> length xs = n \<and> avail_slots a = mset xs + avail_slots b
         \<and> pending_slots b = pending_slots a \<and> allocator_ok b \<and> whole_units b xs \<and> page_size b = page_size a"
    and "size (avail_slots a) < n \<Longrightarrow>
       \<exists>b. token_alloc a n = Inr (None, b) \<and> avail_slots b = avail_slots a \<and> pending_slots b = pending_slots a
         \<and> allocator_ok b \<and> page_size b = page_size a"
    and "token_alloc a n = Inr (r, b) \<Longrightarrow> whole_units a xs \<Longrightarrow> whole_units b xs"
  using paged_alloc_Some [of a n] paged_alloc_None [of a n] paged_alloc_whole_frame [of a n r b xs] assms
  unfolding token_alloc_is_paged_alloc [OF assms(2)] by simp_all

interpretation tok: slot_pool token_alloc token_free avail_slots pending_slots whole_units page_size
  "\<lambda>a. allocator_ok a \<and> page_size a = 1"
proof (unfold_locales, goal_cases)
  case (1 s n)
  then obtain xs b where "token_alloc s n = Inr (Some xs, b)" "length xs = n"
    "avail_slots s = mset xs + avail_slots b" "pending_slots b = pending_slots s" "allocator_ok b"
    "whole_units b xs" "page_size b = page_size s"
    using token_alloc_laws(1) [of s n] by auto
  with 1 show ?case by simp
next
  case (2 s n)
  then obtain b where "token_alloc s n = Inr (None, b)" "avail_slots b = avail_slots s"
    "pending_slots b = pending_slots s" "allocator_ok b" "page_size b = page_size s"
    using token_alloc_laws(2) [of s n] by auto
  with 2 show ?case by simp
next
  case (3 s xs)
  then obtain b where "token_free s xs = Inr b"
    "avail_slots b + pending_slots b = avail_slots s + pending_slots s + mset xs"
    "pending_slots s = {#} \<and> pending_slots b = {#} \<or> avail_slots b = avail_slots s"
    "allocator_ok b" "page_size b = page_size s"
    using token_free_law [of s xs] by blast
  with 3 show ?case by simp
next
  case (4 s n r s' xs)
  then show ?case using token_alloc_laws(3) [of s n r s' xs] by blast
next
  case (5 s x)
  then show ?case using allocator_distinct [of s x] by blast
next
  case (6 s x)
  then show ?case using allocator_positive [of s x] by blast
qed

lemma dispatch_eq:
  "allocator_ok a \<Longrightarrow> \<not> is_paged a \<Longrightarrow> page_size a = 1"
  by (simp add: allocator_ok_def)

text \<open>The allocator the scheduler holds is one of the two: the dispatched operations inherit the
  contract.\<close>

interpretation kv: slot_pool alloc free avail_slots pending_slots whole_units page_size allocator_ok
proof (unfold_locales, goal_cases)
  case (1 s n)
  then show ?case
    using token_alloc_laws(1) [of s n] paged_alloc_Some [of s n] dispatch_eq [of s] by (simp add: alloc_def)
next
  case (2 s n)
  then show ?case
    using token_alloc_laws(2) [of s n] paged_alloc_None [of s n] dispatch_eq [of s] by (simp add: alloc_def)
next
  case (3 s xs)
  then show ?case
    using token_free_law [of s xs] paged_free_law [of s xs] dispatch_eq [of s] by (simp add: free_def)
next
  case (4 s n r s' xs)
  then show ?case
    using token_alloc_laws(3) [of s n r s' xs] paged_alloc_whole_frame [of s n r s' xs] dispatch_eq [of s]
    by (cases "is_paged s") (simp_all add: alloc_def)
next
  case (5 s x)
  then show ?case by (rule allocator_distinct)
next
  case (6 s x)
  then show ?case by (rule allocator_positive)
qed

section \<open>The free group\<close>

lemma avail_slots_cong:
  "page_size b = page_size a \<Longrightarrow> free_pages b = free_pages a \<Longrightarrow> release_pages b = release_pages a \<Longrightarrow>
   avail_slots b = avail_slots a"
  by (simp add: avail_slots_def)

text \<open>Inside a group nothing is lent twice; the end of the group is a free of everything deferred.\<close>

lemma close_group_ok:
  assumes ok: "allocator_ok a" and opened: "\<not> is_not_in_free_group a"
  defines "b \<equiv> a\<lparr>is_not_in_free_group := True\<rparr>"
  shows "allocator_ok b" "avail_slots b = avail_slots a" "pending_slots b = {#}"
    "whole_units b (concat (free_group b))"
    "set (concat (free_group b)) \<inter> set_mset (avail_slots b) = {}"
proof -
  have w: "whole_units b = whole_units a" by (rule whole_units_cong) (simp_all add: b_def)
  have np: "num_pages b = num_pages a" by (simp add: b_def num_pages_def)
  show "allocator_ok b"
    using ok opened unfolding allocator_ok_def w np by (auto simp: b_def held_pages_def)
  show av: "avail_slots b = avail_slots a" by (rule avail_slots_cong) (simp_all add: b_def)
  show "pending_slots b = {#}" by (simp add: b_def pending_slots_def)
  show "whole_units b (concat (free_group b))"
    using ok opened unfolding w by (simp add: allocator_ok_def b_def)
  have "x \<notin># avail_slots a" if x: "x \<in> set (concat (free_group a))" for x
  proof
    assume "x \<in># avail_slots a"
    then have "count (avail_slots a) x + count (pending_slots a) x = 1" "0 < count (avail_slots a) x"
      using allocator_distinct [OF ok] by auto
    moreover have "0 < count (pending_slots a) x"
      using x opened unfolding count_greater_zero_iff by (simp only: pending_slots_def if_False set_mset_mset)
    ultimately show False by linarith
  qed
  then show "set (concat (free_group b)) \<inter> set_mset (avail_slots b) = {}"
    unfolding av by (auto simp: b_def)
qed

lemma free_closed:
  assumes "allocator_ok a" "is_not_in_free_group a" "whole_units a xs"
    and "set xs \<inter> set_mset (avail_slots a) = {}"
  shows "\<exists>b. free a xs = Inr b \<and> avail_slots b = avail_slots a + mset xs \<and> allocator_ok b
     \<and> pending_slots b = {#}"
proof -
  have p: "pending_slots a = {#}" using assms(2) by (simp add: pending_slots_def)
  have d: "set xs \<inter> set_mset (avail_slots a + pending_slots a) = {}" using p assms(4) by simp
  obtain b where b: "free a xs = Inr b"
    "avail_slots b + pending_slots b = avail_slots a + pending_slots a + mset xs"
    "pending_slots a = {#} \<and> pending_slots b = {#} \<or> avail_slots b = avail_slots a" "allocator_ok b"
    using kv.free_whole [OF assms(1,3) d] by blast
  have "is_not_in_free_group b" if "free a xs = Inr b" for b
    using that assms(2) by (auto simp: free_def paged_free_def token_free_def Let_def split: if_splits)
  then have "pending_slots b = {#}" using b(1) by (simp add: pending_slots_def)
  with b p show ?thesis by simp
qed

lemma token_init_ok: "allocator_ok (token_init sz srt)"
  by (auto simp: allocator_ok_def token_init_def token_clear_def init_base_def held_pages_def num_pages_def
      distinct_map inj_on_def)

lemma paged_init_ok: "0 < psz \<Longrightarrow> allocator_ok (paged_init sz psz srt dbg)"
  by (auto simp: allocator_ok_def paged_init_def paged_clear_def init_base_def held_pages_def num_pages_def
      distinct_map inj_on_def)

lemma free_frame:
  "free a xs = Inr b \<Longrightarrow> page_size b = page_size a \<and> pool_size b = pool_size a
     \<and> is_not_in_free_group b = is_not_in_free_group a"
  by (auto simp: free_def paged_free_def token_free_def Let_def split: if_splits)

lemma free_whole_frame: "free a xs = Inr b \<Longrightarrow> whole_units a ys \<Longrightarrow> whole_units b ys"
  using free_frame [of a xs b] whole_units_cong [of b a] by auto

text \<open>C17. Two allocations from a well-formed allocator, of either class, hand out disjoint lists of
  distinct slots, none of which is slot 0 (the padding slot the pool reserves).\<close>

theorem alloc_lends_once:
  assumes "allocator_ok a" "page_size a dvd n" "page_size a dvd m"
    and "alloc a n = Inr (Some xs, a1)" "alloc a1 m = Inr (Some ys, a2)"
  shows "distinct (xs @ ys) \<and> length xs = n \<and> length ys = m \<and> (\<forall>x \<in> set (xs @ ys). 0 < x)
    \<and> allocator_ok a2"
proof -
  note e1 = kv.alloc_SomeE [OF assms(4,1,2)]
  then have m: "page_size a1 dvd m" using assms(3) by simp
  note e2 = kv.alloc_SomeE [OF assms(5) _ m]
  show ?thesis
    using e1 e2 kv.alloc_distinct [OF assms(4,1,2)] kv.alloc_distinct [OF assms(5) _ m]
      kv.alloc_twice_disjoint [OF assms(4,5,1,2,3)] by auto
qed

theorem alloc_lends_once_witness:
  "let a = paged_init 8 2 False True;
       a1 = a\<lparr>free_pages := [2, 3, 4]\<rparr>; a2 = a\<lparr>free_pages := [4]\<rparr>
   in allocator_ok a \<and> page_size a dvd 2 \<and> page_size a dvd 4
      \<and> alloc a 2 = Inr (Some [2, 3], a1) \<and> alloc a1 4 = Inr (Some [4, 5, 6, 7], a2)
      \<and> distinct ([2, 3] @ [4, 5, 6, 7 :: slot]) \<and> allocator_ok a2"
proof -
  let ?a = "paged_init 8 2 False True"
  let ?a1 = "?a\<lparr>free_pages := [2, 3, 4]\<rparr>"
  let ?a2 = "?a\<lparr>free_pages := [4]\<rparr>"
  have ok: "allocator_ok ?a" by (rule paged_init_ok) simp
  have d: "page_size ?a dvd 2" "page_size ?a dvd 4" by code_simp+
  have x: "alloc ?a 2 = Inr (Some [2, 3], ?a1)" by code_simp
  have y: "alloc ?a1 4 = Inr (Some [4, 5, 6, 7], ?a2)" by code_simp
  show ?thesis using alloc_lends_once [OF ok d x y] ok d x y by (simp only: Let_def simp_thms)
qed

end
