(* ===== verification/Sampling_Params.thy ===== *)
theory Sampling_Params
  imports Prelude Complex_Main
begin

text \<open>
  The class \<open>SamplingParams\<close> of \<open>sampling/sampling_params.py\<close>: construction with its two special
  cases, the range checks of \<open>verify\<close>, the normalisation of stop strings, and the length bound
  computed from the parse tree of a stop regex.  Floats are the reals they denote; the double
  nearest to \<open>1e-6\<close> is written out.  Parse trees come from Python's \<open>sre_parse\<close>: \<open>sre\<close> lists the
  token kinds the source distinguishes, with \<open>OTHER\<close> for the rest.
\<close>

section \<open>State and construction\<close>

text \<open>A stop argument is absent, one string, or a list of strings.\<close>

datatype str_arg = NoStr | OneStr string | StrList "string list"

record sampling_params =
  max_new_tokens :: "int option"
  stop_strs :: str_arg
  stop_token_ids :: "int set option"
  stop_regex_strs :: str_arg
  temperature :: real
  top_p :: real
  top_k :: int
  min_p :: real
  frequency_penalty :: real
  presence_penalty :: real
  repetition_penalty :: real
  min_new_tokens :: int
  sp_n :: int
  json_schema :: "string option"
  sp_regex :: "string option"
  ebnf :: "string option"
  structural_tag :: "string option"
  ignore_eos :: bool
  skip_special_tokens :: bool
  spaces_between_special_tokens :: bool
  no_stop_trim :: bool
  stream_interval :: "int option"
  logit_bias :: "(int option \<times> real) list option"
  sampling_seed :: "int option"
  sp_is_deterministic :: bool
  stop_str_max_len :: nat
  stop_regex_max_len :: nat

text \<open>A key of \<open>logit_bias\<close> is the integer \<open>int(token_id)\<close> reads, or \<open>None\<close> where it raises
  \<open>ValueError\<close>.  \<open>custom_params\<close> is an opaque dictionary and left out.  The two maximal lengths
  exist once \<open>normalize\<close> has run.\<close>

definition default_sampling_params :: sampling_params where
  "default_sampling_params =
     \<lparr>max_new_tokens = Some 128, stop_strs = NoStr, stop_token_ids = None, stop_regex_strs = NoStr,
      temperature = 1, top_p = 1, top_k = -1, min_p = 0, frequency_penalty = 0,
      presence_penalty = 0, repetition_penalty = 1, min_new_tokens = 0, sp_n = 1,
      json_schema = None, sp_regex = None, ebnf = None, structural_tag = None, ignore_eos = False,
      skip_special_tokens = True, spaces_between_special_tokens = True, no_stop_trim = False,
      stream_interval = None, logit_bias = None, sampling_seed = None, sp_is_deterministic = False,
      stop_str_max_len = 0, stop_regex_max_len = 0\<rparr>"

definition SAMPLING_EPS :: real where
  "SAMPLING_EPS = 4722366482869645 / 2 ^ 72"

definition TOP_K_ALL :: int where
  "TOP_K_ALL = 2 ^ 30"

text \<open>The special cases at the end of the constructor: a vanishing temperature selects greedy
  sampling, and \<open>top_k = -1\<close> the whole vocabulary.\<close>

definition init_special_cases :: "sampling_params \<Rightarrow> sampling_params" where
  "init_special_cases p =
     (let p1 = (if 0 \<le> temperature p \<and> temperature p < SAMPLING_EPS
                then p\<lparr>temperature := 1, top_k := 1\<rparr> else p)
      in if top_k p1 = -1 then p1\<lparr>top_k := TOP_K_ALL\<rparr> else p1)"

text \<open>The constructor receives the raw fields of \<open>p\<close> and the list of stop token ids.\<close>

definition init_sampling_params :: "sampling_params \<Rightarrow> int list \<Rightarrow> sampling_params" where
  "init_sampling_params p ids =
     init_special_cases
       (p\<lparr>stop_token_ids := (if ids \<noteq> [] then Some (set ids) else None)\<rparr>)"

section \<open>Checking\<close>

definition logit_bias_ok :: "sampling_params \<Rightarrow> int \<Rightarrow> bool" where
  "logit_bias_ok p vocab_size =
     (case logit_bias p of None \<Rightarrow> True
      | Some kvs \<Rightarrow>
          list_all (\<lambda>(k, v). case k of None \<Rightarrow> False | Some t \<Rightarrow> 0 \<le> t \<and> t < vocab_size) kvs)"

definition count_grammars :: "sampling_params \<Rightarrow> nat" where
  "count_grammars p =
     (\<Sum>x \<leftarrow> [json_schema p, sp_regex p, ebnf p]. if x \<noteq> None then 1 else 0)"

definition verify :: "sampling_params \<Rightarrow> int \<Rightarrow> unit result" where
  "verify p vocab_size =
     (if temperature p < 0 then Inl ValueError
      else if \<not> (0 < top_p p \<and> top_p p \<le> 1) then Inl ValueError
      else if \<not> (0 \<le> min_p p \<and> min_p p \<le> 1) then Inl ValueError
      else if top_k p < 1 \<or> top_k p = -1 then Inl ValueError
      else if \<not> (-2 \<le> frequency_penalty p \<and> frequency_penalty p \<le> 2) then Inl ValueError
      else if \<not> (-2 \<le> presence_penalty p \<and> presence_penalty p \<le> 2) then Inl ValueError
      else if \<not> (0 \<le> repetition_penalty p \<and> repetition_penalty p \<le> 2) then Inl ValueError
      else if \<not> 0 \<le> min_new_tokens p then Inl ValueError
      else if (case max_new_tokens p of None \<Rightarrow> False
               | Some m \<Rightarrow> m < 0 \<or> \<not> min_new_tokens p \<le> m) then Inl ValueError
      else if \<not> logit_bias_ok p vocab_size then Inl ValueError
      else if 1 < count_grammars p then Inl ValueError
      else Inr ())"

section \<open>The length bound of a stop regex\<close>

datatype sre =
    LITERAL char
  | IN_CLASS "char set"
  | ANY
  | SUBPATTERN "sre list"
  | BRANCH "sre list" "sre list list"
  | MAX_REPEAT nat "nat option" "sre list"
  | MIN_REPEAT nat "nat option" "sre list"
  | AT
  | OTHER

text \<open>A branch has at least one alternative; a repetition bound of \<open>None\<close> is \<open>MAXREPEAT\<close>.\<close>

definition MAX_LEN :: nat where
  "MAX_LEN = 2 ^ 30"

fun max_length_token :: "sre \<Rightarrow> nat"
  and max_length_from_subpattern :: "sre list \<Rightarrow> nat"
  and max_length_branches :: "sre list list \<Rightarrow> nat" where
  "max_length_token (LITERAL c) = 1"
| "max_length_token (IN_CLASS cs) = 1"
| "max_length_token ANY = 1"
| "max_length_token (SUBPATTERN p) = max_length_from_subpattern p"
| "max_length_token (BRANCH p ps) = max (max_length_from_subpattern p) (max_length_branches ps)"
| "max_length_token (MAX_REPEAT lo hi p) =
     (case hi of None \<Rightarrow> MAX_LEN | Some k \<Rightarrow> k * max_length_from_subpattern p)"
| "max_length_token (MIN_REPEAT lo hi p) =
     (case hi of None \<Rightarrow> MAX_LEN | Some k \<Rightarrow> k * max_length_from_subpattern p)"
| "max_length_token AT = 0"
| "max_length_token OTHER = MAX_LEN"
| "max_length_from_subpattern [] = 0"
| "max_length_from_subpattern (t # ts) = max_length_token t + max_length_from_subpattern ts"
| "max_length_branches [] = 0"
| "max_length_branches (p # ps) = max (max_length_from_subpattern p) (max_length_branches ps)"

section \<open>Normalisation\<close>

text \<open>\<open>encode\<close> is the tokenizer's encoder, absent when there is no tokenizer; \<open>parse\<close> is
  \<open>sre_parse.parse\<close>.\<close>

definition arg_list :: "str_arg \<Rightarrow> string list" where
  "arg_list a = (case a of NoStr \<Rightarrow> [] | OneStr s \<Rightarrow> [s] | StrList ss \<Rightarrow> ss)"

definition get_max_seq_length :: "(string \<Rightarrow> sre list) \<Rightarrow> string \<Rightarrow> nat" where
  "get_max_seq_length parse s = max_length_from_subpattern (parse s)"

definition normalize ::
  "(string \<Rightarrow> int list) option \<Rightarrow> (string \<Rightarrow> sre list) \<Rightarrow> sampling_params \<Rightarrow> sampling_params" where
  "normalize encode parse p =
     (let strs = arg_list (stop_strs p);
          len = (\<lambda>s. case encode of Some e \<Rightarrow> length (e s) | None \<Rightarrow> length s);
          res = arg_list (stop_regex_strs p)
      in p\<lparr>stop_strs := StrList strs,
           stop_str_max_len := foldl (\<lambda>m s. max m (len s)) 0 strs,
           stop_regex_strs := StrList res,
           stop_regex_max_len := foldl (\<lambda>m s. max m (get_max_seq_length parse s)) 0 res\<rparr>)"

section \<open>Properties\<close>

subsection \<open>The regex bound\<close>

text \<open>Strings matched by a parse tree; \<open>OTHER\<close> may match anything.\<close>

inductive sre_match :: "sre list \<Rightarrow> string \<Rightarrow> bool"
  and sre_match1 :: "sre \<Rightarrow> string \<Rightarrow> bool"
  and sre_rep :: "nat \<Rightarrow> sre list \<Rightarrow> string \<Rightarrow> bool" where
  "sre_match [] []"
| "sre_match1 t s \<Longrightarrow> sre_match ts u \<Longrightarrow> sre_match (t # ts) (s @ u)"
| "sre_match1 (LITERAL c) [c]"
| "c \<in> cs \<Longrightarrow> sre_match1 (IN_CLASS cs) [c]"
| "sre_match1 ANY [c]"
| "sre_match p s \<Longrightarrow> sre_match1 (SUBPATTERN p) s"
| "p \<in> set (q # qs) \<Longrightarrow> sre_match p s \<Longrightarrow> sre_match1 (BRANCH q qs) s"
| "lo \<le> n \<Longrightarrow> (\<And>k. hi = Some k \<Longrightarrow> n \<le> k) \<Longrightarrow> sre_rep n p s \<Longrightarrow> sre_match1 (MAX_REPEAT lo hi p) s"
| "lo \<le> n \<Longrightarrow> (\<And>k. hi = Some k \<Longrightarrow> n \<le> k) \<Longrightarrow> sre_rep n p s \<Longrightarrow> sre_match1 (MIN_REPEAT lo hi p) s"
| "sre_match1 AT []"
| "sre_match1 OTHER s"
| "sre_rep 0 p []"
| "sre_match p s \<Longrightarrow> sre_rep n p u \<Longrightarrow> sre_rep (Suc n) p (s @ u)"

lemma max_length_branches_ge: "p \<in> set ps \<Longrightarrow> max_length_from_subpattern p \<le> max_length_branches ps"
  by (induction ps) auto

lemma repeat_bound:
  assumes "(n :: nat) \<le> k" "m \<le> n * b \<or> MAX_LEN \<le> b \<and> 0 < n"
  shows "m \<le> k * b \<or> MAX_LEN \<le> k * b"
proof (cases "m \<le> n * b")
  case True
  then show ?thesis using assms(1) by (meson le_trans mult_le_mono1)
next
  case False
  then have "MAX_LEN \<le> b" "0 < k" using assms by auto
  moreover have "1 * b \<le> k * b" using \<open>0 < k\<close> by (intro mult_le_mono1) simp
  ultimately have "MAX_LEN \<le> k * b" by linarith
  then show ?thesis by simp
qed

lemma sre_match_bound:
  "sre_match p s \<Longrightarrow>
     length s \<le> max_length_from_subpattern p \<or> MAX_LEN \<le> max_length_from_subpattern p"
  "sre_match1 t s \<Longrightarrow> length s \<le> max_length_token t \<or> MAX_LEN \<le> max_length_token t"
  "sre_rep n p s \<Longrightarrow>
     length s \<le> n * max_length_from_subpattern p \<or> MAX_LEN \<le> max_length_from_subpattern p \<and> 0 < n"
proof (induction rule: sre_match_sre_match1_sre_rep.inducts)
  case (7 p q qs s)
  then show ?case using max_length_branches_ge [of p qs] by auto
next
  case (8 lo n hi p s)
  then show ?case using repeat_bound [of n] by (cases hi) auto
next
  case (9 lo n hi p s)
  then show ?case using repeat_bound [of n] by (cases hi) auto
qed auto

text \<open>C31. The bound the stop-regex buffer is sized with: a string matched by a parse tree without
  unbounded or unhandled parts is no longer than the computed length; whenever some matched string
  is longer, the computed length is at least \<open>MAX_LEN\<close>, the value that stands for no bound.\<close>

theorem stop_regex_length_bound:
  assumes "sre_match (parse regex) s" "get_max_seq_length parse regex < MAX_LEN"
  shows "length s \<le> get_max_seq_length parse regex"
  using sre_match_bound(1) [OF assms(1)] assms(2) by (simp add: get_max_seq_length_def)

theorem stop_regex_length_bound_witness:
  "let parse = (\<lambda>_. [LITERAL (CHR ''a''), MAX_REPEAT 0 (Some 2) [ANY], AT])
   in sre_match (parse ''a.{0,2}$'') ''abc'' \<and> get_max_seq_length parse ''a.{0,2}$'' = 3
      \<and> length ''abc'' \<le> get_max_seq_length parse ''a.{0,2}$''"
proof -
  let ?parse = "\<lambda>_ :: string. [LITERAL (CHR ''a''), MAX_REPEAT 0 (Some 2) [ANY], AT]"
  note intros = sre_match_sre_match1_sre_rep.intros
  have any: "sre_match [ANY] [c]" for c
    using intros(2) [OF intros(5) intros(1)] by simp
  have rep: "sre_rep 2 [ANY] ''bc''"
    using intros(13) [OF any intros(13) [OF any intros(12)]] by (simp add: numeral_2_eq_2)
  have "sre_match1 (MAX_REPEAT 0 (Some 2) [ANY]) ''bc''" by (rule intros(8) [OF _ _ rep]) simp_all
  from intros(2) [OF intros(3) intros(2) [OF this intros(2) [OF intros(10) intros(1)]]]
  have m: "sre_match (?parse ''a.{0,2}$'') ''abc''" by simp
  have l: "get_max_seq_length ?parse ''a.{0,2}$'' = 3" by (simp add: get_max_seq_length_def)
  have b: "get_max_seq_length ?parse ''a.{0,2}$'' < MAX_LEN" unfolding l by (simp add: MAX_LEN_def)
  show ?thesis using stop_regex_length_bound [of ?parse, OF m b] m l by (simp only: Let_def simp_thms)
qed

text \<open>Construction followed by the range check: a request the checks accept samples from at
  least one candidate at a non-negative temperature, with \<open>top_k\<close> and the token budget in range;
  an accepted request with a vanishing temperature became greedy (\<open>top_k = 1\<close>).\<close>

theorem verify_accepts_valid_params:
  assumes "verify (init_sampling_params p ids) vocab_size = Inr ()"
  shows "1 \<le> top_k (init_sampling_params p ids)
    \<and> SAMPLING_EPS \<le> temperature (init_sampling_params p ids)
    \<and> (temperature p < SAMPLING_EPS \<longrightarrow> top_k (init_sampling_params p ids) = 1)
    \<and> (\<forall>m. max_new_tokens p = Some m \<longrightarrow> 0 \<le> m \<and> min_new_tokens p \<le> m)
    \<and> (\<forall>t v kvs. logit_bias p = Some kvs \<and> (Some t, v) \<in> set kvs \<longrightarrow> 0 \<le> t \<and> t < vocab_size)"
proof -
  let ?q = "init_sampling_params p ids"
  have eps: "SAMPLING_EPS \<le> 1" by (simp add: SAMPLING_EPS_def)
  have q: "max_new_tokens ?q = max_new_tokens p" "logit_bias ?q = logit_bias p"
    "min_new_tokens ?q = min_new_tokens p"
    by (simp_all add: init_sampling_params_def init_special_cases_def Let_def)
  from assms have t: "0 \<le> temperature ?q" and k: "1 \<le> top_k ?q" and l: "logit_bias_ok ?q vocab_size"
    and m: "\<forall>m. max_new_tokens ?q = Some m \<longrightarrow> 0 \<le> m \<and> min_new_tokens ?q \<le> m"
    by (auto simp: verify_def split: if_splits)
  from t have "SAMPLING_EPS \<le> temperature ?q" "temperature p < SAMPLING_EPS \<longrightarrow> top_k ?q = 1"
    using eps by (auto simp: init_sampling_params_def init_special_cases_def Let_def TOP_K_ALL_def
        split: if_splits)
  moreover have "0 \<le> t \<and> t < vocab_size" if "logit_bias p = Some kvs" "(Some t, v) \<in> set kvs" for t v kvs
  proof -
    have "\<forall>x \<in> set kvs. case x of (k, v) \<Rightarrow> case k of None \<Rightarrow> False | Some t \<Rightarrow> 0 \<le> t \<and> t < vocab_size"
      using l that(1) q(2) by (simp add: logit_bias_ok_def list_all_iff)
    from bspec [OF this that(2)] show ?thesis by simp
  qed
  ultimately show ?thesis using k m [unfolded q] by blast
qed

theorem verify_accepts_valid_params_witness:
  "let p = default_sampling_params\<lparr>temperature := 0\<rparr>
   in verify (init_sampling_params p [2]) 32000 = Inr () \<and> top_k (init_sampling_params p [2]) = 1"
proof -
  let ?p = "default_sampling_params\<lparr>temperature := 0\<rparr>"
  have v: "verify (init_sampling_params ?p [2]) 32000 = Inr ()"
    by (simp add: verify_def init_sampling_params_def init_special_cases_def default_sampling_params_def
        SAMPLING_EPS_def logit_bias_ok_def count_grammars_def)
  have "temperature ?p < SAMPLING_EPS" by (simp add: SAMPLING_EPS_def)
  with verify_accepts_valid_params [OF v] v show ?thesis by (simp only: Let_def simp_thms)
qed

end
