(* ===== verification/Req.thy ===== *)
theory Req
  imports Sampling_Params
begin

text \<open>
  The class \<open>Req\<close> of \<open>managers/schedule_batch.py\<close>: one record per request object, its finish
  reasons, the stop checks of \<open>check_finished\<close>, the counters of the request's KV cache, the
  preparation of the next prefill, retraction, and the incremental detokenisation with the LLM-42
  restriction to verified tokens.  Multimodal, Mamba, LoRA, disaggregation and metrics fields are
  not part of the record.
\<close>

section \<open>What lies outside\<close>

text \<open>The tokenizer, the regex engine, the iteration order of Python sets and the grammar backend
  are parameters, collected in \<open>env\<close>.  A grammar object is an opaque state.\<close>

record tokenizer =
  decode :: "token list \<Rightarrow> string"
  eos_token_id :: "token option"
  additional_stop_token_ids :: "token set"

record env =
  env_tokenizer :: "tokenizer option"
  re_search :: "string \<Rightarrow> string \<Rightarrow> bool"
  set_next :: "int set \<Rightarrow> int"
  gr_terminated :: "nat \<Rightarrow> bool"
  gr_accept :: "token \<Rightarrow> nat \<Rightarrow> nat result"
  gr_set_finished :: "bool \<Rightarrow> nat \<Rightarrow> nat"

section \<open>Finish reasons\<close>

datatype finish_reason =
    FINISH_MATCHED_TOKEN token
  | FINISH_MATCHED_STR string
  | FINISHED_MATCHED_REGEX string
  | FINISH_LENGTH int
  | FINISH_ABORT string "nat option" "string option"

definition is_error :: "finish_reason \<Rightarrow> bool" where
  "is_error f = (case f of FINISH_ABORT _ _ _ \<Rightarrow> True | _ \<Rightarrow> False)"

text \<open>\<open>message or "Aborted"\<close>: an absent or empty message is replaced.\<close>

definition make_abort :: "string option \<Rightarrow> nat option \<Rightarrow> string option \<Rightarrow> finish_reason" where
  "make_abort message status_code err_type =
     FINISH_ABORT (case message of Some m \<Rightarrow> if m = [] then ''Aborted'' else m | None \<Rightarrow> ''Aborted'')
       status_code err_type"

datatype json = JStr string | JInt int | JNull

definition to_json :: "finish_reason \<Rightarrow> (string \<times> json) list" where
  "to_json f =
     (case f of
        FINISH_MATCHED_TOKEN t \<Rightarrow> [(''type'', JStr ''stop''), (''matched'', JInt t)]
      | FINISH_MATCHED_STR s \<Rightarrow> [(''type'', JStr ''stop''), (''matched'', JStr s)]
      | FINISHED_MATCHED_REGEX s \<Rightarrow> [(''type'', JStr ''stop''), (''matched'', JStr s)]
      | FINISH_LENGTH n \<Rightarrow> [(''type'', JStr ''length''), (''length'', JInt n)]
      | FINISH_ABORT m c e \<Rightarrow>
          [(''type'', JStr ''abort''), (''message'', JStr m),
           (''status_code'', case c of Some n \<Rightarrow> JInt (int n) | None \<Rightarrow> JNull),
           (''err_type'', case e of Some s \<Rightarrow> JStr s | None \<Rightarrow> JNull)])"

section \<open>The request object\<close>

text \<open>The log-probabilities of the prompt, with the temporary holders that collect them over the chunks of a
  prefill.\<close>

record input_logprobs =
  input_logprob_sent :: bool
  input_token_logprobs_val :: "real option list option"
  input_token_logprobs_idx :: "token list option"
  input_top_logprobs_val :: "real list option list option"
  input_top_logprobs_idx :: "token list option list option"
  input_token_ids_logprobs_val :: "real list option list option"
  input_token_ids_logprobs_idx :: "token list option list option"
  input_token_logprobs :: "real list option"
  temp_input_top_logprobs_val :: "real list list list option"
  temp_input_top_logprobs_idx :: "token list list list option"
  temp_input_token_ids_logprobs_val :: "real list list list option"
  temp_input_token_ids_logprobs_idx :: "token list list list option"

definition no_input_logprobs :: input_logprobs where
  "no_input_logprobs =
     \<lparr>input_logprob_sent = False, input_token_logprobs_val = None, input_token_logprobs_idx = None,
      input_top_logprobs_val = None, input_top_logprobs_idx = None, input_token_ids_logprobs_val = None,
      input_token_ids_logprobs_idx = None, input_token_logprobs = None, temp_input_top_logprobs_val = None,
      temp_input_top_logprobs_idx = None, temp_input_token_ids_logprobs_val = None,
      temp_input_token_ids_logprobs_idx = None\<rparr>"

record req =
  rid :: string
  origin_input_ids_unpadded :: "token list"
  origin_input_ids :: "token list"
  output_ids :: "token list"
  fill_ids :: "token list"
  kv_committed_len :: int
  kv_allocated_len :: int
  kv_committed_freed :: bool
  kv_overallocated_freed :: bool
  extend_batch_idx :: int
  decode_batch_idx :: int
  sampling_params :: sampling_params
  req_pool_idx :: "nat option"
  finished_reason :: "finish_reason option"
  finished_len :: "int option"
  finished_output :: bool
  to_finish :: "finish_reason option"
  stream :: bool
  eos_token_ids :: "token set"
  vocab_size :: "int option"
  surr_offset :: "nat option"
  read_offset :: "nat option"
  decoded_text :: string
  surr_and_decode_ids :: "token list"
  cur_decode_ids_len :: nat
  prefix_indices :: "slot list"
  extend_input_len :: int
  extend_logprob_start_len :: int
  cache_protected_len :: nat
  is_chunked :: int
  is_retracted :: bool
  retracted_stain :: bool
  send_token_offset :: nat
  send_decode_id_offset :: nat
  send_output_token_logprobs_offset :: nat
  return_logprob :: bool
  logprob_start_len :: int
  top_logprobs_num :: nat
  token_ids_logprob :: "token list option"
  input_lp :: input_logprobs
  output_token_logprobs_val :: "real list option"
  output_token_logprobs_idx :: "token list option"
  output_top_logprobs_val :: "real list list option"
  output_top_logprobs_idx :: "token list list option"
  output_token_ids_logprobs_val :: "real list list option"
  output_token_ids_logprobs_idx :: "token list list option"
  grammar :: "nat option"
  already_computed :: int
  spec_acceptance_histogram :: "nat list"
  retraction_count :: nat
  is_deterministic :: bool
  llm42_verified_tokens :: nat
  llm42_num_rollbacks :: nat
  llm42_tokens_rolled_back :: nat
  llm42_num_verification_windows :: nat
  completed :: bool

text \<open>\<open>completed\<close> stands for \<open>time_stats.completion_time > 0\<close>.  An absent \<open>eos_token_ids\<close> is the empty
  set: the code only tests its truth value and membership.\<close>

definition init_req ::
  "string \<Rightarrow> token list \<Rightarrow> token list \<Rightarrow> sampling_params \<Rightarrow> bool \<Rightarrow> nat \<Rightarrow> token list option \<Rightarrow> bool \<Rightarrow>
   token set \<Rightarrow> int option \<Rightarrow> req" where
  "init_req rid0 ids unpadded sp ret_logprob top_num tok_ids strm eos vocab =
     \<lparr>rid = rid0,
      origin_input_ids_unpadded = (if unpadded \<noteq> [] then unpadded else ids),
      origin_input_ids = ids, output_ids = [], fill_ids = [],
      kv_committed_len = 0, kv_allocated_len = 0, kv_committed_freed = False,
      kv_overallocated_freed = False, extend_batch_idx = 0, decode_batch_idx = 0,
      sampling_params = sp, req_pool_idx = None, finished_reason = None, finished_len = None,
      finished_output = False, to_finish = None, stream = strm, eos_token_ids = eos,
      vocab_size = vocab, surr_offset = None, read_offset = None, decoded_text = [],
      surr_and_decode_ids = [], cur_decode_ids_len = 0, prefix_indices = [],
      extend_input_len = 0, extend_logprob_start_len = 0, cache_protected_len = 0,
      is_chunked = 0, is_retracted = False, retracted_stain = False, send_token_offset = 0,
      send_decode_id_offset = 0, send_output_token_logprobs_offset = 0,
      return_logprob = ret_logprob, logprob_start_len = 0,
      top_logprobs_num = top_num, token_ids_logprob = tok_ids, input_lp = no_input_logprobs,
      output_token_logprobs_val = (if ret_logprob then Some [] else None),
      output_token_logprobs_idx = (if ret_logprob then Some [] else None),
      output_top_logprobs_val = (if ret_logprob then Some [] else None),
      output_top_logprobs_idx = (if ret_logprob then Some [] else None),
      output_token_ids_logprobs_val = (if ret_logprob then Some [] else None),
      output_token_ids_logprobs_idx = (if ret_logprob then Some [] else None),
      grammar = None, already_computed = 0, spec_acceptance_histogram = [],
      retraction_count = 0, is_deterministic = sp_is_deterministic sp,
      llm42_verified_tokens = 0, llm42_num_rollbacks = 0, llm42_tokens_rolled_back = 0,
      llm42_num_verification_windows = 0, completed = False\<rparr>"

definition seqlen :: "req \<Rightarrow> nat" where
  "seqlen r = length (origin_input_ids r) + length (output_ids r)"

definition output_ids_through_stop :: "req \<Rightarrow> token list" where
  "output_ids_through_stop r =
     (case finished_len r of Some n \<Rightarrow> take_int (output_ids r) n | None \<Rightarrow> output_ids r)"

definition finished :: "req \<Rightarrow> bool" where
  "finished r = (finished_reason r \<noteq> None)"

definition pop_committed_kv_cache :: "req \<Rightarrow> (int \<times> req) result" where
  "pop_committed_kv_cache r =
     (if kv_committed_freed r then Inl AssertionError
      else Inr (kv_committed_len r, r\<lparr>kv_committed_freed := True\<rparr>))"

definition pop_overallocated_kv_cache :: "req \<Rightarrow> ((int \<times> int) \<times> req) result" where
  "pop_overallocated_kv_cache r =
     (if kv_overallocated_freed r then Inl AssertionError
      else Inr ((kv_committed_len r, kv_allocated_len r), r\<lparr>kv_overallocated_freed := True\<rparr>))"

definition update_spec_acceptance_histogram :: "nat \<Rightarrow> req \<Rightarrow> req" where
  "update_spec_acceptance_histogram accepted r =
     (let h = spec_acceptance_histogram r;
          h1 = (if length h \<le> accepted then h @ replicate (accepted - length h + 1) 0 else h)
      in r\<lparr>spec_acceptance_histogram := h1[accepted := h1 ! accepted + 1]\<rparr>)"

section \<open>The next prefill\<close>

definition set_extend_input_len :: "int \<Rightarrow> req \<Rightarrow> req" where
  "set_extend_input_len n r =
     (let start = (if logprob_start_len r = -1 then int (length (fill_ids r)) - 1
                   else max (logprob_start_len r) (int (length (prefix_indices r))))
      in r\<lparr>extend_input_len := n,
           extend_logprob_start_len := min (start - int (length (prefix_indices r))) n\<rparr>)"

text \<open>\<open>match_prefix\<close> is the tree cache's lookup (the KV slots of the longest cached prefix of its
  argument), absent when the method is called without a cache.\<close>

definition init_next_round_input :: "(token list \<Rightarrow> slot list) option \<Rightarrow> req \<Rightarrow> req" where
  "init_next_round_input match_prefix r0 =
     (let r = r0\<lparr>fill_ids := origin_input_ids r0 @ output_ids r0\<rparr>;
          m0 = int (length (fill_ids r)) - 1;
          m1 = (if return_logprob r \<and> 0 \<le> logprob_start_len r then min m0 (logprob_start_len r) else m0);
          max_prefix_len = max m1 0;
          token_ids = take (nat max_prefix_len) (fill_ids r);
          r1 = (case match_prefix of
                  None \<Rightarrow> r
                | Some m \<Rightarrow> r\<lparr>prefix_indices := m token_ids, cache_protected_len := length (m token_ids)\<rparr>)
      in set_extend_input_len (int (length (fill_ids r1)) - int (length (prefix_indices r1))) r1)"

definition reset_for_retract :: "req \<Rightarrow> req" where
  "reset_for_retract r =
     r\<lparr>retraction_count := retraction_count r + 1, prefix_indices := [], extend_input_len := 0,
       is_retracted := True, retracted_stain := True,
       input_lp := (input_lp r)\<lparr>input_token_logprobs := None, temp_input_top_logprobs_val := None,
                                temp_input_top_logprobs_idx := None\<rparr>,
       extend_logprob_start_len := 0,
       is_chunked := 0, already_computed := 0, kv_allocated_len := 0, kv_committed_len := 0,
       kv_committed_freed := False, kv_overallocated_freed := False, extend_batch_idx := 0,
       decode_batch_idx := 0\<rparr>"

text \<open>\<open>HTTPStatus.BAD_REQUEST\<close> is 400.\<close>

definition set_finish_with_abort :: "string \<Rightarrow> req \<Rightarrow> req" where
  "set_finish_with_abort msg r =
     r\<lparr>grammar := None, origin_input_ids := [0], return_logprob := False, logprob_start_len := -1,
       to_finish := Some (make_abort (Some msg) (Some 400) (Some ''BadRequestError''))\<rparr>"

section \<open>Incremental detokenisation\<close>

definition INIT_INCREMENTAL_DETOKENIZATION_OFFSET :: nat where
  "INIT_INCREMENTAL_DETOKENIZATION_OFFSET = 5"

definition init_incremental_detokenize :: "bool \<Rightarrow> req \<Rightarrow> (token list \<times> nat) \<times> req" where
  "init_incremental_detokenize needs_verification r =
     (let first_iter = (surr_offset r = None \<or> read_offset r = None);
          outs = output_ids_through_stop r;
          r1 = (if first_iter then
                  (let ro = length (origin_input_ids_unpadded r);
                       so = ro - INIT_INCREMENTAL_DETOKENIZATION_OFFSET;
                       shown = (if needs_verification then take (llm42_verified_tokens r) outs else outs)
                   in r\<lparr>read_offset := Some ro, surr_offset := Some so,
                        surr_and_decode_ids := drop so (origin_input_ids_unpadded r) @ shown,
                        cur_decode_ids_len :=
                          (if needs_verification then llm42_verified_tokens r else length outs)\<rparr>)
                else if needs_verification then
                  r\<lparr>surr_and_decode_ids := surr_and_decode_ids r @
                        slice outs (cur_decode_ids_len r) (llm42_verified_tokens r),
                    cur_decode_ids_len := llm42_verified_tokens r\<rparr>
                else
                  r\<lparr>surr_and_decode_ids := surr_and_decode_ids r @ drop (cur_decode_ids_len r) outs,
                    cur_decode_ids_len := length outs\<rparr>)
      in ((surr_and_decode_ids r1, the (read_offset r1) - the (surr_offset r1)), r1))"

section \<open>Stop conditions\<close>

text \<open>\<open>len\<close> and iteration over a stop argument: \<open>None\<close> raises, a bare string iterates over its
  characters, and \<open>normalize\<close> has made it a list for requests that reach the scheduler.\<close>

definition py_strs :: "str_arg \<Rightarrow> string list result" where
  "py_strs a = (case a of NoStr \<Rightarrow> Inl TypeError | OneStr s \<Rightarrow> Inr (map (\<lambda>c. [c]) s) | StrList ss \<Rightarrow> Inr ss)"

text \<open>The condition \<open>len(stop_strs) > 0 or len(stop_regex_strs) > 0\<close>, with its short circuit.\<close>

definition has_stop_patterns :: "req \<Rightarrow> bool result" where
  "has_stop_patterns r =
     bind_result (py_strs (stop_strs (sampling_params r))) (\<lambda>ss.
       if 0 < length ss then Inr True
       else bind_result (py_strs (stop_regex_strs (sampling_params r))) (\<lambda>rs. Inr (0 < length rs)))"

definition tail_str :: "env \<Rightarrow> req \<Rightarrow> string result" where
  "tail_str E r =
     bind_result (has_stop_patterns r) (\<lambda>b.
       if \<not> b then Inl UnboundLocalError
       else
         (let max_len_tail_str = max (stop_str_max_len (sampling_params r) + 1)
                                     (stop_regex_max_len (sampling_params r) + 1);
              tail_len = min (max_len_tail_str + 1) (length (output_ids r))
          in case env_tokenizer E of None \<Rightarrow> Inl AttributeError
             | Some tk \<Rightarrow> Inr (decode tk (last_n (output_ids r) tail_len))))"

definition stop_str_prefix_hit :: "string \<Rightarrow> string \<Rightarrow> bool" where
  "stop_str_prefix_hit tail stop_str =
     (stop_str \<noteq> [] \<and>
      (py_in stop_str tail \<or>
       list_ex (\<lambda>i. last_n tail i = take i stop_str) [1..<min (length tail) (length stop_str) + 1]))"

definition check_match_stop_str_prefix :: "env \<Rightarrow> req \<Rightarrow> bool result" where
  "check_match_stop_str_prefix E r =
     (case py_strs (stop_strs (sampling_params r)) of
        Inl _ \<Rightarrow> Inr False
      | Inr ss \<Rightarrow>
          if ss = [] then Inr False
          else bind_result (tail_str E r) (\<lambda>tail.
                 if tail = [] then Inr False else Inr (list_ex (stop_str_prefix_hit tail) ss)))"

definition is_stop_token :: "env \<Rightarrow> req \<Rightarrow> token \<Rightarrow> bool" where
  "is_stop_token E r t =
     ((case stop_token_ids (sampling_params r) of Some s \<Rightarrow> t \<in> s | None \<Rightarrow> False) \<or>
      t \<in> eos_token_ids r \<or>
      (case env_tokenizer E of
         Some tk \<Rightarrow> eos_token_id tk = Some t \<or> t \<in> additional_stop_token_ids tk
       | None \<Rightarrow> False))"

fun token_finish_loop :: "env \<Rightarrow> req \<Rightarrow> nat \<Rightarrow> nat \<Rightarrow> token list \<Rightarrow> req option" where
  "token_finish_loop E r n i [] = None"
| "token_finish_loop E r n i (t # ts) =
     (if is_stop_token E r t
      then Some (r\<lparr>finished_reason := Some (FINISH_MATCHED_TOKEN t),
                   finished_len := Some (int (length (output_ids r)) - int n + int i + 1)\<rparr>)
      else token_finish_loop E r n (Suc i) ts)"

definition check_token_based_finish :: "env \<Rightarrow> token list \<Rightarrow> req \<Rightarrow> req option" where
  "check_token_based_finish E new_accepted r =
     (if ignore_eos (sampling_params r) then None
      else token_finish_loop E r (length new_accepted) 0 new_accepted)"

definition replace_bad_token :: "env \<Rightarrow> req \<Rightarrow> token \<Rightarrow> token" where
  "replace_bad_token E r t =
     (let t1 = (case stop_token_ids (sampling_params r) of
                  Some s \<Rightarrow> if s \<noteq> {} then set_next E s else t | None \<Rightarrow> t)
      in if eos_token_ids r \<noteq> {} then set_next E (eos_token_ids r) else t1)"

fun vocab_boundary_loop :: "env \<Rightarrow> req \<Rightarrow> nat \<Rightarrow> nat \<Rightarrow> token list \<Rightarrow> req option result" where
  "vocab_boundary_loop E r n i [] = Inr None"
| "vocab_boundary_loop E r n i (t # ts) =
     (case vocab_size r of None \<Rightarrow> Inl TypeError
      | Some v \<Rightarrow>
          if v < t \<or> t < 0
          then (let offset = length (output_ids r) - n + i
                in Inr (Some (r\<lparr>output_ids := (output_ids r)[offset := replace_bad_token E r t],
                                finished_reason := Some (FINISH_MATCHED_STR ''NaN happened''),
                                finished_len := Some (int offset + 1)\<rparr>)))
          else vocab_boundary_loop E r n (Suc i) ts)"

definition check_vocab_boundary_finish :: "env \<Rightarrow> token list \<Rightarrow> req \<Rightarrow> req option result" where
  "check_vocab_boundary_finish E new_accepted r =
     vocab_boundary_loop E r (length new_accepted) 0 new_accepted"

definition check_str_based_finish :: "env \<Rightarrow> req \<Rightarrow> req option result" where
  "check_str_based_finish E r =
     bind_result (has_stop_patterns r) (\<lambda>b.
       if \<not> b then Inr None
       else bind_result (tail_str E r) (\<lambda>tail.
            bind_result (py_strs (stop_strs (sampling_params r))) (\<lambda>ss.
              case List.find (\<lambda>s. py_in s tail \<or> py_in s (decoded_text r)) ss of
                Some s \<Rightarrow> Inr (Some (r\<lparr>finished_reason := Some (FINISH_MATCHED_STR s)\<rparr>))
              | None \<Rightarrow>
                  bind_result (py_strs (stop_regex_strs (sampling_params r))) (\<lambda>rs.
                    case List.find (\<lambda>p. re_search E p tail) rs of
                      Some p \<Rightarrow> Inr (Some (r\<lparr>finished_reason := Some (FINISHED_MATCHED_REGEX p)\<rparr>))
                    | None \<Rightarrow> Inr None))))"

definition check_finished :: "env \<Rightarrow> nat \<Rightarrow> req \<Rightarrow> req result" where
  "check_finished E new_accepted_len r =
     (if finished r then Inr r
      else case to_finish r of
        Some f \<Rightarrow> Inr (r\<lparr>finished_reason := Some f, to_finish := None\<rparr>)
      | None \<Rightarrow>
         (case max_new_tokens (sampling_params r) of
            None \<Rightarrow> Inl TypeError
          | Some m \<Rightarrow>
              if m \<le> int (length (output_ids r))
              then Inr (r\<lparr>finished_reason := Some (FINISH_LENGTH m), finished_len := Some m\<rparr>)
              else if (case grammar r of Some g \<Rightarrow> gr_terminated E g | None \<Rightarrow> False)
              then (if output_ids r = [] then Inl IndexError
                    else Inr (r\<lparr>finished_reason := Some (FINISH_MATCHED_TOKEN (last (output_ids r)))\<rparr>))
              else
                (let new_accepted_tokens = last_n (output_ids r) new_accepted_len
                 in case check_token_based_finish E new_accepted_tokens r of
                      Some r' \<Rightarrow> Inr r'
                    | None \<Rightarrow>
                        bind_result (check_vocab_boundary_finish E new_accepted_tokens r) (\<lambda>v.
                          case v of Some r' \<Rightarrow> Inr r'
                          | None \<Rightarrow> bind_result (check_str_based_finish E r) (\<lambda>s.
                                      case s of Some r' \<Rightarrow> Inr r' | None \<Rightarrow> Inr r)))))"

section \<open>Properties\<close>

subsection \<open>Stop tokens\<close>

lemma token_finish_loop_Some:
  assumes "token_finish_loop E r n i ts = Some r'"
  shows "\<exists>j < length ts. is_stop_token E r (ts ! j) \<and> (\<forall>k < j. \<not> is_stop_token E r (ts ! k))
    \<and> r' = r\<lparr>finished_reason := Some (FINISH_MATCHED_TOKEN (ts ! j)),
             finished_len := Some (int (length (output_ids r)) - int n + int (i + j) + 1)\<rparr>"
  using assms
proof (induction ts arbitrary: i)
  case (Cons t ts)
  show ?case
  proof (cases "is_stop_token E r t")
    case True
    with Cons.prems show ?thesis by (intro exI [of _ 0]) auto
  next
    case False
    with Cons.prems have "token_finish_loop E r n (Suc i) ts = Some r'" by simp
    from Cons.IH [OF this] obtain j where j: "j < length ts" "is_stop_token E r (ts ! j)"
      "\<forall>k < j. \<not> is_stop_token E r (ts ! k)"
      "r' = r\<lparr>finished_reason := Some (FINISH_MATCHED_TOKEN (ts ! j)),
             finished_len := Some (int (length (output_ids r)) - int n + int (Suc i + j) + 1)\<rparr>"
      by blast
    have "\<forall>k < Suc j. \<not> is_stop_token E r ((t # ts) ! k)"
      using False j(3) by (auto simp: nth_Cons split: nat.splits)
    with j show ?thesis by (intro exI [of _ "Suc j"]) simp
  qed
qed simp

lemma token_finish_loop_None:
  "token_finish_loop E r n i ts = None \<longleftrightarrow> (\<forall>t \<in> set ts. \<not> is_stop_token E r t)"
  by (induction ts arbitrary: i) auto

lemma last_n_append [simp]: "ys \<noteq> [] \<Longrightarrow> last_n (xs @ ys) (length ys) = ys"
  by (simp add: last_n_def)

text \<open>C30. The token check stops at the first stop token among the newly accepted ones: the recorded
  position cuts the output right after it, and no earlier new token is a stop token.\<close>

theorem token_finish_cuts_at_first_stop:
  assumes "output_ids r = old @ new" "check_token_based_finish E new r = Some r'"
  shows "\<exists>i < length new. is_stop_token E r (new ! i) \<and> (\<forall>k < i. \<not> is_stop_token E r (new ! k))
     \<and> finished_reason r' = Some (FINISH_MATCHED_TOKEN (new ! i))
     \<and> output_ids_through_stop r' = old @ take (Suc i) new"
proof -
  from assms(2) have "token_finish_loop E r (length new) 0 new = Some r'"
    by (simp add: check_token_based_finish_def split: if_splits)
  from token_finish_loop_Some [OF this] obtain i where i: "i < length new"
    "is_stop_token E r (new ! i)" "\<forall>k < i. \<not> is_stop_token E r (new ! k)"
    and r': "r' = r\<lparr>finished_reason := Some (FINISH_MATCHED_TOKEN (new ! i)),
             finished_len := Some (int (length (output_ids r)) - int (length new) + int (0 + i) + 1)\<rparr>"
    by blast
  have "finished_len r' = Some (int (length old + Suc i))" "output_ids r' = output_ids r"
    using assms(1) by (simp_all add: r')
  then have "output_ids_through_stop r' = take (length old + Suc i) (output_ids r)"
    by (simp only: output_ids_through_stop_def option.case take_int_of_nat)
  then have "output_ids_through_stop r' = old @ take (Suc i) new" by (simp add: assms(1))
  with i r' show ?thesis by auto
qed

definition example_env :: env where
  "example_env =
     \<lparr>env_tokenizer = Some \<lparr>decode = (\<lambda>ts. map (\<lambda>t. if t = 7 then CHR ''x'' else CHR ''a'') ts),
                        eos_token_id = Some 2, additional_stop_token_ids = {}\<rparr>,
      re_search = py_in, set_next = (\<lambda>s. 0), gr_terminated = (\<lambda>_. False),
      gr_accept = (\<lambda>t g. Inr g), gr_set_finished = (\<lambda>b g. g)\<rparr>"

definition example_params :: sampling_params where
  "example_params =
     normalize None (\<lambda>_. []) (init_sampling_params (default_sampling_params\<lparr>sp_is_deterministic := True\<rparr>) [])"

definition example_req :: req where
  "example_req = (init_req ''a'' [11, 12, 13] [] example_params False 0 None True {} (Some 32000))\<lparr>req_pool_idx := Some 0\<rparr>"

lemma example_is_stop: "is_stop_token example_env (example_req\<lparr>output_ids := xs\<rparr>) t \<longleftrightarrow> t = 2"
  by (auto simp: is_stop_token_def example_env_def example_req_def init_req_def example_params_def
      normalize_def Let_def init_sampling_params_def init_special_cases_def default_sampling_params_def)

theorem token_finish_cuts_at_first_stop_witness:
  "let r = example_req\<lparr>output_ids := [5] @ [6, 2, 9]\<rparr>
   in \<exists>r'. check_token_based_finish example_env [6, 2, 9] r = Some r'
        \<and> output_ids_through_stop r' = [5] @ [6, 2]"
proof -
  let ?r = "example_req\<lparr>output_ids := [5] @ [6, 2, 9]\<rparr>"
  have ig: "ignore_eos (sampling_params example_req) = False"
    by (simp add: example_req_def init_req_def example_params_def normalize_def Let_def
        init_sampling_params_def init_special_cases_def default_sampling_params_def)
  have o: "output_ids ?r = [5] @ [6, 2, 9]" by simp
  obtain r' where r': "check_token_based_finish example_env [6, 2, 9] ?r = Some r'"
    using example_is_stop by (simp add: check_token_based_finish_def ig)
  from token_finish_cuts_at_first_stop [OF o r'] obtain i where
    i: "i < length [6, 2, 9 :: int]" "is_stop_token example_env ?r ([6, 2, 9] ! i)" "output_ids_through_stop r' = [5] @ take (Suc i) [6, 2, 9]"
    by blast
  then have "i = 1" unfolding example_is_stop by (auto simp: nth_Cons' split: if_splits)
  with i r' show ?thesis by auto
qed

subsection \<open>Detokenisation\<close>

text \<open>What the detokeniser has been shown: the tail of the prompt, and the first
  \<open>cur_decode_ids_len\<close> output tokens.\<close>

definition shown_prompt :: "req \<Rightarrow> token list" where
  "shown_prompt r =
     drop (length (origin_input_ids_unpadded r) - INIT_INCREMENTAL_DETOKENIZATION_OFFSET)
       (origin_input_ids_unpadded r)"

definition detok_ok :: "req \<Rightarrow> bool" where
  "detok_ok r \<longleftrightarrow>
     (surr_offset r = None \<and> read_offset r = None) \<or>
     (surr_offset r = Some (length (origin_input_ids_unpadded r) - INIT_INCREMENTAL_DETOKENIZATION_OFFSET)
      \<and> read_offset r = Some (length (origin_input_ids_unpadded r))
      \<and> cur_decode_ids_len r \<le> llm42_verified_tokens r
      \<and> surr_and_decode_ids r = shown_prompt r @ take (cur_decode_ids_len r) (output_ids_through_stop r))"

lemma through_stop_frame [simp]:
  "output_ids_through_stop (r\<lparr>read_offset := x\<rparr>) = output_ids_through_stop r"
  "output_ids_through_stop (r\<lparr>surr_offset := x\<rparr>) = output_ids_through_stop r"
  "output_ids_through_stop (r\<lparr>surr_and_decode_ids := ids\<rparr>) = output_ids_through_stop r"
  "output_ids_through_stop (r\<lparr>cur_decode_ids_len := n\<rparr>) = output_ids_through_stop r"
  "shown_prompt (r\<lparr>read_offset := x\<rparr>) = shown_prompt r"
  "shown_prompt (r\<lparr>surr_offset := x\<rparr>) = shown_prompt r"
  "shown_prompt (r\<lparr>surr_and_decode_ids := ids\<rparr>) = shown_prompt r"
  "shown_prompt (r\<lparr>cur_decode_ids_len := n\<rparr>) = shown_prompt r"
  by (simp_all add: output_ids_through_stop_def shown_prompt_def split: option.split)

text \<open>C29. For a request under verification the detokeniser is shown exactly the verified prefix of
  the output, whatever was shown before, and the bookkeeping stays consistent.\<close>

theorem detokenize_shows_verified_prefix:
  assumes "detok_ok r" "llm42_verified_tokens r \<le> length (output_ids_through_stop r)"
  shows "let ((ids, ofs), r') = init_incremental_detokenize True r
         in ids = shown_prompt r @ take (llm42_verified_tokens r) (output_ids_through_stop r)
            \<and> ofs = min INIT_INCREMENTAL_DETOKENIZATION_OFFSET (length (origin_input_ids_unpadded r))
            \<and> detok_ok r' \<and> cur_decode_ids_len r' = llm42_verified_tokens r \<and> output_ids r' = output_ids r"
proof (cases "surr_offset r = None")
  case True
  then show ?thesis
    by (auto simp: init_incremental_detokenize_def Let_def detok_ok_def shown_prompt_def [symmetric])
next
  case False
  with assms(1) have *: "surr_and_decode_ids r =
      shown_prompt r @ take (cur_decode_ids_len r) (output_ids_through_stop r)"
    "cur_decode_ids_len r \<le> llm42_verified_tokens r"
    by (auto simp: detok_ok_def)
  have "take (cur_decode_ids_len r) (output_ids_through_stop r) @
      slice (output_ids_through_stop r) (cur_decode_ids_len r) (llm42_verified_tokens r) =
      take (llm42_verified_tokens r) (output_ids_through_stop r)"
    by (rule take_append_slice) (rule *(2))
  with False assms(1) * show ?thesis
    by (auto simp: init_incremental_detokenize_def Let_def detok_ok_def shown_prompt_def [symmetric])
qed

theorem detokenize_shows_verified_prefix_witness:
  "let r = example_req\<lparr>output_ids := [5, 6, 7], llm42_verified_tokens := 2\<rparr>
   in detok_ok r \<and> fst (fst (init_incremental_detokenize True r)) = [11, 12, 13] @ [5, 6]"
proof -
  let ?r = "example_req\<lparr>output_ids := [5, 6, 7], llm42_verified_tokens := 2\<rparr>"
  have ok: "detok_ok ?r" by (simp add: detok_ok_def example_req_def init_req_def)
  have len: "llm42_verified_tokens ?r \<le> length (output_ids_through_stop ?r)"
    by (simp add: example_req_def init_req_def output_ids_through_stop_def)
  have "shown_prompt ?r = [11, 12, 13]" "output_ids_through_stop ?r = [5, 6, 7]"
    by (simp_all add: example_req_def init_req_def output_ids_through_stop_def shown_prompt_def
        INIT_INCREMENTAL_DETOKENIZATION_OFFSET_def)
  with detokenize_shows_verified_prefix [OF ok len] ok show ?thesis
    by (simp add: Let_def split_beta)
qed

end
