(* ===== verification/Mem_Pools.thy ===== *)
theory Mem_Pools
  imports Allocator Req
begin

text \<open>
  The request-to-token table \<open>ReqToTokenPool\<close> (\<open>mem_cache/memory_pool.py\<close>), the prefix cache
  without prefix sharing \<open>ChunkCache\<close> (\<open>mem_cache/chunk_cache.py\<close>) and \<open>release_kv_cache\<close>
  (\<open>mem_cache/common.py\<close>).  Request objects are shared and mutable: they live in a store, a
  function from references to \<open>req\<close> records, and lists of requests are lists of references.
\<close>

type_synonym ref = nat
type_synonym store = "ref \<Rightarrow> req"

section \<open>The request-to-token table\<close>

text \<open>The int32 tensor of \<open>rt_size\<close> rows and \<open>max_context_len\<close> columns is a function of row and
  column; reads outside its shape raise.\<close>

record req_to_token_pool =
  rt_size :: nat
  max_context_len :: nat
  req_to_token :: "nat \<Rightarrow> nat \<Rightarrow> slot"
  free_slots :: "nat list"

definition rt_init :: "nat \<Rightarrow> nat \<Rightarrow> req_to_token_pool" where
  "rt_init sz ctx =
     \<lparr>rt_size = sz, max_context_len = ctx, req_to_token = (\<lambda>i j. 0), free_slots = [0..<sz]\<rparr>"

definition rt_available_size :: "req_to_token_pool \<Rightarrow> nat" where
  "rt_available_size p = length (free_slots p)"

text \<open>\<open>req_to_token[i, j].item()\<close> and \<open>req_to_token[i, a:b]\<close>.  With \<open>None\<close> in place of the row the
  indexing adds an axis: \<open>.item()\<close> of the resulting row vector raises.\<close>

definition rt_cell :: "req_to_token_pool \<Rightarrow> nat option \<Rightarrow> int \<Rightarrow> slot result" where
  "rt_cell p row j =
     (let k = (if j < 0 then j + int (max_context_len p) else j)
      in case row of None \<Rightarrow> Inl RuntimeError
         | Some i \<Rightarrow> if i < rt_size p \<and> 0 \<le> k \<and> k < int (max_context_len p)
                     then Inr (req_to_token p i (nat k)) else Inl IndexError)"

definition rt_slice :: "req_to_token_pool \<Rightarrow> nat \<Rightarrow> nat \<Rightarrow> nat \<Rightarrow> slot list" where
  "rt_slice p i a b = map (req_to_token p i) [a..<min b (max_context_len p)]"

text \<open>\<open>req_to_token[i, a:a + len(vs)] = vs\<close>.\<close>

definition rt_write :: "req_to_token_pool \<Rightarrow> nat \<Rightarrow> nat \<Rightarrow> slot list \<Rightarrow> req_to_token_pool" where
  "rt_write p i a vs =
     p\<lparr>req_to_token := (\<lambda>i' j. if i' = i \<and> a \<le> j \<and> j < a + length vs then vs ! (j - a)
                               else req_to_token p i' j)\<rparr>"

fun assign_rows :: "store \<Rightarrow> ref list \<Rightarrow> nat list \<Rightarrow> store result" where
  "assign_rows h [] sel = Inr h"
| "assign_rows h (x # xs) sel =
     (if req_pool_idx (h x) = None
      then (case sel of [] \<Rightarrow> Inl IndexError
            | s # ss \<Rightarrow> assign_rows (h(x := (h x)\<lparr>req_pool_idx := Some s\<rparr>)) xs ss)
      else assign_rows h xs sel)"

definition rt_alloc ::
  "req_to_token_pool \<Rightarrow> store \<Rightarrow> ref list \<Rightarrow> (nat option list option \<times> req_to_token_pool \<times> store) result" where
  "rt_alloc p h reqs =
     (let chunked = filter (\<lambda>x. req_pool_idx (h x) \<noteq> None) reqs
      in if \<not> length chunked \<le> 1 then Inl AssertionError
         else if \<not> list_all (\<lambda>x. 0 < is_chunked (h x) \<or> 0 < kv_committed_len (h x)) chunked
         then Inl AssertionError
         else
           (let need_size = length reqs - length chunked
            in if length (free_slots p) < need_size then Inr (None, p, h)
               else bind_result (assign_rows h reqs (take need_size (free_slots p))) (\<lambda>h'.
                      Inr (Some (map (\<lambda>x. req_pool_idx (h' x)) reqs),
                           p\<lparr>free_slots := drop need_size (free_slots p)\<rparr>, h'))))"

definition rt_free :: "req_to_token_pool \<Rightarrow> req \<Rightarrow> (req_to_token_pool \<times> req) result" where
  "rt_free p r =
     (case req_pool_idx r of None \<Rightarrow> Inl AssertionError
      | Some i \<Rightarrow> Inr (p\<lparr>free_slots := free_slots p @ [i]\<rparr>, r\<lparr>req_pool_idx := None\<rparr>))"

definition rt_clear :: "req_to_token_pool \<Rightarrow> req_to_token_pool" where
  "rt_clear p = p\<lparr>free_slots := [0..<rt_size p]\<rparr>"

definition alloc_req_slots ::
  "req_to_token_pool \<Rightarrow> store \<Rightarrow> ref list \<Rightarrow> (nat option list \<times> req_to_token_pool \<times> store) result" where
  "alloc_req_slots p h reqs =
     bind_result (rt_alloc p h reqs) (\<lambda>(ix, p', h').
       case ix of None \<Rightarrow> Inl RuntimeError | Some ixs \<Rightarrow> Inr (ixs, p', h'))"

section \<open>The cache without prefix sharing\<close>

definition chunk_match_prefix :: "token list \<Rightarrow> slot list" where
  "chunk_match_prefix key = []"

text \<open>A slice bound that may be negative is read as Python reads it.\<close>

definition py_bound :: "nat \<Rightarrow> int \<Rightarrow> nat" where
  "py_bound len k = (if k < 0 then len - nat (- k) else min len (nat k))"

text \<open>Both methods index the table with the request's row; a request without a row never reaches
  them (\<open>release_kv_cache\<close> checks it first), and is an error here.\<close>

definition chunk_cache_finished_req ::
  "req_to_token_pool \<Rightarrow> allocator \<Rightarrow> req \<Rightarrow> (allocator \<times> req) result" where
  "chunk_cache_finished_req p a r =
     bind_result (pop_committed_kv_cache r) (\<lambda>(n, r').
       case req_pool_idx r' of None \<Rightarrow> Inl RuntimeError
       | Some i \<Rightarrow>
           (let kv_indices = rt_slice p i 0 (py_bound (max_context_len p) n)
            in if list_all (\<lambda>x. x \<noteq> 0) kv_indices
               then bind_result (free a kv_indices) (\<lambda>a'. Inr (a', r'))
               else
                 (let valid = filter (\<lambda>x. x \<noteq> 0) kv_indices
                  in if 0 < length valid then bind_result (free a valid) (\<lambda>a'. Inr (a', r'))
                     else Inr (a, r'))))"

definition chunk_cache_unfinished_req :: "req_to_token_pool \<Rightarrow> req \<Rightarrow> req result" where
  "chunk_cache_unfinished_req p r =
     (case req_pool_idx r of None \<Rightarrow> Inl RuntimeError
      | Some i \<Rightarrow> Inr (r\<lparr>prefix_indices := rt_slice p i 0 (length (fill_ids r))\<rparr>))"

section \<open>Releasing a request's KV cache\<close>

definition ceil_align_int :: "int \<Rightarrow> int \<Rightarrow> int" where
  "ceil_align_int x p = (x + p - 1) div p * p"

definition release_kv_cache ::
  "bool \<Rightarrow> req_to_token_pool \<Rightarrow> allocator \<Rightarrow> req \<Rightarrow> (req_to_token_pool \<times> allocator \<times> req) result" where
  "release_kv_cache spec p a r =
     (case req_pool_idx r of None \<Rightarrow> Inl AssertionError
      | Some i \<Rightarrow>
          bind_result (chunk_cache_finished_req p a r) (\<lambda>(a1, r1).
          bind_result (pop_overallocated_kv_cache r1) (\<lambda>((start0, end_p), r2).
            if \<not> spec \<and> start0 \<noteq> end_p then Inl AssertionError
            else
              (let start_p = (if 1 < page_size a then ceil_align_int start0 (int (page_size a)) else start0);
                   valid = (if start_p < end_p
                            then filter (\<lambda>x. x \<noteq> 0)
                                   (rt_slice p i (py_bound (max_context_len p) start_p)
                                      (py_bound (max_context_len p) end_p))
                            else [])
               in bind_result (if 0 < length valid then free a1 valid else Inr a1) (\<lambda>a2.
                  bind_result (rt_free p r2) (\<lambda>(p', r3). Inr (p', a2, r3)))))))"

end
