(* ===== verification/Batch.thy ===== *)
theory Batch
  imports Mem_Pools
begin

text \<open>
  The data of a scheduled batch: \<open>ForwardMode\<close> (\<open>model_executor/forward_batch_info.py\<close>), the batched
  sampling parameters (\<open>sampling/sampling_batch_info.py\<close>) and the fields of \<open>ScheduleBatch\<close>
  (\<open>managers/schedule_batch.py\<close>) the modelled operations use.  The sampling record has the tensors of
  the sampling parameters and the logit bias; penalizers, custom logit processors and vocabulary masks are
  not part of it.
\<close>

section \<open>Forward modes\<close>

datatype forward_mode =
    EXTEND | DECODE | MIXED | IDLE | TARGET_VERIFY | TARGET_LLM42_VERIFY | DRAFT_EXTEND
  | DRAFT_EXTEND_V2 | PREBUILT | SPLIT_PREFILL | DLLM_EXTEND

definition is_extend :: "bool \<Rightarrow> forward_mode \<Rightarrow> bool" where
  "is_extend include_draft_extend_v2 m =
     (m = EXTEND \<or> m = MIXED \<or> m = DRAFT_EXTEND \<or> (include_draft_extend_v2 \<and> m = DRAFT_EXTEND_V2)
      \<or> m = TARGET_VERIFY \<or> m = TARGET_LLM42_VERIFY \<or> m = SPLIT_PREFILL \<or> m = DLLM_EXTEND)"

definition is_prefill :: "forward_mode \<Rightarrow> bool" where
  "is_prefill m = is_extend False m"

definition is_context_parallel_extend :: "bool \<Rightarrow> forward_mode \<Rightarrow> bool" where
  "is_context_parallel_extend include_draft_extend_v2 m =
     (m = EXTEND \<or> m = MIXED \<or> (if include_draft_extend_v2 then m = DRAFT_EXTEND_V2 else False))"

definition is_decode :: "forward_mode \<Rightarrow> bool" where
  "is_decode m = (m = DECODE)"

definition is_mixed :: "forward_mode \<Rightarrow> bool" where
  "is_mixed m = (m = MIXED)"

definition is_idle :: "forward_mode \<Rightarrow> bool" where
  "is_idle m = (m = IDLE)"

definition is_decode_or_idle :: "forward_mode \<Rightarrow> bool" where
  "is_decode_or_idle m = (m = DECODE \<or> m = IDLE)"

definition is_target_verify :: "forward_mode \<Rightarrow> bool" where
  "is_target_verify m = (m = TARGET_VERIFY)"

definition is_target_llm42_verify :: "forward_mode \<Rightarrow> bool" where
  "is_target_llm42_verify m = (m = TARGET_LLM42_VERIFY)"

definition is_draft_extend :: "bool \<Rightarrow> forward_mode \<Rightarrow> bool" where
  "is_draft_extend include_v2 m = (m = DRAFT_EXTEND \<or> (include_v2 \<and> m = DRAFT_EXTEND_V2))"

definition is_extend_or_draft_extend_or_mixed :: "bool \<Rightarrow> forward_mode \<Rightarrow> bool" where
  "is_extend_or_draft_extend_or_mixed include_draft_extend_v2 m =
     (m = EXTEND \<or> m = DRAFT_EXTEND \<or> m = MIXED \<or> m = SPLIT_PREFILL \<or> m = TARGET_LLM42_VERIFY
      \<or> (include_draft_extend_v2 \<and> m = DRAFT_EXTEND_V2))"

definition is_cuda_graph :: "forward_mode \<Rightarrow> bool" where
  "is_cuda_graph m = (m = DECODE \<or> m = TARGET_VERIFY \<or> m = IDLE \<or> m = DLLM_EXTEND)"

definition is_extend_without_speculative :: "forward_mode \<Rightarrow> bool" where
  "is_extend_without_speculative m =
     (is_extend False m \<and> \<not> is_target_verify m \<and> \<not> is_draft_extend False m)"

section \<open>Batched sampling parameters\<close>

record sampling_batch_info =
  temperatures :: "real list"
  top_ps :: "real list"
  top_ks :: "int list"
  min_ps :: "real list"
  is_any_deterministic :: bool
  deterministic_indices :: "int list option"
  is_all_greedy :: bool
  need_top_p_sampling :: bool
  need_top_k_sampling :: bool
  need_min_p_sampling :: bool
  si_sampling_seed :: "int list option"
  force_pytorch_backend :: bool
  si_logit_bias :: "(token \<Rightarrow> real) list option"

text \<open>A row of the logit-bias tensor: zero except at the tokens a request names.  \<open>SamplingParams.verify\<close> has
  checked that the keys are token ids.\<close>

definition bias_row :: "sampling_params \<Rightarrow> token \<Rightarrow> real" where
  "bias_row p =
     (case logit_bias p of None \<Rightarrow> (\<lambda>t. 0)
      | Some kvs \<Rightarrow> fold (\<lambda>(k, v) row. case k of None \<Rightarrow> row | Some t \<Rightarrow> row(t := v)) kvs (\<lambda>t. 0))"

text \<open>\<open>enable_deterministic\<close> is the server-wide switch: deterministic inference or LLM-42.\<close>

definition from_schedule_batch :: "bool \<Rightarrow> req list \<Rightarrow> sampling_batch_info" where
  "from_schedule_batch enable_deterministic reqs =
     (let ps = map sampling_params reqs
      in \<lparr>temperatures = map temperature ps, top_ps = map top_p ps, top_ks = map top_k ps,
          min_ps = map min_p ps,
          is_any_deterministic = list_ex sp_is_deterministic ps,
          deterministic_indices = Some (map (\<lambda>p. of_bool (sp_is_deterministic p)) ps),
          is_all_greedy = list_all (\<lambda>p. top_k p \<le> 1) ps,
          need_top_p_sampling = list_ex (\<lambda>p. top_p p \<noteq> 1) ps,
          need_top_k_sampling = list_ex (\<lambda>p. top_k p \<noteq> TOP_K_ALL) ps,
          need_min_p_sampling = list_ex (\<lambda>p. 0 < min_p p) ps,
          si_sampling_seed =
            (if enable_deterministic
             then Some (map (\<lambda>p. case sampling_seed p of Some s \<Rightarrow> s | None \<Rightarrow> 42) ps) else None),
          force_pytorch_backend = False,
          si_logit_bias = (if list_ex (\<lambda>p. logit_bias p \<noteq> None) ps then Some (map bias_row ps) else None)\<rparr>)"

section \<open>The batch\<close>

record schedule_batch =
  b_reqs :: "ref list"
  b_batch_is_full :: bool
  b_forward_mode :: "forward_mode option"
  b_input_ids :: "token list option"
  b_req_pool_indices :: "nat list option"
  b_seq_lens :: "int list option"
  b_seq_lens_cpu :: "int list option"
  b_orig_seq_lens :: "int list option"
  b_out_cache_loc :: "slot list option"
  b_output_ids :: "token list option"
  b_seq_lens_sum :: int
  b_prefix_lens :: "int list"
  b_extend_lens :: "int list"
  b_extend_num_tokens :: nat
  b_extend_logprob_start_lens :: "int list"
  b_return_logprob :: bool
  b_top_logprobs_nums :: "nat list option"
  b_token_ids_logprobs :: "token list option list option"
  b_decoding_reqs :: "ref list option"
  b_sampling_info :: "sampling_batch_info option"
  b_extend_input_logprob_token_ids :: "token list option"
  b_chunked_req :: "ref option"
  b_has_stream :: bool
  b_has_grammar :: bool
  b_is_prefill_only :: bool
  b_enable_overlap :: bool

definition new_batch :: "ref list \<Rightarrow> bool \<Rightarrow> schedule_batch" where
  "new_batch reqs full =
     \<lparr>b_reqs = reqs, b_batch_is_full = full, b_forward_mode = None, b_input_ids = None,
      b_req_pool_indices = None, b_seq_lens = None, b_seq_lens_cpu = None, b_orig_seq_lens = None,
      b_out_cache_loc = None, b_output_ids = None, b_seq_lens_sum = 0, b_prefix_lens = [],
      b_extend_lens = [], b_extend_num_tokens = 0, b_extend_logprob_start_lens = [],
      b_return_logprob = False, b_top_logprobs_nums = None, b_token_ids_logprobs = None,
      b_decoding_reqs = None, b_sampling_info = None, b_extend_input_logprob_token_ids = None,
      b_chunked_req = None, b_has_stream = False, b_has_grammar = False, b_is_prefill_only = False,
      b_enable_overlap = False\<rparr>"

section \<open>Tensor helpers\<close>

text \<open>\<open>torch.repeat_interleave\<close>: one repeat count per element, a single count for all, or an error.\<close>

definition repeat_interleave :: "'a list \<Rightarrow> int list \<Rightarrow> 'a list result" where
  "repeat_interleave xs counts =
     (if list_ex (\<lambda>c. c < 0) counts then Inl RuntimeError
      else if length counts = length xs
      then Inr (concat (map (\<lambda>(x, c). replicate (nat c) x) (zip xs counts)))
      else if length counts = 1 then Inr (concat (map (replicate (nat (hd counts))) xs))
      else Inl RuntimeError)"

lemma repeat_interleave_ok:
  "length counts = length xs \<Longrightarrow>
   repeat_interleave xs (map int counts) = Inr (concat (map (\<lambda>(x, c). replicate c x) (zip xs counts)))"
  by (auto simp: repeat_interleave_def list_ex_iff zip_map2 intro!: arg_cong [where f = concat])

lemma length_repeat_interleave:
  "length counts = length xs \<Longrightarrow>
   length (concat (map (\<lambda>(x, c). replicate c x) (zip xs counts))) = sum_list counts"
  by (induction xs counts rule: list_induct2') auto

section \<open>The verification mode among the forward modes\<close>

text \<open>The replay runs as an extend outside speculative decoding and is never captured in a CUDA
  graph.\<close>

lemma llm42_verify_is_plain_extend [simp]:
  "is_extend b TARGET_LLM42_VERIFY" "is_extend_without_speculative TARGET_LLM42_VERIFY"
  "is_extend_or_draft_extend_or_mixed b TARGET_LLM42_VERIFY" "\<not> is_cuda_graph TARGET_LLM42_VERIFY"
  "\<not> is_decode_or_idle TARGET_LLM42_VERIFY"
  by (simp_all add: is_extend_def is_extend_without_speculative_def is_cuda_graph_def
      is_extend_or_draft_extend_or_mixed_def is_decode_or_idle_def is_target_verify_def is_draft_extend_def)

end
