(* ===== verification/LLM42_Info.thy ===== *)
theory LLM42_Info
  imports Batch
begin

text \<open>
  The class \<open>LLM42Info\<close> of \<open>llm42/llm42_info.py\<close>: the bookkeeping of one verification pass.
  \<open>from_requests\<close> collects the unverified tokens and pads them to the window,
  \<open>prepare_verify_batch\<close> lays out the inputs and KV-cache locations of the replay, and
  \<open>verify_and_compare\<close> finds the first mismatch and rolls a request back.  The theorems say that the
  layout replays exactly the request's own tokens at its own cache locations, and what the
  comparison does to a request on every branch.
\<close>

section \<open>Metadata of a pass\<close>

record llm42_info =
  original_outputs :: "token list"
  output_lens :: "nat list"
  padded_lens :: "nat list"
  padding_masks :: "bool list list"
  padding_counts :: "nat list"
  num_real_requests :: nat
  num_dummy_requests :: nat
  padding_cache_slots :: "nat list"
  total_padding_cache_slots :: nat
  padding_cache_locs :: "slot list option"
  padding_cache_locs_allocated :: "slot list option"

definition DUMMY_TOKEN_ID :: token where
  "DUMMY_TOKEN_ID = 32"

definition init_info ::
  "token list \<Rightarrow> nat list \<Rightarrow> nat list \<Rightarrow> bool list list \<Rightarrow> nat list \<Rightarrow> llm42_info" where
  "init_info outs olens plens masks counts =
     (let slots = map (\<lambda>n. n - 1) plens
      in \<lparr>original_outputs = outs, output_lens = olens, padded_lens = plens,
          padding_masks = masks, padding_counts = counts,
          num_real_requests = length olens, num_dummy_requests = 0,
          padding_cache_slots = slots, total_padding_cache_slots = sum_list slots,
          padding_cache_locs = None, padding_cache_locs_allocated = None\<rparr>)"

definition append_dummy_entries :: "nat \<Rightarrow> nat \<Rightarrow> llm42_info \<Rightarrow> llm42_info" where
  "append_dummy_entries num_dummies window_size info =
     info\<lparr>output_lens := output_lens info @ replicate num_dummies 0,
          padded_lens := padded_lens info @ replicate num_dummies window_size,
          padding_masks := padding_masks info @ replicate num_dummies (replicate window_size False),
          padding_counts := padding_counts info @ replicate num_dummies window_size,
          num_dummy_requests := num_dummies\<rparr>"

section \<open>Collecting the unverified tokens\<close>

record entry =
  e_outputs :: "token list"
  e_output_len :: nat
  e_padded_len :: nat
  e_pmask :: "bool list"
  e_count :: nat

text \<open>The body of the loop of \<open>from_requests\<close> for one request; \<open>None\<close> is its \<open>continue\<close>.\<close>

definition request_entry :: "bool \<Rightarrow> bool \<Rightarrow> nat option \<Rightarrow> req \<Rightarrow> entry option" where
  "request_entry always_align force_include_all window_size r =
     (let unverified = drop (llm42_verified_tokens r) (output_ids r);
          len0 = length unverified
      in if len0 = 0 then None
         else
           (let truncate = (force_include_all \<and>
                  (case window_size of Some w \<Rightarrow> w < len0 | None \<Rightarrow> False));
                toks = (if truncate then take (the window_size) unverified else unverified);
                actual_len = (if truncate then the window_size else len0);
                is_finished = (finished_reason r \<noteq> None);
                should_pad = (always_align \<and>
                  (case window_size of Some w \<Rightarrow> actual_len < w | None \<Rightarrow> False) \<and>
                  (is_finished \<or> force_include_all))
            in if should_pad
               then (let padding_needed = the window_size - actual_len
                     in Some \<lparr>e_outputs = toks @ replicate padding_needed DUMMY_TOKEN_ID,
                              e_output_len = actual_len, e_padded_len = the window_size,
                              e_pmask = replicate actual_len True @ replicate padding_needed False,
                              e_count = padding_needed\<rparr>)
               else Some \<lparr>e_outputs = toks, e_output_len = actual_len, e_padded_len = actual_len,
                          e_pmask = replicate actual_len True, e_count = 0\<rparr>))"

definition from_requests :: "bool \<Rightarrow> bool \<Rightarrow> nat option \<Rightarrow> req list \<Rightarrow> llm42_info" where
  "from_requests always_align force_include_all window_size reqs =
     (let es = List.map_filter (request_entry always_align force_include_all window_size) reqs
      in init_info (concat (map e_outputs es)) (map e_output_len es) (map e_padded_len es)
           (map e_pmask es) (map e_count es))"

section \<open>Padding slots\<close>

definition set_padding_cache_locs :: "slot list \<Rightarrow> llm42_info \<Rightarrow> llm42_info" where
  "set_padding_cache_locs locs info =
     info\<lparr>padding_cache_locs := Some (take (total_padding_cache_slots info) locs),
          padding_cache_locs_allocated := None\<rparr>"

text \<open>Without slots the padding is taken out again.\<close>

fun strip_padding :: "token list \<Rightarrow> nat \<Rightarrow> nat list \<Rightarrow> nat list \<Rightarrow> token list" where
  "strip_padding outs offset (p # ps) (n # ns) =
     slice outs offset (offset + n) @ strip_padding outs (offset + p) ps ns"
| "strip_padding outs offset _ _ = []"

definition remove_padding :: "llm42_info \<Rightarrow> llm42_info" where
  "remove_padding info =
     info\<lparr>original_outputs := strip_padding (original_outputs info) 0 (padded_lens info) (output_lens info),
          padded_lens := output_lens info,
          padding_counts := replicate (length (padding_counts info)) 0,
          padding_cache_slots := replicate (length (padding_cache_slots info)) 0,
          padding_masks := map (\<lambda>n. replicate n True) (output_lens info),
          total_padding_cache_slots := 0\<rparr>"

definition allocate_padding_kv_cache ::
  "allocator \<Rightarrow> llm42_info \<Rightarrow> (bool \<times> allocator \<times> llm42_info) result" where
  "allocate_padding_kv_cache a info =
     (if total_padding_cache_slots info = 0 then Inr (True, a, info)
      else
        (let total = total_padding_cache_slots info;
             slots_to_allocate = (if 1 < page_size a then ceil_align total (page_size a) else total)
         in bind_result (alloc a slots_to_allocate) (\<lambda>(allocated, a').
              (let locs = (case allocated of
                             Some xs \<Rightarrow> if 0 < length xs
                                then (if total < length xs then Some (take total xs) else Some xs)
                                else None
                           | None \<Rightarrow> None);
                   info1 = info\<lparr>padding_cache_locs_allocated := allocated, padding_cache_locs := locs\<rparr>
               in if locs = None \<or> locs = Some [] then Inr (False, a', remove_padding info1)
                  else Inr (True, a', info1)))))"

definition free_padding_kv_cache :: "allocator \<Rightarrow> llm42_info \<Rightarrow> (allocator \<times> llm42_info) result" where
  "free_padding_kv_cache a info =
     (case padding_cache_locs_allocated info of
        Some xs \<Rightarrow>
          if 0 < length xs
          then bind_result (free a xs) (\<lambda>a'.
                 Inr (a', info\<lparr>padding_cache_locs_allocated := None, padding_cache_locs := None\<rparr>))
          else Inr (a, info)
      | None \<Rightarrow> Inr (a, info))"

section \<open>Building the verification batch\<close>

subsection \<open>The input tokens\<close>

text \<open>The last verified token, or the last prompt token.  \<open>Req\<close> has no attribute \<open>input_ids\<close>: the
  third alternative of the source raises.\<close>

definition context_token :: "req \<Rightarrow> token result" where
  "context_token r =
     (if 0 < llm42_verified_tokens r then py_nth (output_ids r) (llm42_verified_tokens r - 1)
      else if origin_input_ids r \<noteq> [] then Inr (last (origin_input_ids r))
      else Inl AttributeError)"

record replay_row =
  row_pool_idx :: nat
  row_len :: nat
  row_prefix_len :: int

text \<open>One round of the first loop: the input tokens of request \<open>i\<close>, and its row unless the request
  has lost its table row.\<close>

definition verify_input :: "llm42_info \<Rightarrow> nat \<Rightarrow> req \<Rightarrow> (token list \<times> replay_row option) result" where
  "verify_input info i r =
     (let actual_unverified = drop (llm42_verified_tokens r) (output_ids r)
      in bind_result (py_nth (padded_lens info) i) (\<lambda>padded_len.
         bind_result (py_nth (output_lens info) i) (\<lambda>actual_len.
           if padded_len = 0 then Inr ([], None)
           else bind_result (context_token r) (\<lambda>ctx.
             (let tokens =
                (if actual_len < padded_len
                 then (let after = (if 1 < actual_len then butlast actual_unverified else [])
                       in after @ replicate (padded_len - 1 - length after) DUMMY_TOKEN_ID)
                 else butlast actual_unverified)
              in case req_pool_idx r of
                   None \<Rightarrow> Inr (ctx # tokens, None)
                 | Some row \<Rightarrow>
                     Inr (ctx # tokens,
                          Some \<lparr>row_pool_idx = row, row_len = padded_len,
                                row_prefix_len = int (length (origin_input_ids r))
                                  + int (llm42_verified_tokens r) - 1\<rparr>))))))"

fun verify_inputs :: "llm42_info \<Rightarrow> nat \<Rightarrow> req list \<Rightarrow> (token list \<times> replay_row list) result" where
  "verify_inputs info i [] = Inr ([], [])"
| "verify_inputs info i (r # rs) =
     bind_result (verify_input info i r) (\<lambda>(toks, row).
     bind_result (verify_inputs info (Suc i) rs) (\<lambda>(toks', rows).
       Inr (toks @ toks', (case row of Some x \<Rightarrow> x # rows | None \<Rightarrow> rows))))"

subsection \<open>The KV-cache locations\<close>

text \<open>One round of the second loop: the cache locations of request \<open>i\<close> and the offset into the
  padding slots.\<close>

definition verify_locs ::
  "llm42_info \<Rightarrow> req_to_token_pool \<Rightarrow> nat \<Rightarrow> req \<Rightarrow> nat \<Rightarrow> (slot list \<times> nat) result" where
  "verify_locs info p i r padding_offset =
     (let current_seq_len = int (length (origin_input_ids r)) + int (length (output_ids r)) - 1;
          context_idx = int (length (origin_input_ids r)) + int (llm42_verified_tokens r) - 1
      in bind_result (py_nth (output_lens info) i) (\<lambda>actual_len.
         bind_result (py_nth (padded_lens info) i) (\<lambda>padded_len.
         bind_result (py_nth (padding_counts info) i) (\<lambda>padding_count.
           if current_seq_len \<le> context_idx then Inl RuntimeError
           else bind_result (rt_cell p (req_pool_idx r) context_idx) (\<lambda>context_loc.
             (let start_idx = int (length (origin_input_ids r)) + int (llm42_verified_tokens r);
                  num_after = int padded_len - 1;
                  end_idx = min (start_idx + num_after) current_seq_len;
                  own = (if start_idx < end_idx
                         then rt_slice p (the (req_pool_idx r)) (nat start_idx) (nat end_idx) else []);
                  remaining = num_after - (end_idx - start_idx)
              in case padding_cache_locs info of
                   Some locs \<Rightarrow>
                     if 0 < remaining
                     then Inr (context_loc # own @ slice locs padding_offset (padding_offset + nat remaining),
                               padding_offset + nat remaining)
                     else Inr (context_loc # own, padding_offset)
                 | None \<Rightarrow> Inr (context_loc # own, padding_offset)))))))"

fun verify_all_locs ::
  "llm42_info \<Rightarrow> req_to_token_pool \<Rightarrow> nat \<Rightarrow> nat \<Rightarrow> req list \<Rightarrow> slot list result" where
  "verify_all_locs info p i off [] = Inr []"
| "verify_all_locs info p i off (r # rs) =
     bind_result (verify_locs info p i r off) (\<lambda>(locs, off').
     bind_result (verify_all_locs info p (Suc i) off' rs) (\<lambda>locs'. Inr (locs @ locs')))"

subsection \<open>The sampling parameters\<close>

definition interleave_option :: "'a list option \<Rightarrow> int list \<Rightarrow> 'a list option result" where
  "interleave_option xs counts =
     (case xs of None \<Rightarrow> Inr None
      | Some ys \<Rightarrow> bind_result (repeat_interleave ys counts) (\<lambda>zs. Inr (Some zs)))"

text \<open>Every request's parameters are repeated once per replayed token, and the PyTorch sampling
  backend is forced.\<close>

definition interleave_sampling :: "sampling_batch_info \<Rightarrow> int list \<Rightarrow> sampling_batch_info result" where
  "interleave_sampling si counts =
     bind_result (repeat_interleave (temperatures si) counts) (\<lambda>ts.
     bind_result (repeat_interleave (top_ks si) counts) (\<lambda>ks.
     bind_result (repeat_interleave (top_ps si) counts) (\<lambda>ps.
     bind_result (repeat_interleave (min_ps si) counts) (\<lambda>ms.
     bind_result (interleave_option (si_sampling_seed si) counts) (\<lambda>seeds.
     bind_result (interleave_option (deterministic_indices si) counts) (\<lambda>det.
       Inr (si\<lparr>force_pytorch_backend := True, temperatures := ts, top_ks := ks, top_ps := ps,
               min_ps := ms, si_sampling_seed := seeds, deterministic_indices := det\<rparr>)))))))"

record dummy_sampling =
  ds_temps :: "real list"
  ds_top_ps :: "real list"
  ds_top_ks :: "int list"
  ds_min_ps :: "real list"
  ds_seeds :: "int list"
  ds_det_indices :: "int list"
  ds_prefix_lens :: "int list"
  ds_output_lens :: "int list"

record dummy_args =
  d_input_ids :: "token list option"
  d_cache_locs :: "slot list option"
  d_req_pool_indices :: "nat list option"
  d_num_dummies :: nat
  d_window_size :: "nat option"
  d_sampling :: "dummy_sampling option"

text \<open>The arguments of a call without dummies.\<close>

definition no_dummies :: dummy_args where
  "no_dummies =
     \<lparr>d_input_ids = None, d_cache_locs = None, d_req_pool_indices = None, d_num_dummies = 0,
      d_window_size = None, d_sampling = None\<rparr>"

text \<open>The dummy sampling values: the pre-allocated tensors, or the fallback made on the spot.\<close>

definition dummy_sampling_values :: "dummy_args \<Rightarrow> nat \<Rightarrow> dummy_sampling" where
  "dummy_sampling_values d w =
     (case d_sampling d of
        Some t \<Rightarrow> t
      | None \<Rightarrow>
          (let n = d_num_dummies d * w
           in \<lparr>ds_temps = replicate n 0, ds_top_ps = replicate n 1, ds_top_ks = replicate n (-1),
               ds_min_ps = replicate n 0, ds_seeds = replicate n 0, ds_det_indices = replicate n 1,
               ds_prefix_lens = replicate (d_num_dummies d) 0,
               ds_output_lens = replicate (d_num_dummies d) (int w)\<rparr>))"

definition append_dummy_sampling :: "dummy_sampling \<Rightarrow> sampling_batch_info \<Rightarrow> sampling_batch_info" where
  "append_dummy_sampling t si =
     si\<lparr>temperatures := temperatures si @ ds_temps t, top_ps := top_ps si @ ds_top_ps t,
        top_ks := top_ks si @ ds_top_ks t, min_ps := min_ps si @ ds_min_ps t,
        si_sampling_seed := map_option (\<lambda>s. s @ ds_seeds t) (si_sampling_seed si),
        deterministic_indices := map_option (\<lambda>s. s @ ds_det_indices t) (deterministic_indices si)\<rparr>"

subsection \<open>The batch\<close>

text \<open>Length-dependent fields, as the three places of the source fill them.\<close>

definition set_lens :: "nat \<Rightarrow> int list \<Rightarrow> int list \<Rightarrow> token list \<Rightarrow> schedule_batch \<Rightarrow> schedule_batch" where
  "set_lens n extend_lens prefix_lens input_ids b =
     (let total = map2 (+) prefix_lens extend_lens
      in b\<lparr>b_extend_lens := extend_lens, b_prefix_lens := prefix_lens,
           b_seq_lens := Some total, b_seq_lens_cpu := Some total, b_orig_seq_lens := Some total,
           b_extend_logprob_start_lens := replicate n 1, b_extend_num_tokens := length input_ids,
           b_seq_lens_sum := sum_list total, b_top_logprobs_nums := Some (replicate n 0),
           b_token_ids_logprobs := Some (replicate n (Some []))\<rparr>)"

definition finish_real :: "nat \<Rightarrow> token list \<Rightarrow> slot list \<Rightarrow> replay_row list \<Rightarrow> schedule_batch \<Rightarrow> schedule_batch" where
  "finish_real n input_ids locs rows b =
     set_lens n (map (int \<circ> row_len) rows) (map row_prefix_len rows) input_ids
       (b\<lparr>b_input_ids := Some input_ids, b_out_cache_loc := Some locs,
          b_req_pool_indices := Some (map row_pool_idx rows)\<rparr>)"

definition finish_dummies ::
  "nat \<Rightarrow> dummy_args \<Rightarrow> nat \<Rightarrow> token list \<Rightarrow> slot list \<Rightarrow> token list \<Rightarrow> slot list \<Rightarrow> replay_row list \<Rightarrow>
   schedule_batch \<Rightarrow> schedule_batch" where
  "finish_dummies n d w dummy_ids dummy_locs input_ids locs rows b =
     (let needed = d_num_dummies d * w;
          all_ids = input_ids @ take needed dummy_ids;
          rows_ix = map row_pool_idx rows;
          dummy_ix = (case d_req_pool_indices d of
                        Some ix \<Rightarrow> take (d_num_dummies d) ix
                      | None \<Rightarrow> replicate (d_num_dummies d) (case rows_ix of i # _ \<Rightarrow> i | [] \<Rightarrow> 0));
          t = dummy_sampling_values d w
      in set_lens (n + d_num_dummies d) (map (int \<circ> row_len) rows @ ds_output_lens t)
           (map row_prefix_len rows @ ds_prefix_lens t) all_ids
           (b\<lparr>b_input_ids := Some all_ids, b_out_cache_loc := Some (locs @ take needed dummy_locs),
              b_req_pool_indices := Some (rows_ix @ dummy_ix),
              b_sampling_info := map_option (append_dummy_sampling t) (b_sampling_info b)\<rparr>))"

definition prepare_verify_batch ::
  "bool \<Rightarrow> llm42_info \<Rightarrow> req_to_token_pool \<Rightarrow> store \<Rightarrow> ref list \<Rightarrow> dummy_args \<Rightarrow> schedule_batch result" where
  "prepare_verify_batch enable_deterministic info p h refs d =
     (let reqs = map h refs;
          n = length refs;
          b0 = (new_batch refs True)\<lparr>b_forward_mode := Some TARGET_LLM42_VERIFY, b_return_logprob := True\<rparr>
      in bind_result (verify_inputs info 0 reqs) (\<lambda>(input_ids, rows).
         bind_result (interleave_sampling (from_schedule_batch enable_deterministic reqs)
                        (map (int \<circ> row_len) rows)) (\<lambda>si.
         bind_result (verify_all_locs info p 0 0 reqs) (\<lambda>locs.
           (let b1 = b0\<lparr>b_sampling_info := Some si\<rparr>
            in bind_result
                 (case (d_num_dummies d, d_input_ids d, d_cache_locs d) of
                    (Suc _, Some ids, Some dlocs) \<Rightarrow>
                      (case d_window_size d of
                         None \<Rightarrow> Inl ValueError
                       | Some w \<Rightarrow> Inr (finish_dummies n d w ids dlocs input_ids locs rows b1))
                  | _ \<Rightarrow> Inr (finish_real n input_ids locs rows b1))
                 (\<lambda>b. if map_option length (b_out_cache_loc b) \<noteq> map_option length (b_input_ids b)
                      then Inl RuntimeError else Inr b))))))"

section \<open>Comparison and rollback\<close>

definition first_mismatch_position :: "token list \<Rightarrow> token list \<Rightarrow> nat" where
  "first_mismatch_position original verified =
     (let min_len = min (length original) (length verified)
      in if min_len = 0 then 0
         else (case filter (\<lambda>i. take min_len original ! i \<noteq> take min_len verified ! i) [0..<min_len] of
                 i # _ \<Rightarrow> i
               | [] \<Rightarrow> min_len))"

text \<open>\<open>[xs[offset + j] for j in range(n) if mask[j]]\<close>.\<close>

definition masked :: "'a list \<Rightarrow> nat \<Rightarrow> nat \<Rightarrow> bool list \<Rightarrow> 'a list result" where
  "masked xs offset n pmask =
     bind_result
       (map_result (\<lambda>j. bind_result (py_nth pmask j) (\<lambda>b.
          if b then bind_result (py_nth xs (offset + j)) (\<lambda>x. Inr [x]) else Inr [])) [0..<n])
       (\<lambda>xss. Inr (concat xss))"

text \<open>The position and the number of tokens to roll back.  With a mismatch percentage the code computes
  \<open>math.ceil(pct / 100.0 * window)\<close> in double precision: \<open>fl\<close> rounds a real to a double.\<close>

definition rollback_point :: "(real \<Rightarrow> real) \<Rightarrow> real option \<Rightarrow> token list \<Rightarrow> token list \<Rightarrow> int \<times> int" where
  "rollback_point fl pct orig ver =
     (let pos = first_mismatch_position orig ver
      in case pct of
           Some q \<Rightarrow>
             if 0 < length orig
             then (let n = \<lceil>fl (fl (q / 100) * real (length orig))\<rceil>
                   in (int (length orig) - n, n))
             else (int pos, int (length orig) - int pos)
         | None \<Rightarrow> (int pos, int (length orig) - int pos))"

definition replace_logprobs :: "nat \<Rightarrow> real list option \<Rightarrow> token list \<Rightarrow> req \<Rightarrow> req" where
  "replace_logprobs actual_len lps toks r =
     (case (lps, output_token_logprobs_val r) of
        (Some ls, Some vals) \<Rightarrow>
          r\<lparr>output_token_logprobs_val := Some (drop_tail vals actual_len @ ls),
            output_token_logprobs_idx :=
              map_option (\<lambda>ix. drop_tail ix actual_len @ toks) (output_token_logprobs_idx r)\<rparr>
      | _ \<Rightarrow> r)"

definition append_logprob :: "real option \<Rightarrow> token \<Rightarrow> req \<Rightarrow> req" where
  "append_logprob lp t r =
     (case (lp, output_token_logprobs_val r) of
        (Some l, Some vals) \<Rightarrow>
          r\<lparr>output_token_logprobs_val := Some (vals @ [l]),
            output_token_logprobs_idx := map_option (\<lambda>ix. ix @ [t]) (output_token_logprobs_idx r)\<rparr>
      | _ \<Rightarrow> r)"

definition sync_logprob_offset :: "real list option \<Rightarrow> req \<Rightarrow> req" where
  "sync_logprob_offset lps r =
     (case (lps, output_token_logprobs_val r) of
        (Some ls, Some vals) \<Rightarrow> r\<lparr>send_output_token_logprobs_offset := length vals\<rparr>
      | _ \<Rightarrow> r)"

text \<open>One round of the loop of \<open>verify_and_compare\<close>: \<open>orig\<close>, \<open>ver\<close> and \<open>lps\<close> are the real tokens of the
  window, the verifier's tokens and log-probabilities.\<close>

definition compare_req ::
  "(real \<Rightarrow> real) \<Rightarrow> real option \<Rightarrow> nat \<Rightarrow> token list \<Rightarrow> token list \<Rightarrow> real list option \<Rightarrow> req \<Rightarrow>
   (req \<times> int \<times> int) result" where
  "compare_req fl pct actual_len orig ver lps r =
     (let (pos, n) = rollback_point fl pct orig ver
      in if 0 < n then
           (let r1 = r\<lparr>output_ids := drop_tail (output_ids r) (nat n)\<rparr>;
                r2 = replace_logprobs actual_len (map_option (\<lambda>ls. take_int ls pos) lps) (take_int ver pos) r1;
                r3 = r2\<lparr>finished_reason := None\<rparr>
            in if pos < int (length ver) then
                 bind_result (py_item ver pos) (\<lambda>t.
                 bind_result (case lps of None \<Rightarrow> Inr None
                              | Some ls \<Rightarrow> bind_result (py_item ls pos) (\<lambda>l. Inr (Some l))) (\<lambda>lp.
                   Inr (sync_logprob_offset lps
                          (append_logprob lp t (r3\<lparr>output_ids := output_ids r3 @ [t]\<rparr>)), pos, n - 1)))
               else Inr (sync_logprob_offset lps r3, pos, n))
         else Inr (sync_logprob_offset lps (replace_logprobs actual_len lps ver r), pos, 0))"

text \<open>The loop body with the extraction of the window of request \<open>i\<close>.\<close>

definition compare_at ::
  "(real \<Rightarrow> real) \<Rightarrow> real option \<Rightarrow> llm42_info \<Rightarrow> token list \<Rightarrow> real list option \<Rightarrow> nat \<Rightarrow> nat \<Rightarrow> req \<Rightarrow>
   (req \<times> (int \<times> int) \<times> nat) result" where
  "compare_at fl pct info ids lps i offset r =
     bind_result (py_nth (padded_lens info) i) (\<lambda>padded_len.
     bind_result (py_nth (output_lens info) i) (\<lambda>actual_len.
     bind_result (py_nth (padding_masks info) i) (\<lambda>pmask.
     bind_result (masked (original_outputs info) offset padded_len pmask) (\<lambda>orig.
     bind_result (masked (slice ids offset (offset + padded_len)) 0 padded_len pmask) (\<lambda>ver.
     bind_result (case lps of None \<Rightarrow> Inr None
                  | Some ls \<Rightarrow> bind_result (masked (slice ls offset (offset + padded_len)) 0 padded_len pmask)
                                (\<lambda>l. Inr (Some l))) (\<lambda>vlps.
     bind_result (compare_req fl pct actual_len orig ver vlps r) (\<lambda>(r', pos, n).
       Inr (r', (pos, n), offset + padded_len))))))))"

fun compare_loop ::
  "(real \<Rightarrow> real) \<Rightarrow> real option \<Rightarrow> llm42_info \<Rightarrow> token list \<Rightarrow> real list option \<Rightarrow> nat \<Rightarrow> nat \<Rightarrow> store \<Rightarrow>
   ref list \<Rightarrow> (store \<times> (int \<times> int) list) result" where
  "compare_loop fl pct info ids lps i offset h [] = Inr (h, [])"
| "compare_loop fl pct info ids lps i offset h (x # xs) =
     bind_result (compare_at fl pct info ids lps i offset (h x)) (\<lambda>(r', inf, offset').
     bind_result (compare_loop fl pct info ids lps (Suc i) offset' (h(x := r')) xs) (\<lambda>(h', infs).
       Inr (h', inf # infs)))"

definition verify_and_compare ::
  "(real \<Rightarrow> real) \<Rightarrow> llm42_info \<Rightarrow> store \<Rightarrow> ref list \<Rightarrow> token list \<Rightarrow> real list option \<Rightarrow> real option \<Rightarrow>
   (store \<times> (int \<times> int) list) result" where
  "verify_and_compare fl info h reqs verified_token_ids verified_logprobs pct =
     (let num_to_process = min (length reqs) (num_real_requests info)
      in compare_loop fl pct info verified_token_ids verified_logprobs 0 0 h (take num_to_process reqs))"

section \<open>What is collected\<close>

text \<open>The unverified output tokens of a request, the position of its context token, and the condition
  under which a request fits a window.\<close>

definition unverified :: "req \<Rightarrow> token list" where
  "unverified r = drop (llm42_verified_tokens r) (output_ids r)"

definition context_pos :: "req \<Rightarrow> nat" where
  "context_pos r = length (origin_input_ids r) + llm42_verified_tokens r - 1"

definition full_ids :: "req \<Rightarrow> token list" where
  "full_ids r = origin_input_ids r @ output_ids r"

definition replayable :: "req_to_token_pool \<Rightarrow> req \<Rightarrow> bool" where
  "replayable p r \<longleftrightarrow>
     origin_input_ids r \<noteq> [] \<and> unverified r \<noteq> [] \<and>
     (case req_pool_idx r of Some i \<Rightarrow> i < rt_size p | None \<Rightarrow> False) \<and>
     seqlen r \<le> Suc (max_context_len p)"

definition fits_window :: "req_to_token_pool \<Rightarrow> nat \<Rightarrow> req \<Rightarrow> bool" where
  "fits_window p w r \<longleftrightarrow> replayable p r \<and> length (unverified r) \<le> w"

lemma replayable_bounds:
  assumes "replayable p r"
  shows "llm42_verified_tokens r < length (output_ids r)" "context_pos r < seqlen r - 1"
    "seqlen r - 1 = context_pos r + length (unverified r)" "seqlen r - 1 \<le> max_context_len p"
    "Suc (context_pos r) = length (origin_input_ids r) + llm42_verified_tokens r"
    "length (full_ids r) = seqlen r" "0 < length (unverified r)"
  using assms by (cases "origin_input_ids r";
      auto simp: replayable_def unverified_def context_pos_def seqlen_def full_ids_def)+

text \<open>An entry holds the real tokens of the window followed by dummies, under the matching mask.\<close>

lemma request_entry_shape:
  assumes "request_entry aa force ws r = Some e"
  shows "e_outputs e = take (e_output_len e) (unverified r) @ replicate (e_count e) DUMMY_TOKEN_ID"
    "e_pmask e = replicate (e_output_len e) True @ replicate (e_count e) False"
    "e_padded_len e = e_output_len e + e_count e" "e_output_len e \<le> length (unverified r)"
    "length (e_outputs e) = e_padded_len e"
  using assms
  by (auto simp: request_entry_def Let_def unverified_def split: if_splits option.splits)

lemma request_entry_None: "request_entry aa force ws r = None \<longleftrightarrow> unverified r = []"
  by (simp add: request_entry_def Let_def unverified_def)

lemma request_entry_forced:
  assumes "unverified r \<noteq> []"
  shows "request_entry True True (Some w) r =
     Some \<lparr>e_outputs = take w (unverified r) @ replicate (w - length (unverified r)) DUMMY_TOKEN_ID,
           e_output_len = min w (length (unverified r)), e_padded_len = w,
           e_pmask = replicate (min w (length (unverified r))) True @
                    replicate (w - length (unverified r)) False,
           e_count = w - length (unverified r)\<rparr>"
  using assms by (auto simp: request_entry_def Let_def unverified_def min_def)

lemma map_filter_total: "\<forall>x \<in> set xs. f x = Some (g x) \<Longrightarrow> List.map_filter f xs = map g xs"
  by (induction xs) (simp_all add: List.map_filter_simps)

lemma from_requests_forced:
  assumes "\<forall>r \<in> set reqs. unverified r \<noteq> []"
  shows "from_requests True True (Some w) reqs =
    init_info
      (concat (map (\<lambda>r. take w (unverified r) @ replicate (w - length (unverified r)) DUMMY_TOKEN_ID) reqs))
      (map (\<lambda>r. min w (length (unverified r))) reqs) (map (\<lambda>r. w) reqs)
      (map (\<lambda>r. replicate (min w (length (unverified r))) True @
                replicate (w - length (unverified r)) False) reqs)
      (map (\<lambda>r. w - length (unverified r)) reqs)"
proof -
  have "List.map_filter (request_entry True True (Some w)) reqs =
      map (\<lambda>r. \<lparr>e_outputs = take w (unverified r) @ replicate (w - length (unverified r)) DUMMY_TOKEN_ID,
           e_output_len = min w (length (unverified r)), e_padded_len = w,
           e_pmask = replicate (min w (length (unverified r))) True @
                    replicate (w - length (unverified r)) False,
           e_count = w - length (unverified r)\<rparr>) reqs"
    using assms by (intro map_filter_total ballI request_entry_forced) blast
  then show ?thesis by (simp add: from_requests_def Let_def comp_def)
qed

section \<open>What is replayed\<close>

text \<open>The specification of a request's share of the batch: the tokens from its context position up to
  the last but one, then dummies; and the cache locations the table holds for the same positions,
  then padding slots.\<close>

definition replay_tokens :: "nat \<Rightarrow> req \<Rightarrow> token list" where
  "replay_tokens w r =
     slice (full_ids r) (context_pos r) (seqlen r - 1) @
     replicate (w - length (unverified r)) DUMMY_TOKEN_ID"

definition own_locs :: "req_to_token_pool \<Rightarrow> req \<Rightarrow> slot list" where
  "own_locs p r = rt_slice p (the (req_pool_idx r)) (context_pos r) (seqlen r - 1)"

fun replay_locs :: "req_to_token_pool \<Rightarrow> nat \<Rightarrow> slot list \<Rightarrow> nat \<Rightarrow> req list \<Rightarrow> slot list" where
  "replay_locs p w pad off [] = []"
| "replay_locs p w pad off (r # rs) =
     own_locs p r @ slice pad off (off + (w - length (unverified r))) @
     replay_locs p w pad (off + (w - length (unverified r))) rs"

lemma context_token_ok:
  assumes "replayable p r"
  shows "context_token r = Inr (full_ids r ! context_pos r)"
proof (cases "llm42_verified_tokens r = 0")
  case True
  then show ?thesis using assms
    by (simp add: context_token_def replayable_def full_ids_def context_pos_def nth_append last_conv_nth)
next
  case False
  then obtain v where v: "llm42_verified_tokens r = Suc v" by (cases "llm42_verified_tokens r") auto
  then have "context_pos r = length (origin_input_ids r) + v" by (simp add: context_pos_def)
  then show ?thesis using v replayable_bounds(1) [OF assms]
    by (simp add: context_token_def full_ids_def)
qed

lemma slice_Cons: "a < b \<Longrightarrow> a < length xs \<Longrightarrow> slice xs a b = xs ! a # slice xs (Suc a) b"
  by (cases b) (simp_all add: slice_def Cons_nth_drop_Suc [symmetric] Suc_diff_le)

lemma butlast_unverified:
  assumes "replayable p r"
  shows "full_ids r ! context_pos r # butlast (unverified r) = slice (full_ids r) (context_pos r) (seqlen r - 1)"
proof -
  note b = replayable_bounds [OF assms]
  have d: "unverified r = drop (Suc (context_pos r)) (full_ids r)"
    unfolding b(5) by (simp add: unverified_def full_ids_def)
  have "butlast (unverified r) = slice (full_ids r) (Suc (context_pos r)) (seqlen r - 1)"
    unfolding d by (simp add: butlast_conv_take slice_def b(6))
  then show ?thesis using slice_Cons [of "context_pos r" "seqlen r - 1" "full_ids r"] b(2,6) by simp
qed

lemma verify_input_ok:
  assumes r: "replayable p r" and len: "length (unverified r) \<le> w"
    and i: "i < length (padded_lens info)" "padded_lens info ! i = w"
      "i < length (output_lens info)" "output_lens info ! i = length (unverified r)"
  shows "verify_input info i r = Inr (replay_tokens w r,
     Some \<lparr>row_pool_idx = the (req_pool_idx r), row_len = w, row_prefix_len = int (context_pos r)\<rparr>)"
proof -
  note b = replayable_bounds [OF r]
  obtain row where row: "req_pool_idx r = Some row" using r by (auto simp: replayable_def split: option.splits)
  have pos: "int (length (origin_input_ids r)) + int (llm42_verified_tokens r) - 1 = int (context_pos r)"
    using b(5) by linarith
  have one: "butlast (unverified r) = []" if "length (unverified r) \<le> 1"
    using that by (cases "unverified r") auto
  have toks: "full_ids r ! context_pos r # butlast (unverified r) @
      replicate (w - length (unverified r)) DUMMY_TOKEN_ID = replay_tokens w r"
    using butlast_unverified [OF r] by (simp add: replay_tokens_def)
  have w: "w \<noteq> 0" using len b(7) by linarith
  have pad: "w - 1 - length (butlast (unverified r)) = w - length (unverified r)" using b(7) by simp
  show ?thesis
  proof (cases "length (unverified r) < w")
    case True
    have "(if 1 < length (unverified r) then butlast (unverified r) else []) = butlast (unverified r)"
      using one by auto
    then show ?thesis
      using True w i toks pad row
      by (simp add: verify_input_def context_token_ok [OF r] unverified_def [symmetric] pos del: length_butlast)
  next
    case False
    then show ?thesis
      using len w i toks row
      by (simp add: verify_input_def context_token_ok [OF r] unverified_def [symmetric] pos)
  qed
qed

lemma rt_slice_Cons:
  "a < b \<Longrightarrow> a < max_context_len p \<Longrightarrow> rt_slice p i a b = req_to_token p i a # rt_slice p i (Suc a) b"
  by (simp add: rt_slice_def upt_conv_Cons)

lemma length_rt_slice [simp]: "length (rt_slice p i a b) = min b (max_context_len p) - a"
  by (simp add: rt_slice_def)

lemma verify_locs_ok:
  assumes r: "replayable p r" and len: "length (unverified r) \<le> w"
    and i: "i < length (padded_lens info)" "padded_lens info ! i = w"
      "i < length (output_lens info)" "i < length (padding_counts info)"
    and pad: "padding_cache_locs info = Some locs \<or> padding_cache_locs info = None \<and> w = length (unverified r)"
  shows "verify_locs info p i r off =
    Inr (own_locs p r @ slice locs off (off + (w - length (unverified r))), off + (w - length (unverified r)))"
proof -
  note b = replayable_bounds [OF r]
  obtain row where row: "req_pool_idx r = Some row" "row < rt_size p"
    using r by (auto simp: replayable_def split: option.splits)
  have ctx: "int (length (origin_input_ids r)) + int (llm42_verified_tokens r) - 1 = int (context_pos r)"
    "int (length (origin_input_ids r)) + int (llm42_verified_tokens r) = int (Suc (context_pos r))"
    "int (Suc (context_pos r)) - 1 = int (context_pos r)"
    using b(5) by linarith+
  have cur: "int (length (origin_input_ids r)) + int (length (output_ids r)) - 1 = int (seqlen r - 1)"
    using b(2) by (simp add: seqlen_def)
  have cell: "rt_cell p (Some row) (int (context_pos r)) = Inr (req_to_token p row (context_pos r))"
    using row b(2,4) by (simp add: rt_cell_def)
  have en: "min (int (Suc (context_pos r)) + (int w - 1)) (int (seqlen r - 1)) = int (seqlen r - 1)"
    using b(3) len by linarith
  have own: "req_to_token p row (context_pos r) #
      (if int (Suc (context_pos r)) < int (seqlen r - 1)
       then rt_slice p row (Suc (context_pos r)) (seqlen r - 1) else []) = own_locs p r"
    unfolding of_nat_less_iff own_locs_def row option.sel
    using rt_slice_Cons [of "context_pos r" "seqlen r - 1" p row] b(2,4)
    by (cases "Suc (context_pos r) < seqlen r - 1") (simp, simp add: rt_slice_def)
  have rem: "int w - 1 - (int (seqlen r - 1) - int (Suc (context_pos r))) = int (w - length (unverified r))"
    using b(3) len by linarith
  have nth: "py_nth (output_lens info) i = Inr (output_lens info ! i)"
    "py_nth (padded_lens info) i = Inr w" "py_nth (padding_counts info) i = Inr (padding_counts info ! i)"
    using i by simp_all
  have le: "(int (seqlen r - 1) \<le> int (context_pos r)) = False" using b(2) by simp
  show ?thesis
  proof (cases "padding_cache_locs info")
    case None
    with pad have z: "w - length (unverified r) = 0" by simp
    show ?thesis
      by (simp only: verify_locs_def Let_def ctx cur row(1) option.sel nth bind_result.simps le if_False
          cell en rem None option.case own nat_int z add_0_right slice_empty [OF order_refl] append_Nil2)
  next
    case (Some l)
    with pad have locs: "padding_cache_locs info = Some locs" by simp
    show ?thesis
      by (cases "w - length (unverified r) = 0")
        (simp_all only: verify_locs_def Let_def ctx cur row(1) option.sel nth bind_result.simps le if_False
          cell en rem locs option.case append_Cons [symmetric] own nat_int of_nat_0_less_iff if_True
          neq0_conv [symmetric] simp_thms add_0_right slice_empty [OF order_refl] append_Nil2)
  qed
qed

definition entries_ok :: "llm42_info \<Rightarrow> nat \<Rightarrow> nat \<Rightarrow> req list \<Rightarrow> bool" where
  "entries_ok info i w rs \<longleftrightarrow>
     (\<forall>j < length rs. i + j < length (padded_lens info) \<and> padded_lens info ! (i + j) = w
        \<and> i + j < length (output_lens info) \<and> output_lens info ! (i + j) = min w (length (unverified (rs ! j)))
        \<and> i + j < length (padding_counts info))"

lemma entries_ok_Cons:
  assumes "entries_ok info i w (r # rs)"
  shows "i < length (padded_lens info)" "padded_lens info ! i = w" "i < length (output_lens info)"
    "output_lens info ! i = min w (length (unverified r))" "i < length (padding_counts info)"
    "entries_ok info (Suc i) w rs"
proof -
  from assms have *: "\<forall>j < Suc (length rs). i + j < length (padded_lens info) \<and> padded_lens info ! (i + j) = w
        \<and> i + j < length (output_lens info) \<and> output_lens info ! (i + j) = min w (length (unverified ((r # rs) ! j)))
        \<and> i + j < length (padding_counts info)"
    by (simp add: entries_ok_def)
  from *[rule_format, of 0] show "i < length (padded_lens info)" "padded_lens info ! i = w"
    "i < length (output_lens info)" "output_lens info ! i = min w (length (unverified r))"
    "i < length (padding_counts info)" by simp_all
  show "entries_ok info (Suc i) w rs"
    unfolding entries_ok_def
  proof (intro allI impI)
    fix j assume "j < length rs"
    with *[rule_format, of "Suc j"] show "Suc i + j < length (padded_lens info) \<and> padded_lens info ! (Suc i + j) = w
        \<and> Suc i + j < length (output_lens info) \<and> output_lens info ! (Suc i + j) = min w (length (unverified (rs ! j)))
        \<and> Suc i + j < length (padding_counts info)" by simp
  qed
qed

definition replay_row_of :: "nat \<Rightarrow> req \<Rightarrow> replay_row" where
  "replay_row_of w r =
     \<lparr>row_pool_idx = the (req_pool_idx r), row_len = w, row_prefix_len = int (context_pos r)\<rparr>"

lemma verify_inputs_ok:
  assumes "entries_ok info i w rs" "\<forall>r \<in> set rs. fits_window p w r"
  shows "verify_inputs info i rs = Inr (concat (map (replay_tokens w) rs), map (replay_row_of w) rs)"
  using assms
proof (induction rs arbitrary: i)
  case (Cons r rs)
  note e = entries_ok_Cons [OF Cons.prems(1)]
  have "verify_input info i r = Inr (replay_tokens w r, Some (replay_row_of w r))"
    using verify_input_ok [of p r w i info] Cons.prems(2) e by (simp add: fits_window_def replay_row_of_def min_absorb2)
  then show ?case using Cons.IH [OF e(6)] Cons.prems(2) by simp
qed simp

lemma verify_all_locs_ok:
  assumes "entries_ok info i w rs" "\<forall>r \<in> set rs. fits_window p w r"
    and "padding_cache_locs info = Some pad \<or> padding_cache_locs info = None \<and> w = 1"
  shows "verify_all_locs info p i off rs = Inr (replay_locs p w pad off rs)"
  using assms
proof (induction rs arbitrary: i off)
  case (Cons r rs)
  note e = entries_ok_Cons [OF Cons.prems(1)]
  have "verify_locs info p i r off = Inr (own_locs p r @ slice pad off (off + (w - length (unverified r))),
      off + (w - length (unverified r)))"
  proof (rule verify_locs_ok)
    have "0 < length (unverified r)" "length (unverified r) \<le> w"
      using Cons.prems(2) replayable_bounds(7) [of p r] by (simp_all add: fits_window_def)
    then have "w = length (unverified r)" if "w = 1" using that by linarith
    then show "padding_cache_locs info = Some pad \<or> padding_cache_locs info = None \<and> w = length (unverified r)"
      using Cons.prems(3) by blast
  qed (use Cons.prems(2) e in \<open>simp_all add: fits_window_def\<close>)
  then show ?case using Cons.IH [OF e(6)] Cons.prems(2,3) by simp
qed simp

lemma length_replay_tokens:
  assumes "fits_window p w r"
  shows "length (replay_tokens w r) = w"
  using replayable_bounds [of p r] assms by (simp add: replay_tokens_def fits_window_def)

lemma length_own_locs: "replayable p r \<Longrightarrow> length (own_locs p r) = length (unverified r)"
  using replayable_bounds [of p r] by (simp add: own_locs_def)

lemma length_replay_locs:
  assumes "\<forall>r \<in> set rs. fits_window p w r" "off + length rs * (w - 1) \<le> length pad"
  shows "length (replay_locs p w pad off rs) = length rs * w"
  using assms
proof (induction rs arbitrary: off)
  case (Cons r rs)
  have f: "fits_window p w r" using Cons.prems(1) by simp
  then have l: "length (own_locs p r) = length (unverified r)" "length (unverified r) \<le> w"
    "0 < length (unverified r)"
    using length_own_locs [of p r] replayable_bounds(7) [of p r] by (auto simp: fits_window_def)
  have le: "off + (w - length (unverified r)) + length rs * (w - 1) \<le> length pad"
    using Cons.prems(2) diff_le_mono2 [of 1 "length (unverified r)" w] l(3)
    unfolding length_Cons mult_Suc by linarith
  have s: "length (slice pad off (off + (w - length (unverified r)))) = w - length (unverified r)"
    unfolding length_slice using le by linarith
  have "length (replay_locs p w pad (off + (w - length (unverified r))) rs) = length rs * w"
    using Cons.IH [OF _ le] Cons.prems(1) by simp
  then show ?case
    using l(2) unfolding replay_locs.simps length_append s l(1) length_Cons mult_Suc by linarith
qed simp

lemma length_concat_replay:
  "\<forall>r \<in> set rs. fits_window p w r \<Longrightarrow> length (concat (map (replay_tokens w) rs)) = length rs * w"
  by (induction rs) (simp_all add: length_replay_tokens [of p w])

lemma interleave_sampling_ok:
  assumes "length counts = length reqs"
  shows "\<exists>si. interleave_sampling (from_schedule_batch ed reqs) (map int counts) = Inr si
     \<and> force_pytorch_backend si \<and> length (temperatures si) = sum_list counts
     \<and> length (top_ps si) = sum_list counts \<and> length (top_ks si) = sum_list counts
     \<and> length (min_ps si) = sum_list counts"
  using assms
  by (simp add: interleave_sampling_def from_schedule_batch_def Let_def repeat_interleave_ok
      interleave_option_def length_repeat_interleave)

subsection \<open>The fixed-shape layout\<close>

text \<open>The metadata the worker builds in fixed-size mode, and dummy arguments of the right shape.\<close>

definition fixed_info :: "nat \<Rightarrow> nat \<Rightarrow> slot list \<Rightarrow> req list \<Rightarrow> llm42_info" where
  "fixed_info w k locs reqs =
     (let info = append_dummy_entries k w (from_requests True True (Some w) reqs)
      in if total_padding_cache_slots info = 0 then info else set_padding_cache_locs locs info)"

definition dummies_ok :: "nat \<Rightarrow> dummy_args \<Rightarrow> slot list \<Rightarrow> nat list \<Rightarrow> bool" where
  "dummies_ok w d dlocs drows \<longleftrightarrow>
     (if d_num_dummies d = 0 then d = no_dummies \<and> dlocs = [] \<and> drows = []
      else d_input_ids d = Some (replicate (d_num_dummies d * w) DUMMY_TOKEN_ID) \<and>
        d_cache_locs d = Some dlocs \<and> length dlocs = d_num_dummies d * w \<and>
        d_req_pool_indices d = Some drows \<and> length drows = d_num_dummies d \<and>
        d_window_size d = Some w \<and>
        (case d_sampling d of None \<Rightarrow> True
         | Some t \<Rightarrow> length (ds_temps t) = d_num_dummies d * w \<and> length (ds_top_ps t) = d_num_dummies d * w
             \<and> length (ds_top_ks t) = d_num_dummies d * w \<and> length (ds_min_ps t) = d_num_dummies d * w
             \<and> ds_prefix_lens t = replicate (d_num_dummies d) 0
             \<and> ds_output_lens t = replicate (d_num_dummies d) (int w)))"

lemma fits_window_unverified: "fits_window p w r \<Longrightarrow> unverified r \<noteq> []"
  by (simp add: fits_window_def replayable_def)

lemma fixed_info_fields:
  assumes "\<forall>r \<in> set rs. unverified r \<noteq> []"
  shows "padded_lens (fixed_info w k locs rs) = replicate (length rs + k) w"
    "output_lens (fixed_info w k locs rs) = map (\<lambda>r. min w (length (unverified r))) rs @ replicate k 0"
    "length (padding_counts (fixed_info w k locs rs)) = length rs + k"
    "padding_cache_locs (fixed_info w k locs rs) =
       (if length rs * (w - 1) = 0 then None else Some (take (length rs * (w - 1)) locs))"
    "total_padding_cache_slots (fixed_info w k locs rs) = length rs * (w - 1)"
    "num_real_requests (fixed_info w k locs rs) = length rs"
    "original_outputs (fixed_info w k locs rs) =
       concat (map (\<lambda>r. take w (unverified r) @ replicate (w - length (unverified r)) DUMMY_TOKEN_ID) rs)"
    "padding_masks (fixed_info w k locs rs) =
       map (\<lambda>r. replicate (min w (length (unverified r))) True @
                replicate (w - length (unverified r)) False) rs @ replicate k (replicate w False)"
  by (simp_all add: fixed_info_def from_requests_forced [OF assms] set_padding_cache_locs_def
      append_dummy_entries_def init_info_def Let_def map_replicate_const replicate_add sum_list_replicate
      comp_def)

lemma fixed_info_entries_ok:
  assumes "\<forall>r \<in> set rs. unverified r \<noteq> []"
  shows "entries_ok (fixed_info w k locs rs) 0 w rs"
  unfolding entries_ok_def fixed_info_fields [OF assms] by (auto simp: nth_append)

lemma map2_plus_replicate: "map2 (+) (replicate k x) (replicate k y) = replicate k ((x :: int) + y)"
  by (induction k) simp_all

lemma prepare_real:
  assumes "d_num_dummies d = 0"
    and "verify_inputs info 0 (map h refs) = Inr (ids, rows)"
    and "interleave_sampling (from_schedule_batch ed (map h refs)) (map (int \<circ> row_len) rows) = Inr si"
    and "verify_all_locs info p 0 0 (map h refs) = Inr locs" "length locs = length ids"
  shows "prepare_verify_batch ed info p h refs d =
    Inr (finish_real (length refs) ids locs rows
      ((new_batch refs True)\<lparr>b_forward_mode := Some TARGET_LLM42_VERIFY, b_return_logprob := True,
         b_sampling_info := Some si\<rparr>))"
  using assms by (simp add: prepare_verify_batch_def Let_def finish_real_def set_lens_def)

lemma prepare_dummies:
  assumes "d_num_dummies d = k" "0 < k" "d_input_ids d = Some dids" "d_cache_locs d = Some dlocs"
    "d_window_size d = Some w"
    and "verify_inputs info 0 (map h refs) = Inr (ids, rows)"
    and "interleave_sampling (from_schedule_batch ed (map h refs)) (map (int \<circ> row_len) rows) = Inr si"
    and "verify_all_locs info p 0 0 (map h refs) = Inr locs"
    and "length locs + min (k * w) (length dlocs) = length ids + min (k * w) (length dids)"
  shows "prepare_verify_batch ed info p h refs d =
    Inr (finish_dummies (length refs) d w dids dlocs ids locs rows
      ((new_batch refs True)\<lparr>b_forward_mode := Some TARGET_LLM42_VERIFY, b_return_logprob := True,
         b_sampling_info := Some si\<rparr>))"
  using assms
  by (cases k) (simp_all add: prepare_verify_batch_def Let_def finish_dummies_def set_lens_def min.commute)

lemma fixed_layout:
  assumes fit: "\<forall>r \<in> set (map h refs). fits_window p w r"
    and pad: "length refs * (w - 1) \<le> length locs"
    and d: "dummies_ok w d dlocs drows" "d_num_dummies d = k"
  shows "\<exists>b si. prepare_verify_batch ed (fixed_info w k locs (map h refs)) p h refs d = Inr b
     \<and> b_forward_mode b = Some TARGET_LLM42_VERIFY
     \<and> b_input_ids b = Some (concat (map (replay_tokens w) (map h refs)) @ replicate (k * w) DUMMY_TOKEN_ID)
     \<and> b_out_cache_loc b =
         Some (replay_locs p w (take (length refs * (w - 1)) locs) 0 (map h refs) @ dlocs)
     \<and> b_req_pool_indices b = Some (map (the \<circ> req_pool_idx \<circ> h) refs @ drows)
     \<and> b_extend_lens b = replicate (length refs + k) (int w)
     \<and> b_prefix_lens b = map (int \<circ> context_pos \<circ> h) refs @ replicate k 0
     \<and> b_extend_num_tokens b = (length refs + k) * w
     \<and> b_sampling_info b = Some si \<and> force_pytorch_backend si
     \<and> length (temperatures si) = (length refs + k) * w \<and> length (top_ks si) = (length refs + k) * w"
proof -
  let ?rs = "map h refs"
  let ?info = "fixed_info w k locs ?rs"
  let ?pad = "take (length refs * (w - 1)) locs"
  have u: "\<forall>r \<in> set ?rs. unverified r \<noteq> []" using fit fits_window_unverified by blast
  note e = fixed_info_entries_ok [OF u, of w k locs]
  have i: "verify_inputs ?info 0 ?rs = Inr (concat (map (replay_tokens w) ?rs), map (replay_row_of w) ?rs)"
    by (rule verify_inputs_ok [OF e fit])
  have l: "verify_all_locs ?info p 0 0 ?rs = Inr (replay_locs p w ?pad 0 ?rs)"
  proof (cases "refs = []")
    case False
    then have "fits_window p w (h (hd refs))" using fit by simp
    then have "0 < length (unverified (h (hd refs)))" "length (unverified (h (hd refs))) \<le> w"
      using replayable_bounds(7) [of p "h (hd refs)"] by (simp_all add: fits_window_def)
    then have "w = 1" if "w - 1 = 0" using that by linarith
    with False have "padding_cache_locs ?info = Some ?pad \<or> padding_cache_locs ?info = None \<and> w = 1"
      using fixed_info_fields(4) [OF u] by auto
    then show ?thesis by (rule verify_all_locs_ok [OF e fit])
  qed simp
  have "length (replay_locs p w ?pad 0 ?rs) = length ?rs * w"
    by (rule length_replay_locs [OF fit]) (use pad in simp)
  moreover have "length (concat (map (replay_tokens w) ?rs)) = length ?rs * w"
    by (rule length_concat_replay [OF fit])
  ultimately have len: "length (replay_locs p w ?pad 0 ?rs) = length refs * w"
    "length (concat (map (replay_tokens w) ?rs)) = length refs * w" by simp_all
  have rl: "map (int \<circ> row_len) (map (replay_row_of w) ?rs) = map int (replicate (length refs) w)"
    by (simp add: replay_row_of_def comp_def map_replicate_const)
  from interleave_sampling_ok [of "replicate (length refs) w" ?rs ed] obtain si where
    s: "interleave_sampling (from_schedule_batch ed ?rs) (map (int \<circ> row_len) (map (replay_row_of w) ?rs)) = Inr si"
    and si: "force_pytorch_backend si" "length (temperatures si) = length refs * w" "length (top_ks si) = length refs * w"
    unfolding rl by (auto simp: sum_list_replicate)
  have px: "map row_prefix_len (map (replay_row_of w) ?rs) = map (int \<circ> context_pos \<circ> h) refs"
    "map row_pool_idx (map (replay_row_of w) ?rs) = map (the \<circ> req_pool_idx \<circ> h) refs"
    by (simp_all add: replay_row_of_def)
  show ?thesis
  proof (cases "k = 0")
    case True
    with d have "dlocs = []" "drows = []" "d_num_dummies d = 0" by (auto simp: dummies_ok_def)
    with prepare_real [OF _ i s l] show ?thesis
      using len si True px rl
      by (simp add: finish_real_def set_lens_def Let_def map_replicate_const)
  next
    case False
    with d have dd: "d_input_ids d = Some (replicate (k * w) DUMMY_TOKEN_ID)" "d_cache_locs d = Some dlocs"
      "length dlocs = k * w" "d_req_pool_indices d = Some drows" "length drows = k" "d_window_size d = Some w"
      by (auto simp: dummies_ok_def)
    let ?t = "dummy_sampling_values d w"
    have t: "length (ds_temps ?t) = k * w" "length (ds_top_ks ?t) = k * w"
      "ds_prefix_lens ?t = replicate k 0" "ds_output_lens ?t = replicate k (int w)"
      using d False by (auto simp: dummies_ok_def dummy_sampling_values_def Let_def split: option.splits)
    have "prepare_verify_batch ed ?info p h refs d =
      Inr (finish_dummies (length refs) d w (replicate (k * w) DUMMY_TOKEN_ID) dlocs
        (concat (map (replay_tokens w) ?rs)) (replay_locs p w ?pad 0 ?rs) (map (replay_row_of w) ?rs)
        ((new_batch refs True)\<lparr>b_forward_mode := Some TARGET_LLM42_VERIFY, b_return_logprob := True,
           b_sampling_info := Some si\<rparr>))"
      by (rule prepare_dummies [OF d(2) _ dd(1,2,6) i s l]) (use False len dd(3) in simp_all)
    then show ?thesis
      using len si dd t px rl d(2)
      by (simp add: finish_dummies_def set_lens_def Let_def append_dummy_sampling_def replicate_add
          map_replicate_const add_mult_distrib)
  qed
qed

lemma prepare_fixed_total:
  assumes "\<forall>r \<in> set (map h refs). fits_window p w r" "length refs * (w - 1) \<le> length locs"
    and "dummies_ok w d dlocs drows" "d_num_dummies d = k"
  shows "\<exists>b. prepare_verify_batch ed (fixed_info w k locs (map h refs)) p h refs d = Inr b"
  using fixed_layout [OF assms] by blast

text \<open>C11. In fixed-size mode the verification batch has the fixed shape and replays every request
  faithfully: its inputs are the request's own tokens from the context position up to the last but
  one, its cache locations are the ones the request-to-token table holds for those positions
  (padding slots and dummy requests fill the rest), its prefix lengths are the context positions,
  and every request, real or dummy, contributes exactly one window of \<open>w\<close> tokens and sampling
  parameters.\<close>

theorem verify_batch_layout:
  assumes fit: "\<forall>r \<in> set (map h refs). fits_window p w r"
    and pad: "length refs * (w - 1) \<le> length locs"
    and d: "dummies_ok w d dlocs drows" "d_num_dummies d = k"
  shows "\<exists>b si. prepare_verify_batch ed (fixed_info w k locs (map h refs)) p h refs d = Inr b
     \<and> b_forward_mode b = Some TARGET_LLM42_VERIFY
     \<and> b_input_ids b = Some (concat (map (replay_tokens w) (map h refs)) @ replicate (k * w) DUMMY_TOKEN_ID)
     \<and> b_out_cache_loc b =
         Some (replay_locs p w (take (length refs * (w - 1)) locs) 0 (map h refs) @ dlocs)
     \<and> b_req_pool_indices b = Some (map (the \<circ> req_pool_idx \<circ> h) refs @ drows)
     \<and> b_extend_lens b = replicate (length refs + k) (int w)
     \<and> b_prefix_lens b = map (int \<circ> context_pos \<circ> h) refs @ replicate k 0
     \<and> b_extend_num_tokens b = (length refs + k) * w
     \<and> b_sampling_info b = Some si \<and> force_pytorch_backend si
     \<and> length (temperatures si) = (length refs + k) * w \<and> length (top_ks si) = (length refs + k) * w"
  using fixed_layout [OF assms] .

definition example_pool :: req_to_token_pool where
  "example_pool = rt_write (rt_init 4 64) 0 0 [1, 2, 3, 4, 5, 6, 7, 8]"

definition example_store :: store where
  "example_store = (\<lambda>_. example_req\<lparr>output_ids := [5, 6, 7], llm42_verified_tokens := 1\<rparr>)"

definition example_dummies :: dummy_args where
  "example_dummies =
     \<lparr>d_input_ids = Some (replicate 4 DUMMY_TOKEN_ID), d_cache_locs = Some [20, 21, 22, 23],
      d_req_pool_indices = Some [3], d_num_dummies = 1, d_window_size = Some 4, d_sampling = None\<rparr>"

lemmas example_simps =
  example_pool_def example_store_def example_dummies_def example_req_def init_req_def rt_write_def rt_init_def

theorem verify_batch_layout_witness:
  "fits_window example_pool 4 (example_store 0) \<and>
   dummies_ok 4 example_dummies [20, 21, 22, 23] [3] \<and>
   (\<exists>b. prepare_verify_batch True (fixed_info 4 1 [30, 31, 32] (map example_store [0]))
          example_pool example_store [0] example_dummies = Inr b
      \<and> b_input_ids b = Some [5, 6, 32, 32, 32, 32, 32, 32]
      \<and> b_out_cache_loc b = Some [4, 5, 30, 31, 20, 21, 22, 23])"
proof -
  have f: "\<forall>r \<in> set (map example_store [0]). fits_window example_pool 4 r"
    by (simp add: fits_window_def replayable_def unverified_def seqlen_def example_simps)
  have d: "dummies_ok 4 example_dummies [20, 21, 22, 23] [3]" "d_num_dummies example_dummies = 1"
    by (simp_all add: dummies_ok_def example_dummies_def)
  have l: "length [0 :: ref] * (4 - 1) \<le> length [30, 31, 32 :: slot]" by simp
  from verify_batch_layout [OF f l d, of True] obtain b where
    b: "prepare_verify_batch True (fixed_info 4 1 [30, 31, 32] (map example_store [0]))
          example_pool example_store [0] example_dummies = Inr b"
    "b_input_ids b = Some (concat (map (replay_tokens 4) (map example_store [0])) @ replicate (1 * 4) DUMMY_TOKEN_ID)"
    "b_out_cache_loc b = Some (replay_locs example_pool 4 (take (length [0 :: ref] * (4 - 1)) [30, 31, 32]) 0
       (map example_store [0]) @ [20, 21, 22, 23])"
    by blast
  have "concat (map (replay_tokens 4) (map example_store [0])) @ replicate (1 * 4) DUMMY_TOKEN_ID =
      [5, 6, 32, 32, 32, 32, 32, 32]"
    by code_simp
  moreover have "replay_locs example_pool 4 (take (length [0 :: ref] * (4 - 1)) [30, 31, 32]) 0
      (map example_store [0]) @ [20, 21, 22, 23] = [4, 5, 30, 31, 20, 21, 22, 23]"
    by code_simp
  moreover have "fits_window example_pool 4 (example_store 0)" using f by simp
  ultimately show ?thesis using b d(1) by metis
qed

subsection \<open>A window that is too long\<close>

lemma verify_locs_truncated:
  assumes r: "replayable p r" and len: "0 < w" "w < length (unverified r)"
    and i: "i < length (padded_lens info)" "padded_lens info ! i = w"
      "i < length (output_lens info)" "i < length (padding_counts info)"
  shows "\<exists>locs. verify_locs info p i r off = Inr (locs, off) \<and> length locs = w"
proof -
  note b = replayable_bounds [OF r]
  obtain row where row: "req_pool_idx r = Some row" "row < rt_size p"
    using r by (auto simp: replayable_def split: option.splits)
  have ctx: "int (length (origin_input_ids r)) + int (llm42_verified_tokens r) - 1 = int (context_pos r)"
    "int (length (origin_input_ids r)) + int (llm42_verified_tokens r) = int (Suc (context_pos r))"
    "int (Suc (context_pos r)) - 1 = int (context_pos r)"
    using b(5) by linarith+
  have cur: "int (length (origin_input_ids r)) + int (length (output_ids r)) - 1 = int (seqlen r - 1)"
    using b(2) by (simp add: seqlen_def)
  have cell: "rt_cell p (Some row) (int (context_pos r)) = Inr (req_to_token p row (context_pos r))"
    using row b(2,4) by (simp add: rt_cell_def)
  have en: "min (int (Suc (context_pos r)) + (int w - 1)) (int (seqlen r - 1)) = int (context_pos r + w)"
    using b(3) len by linarith
  have rem: "int w - 1 - (int (context_pos r + w) - int (Suc (context_pos r))) = 0" by simp
  have nth: "py_nth (output_lens info) i = Inr (output_lens info ! i)"
    "py_nth (padded_lens info) i = Inr w" "py_nth (padding_counts info) i = Inr (padding_counts info ! i)"
    using i by simp_all
  have le: "(int (seqlen r - 1) \<le> int (context_pos r)) = False" using b(2) by simp
  let ?own = "if int (Suc (context_pos r)) < int (context_pos r + w)
     then rt_slice p row (Suc (context_pos r)) (context_pos r + w) else []"
  have "verify_locs info p i r off = Inr (req_to_token p row (context_pos r) # ?own, off)"
    by (cases "padding_cache_locs info")
      (simp_all only: verify_locs_def Let_def ctx cur row(1) option.sel nth bind_result.simps le if_False
        cell en rem option.case nat_int less_irrefl)
  moreover have "length (req_to_token p row (context_pos r) # ?own) = w"
    using b(3,4) len by auto
  ultimately show ?thesis by blast
qed

lemma prepare_mismatch:
  assumes "verify_inputs info 0 (map h refs) = Inr (ids, rows)"
    and "interleave_sampling (from_schedule_batch ed (map h refs)) (map (int \<circ> row_len) rows) = Inr si"
    and "verify_all_locs info p 0 0 (map h refs) = Inr locs" "length locs \<noteq> length ids"
    and "dummies_ok w d dlocs drows"
  shows "prepare_verify_batch ed info p h refs d = Inl RuntimeError"
proof (cases "d_num_dummies d")
  case 0
  with assms show ?thesis
    by (simp add: prepare_verify_batch_def Let_def dummies_ok_def finish_real_def set_lens_def no_dummies_def)
next
  case (Suc k)
  with assms show ?thesis
    by (simp add: prepare_verify_batch_def Let_def dummies_ok_def finish_dummies_def set_lens_def)
qed

text \<open>In a batch with windows of any length, a request contributes all its unverified tokens to the inputs, and never more than
  a window to the cache locations.\<close>

lemma verify_input_replayable:
  assumes r: "replayable p r" and w: "0 < w" and e: "entries_ok info i w (r # rs)"
  shows "\<exists>toks. verify_input info i r = Inr (toks, Some (replay_row_of w r)) \<and> length toks = max w (length (unverified r))"
proof (cases "length (unverified r) \<le> w")
  case True
  then show ?thesis
    using verify_input_ok [OF r True entries_ok_Cons(1-3) [OF e]] entries_ok_Cons(4) [OF e] length_replay_tokens [of p w r] r
    by (simp add: replay_row_of_def fits_window_def min_absorb2 max_absorb1)
next
  case False
  note b = replayable_bounds [OF r]
  obtain row where row: "req_pool_idx r = Some row" using r by (auto simp: replayable_def split: option.splits)
  have "verify_input info i r = Inr (full_ids r ! context_pos r # butlast (unverified r), Some (replay_row_of w r))"
    using w row b(5) False entries_ok_Cons(1-4) [OF e]
    by (simp add: verify_input_def context_token_ok [OF r] unverified_def [symmetric] replay_row_of_def min_def)
  then show ?thesis using False b(7) by (simp add: max_def)
qed

lemma verify_inputs_replayable:
  assumes "\<forall>r \<in> set rs. replayable p r" "0 < w" "entries_ok info i w rs"
  shows "\<exists>toks. verify_inputs info i rs = Inr (toks, map (replay_row_of w) rs) \<and>
    length toks = sum_list (map (\<lambda>r. max w (length (unverified r))) rs)"
  using assms
proof (induction rs arbitrary: i)
  case (Cons r rs)
  have "replayable p r" using Cons.prems(1) by simp
  from verify_input_replayable [OF this Cons.prems(2,3)] obtain t where
    "verify_input info i r = Inr (t, Some (replay_row_of w r))" "length t = max w (length (unverified r))" by blast
  moreover from Cons.IH [OF _ Cons.prems(2) entries_ok_Cons(6) [OF Cons.prems(3)]] Cons.prems(1) obtain ts where
    "verify_inputs info (Suc i) rs = Inr (ts, map (replay_row_of w) rs)" "length ts = sum_list (map (\<lambda>r. max w (length (unverified r))) rs)"
    by auto
  ultimately show ?case by simp
qed simp

lemma verify_all_locs_replayable:
  assumes "\<forall>r \<in> set rs. replayable p r" "0 < w" "entries_ok info i w rs"
    and "padding_cache_locs info = Some pad \<or> padding_cache_locs info = None \<and> w = 1"
  shows "\<exists>locs. verify_all_locs info p i off rs = Inr locs \<and> length locs \<le> length rs * w"
  using assms
proof (induction rs arbitrary: i off)
  case (Cons r rs)
  have r: "replayable p r" using Cons.prems(1) by simp
  note b = replayable_bounds [OF r] and e = entries_ok_Cons [OF Cons.prems(3)]
  have "\<exists>ls off'. verify_locs info p i r off = Inr (ls, off') \<and> length ls \<le> w"
  proof (cases "length (unverified r) \<le> w")
    case True
    have "padding_cache_locs info = Some pad \<or> padding_cache_locs info = None \<and> w = length (unverified r)"
      using Cons.prems(4) True b(7) by (metis One_nat_def Suc_leI le_antisym)
    from verify_locs_ok [OF r True e(1-3,5) this, of off] show ?thesis
      using length_own_locs [OF r] True by auto
  next
    case False
    then show ?thesis using verify_locs_truncated [OF r Cons.prems(2) _ e(1-3,5), of off] by auto
  qed
  then obtain ls off' where "verify_locs info p i r off = Inr (ls, off')" "length ls \<le> w" by blast
  moreover from Cons.IH [OF _ Cons.prems(2) e(6) Cons.prems(4), of off'] Cons.prems(1) obtain ls' where
    "verify_all_locs info p (Suc i) off' rs = Inr ls'" "length ls' \<le> length rs * w" by auto
  ultimately show ?case by simp
qed simp

text \<open>C15. A request that has collected more unverified tokens than the window makes the construction of every fixed-size
  batch it is in fail with the consistency error, whatever the other requests and the dummies: the metadata and the cache
  locations are truncated to the window, the replayed inputs are not.\<close>

theorem oversized_window_raises:
  assumes rs: "\<forall>y \<in> set refs. replayable p (h y)" and x: "x \<in> set refs" "w < length (unverified (h x))" and w: "0 < w"
    and d: "dummies_ok w d dlocs drows" "d_num_dummies d = k"
  shows "prepare_verify_batch ed (fixed_info w k locs (map h refs)) p h refs d = Inl RuntimeError"
proof -
  let ?rs = "map h refs" and ?info = "fixed_info w k locs (map h refs)"
  have u: "\<forall>r \<in> set ?rs. unverified r \<noteq> []" using rs by (auto simp: replayable_def)
  note e = fixed_info_entries_ok [OF u, of w k locs]
  have rp: "\<forall>r \<in> set ?rs. replayable p r" using rs by simp
  obtain toks where vi: "verify_inputs ?info 0 ?rs = Inr (toks, map (replay_row_of w) ?rs)"
    and lt: "length toks = sum_list (map (\<lambda>r. max w (length (unverified r))) ?rs)"
    using verify_inputs_replayable [OF rp w e] by blast
  have "refs \<noteq> []" using x(1) by auto
  then have "padding_cache_locs ?info = Some (take (length refs * (w - 1)) locs) \<or> padding_cache_locs ?info = None \<and> w = 1"
    using fixed_info_fields(4) [OF u, of w k locs] w by (auto split: if_splits)
  then obtain ls where vl: "verify_all_locs ?info p 0 0 ?rs = Inr ls" and ll: "length ls \<le> length ?rs * w"
    using verify_all_locs_replayable [OF rp w e] by blast
  have "length refs * w < sum_list (map (\<lambda>r. max w (length (unverified r))) ?rs)"
  proof -
    obtain as bs where refs: "refs = as @ x # bs" using x(1) by (auto simp: in_set_conv_decomp)
    have le: "length ys * w \<le> sum_list (map (\<lambda>r. max w (length (unverified r))) (map h ys))" for ys
      by (induction ys) simp_all
    show ?thesis using le [of as] le [of bs] x(2) by (simp add: refs add_mult_distrib)
  qed
  then have ne: "length ls \<noteq> length toks" using lt ll by simp
  have rl: "map (int \<circ> row_len) (map (replay_row_of w) ?rs) = map int (replicate (length refs) w)"
    by (simp add: replay_row_of_def comp_def map_replicate_const)
  from interleave_sampling_ok [of "replicate (length refs) w" ?rs ed] obtain si where
    "interleave_sampling (from_schedule_batch ed ?rs) (map (int \<circ> row_len) (map (replay_row_of w) ?rs)) = Inr si"
    unfolding rl by auto
  from prepare_mismatch [OF vi this vl ne d(1)] show ?thesis .
qed

theorem oversized_window_raises_witness:
  "let h = example_store(1 := (example_store 0)\<lparr>output_ids := [5, 6, 7, 8, 9], req_pool_idx := Some 1\<rparr>)
   in length (unverified (h 0)) \<le> 3 \<and> 3 < length (unverified (h 1))
      \<and> prepare_verify_batch True (fixed_info 3 0 [30, 31, 32, 33] (map h [0, 1])) example_pool h [0, 1] no_dummies = Inl RuntimeError"
proof -
  let ?h = "example_store(1 := (example_store 0)\<lparr>output_ids := [5, 6, 7, 8, 9], req_pool_idx := Some 1\<rparr>)"
  have r: "\<forall>y \<in> set [0, 1]. replayable example_pool (?h y)"
    by (simp add: replayable_def unverified_def seqlen_def example_simps)
  have u: "3 < length (unverified (?h 1))" "length (unverified (?h 0)) \<le> 3" by (simp_all add: unverified_def example_simps)
  have d: "dummies_ok 3 no_dummies [] []" "d_num_dummies no_dummies = 0"
    by (simp_all add: dummies_ok_def no_dummies_def)
  show ?thesis
    using oversized_window_raises [where h = ?h and refs = "[0, 1]" and x = 1 and w = 3, OF r _ u(1) _ d, of True "[30, 31, 32, 33]"] u
    unfolding Let_def by simp
qed

end
