(* ===== verification/LLM42_Compare.thy ===== *)
theory LLM42_Compare
  imports LLM42_Info "HOL-Library.Sublist"
begin

text \<open>
  What the token comparison of \<open>llm42/llm42_info.py\<close> does to the requests: the first mismatch is the
  end of the longest common prefix, a request keeps exactly the prefix the verifier confirms plus the
  verifier's next token, log-probabilities stay aligned with the tokens, and every request of a
  fixed-size batch is compared with its own window only.
\<close>

section \<open>The first mismatch\<close>

lemma first_mismatch_alt:
  "first_mismatch_position a b =
     (case filter (\<lambda>i. a ! i \<noteq> b ! i) [0..<min (length a) (length b)] of
        i # _ \<Rightarrow> i | [] \<Rightarrow> min (length a) (length b))"
proof -
  let ?m = "min (length a) (length b)"
  have "filter (\<lambda>i. take ?m a ! i \<noteq> take ?m b ! i) [0..<?m] = filter (\<lambda>i. a ! i \<noteq> b ! i) [0..<?m]"
    by (rule filter_cong) auto
  then show ?thesis by (simp add: first_mismatch_position_def Let_def)
qed

lemma first_mismatch_Nil [simp]: "first_mismatch_position [] b = 0" "first_mismatch_position a [] = 0"
  by (simp_all add: first_mismatch_position_def)

lemma filter_upt_Suc:
  "filter P [0..<Suc n] = (if P 0 then [0] else []) @ map Suc (filter (\<lambda>i. P (Suc i)) [0..<n])"
  by (simp add: upt_conv_Cons map_Suc_upt [symmetric] filter_map comp_def del: upt_Suc)

lemma first_mismatch_Cons [simp]:
  "first_mismatch_position (x # a) (y # b) = (if x = y then Suc (first_mismatch_position a b) else 0)"
  unfolding first_mismatch_alt
  by (simp add: filter_upt_Suc del: upt_Suc split: list.split)

lemma first_mismatch_le: "first_mismatch_position a b \<le> min (length a) (length b)"
  by (induction a b rule: list_induct2') auto

lemma first_mismatch_take: "take (first_mismatch_position a b) a = take (first_mismatch_position a b) b"
  by (induction a b rule: list_induct2') auto

lemma first_mismatch_nth:
  "first_mismatch_position a b < min (length a) (length b) \<Longrightarrow>
   a ! first_mismatch_position a b \<noteq> b ! first_mismatch_position a b"
  by (induction a b rule: list_induct2') (auto split: if_splits)

lemma first_mismatch_eq:
  "length a = length b \<Longrightarrow> first_mismatch_position a b = length a \<longleftrightarrow> a = b"
  by (induction a b rule: list_induct2') auto

lemma first_mismatch_refl [simp]: "first_mismatch_position a a = length a"
  by (induction a) simp_all

text \<open>The vectorised search for the first differing position computes the length of the longest
  common prefix of the two token lists.\<close>

theorem first_mismatch_is_longest_common_prefix:
  "first_mismatch_position a b = length (longest_common_prefix a b)"
  by (induction a b rule: list_induct2') auto

section \<open>One request\<close>

lemma drop_tail_split: "ys \<noteq> [] \<Longrightarrow> n = length ys \<Longrightarrow> drop_tail (xs @ ys) n = xs"
  by simp

text \<open>The comparison rewrites the tokens, the finish state and the log-probability lists; everything
  else stays.\<close>

definition compared :: "token list \<Rightarrow> finish_reason option \<Rightarrow> req \<Rightarrow> req \<Rightarrow> bool" where
  "compared outs fin r r' \<longleftrightarrow>
     (\<exists>vals idx ofs. r' = r\<lparr>output_ids := outs, finished_reason := fin, output_token_logprobs_val := vals,
        output_token_logprobs_idx := idx, send_output_token_logprobs_offset := ofs\<rparr>)"

lemma compared_fields:
  assumes "compared outs fin r r'"
  shows "output_ids r' = outs" "finished_reason r' = fin"
    "llm42_verified_tokens r' = llm42_verified_tokens r" "origin_input_ids r' = origin_input_ids r"
    "req_pool_idx r' = req_pool_idx r" "is_deterministic r' = is_deterministic r"
    "finished_len r' = finished_len r" "llm42_num_rollbacks r' = llm42_num_rollbacks r"
    "llm42_tokens_rolled_back r' = llm42_tokens_rolled_back r"
    "llm42_num_verification_windows r' = llm42_num_verification_windows r"
    "is_retracted r' = is_retracted r" "kv_committed_len r' = kv_committed_len r"
    "kv_allocated_len r' = kv_allocated_len r" "decode_batch_idx r' = decode_batch_idx r"
    "sampling_params r' = sampling_params r"
  using assms by (auto simp: compared_def)

lemma compared_update:
  assumes "compared outs fin r r'"
  shows "compared outs fin r (r'\<lparr>send_output_token_logprobs_offset := ofs\<rparr>)"
    "compared outs fin r (r'\<lparr>output_token_logprobs_val := v, output_token_logprobs_idx := i\<rparr>)"
    "compared outs' fin r (r'\<lparr>output_ids := outs'\<rparr>)"
    "compared outs fin' r (r'\<lparr>finished_reason := fin'\<rparr>)"
proof -
  from assms obtain vals idx ofs' where r': "r' = r\<lparr>output_ids := outs, finished_reason := fin,
      output_token_logprobs_val := vals, output_token_logprobs_idx := idx,
      send_output_token_logprobs_offset := ofs'\<rparr>"
    by (auto simp: compared_def)
  show "compared outs fin r (r'\<lparr>send_output_token_logprobs_offset := ofs\<rparr>)"
    unfolding compared_def r' by (intro exI [of _ vals] exI [of _ idx] exI [of _ ofs]) simp
  show "compared outs fin r (r'\<lparr>output_token_logprobs_val := v, output_token_logprobs_idx := i\<rparr>)"
    unfolding compared_def r' by (intro exI [of _ v] exI [of _ i] exI [of _ ofs']) simp
  show "compared outs' fin r (r'\<lparr>output_ids := outs'\<rparr>)"
    "compared outs fin' r (r'\<lparr>finished_reason := fin'\<rparr>)"
    unfolding compared_def r' by (intro exI [of _ vals] exI [of _ idx] exI [of _ ofs']; simp)+
qed

lemma compared_helpers:
  assumes "compared outs fin r r'"
  shows "compared outs fin r (sync_logprob_offset lps r')"
    "compared outs fin r (append_logprob lp t r')"
    "compared outs fin r (replace_logprobs n lps toks r')"
  using assms
  by (simp_all add: sync_logprob_offset_def append_logprob_def replace_logprobs_def compared_update(1,2)
      split: option.split)

lemma compared_refl: "compared (output_ids r) (finished_reason r) r r"
  unfolding compared_def
  by (intro exI [of _ "output_token_logprobs_val r"] exI [of _ "output_token_logprobs_idx r"]
      exI [of _ "send_output_token_logprobs_offset r"]) simp

lemma rollback_point_None:
  "rollback_point fl None orig ver =
     (int (first_mismatch_position orig ver), int (length orig - first_mismatch_position orig ver))"
  using first_mismatch_le [of orig ver] by (simp add: rollback_point_def Let_def)

text \<open>Without injected mismatches: the request keeps its old prefix and the verifier's tokens up to
  and including the first one that differs.\<close>

lemma compare_req_spec:
  assumes out: "output_ids r = pre @ orig" and len: "length ver = length orig"
    and lps: "\<And>ls. lps = Some ls \<Longrightarrow> length ls = length orig"
  defines "m \<equiv> first_mismatch_position orig ver"
  shows "\<exists>r'. compare_req fl None n orig ver lps r = Inr (r', int m, int (length orig - Suc m))
     \<and> compared (pre @ take (Suc m) ver) (if orig = ver then finished_reason r else None) r r'"
proof (cases "m = length orig")
  case True
  then have eq: "orig = ver" unfolding m_def using first_mismatch_eq len by metis
  have "take (Suc m) ver = ver" by (rule take_all) (use True len in linarith)
  then have o: "pre @ take (Suc m) ver = output_ids r" using out eq by simp
  have "compared (output_ids r) (finished_reason r) r (sync_logprob_offset lps (replace_logprobs n lps ver r))"
    by (rule compared_helpers(1) [OF compared_helpers(3) [OF compared_refl]])
  then show ?thesis
    unfolding o if_P [OF eq] using True
    by (simp add: compare_req_def rollback_point_None m_def [symmetric])
next
  case False
  have m: "m < length orig" using False first_mismatch_le [of orig ver] len by (simp add: m_def)
  have ne: "orig \<noteq> ver" using False unfolding m_def by (metis first_mismatch_eq)
  have "drop_tail ((pre @ take m orig) @ drop m orig) (length (drop m orig)) = pre @ take m orig"
    by (rule drop_tail_append) (use m in simp)
  then have cut: "drop_tail (output_ids r) (length orig - m) = pre @ take m ver"
    using first_mismatch_take [of orig ver] by (simp add: out m_def [symmetric])
  let ?r3 = "(replace_logprobs n (map_option (\<lambda>ls. take_int ls (int m)) lps) (take_int ver (int m))
      (r\<lparr>output_ids := pre @ take m ver\<rparr>))\<lparr>finished_reason := None\<rparr>"
  have c3: "compared (pre @ take m ver) None r ?r3"
    by (rule compared_update(4) [OF compared_helpers(3) [OF compared_update(3) [OF compared_refl]]])
  then have o3: "output_ids ?r3 = pre @ take m ver" by (rule compared_fields)
  have t: "pre @ take m ver @ [ver ! m] = pre @ take (Suc m) ver"
    using m len by (simp add: take_Suc_conv_app_nth)
  have c4: "compared (pre @ take (Suc m) ver) None r
      (sync_logprob_offset lps (append_logprob lp (ver ! m) (?r3\<lparr>output_ids := output_ids ?r3 @ [ver ! m]\<rparr>)))" for lp
    unfolding o3 append.assoc t by (rule compared_helpers(1) [OF compared_helpers(2) [OF compared_update(3) [OF c3]]])
  have nn: "nat (int (length orig) - int m) = length orig - m" by linarith
  have n: "int (length orig - m) - 1 = int (length orig - Suc m)" using m by simp
  obtain lp where lp: "(case lps of None \<Rightarrow> Inr None
      | Some ls \<Rightarrow> bind_result (py_item ls (int m)) (\<lambda>l. Inr (Some l))) = (Inr lp :: real option result)"
    using lps m by (cases lps) auto
  have "compare_req fl None n orig ver lps r = Inr (sync_logprob_offset lps
      (append_logprob lp (ver ! m) (?r3\<lparr>output_ids := output_ids ?r3 @ [ver ! m]\<rparr>)), int m, int (length orig - Suc m))"
    using m len lp n cut by (simp add: compare_req_def rollback_point_None m_def [symmetric] Let_def nn)
  with c4 ne show ?thesis by auto
qed

section \<open>A fixed-size batch\<close>

lemma concat_map_single: "concat (map (\<lambda>j. [f j]) xs) = map f xs"
  by (induction xs) simp_all

lemma masked_window:
  assumes "off + a \<le> length xs"
  shows "masked xs off (a + c) (replicate a True @ replicate c False) = Inr (slice xs off (off + a))"
proof -
  let ?g = "\<lambda>j. if j < a then [xs ! (off + j)] else []"
  have "map_result (\<lambda>j. bind_result (py_nth (replicate a True @ replicate c False) j) (\<lambda>b.
      if b then bind_result (py_nth xs (off + j)) (\<lambda>x. Inr [x]) else Inr [])) [0..<a + c] =
      Inr (map ?g [0..<a + c])"
    using assms by (intro map_result_Inr_map) (auto simp: nth_append)
  moreover have "concat (map ?g [0..<a + c]) = slice xs off (off + a)"
  proof -
    have "map ?g [0..<a + c] = map (\<lambda>j. [xs ! (off + j)]) [0..<a] @ map (\<lambda>j. []) [a..<a + c]"
      by (subst upt_add_eq_append) auto
    then have "concat (map ?g [0..<a + c]) = map (\<lambda>j. xs ! (off + j)) [0..<a]"
      by (simp add: concat_map_single)
    also have "\<dots> = slice xs off (off + a)" using assms by (intro nth_equalityI) auto
    finally show ?thesis .
  qed
  ultimately show ?thesis by (simp add: masked_def)
qed

text \<open>The verifier's answer for the window of a request, and what the request keeps.\<close>

definition verdict :: "token list \<Rightarrow> nat \<Rightarrow> req \<Rightarrow> token list" where
  "verdict ids off r = slice ids off (off + length (unverified r))"

definition agreed :: "req \<Rightarrow> token list \<Rightarrow> nat" where
  "agreed r v = first_mismatch_position (unverified r) v"

definition confirmed :: "req \<Rightarrow> token list \<Rightarrow> token list" where
  "confirmed r v = take (llm42_verified_tokens r) (output_ids r) @ take (Suc (agreed r v)) v"

definition compared_with :: "token list \<Rightarrow> req \<Rightarrow> req \<Rightarrow> bool" where
  "compared_with v r r' \<longleftrightarrow>
     compared (confirmed r v) (if unverified r = v then finished_reason r else None) r r'"

definition window_at :: "llm42_info \<Rightarrow> nat \<Rightarrow> nat \<Rightarrow> nat \<Rightarrow> req \<Rightarrow> bool" where
  "window_at info w i off r \<longleftrightarrow>
     i < length (padded_lens info) \<and> padded_lens info ! i = w \<and>
     i < length (output_lens info) \<and> output_lens info ! i = length (unverified r) \<and>
     i < length (padding_masks info) \<and>
     padding_masks info ! i =
       replicate (length (unverified r)) True @ replicate (w - length (unverified r)) False \<and>
     length (unverified r) \<le> w \<and>
     off + w \<le> length (original_outputs info) \<and>
     slice (original_outputs info) off (off + length (unverified r)) = unverified r"

lemma take_slice: "take n (slice xs a b) = slice xs a (min (a + n) b)"
proof -
  have "min (a + n) b - a = min n (b - a)" by linarith
  then show ?thesis by (simp add: slice_def)
qed

lemma masked_verdict:
  assumes "length (unverified r) \<le> w" "off + w \<le> length ids"
  shows "masked (slice ids off (off + w)) 0 w
      (replicate (length (unverified r)) True @ replicate (w - length (unverified r)) False) =
    Inr (slice ids off (off + length (unverified r)))"
  using masked_window [of 0 "length (unverified r)" "slice ids off (off + w)" "w - length (unverified r)"] assms
  by (simp add: take_slice)

lemma compare_at_spec:
  assumes w: "window_at info w i off r" and ids: "off + w \<le> length ids"
    and lps: "\<And>ls. lps = Some ls \<Longrightarrow> off + w \<le> length ls"
  shows "\<exists>r'. compare_at fl None info ids lps i off r =
       Inr (r', (int (agreed r (verdict ids off r)), int (length (unverified r) - Suc (agreed r (verdict ids off r)))), off + w)
     \<and> compared_with (verdict ids off r) r r'"
proof -
  let ?U = "length (unverified r)"
  let ?mask = "replicate ?U True @ replicate (w - ?U) False"
  have U: "?U \<le> w" using w by (simp add: window_at_def)
  have o: "masked (original_outputs info) off w ?mask = Inr (unverified r)"
    using masked_window [of off ?U "original_outputs info" "w - ?U"] w U by (simp add: window_at_def)
  have v: "masked (slice ids off (off + w)) 0 w ?mask = Inr (verdict ids off r)"
    using masked_verdict [OF U ids] by (simp add: verdict_def)
  obtain vl where vl: "(case lps of None \<Rightarrow> Inr None
       | Some ls \<Rightarrow> bind_result (masked (slice ls off (off + w)) 0 w ?mask) (\<lambda>l. Inr (Some l))) =
      (Inr vl :: real list option result)" and vlen: "\<And>ls. vl = Some ls \<Longrightarrow> length ls = ?U"
  proof (cases lps)
    case (Some ls)
    have "masked (slice ls off (off + w)) 0 w ?mask = Inr (slice ls off (off + ?U))"
      by (rule masked_verdict [OF U lps [OF Some]])
    with Some that [of "Some (slice ls off (off + ?U))"] lps [OF Some] U show ?thesis by simp
  qed auto
  have len: "length (verdict ids off r) = length (unverified r)"
    using ids U by (simp add: verdict_def)
  have out: "output_ids r = take (llm42_verified_tokens r) (output_ids r) @ unverified r"
    by (simp add: unverified_def)
  from compare_req_spec [OF out len, of vl fl ?U] vlen show ?thesis
    using w o v vl by (auto simp: compare_at_def window_at_def compared_with_def confirmed_def agreed_def)
qed

definition windows_at :: "llm42_info \<Rightarrow> nat \<Rightarrow> nat \<Rightarrow> nat \<Rightarrow> req list \<Rightarrow> bool" where
  "windows_at info w i off rs \<longleftrightarrow> (\<forall>j < length rs. window_at info w (i + j) (off + j * w) (rs ! j))"

lemma windows_at_Cons:
  "windows_at info w i off (r # rs) \<longleftrightarrow>
     window_at info w i off r \<and> windows_at info w (Suc i) (off + w) rs"
  by (auto simp: windows_at_def less_Suc_eq_0_disj add.assoc)

definition outcome :: "token list \<Rightarrow> nat \<Rightarrow> req \<Rightarrow> int \<times> int" where
  "outcome ids off r =
     (int (agreed r (verdict ids off r)), int (length (unverified r) - Suc (agreed r (verdict ids off r))))"

lemma compare_loop_spec:
  assumes "distinct refs" "windows_at info w i off (map h refs)" "off + length refs * w \<le> length ids"
    and "\<And>ls. lps = Some ls \<Longrightarrow> off + length refs * w \<le> length ls"
  shows "\<exists>h'. compare_loop fl None info ids lps i off h refs =
       Inr (h', map (\<lambda>j. outcome ids (off + j * w) (h (refs ! j))) [0..<length refs])
     \<and> (\<forall>j < length refs. compared_with (verdict ids (off + j * w) (h (refs ! j))) (h (refs ! j)) (h' (refs ! j)))
     \<and> (\<forall>x. x \<notin> set refs \<longrightarrow> h' x = h x)"
  using assms
proof (induction refs arbitrary: i off h)
  case (Cons x refs)
  have w: "window_at info w i off (h x)" "windows_at info w (Suc i) (off + w) (map h refs)"
    using Cons.prems(2) by (simp_all add: windows_at_Cons)
  obtain r' where r': "compare_at fl None info ids lps i off (h x) = Inr (r', outcome ids off (h x), off + w)"
    "compared_with (verdict ids off (h x)) (h x) r'"
    using compare_at_spec [OF w(1), of ids lps fl] Cons.prems(3,4) unfolding outcome_def by fastforce
  let ?h = "h(x := r')"
  have same: "map ?h refs = map h refs" using Cons.prems(1) by simp
  have "\<exists>h'. compare_loop fl None info ids lps (Suc i) (off + w) ?h refs =
       Inr (h', map (\<lambda>j. outcome ids (off + w + j * w) (?h (refs ! j))) [0..<length refs])
     \<and> (\<forall>j < length refs. compared_with (verdict ids (off + w + j * w) (?h (refs ! j))) (?h (refs ! j)) (h' (refs ! j)))
     \<and> (\<forall>y. y \<notin> set refs \<longrightarrow> h' y = ?h y)"
  proof (rule Cons.IH)
    show "windows_at info w (Suc i) (off + w) (map ?h refs)" unfolding same by (rule w(2))
    show "off + w + length refs * w \<le> length ls" if "lps = Some ls" for ls
      using Cons.prems(4) [OF that] by simp
  qed (use Cons.prems in simp_all)
  then obtain h' where h': "compare_loop fl None info ids lps (Suc i) (off + w) ?h refs =
       Inr (h', map (\<lambda>j. outcome ids (off + w + j * w) (?h (refs ! j))) [0..<length refs])"
    "\<forall>j < length refs. compared_with (verdict ids (off + w + j * w) (?h (refs ! j))) (?h (refs ! j)) (h' (refs ! j))"
    "\<forall>y. y \<notin> set refs \<longrightarrow> h' y = ?h y" by blast
  have nx: "?h (refs ! j) = h (refs ! j)" if "j < length refs" for j
    using that Cons.prems(1) by auto
  have hx: "h' x = r'" using h'(3) Cons.prems(1) by simp
  have "map (\<lambda>j. outcome ids (off + w + j * w) (?h (refs ! j))) [0..<length refs] =
      map (\<lambda>j. outcome ids (off + Suc j * w) (h ((x # refs) ! Suc j))) [0..<length refs]"
    using nx by (intro map_cong) (simp_all add: add.assoc)
  then have m: "outcome ids off (h x) # map (\<lambda>j. outcome ids (off + w + j * w) (?h (refs ! j))) [0..<length refs] =
      map (\<lambda>j. outcome ids (off + j * w) (h ((x # refs) ! j))) [0..<length (x # refs)]"
    by (simp add: upt_conv_Cons map_Suc_upt [symmetric] del: upt_Suc)
  have "\<forall>j < length (x # refs). compared_with (verdict ids (off + j * w) (h ((x # refs) ! j))) (h ((x # refs) ! j)) (h' ((x # refs) ! j))"
    using h'(2) r'(2) hx nx by (auto simp: less_Suc_eq_0_disj add.assoc)
  moreover have "compare_loop fl None info ids lps i off h (x # refs) =
      Inr (h', map (\<lambda>j. outcome ids (off + j * w) (h ((x # refs) ! j))) [0..<length (x # refs)])"
    unfolding m [symmetric] by (simp add: r'(1) h'(1))
  moreover have "\<forall>y. y \<notin> set (x # refs) \<longrightarrow> h' y = h y" using h'(3) by simp
  ultimately show ?case by blast
qed simp

lemma slice_concat:
  assumes "\<forall>x \<in> set xs. length (f x) = w" "j < length xs" "n \<le> w"
  shows "slice (concat (map f xs)) (j * w) (j * w + n) = take n (f (xs ! j))"
  using assms
proof (induction xs arbitrary: j)
  case (Cons x xs)
  show ?case
  proof (cases j)
    case 0
    then show ?thesis using Cons.prems by simp
  next
    case (Suc k)
    then have "slice (concat (map f (x # xs))) (j * w) (j * w + n) = slice (concat (map f xs)) (k * w) (k * w + n)"
      using Cons.prems by (simp add: slice_def)
    with Cons Suc show ?thesis by simp
  qed
qed simp

lemma fixed_info_windows:
  assumes "\<forall>r \<in> set rs. fits_window p w r"
  shows "windows_at (fixed_info w k locs rs) w 0 0 rs"
  unfolding windows_at_def
proof (intro allI impI)
  fix j assume j: "j < length rs"
  have u: "\<forall>r \<in> set rs. unverified r \<noteq> []" using assms fits_window_unverified by blast
  note f = fixed_info_fields [OF u, of w k locs]
  have U: "length (unverified (rs ! j)) \<le> w" using assms j by (auto simp: fits_window_def)
  let ?seg = "\<lambda>r. take w (unverified r) @ replicate (w - length (unverified r)) DUMMY_TOKEN_ID"
  have seg: "\<forall>r \<in> set rs. length (?seg r) = w" using assms by (auto simp: fits_window_def)
  have "slice (concat (map ?seg rs)) (j * w) (j * w + length (unverified (rs ! j))) = unverified (rs ! j)"
    using slice_concat [OF seg j U] U by simp
  moreover have "length (concat (map ?seg rs)) = length rs * w"
    using seg by (induction rs) simp_all
  moreover have "j * w + w \<le> length rs * w"
    using mult_le_mono1 [of "Suc j" "length rs" w] j by simp
  ultimately show "window_at (fixed_info w k locs rs) w (0 + j) (0 + j * w) (rs ! j)"
    unfolding window_at_def f using j U by (simp add: nth_append min_absorb2)
qed

text \<open>C10. A fixed-size batch is compared request by request: each request is matched against its own
  window of the verifier's output and against nothing else, keeps its verified prefix and then
  exactly the verifier's tokens up to and including the first one that differs from its own, and
  loses its finish state when there is such a token; requests outside the batch are untouched.\<close>

theorem fixed_batch_verdicts:
  assumes dist: "distinct refs" and fit: "\<forall>r \<in> set (map h refs). fits_window p w r"
    and ids: "length refs * w \<le> length ids"
    and lps: "\<And>ls. lps = Some ls \<Longrightarrow> length refs * w \<le> length ls"
  shows "\<exists>h'. verify_and_compare fl (fixed_info w k locs (map h refs)) h refs ids lps None =
       Inr (h', map (\<lambda>j. outcome ids (j * w) (h (refs ! j))) [0..<length refs])
     \<and> (\<forall>j < length refs. let r = h (refs ! j); v = slice ids (j * w) (j * w + length (unverified r))
          in output_ids (h' (refs ! j)) = take (llm42_verified_tokens r) (output_ids r) @
               take (Suc (first_mismatch_position (unverified r) v)) v
           \<and> finished_reason (h' (refs ! j)) = (if unverified r = v then finished_reason r else None))
     \<and> (\<forall>x. x \<notin> set refs \<longrightarrow> h' x = h x)"
proof -
  let ?info = "fixed_info w k locs (map h refs)"
  have u: "\<forall>r \<in> set (map h refs). unverified r \<noteq> []" using fit fits_window_unverified by blast
  have n: "take (min (length refs) (num_real_requests ?info)) refs = refs"
    by (simp add: fixed_info_fields(6) [OF u])
  obtain h' where h': "compare_loop fl None ?info ids lps 0 0 h refs =
      Inr (h', map (\<lambda>j. outcome ids (0 + j * w) (h (refs ! j))) [0..<length refs])"
    "\<forall>j < length refs. compared_with (verdict ids (0 + j * w) (h (refs ! j))) (h (refs ! j)) (h' (refs ! j))"
    "\<forall>x. x \<notin> set refs \<longrightarrow> h' x = h x"
    using compare_loop_spec [OF dist fixed_info_windows [OF fit], of ids lps fl k locs] ids lps by auto
  have "output_ids (h' (refs ! j)) = confirmed (h (refs ! j)) (verdict ids (j * w) (h (refs ! j)))
      \<and> finished_reason (h' (refs ! j)) =
          (if unverified (h (refs ! j)) = verdict ids (j * w) (h (refs ! j))
           then finished_reason (h (refs ! j)) else None)" if "j < length refs" for j
    using h'(2) [rule_format, OF that] compared_fields(1,2) unfolding compared_with_def by simp
  then show ?thesis
    using h'(1,3) n by (auto simp: verify_and_compare_def Let_def verdict_def confirmed_def agreed_def)
qed

definition example_pair :: store where
  "example_pair = (\<lambda>x. if x = 0 then example_store 0
     else (example_store 0)\<lparr>rid := ''b'', output_ids := [5, 8], llm42_verified_tokens := 0, req_pool_idx := Some 1\<rparr>)"

theorem fixed_batch_verdicts_witness:
  "fits_window example_pool 3 (example_pair 0) \<and> fits_window example_pool 3 (example_pair 1) \<and>
   (\<exists>h'. verify_and_compare id (fixed_info 3 0 [] (map example_pair [0, 1])) example_pair [0, 1]
        [6, 9, 32, 5, 8, 32] None None = Inr (h', [(1, 0), (2, 0)])
      \<and> output_ids (h' 0) = [5, 6, 9] \<and> output_ids (h' 1) = [5, 8])"
proof -
  have f: "\<forall>r \<in> set (map example_pair [0, 1]). fits_window example_pool 3 r"
    by (simp add: fits_window_def replayable_def unverified_def seqlen_def example_pair_def example_simps)
  have d: "distinct [0, 1 :: ref]" by simp
  have l: "length [0, 1 :: ref] * 3 \<le> length [6, 9, 32, 5, 8, 32 :: token]" by simp
  let ?r = "\<lambda>j. example_pair ([0, 1] ! j)"
  have o: "map (\<lambda>j. outcome [6, 9, 32, 5, 8, 32] (j * 3) (?r j)) [0..<length [0, 1 :: ref]] = [(1, 0), (2, 0)]"
    by code_simp
  from fixed_batch_verdicts [OF d f l, of None id 0 "[]"] o obtain h' where
    h': "verify_and_compare id (fixed_info 3 0 [] (map example_pair [0, 1])) example_pair [0, 1]
        [6, 9, 32, 5, 8, 32] None None = Inr (h', [(1, 0), (2, 0)])"
    and j: "\<forall>j < length [0, 1 :: ref]. let r = ?r j; v = slice [6, 9, 32, 5, 8, 32] (j * 3) (j * 3 + length (unverified r))
          in output_ids (h' ([0, 1] ! j)) = take (llm42_verified_tokens r) (output_ids r) @
               take (Suc (first_mismatch_position (unverified r) v)) v
           \<and> finished_reason (h' ([0, 1] ! j)) = (if unverified r = v then finished_reason r else None)"
    by auto
  have "take (llm42_verified_tokens (?r 0)) (output_ids (?r 0)) @
      take (Suc (first_mismatch_position (unverified (?r 0)) (slice [6, 9, 32, 5, 8, 32] (0 * 3) (0 * 3 + length (unverified (?r 0))))))
        (slice [6, 9, 32, 5, 8, 32] (0 * 3) (0 * 3 + length (unverified (?r 0)))) = [5, 6, 9]"
    "take (llm42_verified_tokens (?r 1)) (output_ids (?r 1)) @
      take (Suc (first_mismatch_position (unverified (?r 1)) (slice [6, 9, 32, 5, 8, 32] (1 * 3) (1 * 3 + length (unverified (?r 1))))))
        (slice [6, 9, 32, 5, 8, 32] (1 * 3) (1 * 3 + length (unverified (?r 1)))) = [5, 8]"
    by code_simp+
  then have "output_ids (h' 0) = [5, 6, 9]" "output_ids (h' 1) = [5, 8]"
    using j [rule_format, of 0] j [rule_format, of 1] by (simp_all add: Let_def)
  with f h' show ?thesis by auto
qed

section \<open>Log-probabilities\<close>

text \<open>The log-probabilities of the output tokens themselves; top log-probabilities and those of chosen token ids are kept in other
  lists.\<close>

definition logprobs_aligned :: "req \<Rightarrow> bool" where
  "logprobs_aligned r \<longleftrightarrow>
     (case output_token_logprobs_val r of None \<Rightarrow> True
      | Some vs \<Rightarrow> length vs = length (output_ids r) \<and> output_token_logprobs_idx r = Some (output_ids r))"

text \<open>C12. Without an injected mismatch percentage and with the log-probabilities of the verifier, the comparison keeps
  \<open>output_token_logprobs\<close> aligned with the output tokens: one value per token, recorded for that token; the values of the window are the
  verifier's, and the streaming offset points behind them.  It does not touch the top log-probabilities and those of chosen token
  ids: after a rollback they still have the entries of the discarded tokens.\<close>

theorem compare_keeps_logprobs_aligned:
  assumes al: "logprobs_aligned r" and val: "output_token_logprobs_val r = Some vs"
    and out: "output_ids r = pre @ orig" "orig \<noteq> []"
    and len: "length ver = length orig" "length ls = length orig"
  defines "m \<equiv> first_mismatch_position orig ver"
  shows "\<exists>r' inf. compare_req fl None (length orig) orig ver (Some ls) r = Inr (r', inf)
    \<and> logprobs_aligned r'
    \<and> output_token_logprobs_val r' = Some (take (length pre) vs @ take (Suc m) ls)
    \<and> send_output_token_logprobs_offset r' = length pre + min (Suc m) (length ls)
    \<and> output_top_logprobs_val r' = output_top_logprobs_val r \<and> output_top_logprobs_idx r' = output_top_logprobs_idx r
    \<and> output_token_ids_logprobs_val r' = output_token_ids_logprobs_val r
    \<and> output_token_ids_logprobs_idx r' = output_token_ids_logprobs_idx r
    \<and> length (output_ids r') = length pre + min (Suc m) (length orig)"
proof -
  have idx: "output_token_logprobs_idx r = Some (pre @ orig)" "length vs = length pre + length orig"
    using al val out by (simp_all add: logprobs_aligned_def)
  have cut: "drop_tail vs (length orig) = take (length pre) vs" "drop_tail (pre @ orig) (length orig) = pre"
    using idx(2) out(2) by (simp_all add: drop_tail_def)
  show ?thesis
  proof (cases "m = length orig")
    case True
    then have eq: "orig = ver" unfolding m_def using first_mismatch_eq len by metis
    have t: "take (Suc m) ls = ls" by (rule take_all) (use True len in linarith)
    show ?thesis
      unfolding t using True val idx cut out len
      by (simp add: compare_req_def rollback_point_None m_def [symmetric] replace_logprobs_def
          sync_logprob_offset_def logprobs_aligned_def eq [symmetric])
  next
    case False
    have m: "m < length orig" using False first_mismatch_le [of orig ver] len by (simp add: m_def)
    have nn: "nat (int (length orig) - int m) = length orig - m" by linarith
    have "drop_tail ((pre @ take m orig) @ drop m orig) (length (drop m orig)) = pre @ take m orig"
      by (rule drop_tail_append) (use m in simp)
    then have o: "drop_tail (output_ids r) (length orig - m) = pre @ take m ver"
      using first_mismatch_take [of orig ver] by (simp add: out m_def [symmetric])
    have s: "take (Suc m) ls = take m ls @ [ls ! m]"
      using m len by (simp add: take_Suc_conv_app_nth)
    show ?thesis
      unfolding s using m val idx cut len nn o
      by (simp add: compare_req_def rollback_point_None m_def [symmetric] replace_logprobs_def
          append_logprob_def sync_logprob_offset_def logprobs_aligned_def Let_def)
  qed
qed

theorem compare_keeps_logprobs_aligned_witness:
  "let r = (example_store 0)\<lparr>output_token_logprobs_val := Some [0, 1, 2],
        output_token_logprobs_idx := Some [5, 6, 7]\<rparr>
   in logprobs_aligned r \<and> output_ids r = [5] @ [6, 7] \<and>
      (\<exists>r' inf. compare_req id None 2 [6, 7] [6, 9] (Some [3, 4]) r = Inr (r', inf)
         \<and> logprobs_aligned r' \<and> output_token_logprobs_val r' = Some [0, 3, 4])"
proof -
  let ?r = "(example_store 0)\<lparr>output_token_logprobs_val := Some [0, 1, 2 :: real],
      output_token_logprobs_idx := Some [5, 6, 7]\<rparr>"
  have a: "logprobs_aligned ?r" "output_token_logprobs_val ?r = Some [0, 1, 2]"
    "output_ids ?r = [5] @ [6, 7]"
    by (simp_all add: logprobs_aligned_def example_simps)
  have m: "first_mismatch_position [6, 7] [6, 9 :: token] = 1" by code_simp
  from compare_keeps_logprobs_aligned [OF a, of "[6, 9]" "[3, 4]" id] a show ?thesis
    by (simp add: m Let_def numeral_2_eq_2) blast
qed

end
