(* ===== verification/LLM42_Worker.thy ===== *)
theory LLM42_Worker
  imports LLM42_Compare
begin

text \<open>
  The verification worker of \<open>llm42/llm42_worker.py\<close>: the pool of pre-allocated dummy resources
  (\<open>FixedSizeVerificationPool\<close>), the selection and grouping of requests, and the pipeline of one
  verification pass (\<open>_run_verification\<close>).  The forward pass of the model is the parameter \<open>fwd\<close>: it
  maps a verification batch to the predicted tokens and their log-probabilities.  An exception of
  the pass ends the scheduler process; only its kind is kept.
\<close>

section \<open>The pool of dummy resources\<close>

record fixed_pool =
  fp_fixed_size :: nat
  fp_window_size :: nat
  dummy_input_ids :: "token list"
  dummy_cache_locs :: "slot list option"
  dummy_req_pool_indices :: "nat list"
  allocated_pool_indices :: "nat list option"
  dummy_tensors :: dummy_sampling
  padding_cache_pool :: "slot list option"
  padding_cache_pool_allocated :: "slot list option"

definition align_slots :: "allocator \<Rightarrow> nat \<Rightarrow> nat" where
  "align_slots a n = (if 1 < page_size a then ceil_align n (page_size a) else n)"

text \<open>Row \<open>i\<close> of the dummy requests gets the \<open>i\<close>-th window of the dummy slots.\<close>

fun write_dummy_rows :: "req_to_token_pool \<Rightarrow> nat \<Rightarrow> slot list \<Rightarrow> nat \<Rightarrow> nat list \<Rightarrow> req_to_token_pool" where
  "write_dummy_rows p ws locs i [] = p"
| "write_dummy_rows p ws locs i (row # rows) =
     write_dummy_rows (rt_write p row 0 (slice locs (i * ws) (i * ws + ws))) ws locs (Suc i) rows"

definition init_dummy_tensors :: "nat \<Rightarrow> nat \<Rightarrow> dummy_sampling" where
  "init_dummy_tensors fs ws =
     \<lparr>ds_temps = replicate (fs * ws) 0, ds_top_ps = replicate (fs * ws) 1,
      ds_top_ks = replicate (fs * ws) (-1), ds_min_ps = replicate (fs * ws) 0,
      ds_seeds = replicate (fs * ws) 0, ds_det_indices = replicate (fs * ws) 1,
      ds_prefix_lens = replicate fs 0, ds_output_lens = replicate fs (int ws)\<rparr>"

text \<open>The constructor changes the allocator and the table as it goes: the state it leaves behind is
  returned also when it raises.\<close>

definition alloc_or_raise :: "allocator \<Rightarrow> nat \<Rightarrow> slot list result \<times> allocator" where
  "alloc_or_raise a n =
     (case alloc a n of
        Inl e \<Rightarrow> (Inl e, a)
      | Inr (None, a') \<Rightarrow> (Inl RuntimeError, a')
      | Inr (Some xs, a') \<Rightarrow> (if length xs = 0 then Inl RuntimeError else Inr xs, a'))"

definition pool_init ::
  "nat \<Rightarrow> nat \<Rightarrow> req_to_token_pool \<Rightarrow> allocator \<Rightarrow> fixed_pool result \<times> req_to_token_pool \<times> allocator" where
  "pool_init fs ws p a =
     (case alloc_or_raise a (align_slots a (fs * ws)) of
        (Inl e, a1) \<Rightarrow> (Inl e, p, a1)
      | (Inr locs, a1) \<Rightarrow>
          if length (free_slots p) < fs then (Inl RuntimeError, p, a1)
          else
            (let rows = take fs (free_slots p);
                 p1 = p\<lparr>free_slots := drop fs (free_slots p)\<rparr>
             in if rows \<noteq> [] \<and> max_context_len p < ws then (Inl RuntimeError, p1, a1)
                else
                  (let p2 = write_dummy_rows p1 ws locs 0 rows;
                       pool = \<lparr>fp_fixed_size = fs, fp_window_size = ws,
                               dummy_input_ids = replicate (fs * ws) DUMMY_TOKEN_ID,
                               dummy_cache_locs = Some locs, dummy_req_pool_indices = rows,
                               allocated_pool_indices = Some rows,
                               dummy_tensors = init_dummy_tensors fs ws,
                               padding_cache_pool = None, padding_cache_pool_allocated = None\<rparr>;
                       max_padding_slots = fs * (ws - 1)
                   in if 0 < max_padding_slots
                      then (case alloc_or_raise a1 (align_slots a1 max_padding_slots) of
                              (Inl e, a2) \<Rightarrow> (Inl e, p2, a2)
                            | (Inr pad, a2) \<Rightarrow>
                                (Inr (pool\<lparr>padding_cache_pool :=
                                             Some (if max_padding_slots < length pad
                                                   then take max_padding_slots pad else pad),
                                           padding_cache_pool_allocated := Some pad\<rparr>), p2, a2))
                      else (Inr pool, p2, a1))))"

definition get_dummy_data ::
  "fixed_pool \<Rightarrow> nat \<Rightarrow> (token list option \<times> slot list option \<times> nat list option) result" where
  "get_dummy_data fp num_dummies =
     (if num_dummies = 0 then Inr (None, None, None)
      else if fp_fixed_size fp < num_dummies then Inl ValueError
      else
        (let needed = num_dummies * fp_window_size fp
         in case dummy_cache_locs fp of
              None \<Rightarrow> Inl TypeError
            | Some locs \<Rightarrow>
                Inr (Some (take needed (dummy_input_ids fp)), Some (take needed locs),
                     Some (take num_dummies (dummy_req_pool_indices fp)))))"

definition get_padding_cache_locs :: "fixed_pool \<Rightarrow> nat \<Rightarrow> slot list option result" where
  "get_padding_cache_locs fp num_slots =
     (if num_slots = 0 then Inr None
      else case padding_cache_pool fp of
        None \<Rightarrow> Inl RuntimeError
      | Some pool \<Rightarrow>
          if length pool < num_slots then Inl RuntimeError else Inr (Some (take num_slots pool)))"

definition get_dummy_sampling_tensors :: "fixed_pool \<Rightarrow> nat \<Rightarrow> dummy_sampling option" where
  "get_dummy_sampling_tensors fp num_dummies =
     (if num_dummies = 0 then None
      else
        (let needed = num_dummies * fp_window_size fp; t = dummy_tensors fp
         in Some \<lparr>ds_temps = take needed (ds_temps t), ds_top_ps = take needed (ds_top_ps t),
                  ds_top_ks = take needed (ds_top_ks t), ds_min_ps = take needed (ds_min_ps t),
                  ds_seeds = take needed (ds_seeds t), ds_det_indices = take needed (ds_det_indices t),
                  ds_prefix_lens = take num_dummies (ds_prefix_lens t),
                  ds_output_lens = take num_dummies (ds_output_lens t)\<rparr>))"

definition free_some :: "allocator \<Rightarrow> slot list option \<Rightarrow> allocator result" where
  "free_some a locs = (case locs of Some xs \<Rightarrow> if 0 < length xs then free a xs else Inr a | None \<Rightarrow> Inr a)"

definition pool_free ::
  "fixed_pool \<Rightarrow> req_to_token_pool \<Rightarrow> allocator \<Rightarrow> (fixed_pool \<times> req_to_token_pool \<times> allocator) result" where
  "pool_free fp p a =
     bind_result (free_some a (dummy_cache_locs fp)) (\<lambda>a1.
     bind_result (free_some a1 (padding_cache_pool_allocated fp)) (\<lambda>a2.
       (let cleared = (\<lambda>x. case x of Some xs \<Rightarrow> if 0 < length xs then None else x | None \<Rightarrow> None);
            freed_padding = (case padding_cache_pool_allocated fp of Some xs \<Rightarrow> 0 < length xs | None \<Rightarrow> False);
            fp1 = fp\<lparr>dummy_cache_locs := cleared (dummy_cache_locs fp),
                     padding_cache_pool_allocated := cleared (padding_cache_pool_allocated fp),
                     padding_cache_pool := (if freed_padding then None else padding_cache_pool fp)\<rparr>
        in case allocated_pool_indices fp of
             None \<Rightarrow> Inr (fp1, p, a2)
           | Some rows \<Rightarrow>
               Inr (fp1\<lparr>allocated_pool_indices := None\<rparr>, p\<lparr>free_slots := free_slots p @ rows\<rparr>, a2))))"

section \<open>The worker\<close>

record worker =
  always_align :: bool
  fixed_requests_per_verify :: nat
  skip_mismatch :: real
  window_size :: nat
  fixed_pool_of :: "fixed_pool option"
  decode_steps :: nat
  verify_forward_passes :: nat
  verify_total_reqs :: nat
  verify_total_tokens :: nat

text \<open>What a pass works on: the request store, the memory pools, the worker, the decode batch, and
  whether the worker has sent its own process the termination signal.\<close>

record sys =
  s_store :: store
  s_pool :: req_to_token_pool
  s_alloc :: allocator
  s_worker :: worker
  s_batch :: schedule_batch
  s_sigterm :: bool

definition init_worker :: "bool \<Rightarrow> nat \<Rightarrow> real \<Rightarrow> nat \<Rightarrow> worker" where
  "init_worker align n skip ws =
     \<lparr>always_align = align, fixed_requests_per_verify = n, skip_mismatch = skip, window_size = ws,
      fixed_pool_of = None, decode_steps = 0, verify_forward_passes = 0, verify_total_reqs = 0,
      verify_total_tokens = 0\<rparr>"

text \<open>An exception of the pool's constructor is logged and swallowed.\<close>

definition init_fixed_pool_at ::
  "worker \<Rightarrow> req_to_token_pool \<Rightarrow> allocator \<Rightarrow> worker \<times> req_to_token_pool \<times> allocator" where
  "init_fixed_pool_at w p a =
     (case pool_init (fixed_requests_per_verify w) (window_size w) p a of
        (Inr fp, p', a') \<Rightarrow> (w\<lparr>fixed_pool_of := Some fp\<rparr>, p', a')
      | (Inl _, p', a') \<Rightarrow> (w, p', a'))"

definition init_fixed_pool ::
  "worker \<Rightarrow> req_to_token_pool \<Rightarrow> allocator \<Rightarrow> nat \<Rightarrow> worker \<times> req_to_token_pool \<times> allocator" where
  "init_fixed_pool w p a ws =
     (if fixed_pool_of w \<noteq> None then (w, p, a)
      else init_fixed_pool_at (w\<lparr>window_size := ws\<rparr>) p a)"

definition make_worker ::
  "bool \<Rightarrow> nat \<Rightarrow> real \<Rightarrow> nat \<Rightarrow> (req_to_token_pool \<times> allocator) option \<Rightarrow>
   worker \<times> (req_to_token_pool \<times> allocator) option" where
  "make_worker align n skip ws pools =
     (let w = init_worker align n skip ws
      in case pools of None \<Rightarrow> (w, None)
         | Some (p, a) \<Rightarrow> (let (w', p', a') = init_fixed_pool_at w p a in (w', Some (p', a'))))"

definition forward_batch_generation :: "('b \<Rightarrow> 'r) \<Rightarrow> 'b \<Rightarrow> worker \<Rightarrow> 'r \<times> worker" where
  "forward_batch_generation target b w = (target b, w\<lparr>decode_steps := decode_steps w + 1\<rparr>)"

section \<open>One verification pass\<close>

text \<open>The forward pass of the verifier computes on the GPU.  It reads the verification batch and the KV cache, where it finds
  the keys and values of the tokens before the replayed window; \<open>kv_tokens\<close> gives these tokens for each request.\<close>

definition kv_tokens :: "store \<Rightarrow> ref \<Rightarrow> token list" where
  "kv_tokens h x = take (context_pos (h x)) (full_ids (h x))"

type_synonym verifier = "(ref \<Rightarrow> token list) \<Rightarrow> schedule_batch \<Rightarrow> token list \<times> real list option"

text \<open>Step 2: padding slots from the pool, or allocated for this pass.\<close>

definition assign_padding :: "llm42_info \<Rightarrow> sys \<Rightarrow> (llm42_info \<times> sys) result" where
  "assign_padding info s =
     (if total_padding_cache_slots info = 0 then Inr (info, s)
      else case fixed_pool_of (s_worker s) of
        Some fp \<Rightarrow>
          bind_result (get_padding_cache_locs fp (total_padding_cache_slots info)) (\<lambda>locs.
            case locs of None \<Rightarrow> Inl TypeError
            | Some xs \<Rightarrow> Inr (set_padding_cache_locs xs info, s))
      | None \<Rightarrow>
          bind_result (allocate_padding_kv_cache (s_alloc s) info) (\<lambda>(ok, a, info').
            Inr (info', s\<lparr>s_alloc := a, s_sigterm := s_sigterm s \<or> \<not> ok\<rparr>)))"

text \<open>Step 3: the dummy arguments of \<open>prepare_verify_batch\<close>.\<close>

definition dummy_arguments :: "worker \<Rightarrow> nat \<Rightarrow> dummy_args result" where
  "dummy_arguments w num_dummies =
     (if num_dummies = 0 then Inr no_dummies
      else case fixed_pool_of w of
        None \<Rightarrow> Inl AttributeError
      | Some fp \<Rightarrow>
          bind_result (get_dummy_data fp num_dummies) (\<lambda>(ids, locs, rows).
            Inr \<lparr>d_input_ids = ids, d_cache_locs = locs, d_req_pool_indices = rows,
                 d_num_dummies = num_dummies, d_window_size = Some (fp_window_size fp),
                 d_sampling = get_dummy_sampling_tensors fp num_dummies\<rparr>))"

text \<open>Step 5: the comparison, switched off or with injected mismatches for overhead measurements.\<close>

definition compare_outputs ::
  "(real \<Rightarrow> real) \<Rightarrow> worker \<Rightarrow> llm42_info \<Rightarrow> store \<Rightarrow> ref list \<Rightarrow> token list \<Rightarrow> real list option \<Rightarrow>
   (store \<times> (int \<times> int) list) result" where
  "compare_outputs fl w info h refs ids lps =
     (if 100 \<le> skip_mismatch w then verify_and_compare fl info h refs ids lps None
      else if skip_mismatch w \<le> 0
      then Inr (h, map (\<lambda>x. (int (length (output_ids (h x))) - int (llm42_verified_tokens (h x)), 0)) refs)
      else verify_and_compare fl info h refs ids lps (Some (skip_mismatch w)))"

text \<open>Step 6: per-request statistics and the new number of verified tokens.\<close>

definition advance :: "llm42_info \<Rightarrow> nat \<Rightarrow> int \<Rightarrow> req \<Rightarrow> req" where
  "advance info i rolled r =
     (let r1 = r\<lparr>llm42_num_verification_windows := llm42_num_verification_windows r + 1\<rparr>
      in if 0 < rolled
         then r1\<lparr>llm42_num_rollbacks := llm42_num_rollbacks r + 1,
                 llm42_tokens_rolled_back := llm42_tokens_rolled_back r + nat rolled,
                 llm42_verified_tokens := length (output_ids r)\<rparr>
         else r1\<lparr>llm42_verified_tokens := llm42_verified_tokens r +
                    (if i < length (output_lens info) then output_lens info ! i else 0)\<rparr>)"

fun collect_rollbacks ::
  "llm42_info \<Rightarrow> nat \<Rightarrow> store \<Rightarrow> ref list \<Rightarrow> (int \<times> int) list \<Rightarrow> store \<times> (ref \<times> int) list" where
  "collect_rollbacks info i h (x # xs) ((pos, n) # infs) =
     (let (h', res) = collect_rollbacks info (Suc i) (h(x := advance info i n (h x))) xs infs
      in (h', (if 0 < n then [(x, n)] else []) @ res))"
| "collect_rollbacks info i h _ _ = (h, [])"

text \<open>\<open>_update_batch_state\<close>: the entries of the rolled-back requests are rebuilt.\<close>

fun update_entries ::
  "store \<Rightarrow> ref set \<Rightarrow> nat \<Rightarrow> ref list \<Rightarrow> token list \<times> int list \<Rightarrow> (token list \<times> int list) result" where
  "update_entries h rolled i [] (outs, lens) = Inr (outs, lens)"
| "update_entries h rolled i (x # xs) (outs, lens) =
     (if rolled \<noteq> {} \<and> x \<notin> rolled then update_entries h rolled (Suc i) xs (outs, lens)
      else if length outs \<le> i \<or> length lens \<le> i then Inl IndexError
      else
        (let r = h x;
             t = (if output_ids r \<noteq> [] then last (output_ids r)
                  else if origin_input_ids r \<noteq> [] then last (origin_input_ids r) else 0);
             n = int (length (origin_input_ids r)) + int (length (output_ids r)) - 1
         in update_entries h rolled (Suc i) xs (outs[i := t], lens[i := n])))"

definition update_batch_state :: "store \<Rightarrow> ref set \<Rightarrow> schedule_batch \<Rightarrow> schedule_batch result" where
  "update_batch_state h rolled b =
     (case b_output_ids b of
        None \<Rightarrow> Inr b
      | Some outs \<Rightarrow>
          (case b_seq_lens b of
             None \<Rightarrow> Inl AttributeError
           | Some lens \<Rightarrow>
               bind_result (update_entries h rolled 0 (b_reqs b) (outs, lens)) (\<lambda>(outs', lens').
                 Inr (b\<lparr>b_output_ids := Some outs', b_seq_lens := Some lens',
                        b_seq_lens_cpu := Some lens', b_orig_seq_lens := Some lens',
                        b_seq_lens_sum := sum_list lens'\<rparr>))))"

text \<open>\<open>_cleanup_verify_batch\<close> drops the tensors of the verification batch.\<close>

definition cleanup_verify_batch :: "schedule_batch \<Rightarrow> schedule_batch" where
  "cleanup_verify_batch b =
     b\<lparr>b_out_cache_loc := None, b_input_ids := None, b_seq_lens := None, b_seq_lens_cpu := None,
       b_req_pool_indices := None,
       b_sampling_info := map_option (\<lambda>si. si\<lparr>temperatures := [], top_ps := [], top_ks := [], min_ps := [],
          si_sampling_seed := None, deterministic_indices := None\<rparr>) (b_sampling_info b)\<rparr>"

definition count_pass :: "nat \<Rightarrow> llm42_info \<Rightarrow> worker \<Rightarrow> worker" where
  "count_pass n info w =
     w\<lparr>verify_forward_passes := verify_forward_passes w + 1, verify_total_reqs := verify_total_reqs w + n,
       verify_total_tokens := verify_total_tokens w + sum_list (output_lens info)\<rparr>"

definition run_verification ::
  "bool \<Rightarrow> (real \<Rightarrow> real) \<Rightarrow> verifier \<Rightarrow> bool \<Rightarrow> nat \<Rightarrow> ref list \<Rightarrow> sys \<Rightarrow> ((ref \<times> int) list \<times> sys) result" where
  "run_verification ed fl fwd force_include_all num_dummies refs s =
     (let w = s_worker s;
          info0 = from_requests (always_align w) force_include_all (Some (window_size w)) (map (s_store s) refs)
      in bind_result
           (if 0 < num_dummies
            then (case fixed_pool_of w of None \<Rightarrow> Inl AttributeError
                  | Some fp \<Rightarrow> Inr (append_dummy_entries num_dummies (fp_window_size fp) info0))
            else Inr info0) (\<lambda>info1.
         bind_result (assign_padding info1 s) (\<lambda>(info, s1).
         bind_result (dummy_arguments w num_dummies) (\<lambda>d.
         bind_result (prepare_verify_batch ed info (s_pool s1) (s_store s1) refs d) (\<lambda>b.
         (let (ids, lps) = fwd (kv_tokens (s_store s1)) b;
              w' = count_pass (length refs) info w
          in bind_result (compare_outputs fl w info (s_store s1) refs ids lps) (\<lambda>(h1, infs).
             (let (h2, results) = collect_rollbacks info 0 h1 refs infs
              in bind_result (if results \<noteq> []
                              then update_batch_state h2 (set (map fst results)) (s_batch s1)
                              else Inr (s_batch s1)) (\<lambda>batch.
                 bind_result
                   (if 0 < total_padding_cache_slots info \<and> fixed_pool_of w = None
                    then bind_result (free_padding_kv_cache (s_alloc s1) info) (\<lambda>(a, info'). Inr a)
                    else Inr (s_alloc s1)) (\<lambda>a.
                   Inr (results, s1\<lparr>s_store := h2, s_batch := batch, s_alloc := a, s_worker := w'\<rparr>)))))))))))"

section \<open>Which requests are verified, and in which batches\<close>

definition needs_verification :: "req \<Rightarrow> bool" where
  "needs_verification r \<longleftrightarrow>
     is_deterministic r \<and> req_pool_idx r \<noteq> None \<and> \<not> is_retracted r \<and>
     llm42_verified_tokens r < length (output_ids r)"

definition is_ready :: "worker \<Rightarrow> req \<Rightarrow> bool" where
  "is_ready w r \<longleftrightarrow>
     finished_reason r \<noteq> None \<or>
     int (window_size w) \<le> int (length (output_ids r)) - int (llm42_verified_tokens r)"

text \<open>The nested loops over \<open>ready_idx\<close> and \<open>not_ready_idx\<close>: each round takes ready requests, fills up with
  the others and counts the dummies.  With a batch size of 0 the outer loop would not end: \<open>None\<close>.\<close>

function group_batches :: "nat \<Rightarrow> ref list \<Rightarrow> ref list \<Rightarrow> (ref list \<times> nat) list option" where
  "group_batches fs ready not_ready =
     (if ready = [] then Some []
      else if fs = 0 then None
      else
        (let own = take fs ready;
             fill = take (fs - length own) not_ready;
             batch = own @ fill
         in map_option (\<lambda>gs. (batch, fs - length batch) # gs)
              (group_batches fs (drop fs ready) (drop (fs - length own) not_ready))))"
  by pat_completeness auto
termination by (relation "measure (\<lambda>(fs, ready, _). length ready)") auto

fun verify_groups ::
  "bool \<Rightarrow> (real \<Rightarrow> real) \<Rightarrow> verifier \<Rightarrow> (ref list \<times> nat) list \<Rightarrow> sys \<Rightarrow> ((ref \<times> int) list \<times> sys) result" where
  "verify_groups ed fl fwd [] s = Inr ([], s)"
| "verify_groups ed fl fwd ((refs, num_dummies) # gs) s =
     bind_result (run_verification ed fl fwd True num_dummies refs s) (\<lambda>(res, s1).
     bind_result (verify_groups ed fl fwd gs s1) (\<lambda>(res', s2). Inr (res @ res', s2)))"

text \<open>The variable-size path: chunks of at most \<open>max_requests\<close> (a zero step raises \<open>ValueError\<close>).\<close>

function chunks :: "nat \<Rightarrow> 'a list \<Rightarrow> 'a list list" where
  "chunks n xs = (if xs = [] \<or> n = 0 then [] else take n xs # chunks n (drop n xs))"
  by pat_completeness auto
termination by (relation "measure (\<lambda>(n, xs). length xs)") auto

fun verify_chunks ::
  "bool \<Rightarrow> (real \<Rightarrow> real) \<Rightarrow> verifier \<Rightarrow> ref list list \<Rightarrow> sys \<Rightarrow> ((ref \<times> int) list \<times> sys) result" where
  "verify_chunks ed fl fwd [] s = Inr ([], s)"
| "verify_chunks ed fl fwd (c # cs) s =
     bind_result (run_verification ed fl fwd False 0 c s) (\<lambda>(res, s1).
     bind_result (verify_chunks ed fl fwd cs s1) (\<lambda>(res', s2). Inr (res @ res', s2)))"

definition verify_deterministic_requests_batched ::
  "bool \<Rightarrow> (real \<Rightarrow> real) \<Rightarrow> verifier \<Rightarrow> ref list \<Rightarrow> nat option \<Rightarrow> sys \<Rightarrow> ((ref \<times> int) list \<times> sys) result" where
  "verify_deterministic_requests_batched ed fl fwd refs max_requests s =
     (case max_requests of
        None \<Rightarrow> run_verification ed fl fwd False 0 refs s
      | Some n \<Rightarrow>
          if length refs \<le> n then run_verification ed fl fwd False 0 refs s
          else if n = 0 then Inl ValueError
          else verify_chunks ed fl fwd (chunks n refs) s)"

text \<open>The result is \<open>None\<close> when the grouping loop does not end.\<close>

definition check_and_verify_deterministic_requests ::
  "bool \<Rightarrow> (real \<Rightarrow> real) \<Rightarrow> verifier \<Rightarrow> sys \<Rightarrow> ((ref \<times> int) list \<times> sys) result option" where
  "check_and_verify_deterministic_requests ed fl fwd s =
     (let h = s_store s; w = s_worker s;
          all_det = filter (\<lambda>x. needs_verification (h x)) (b_reqs (s_batch s));
          ready = filter (\<lambda>x. is_ready w (h x)) all_det;
          not_ready = filter (\<lambda>x. \<not> is_ready w (h x)) all_det
      in if ready = [] then Some (Inr ([], s))
         else case fixed_pool_of w of
           Some fp \<Rightarrow>
             map_option (\<lambda>gs. verify_groups ed fl fwd gs s) (group_batches (fp_fixed_size fp) ready not_ready)
         | None \<Rightarrow>
             Some (verify_deterministic_requests_batched ed fl fwd ready
                     (Some (fixed_requests_per_verify w)) s))"

declare group_batches.simps [simp del] chunks.simps [simp del]

section \<open>Grouping\<close>

lemma group_batches_spec:
  assumes "0 < fs"
  shows "\<exists>gs k. group_batches fs ready not_ready = Some gs
     \<and> mset (concat (map fst gs)) = mset (ready @ take k not_ready)
     \<and> (\<forall>(b, d) \<in> set gs. b \<noteq> [] \<and> length b + d = fs)"
  using assms
proof (induction fs ready not_ready rule: group_batches.induct)
  case (1 fs ready not_ready)
  show ?case
  proof (cases "ready = []")
    case True
    then show ?thesis by (intro exI [of _ "[]"] exI [of _ 0]) (simp add: group_batches.simps)
  next
    case False
    let ?own = "take fs ready" and ?n = "fs - length (take fs ready)"
    let ?b = "?own @ take ?n not_ready"
    obtain gs k where gs: "group_batches fs (drop fs ready) (drop ?n not_ready) = Some gs"
      "mset (concat (map fst gs)) = mset (drop fs ready @ take k (drop ?n not_ready))"
      "\<forall>(b, d) \<in> set gs. b \<noteq> [] \<and> length b + d = fs"
      using "1.IH" [OF False _ refl refl refl "1.prems"] "1.prems" by blast
    have "group_batches fs ready not_ready = Some ((?b, fs - length ?b) # gs)"
      using False "1.prems" gs(1) by (subst group_batches.simps) (simp add: Let_def)
    moreover have "mset (?b @ concat (map fst gs)) = mset (ready @ take (?n + k) not_ready)"
    proof -
      have "mset ready = mset ?own + mset (drop fs ready)"
        by (metis append_take_drop_id mset_append)
      moreover have "take (?n + k) not_ready = take ?n not_ready @ take k (drop ?n not_ready)"
        by (rule take_add)
      ultimately show ?thesis by (simp add: gs(2) ac_simps)
    qed
    moreover have "?b \<noteq> [] \<and> length ?b + (fs - length ?b) = fs" using False "1.prems" by auto
    ultimately show ?thesis using gs(3) by (intro exI [of _ "(?b, fs - length ?b) # gs"] exI [of _ "?n + k"]) auto
  qed
qed

text \<open>C13. Grouping ends and partitions: for a positive batch size every verification batch has
  exactly that many entries, counting dummies; every ready request is in exactly one batch, and each
  of the others in at most one.\<close>

theorem group_batches_partition:
  assumes "0 < fs" "distinct (ready @ not_ready)"
  shows "\<exists>gs. group_batches fs ready not_ready = Some gs
     \<and> (\<forall>(b, d) \<in> set gs. b \<noteq> [] \<and> length b + d = fs)
     \<and> distinct (concat (map fst gs)) \<and> set ready \<subseteq> set (concat (map fst gs))
     \<and> set (concat (map fst gs)) \<subseteq> set (ready @ not_ready)"
proof -
  obtain gs k where gs: "group_batches fs ready not_ready = Some gs"
    "mset (concat (map fst gs)) = mset (ready @ take k not_ready)"
    "\<forall>(b, d) \<in> set gs. b \<noteq> [] \<and> length b + d = fs"
    using group_batches_spec [OF assms(1)] by blast
  have "distinct (ready @ take k not_ready)"
    using assms(2) by (auto dest: in_set_takeD)
  then have "distinct (concat (map fst gs))" using gs(2) mset_eq_imp_distinct_iff by blast
  moreover have "set (concat (map fst gs)) = set (ready @ take k not_ready)" using gs(2) by (rule mset_eq_setD)
  ultimately show ?thesis using gs by (auto dest: in_set_takeD)
qed

theorem group_batches_partition_witness:
  "0 < (2 :: nat) \<and> distinct ([10, 11, 12] @ [20, 21, 22 :: ref])
   \<and> group_batches 2 [10, 11, 12] [20, 21, 22] = Some [([10, 11], 0), ([12, 20], 0)]
   \<and> distinct (concat (map fst [([10, 11 :: ref], 0 :: nat), ([12, 20], 0)]))"
proof -
  have g: "group_batches 2 [10, 11, 12] [20, 21, 22] = Some [([10, 11], 0), ([12, 20], 0)]" by code_simp
  have p: "0 < (2 :: nat)" "distinct ([10, 11, 12] @ [20, 21, 22 :: ref])" by simp_all
  from group_batches_partition [OF p] g p show ?thesis by auto
qed

section \<open>The pool\<close>

text \<open>What the pass relies on: enough dummy data and padding slots for any batch of the pool's size.\<close>

definition pool_ready :: "fixed_pool \<Rightarrow> bool" where
  "pool_ready fp \<longleftrightarrow>
     dummy_input_ids fp = replicate (fp_fixed_size fp * fp_window_size fp) DUMMY_TOKEN_ID \<and>
     (case dummy_cache_locs fp of Some l \<Rightarrow> fp_fixed_size fp * fp_window_size fp \<le> length l | None \<Rightarrow> False) \<and>
     length (dummy_req_pool_indices fp) = fp_fixed_size fp \<and>
     dummy_tensors fp = init_dummy_tensors (fp_fixed_size fp) (fp_window_size fp) \<and>
     (case padding_cache_pool fp of
        Some l \<Rightarrow> fp_fixed_size fp * (fp_window_size fp - 1) \<le> length l
      | None \<Rightarrow> fp_fixed_size fp * (fp_window_size fp - 1) = 0)"

lemma alloc_or_raise_Inr:
  "alloc_or_raise a n = (Inr xs, a') \<Longrightarrow> alloc a n = Inr (Some xs, a') \<and> xs \<noteq> []"
  by (auto simp: alloc_or_raise_def split: sum.splits option.splits if_splits)

lemma align_slots_dvd: "page_size a \<noteq> 0 \<Longrightarrow> page_size a dvd align_slots a n"
  by (cases "page_size a = 1") (auto simp: align_slots_def)

lemma align_slots_ge: "n \<le> align_slots a n"
  by (simp add: align_slots_def ceil_align_ge)

lemma alloc_or_raise_ok:
  assumes "allocator_ok a" "alloc_or_raise a (align_slots a n) = (Inr xs, a')"
  shows "length xs = align_slots a n" "allocator_ok a'" "avail_slots a = mset xs + avail_slots a'"
    "pending_slots a' = pending_slots a" "whole_units a' xs" "page_size a' = page_size a"
proof -
  have "page_size a dvd align_slots a n" using assms(1) by (intro align_slots_dvd) (simp add: allocator_ok_def)
  from kv.alloc_SomeE [OF _ assms(1) this] alloc_or_raise_Inr [OF assms(2)]
  show "length xs = align_slots a n" "allocator_ok a'" "avail_slots a = mset xs + avail_slots a'"
    "pending_slots a' = pending_slots a" "whole_units a' xs" "page_size a' = page_size a" by auto
qed

lemma pool_init_ready:
  assumes ok: "allocator_ok a" and init: "pool_init fs ws p a = (Inr fp, p', a')"
  shows "pool_ready fp" "fp_fixed_size fp = fs" "fp_window_size fp = ws" "0 < fs" "0 < ws"
proof -
  obtain locs a1 where l: "alloc_or_raise a (align_slots a (fs * ws)) = (Inr locs, a1)"
    and rows: "fs \<le> length (free_slots p)"
    using init by (auto simp: pool_init_def Let_def split: prod.splits sum.splits if_splits)
  note al = alloc_or_raise_ok [OF ok l]
  have ge: "fs * ws \<le> length locs" using al(1) align_slots_ge by simp
  have "align_slots a 0 = 0" by (simp add: align_slots_def ceil_align_def ceil_div_def)
  then have "fs * ws \<noteq> 0" using al(1) alloc_or_raise_Inr [OF l] by (metis length_0_conv)
  then show "0 < fs" "0 < ws" by auto
  have pad: "length pad = align_slots a1 m" "m \<le> align_slots a1 m"
    if "alloc_or_raise a1 (align_slots a1 m) = (Inr pad, a2)" for m pad a2
    using alloc_or_raise_ok(1) [OF al(2) that] align_slots_ge by simp_all
  from init l rows ge pad show "pool_ready fp" "fp_fixed_size fp = fs" "fp_window_size fp = ws"
    by (auto simp: pool_init_def Let_def pool_ready_def split: prod.splits sum.splits if_splits)
qed

lemma write_dummy_rows_frame [simp]:
  "free_slots (write_dummy_rows p ws locs i rows) = free_slots p"
  "rt_size (write_dummy_rows p ws locs i rows) = rt_size p"
  "max_context_len (write_dummy_rows p ws locs i rows) = max_context_len p"
  by (induction rows arbitrary: p i) (simp_all add: rt_write_def)

lemma alloc_or_raise_disjoint:
  assumes "allocator_ok a" "alloc_or_raise a (align_slots a n) = (Inr xs, a')"
  shows "set xs \<inter> set_mset (avail_slots a' + pending_slots a') = {}"
proof -
  have "page_size a dvd align_slots a n" using assms(1) by (intro align_slots_dvd) (simp add: allocator_ok_def)
  from kv.alloc_distinct(2) [OF _ assms(1) this] alloc_or_raise_Inr [OF assms(2)] show ?thesis by blast
qed

text \<open>Handing back one allocation restores the slots the allocator holds.\<close>

lemma free_restores:
  assumes "allocator_ok a" "whole_units a xs" "set xs \<inter> set_mset (avail_slots a + pending_slots a) = {}"
  shows "\<exists>b. free a xs = Inr b \<and> allocator_ok b \<and> avail_slots b + pending_slots b = avail_slots a + pending_slots a + mset xs"
  using kv.free_whole [OF assms] by blast

lemma free_two:
  assumes ok: "allocator_ok a" and w: "whole_units a xs" "whole_units a ys"
    and d: "set xs \<inter> set_mset (avail_slots a + pending_slots a) = {}"
      "set ys \<inter> set_mset (avail_slots a + pending_slots a) = {}" "set xs \<inter> set ys = {}"
  shows "\<exists>b c. free a xs = Inr b \<and> free b ys = Inr c \<and> allocator_ok c
    \<and> avail_slots c + pending_slots c = avail_slots a + pending_slots a + mset xs + mset ys"
proof -
  obtain b where b: "free a xs = Inr b" "allocator_ok b"
    "avail_slots b + pending_slots b = avail_slots a + pending_slots a + mset xs"
    using free_restores [OF ok w(1) d(1)] by blast
  have "set ys \<inter> set_mset (avail_slots b + pending_slots b) = {}" unfolding b(3) using d(2,3) by auto
  from free_restores [OF b(2) free_whole_frame [OF b(1) w(2)] this] b show ?thesis by auto
qed

text \<open>C14. The pool of dummy resources is given back completely: freeing a freshly built pool returns
  every KV slot and every table row that building it took.\<close>

theorem pool_init_free_roundtrip:
  assumes ok: "allocator_ok a" and init: "pool_init fs ws p a = (Inr fp, p', a')"
  shows "\<exists>fp' p'' a''. pool_free fp p' a' = Inr (fp', p'', a'')
     \<and> avail_slots a'' + pending_slots a'' = avail_slots a + pending_slots a
     \<and> mset (free_slots p'') = mset (free_slots p) \<and> allocator_ok a''
     \<and> dummy_cache_locs fp' = None \<and> padding_cache_pool fp' = None"
proof -
  let ?rows = "take fs (free_slots p)"
  obtain locs a1 where l: "alloc_or_raise a (align_slots a (fs * ws)) = (Inr locs, a1)"
    and p': "free_slots p' = drop fs (free_slots p)" "allocated_pool_indices fp = Some ?rows"
      "dummy_cache_locs fp = Some locs"
    and pad: "(padding_cache_pool_allocated fp = None \<and> padding_cache_pool fp = None \<and> a' = a1) \<or>
      (\<exists>pad. padding_cache_pool_allocated fp = Some pad
         \<and> alloc_or_raise a1 (align_slots a1 (fs * (ws - 1))) = (Inr pad, a'))"
    using init by (auto simp: pool_init_def Let_def split: prod.splits sum.splits if_splits)
  note al = alloc_or_raise_ok [OF ok l] and dl = alloc_or_raise_disjoint [OF ok l]
  have ne: "locs \<noteq> []" using alloc_or_raise_Inr [OF l] by simp
  have rows: "mset (free_slots p' @ ?rows) = mset (free_slots p)"
    unfolding p' by (metis append_take_drop_id mset_append add.commute)
  from pad show ?thesis
  proof (elim disjE exE conjE)
    assume n: "padding_cache_pool_allocated fp = None" "padding_cache_pool fp = None" "a' = a1"
    from free_restores [OF al(2,5) dl] obtain b where b: "free a1 locs = Inr b" "allocator_ok b"
      "avail_slots b + pending_slots b = avail_slots a1 + pending_slots a1 + mset locs" by blast
    have "avail_slots b + pending_slots b = avail_slots a + pending_slots a"
      unfolding b(3) al(3,4) by (simp only: ac_simps)
    then show ?thesis
      using n p' ne rows b by (simp add: pool_free_def free_some_def)
  next
    fix pad assume pa: "padding_cache_pool_allocated fp = Some pad"
      and q: "alloc_or_raise a1 (align_slots a1 (fs * (ws - 1))) = (Inr pad, a')"
    note ap = alloc_or_raise_ok [OF al(2) q] and dp = alloc_or_raise_disjoint [OF al(2) q]
    have ne': "pad \<noteq> []" using alloc_or_raise_Inr [OF q] by simp
    have w: "whole_units a' locs"
      using kv.whole_frame [OF al(2) _ al(5)] alloc_or_raise_Inr [OF q] by blast
    have "set locs \<inter> set_mset (avail_slots a' + pending_slots a') = {}" "set locs \<inter> set pad = {}"
      using dl unfolding ap(3,4) by auto
    from free_two [OF ap(2) w ap(5) this(1) dp this(2)] obtain b c where
      c: "free a' locs = Inr b" "free b pad = Inr c" "allocator_ok c"
      "avail_slots c + pending_slots c = avail_slots a' + pending_slots a' + mset locs + mset pad" by blast
    have "avail_slots c + pending_slots c = avail_slots a + pending_slots a"
      unfolding c(4) al(3,4) ap(3,4) by (simp only: ac_simps)
    then show ?thesis
      using pa p' ne ne' rows c by (simp add: pool_free_def free_some_def)
  qed
qed

theorem pool_init_free_roundtrip_witness:
  "\<exists>fp p' a' fp' p'' a''. allocator_ok (token_init 20 False)
     \<and> pool_init 2 3 (rt_init 4 64) (token_init 20 False) = (Inr fp, p', a')
     \<and> pool_free fp p' a' = Inr (fp', p'', a'')
     \<and> avail_slots a'' + pending_slots a'' = avail_slots (token_init 20 False) + pending_slots (token_init 20 False)"
proof -
  have ok: "allocator_ok (token_init 20 False)" by (rule token_init_ok)
  have "\<not> isl (fst (pool_init 2 3 (rt_init 4 64) (token_init 20 False)))" by code_simp
  then obtain fp p' a' where i: "pool_init 2 3 (rt_init 4 64) (token_init 20 False) = (Inr fp, p', a')"
    by (metis prod.collapse sum.collapse(2))
  from pool_init_free_roundtrip [OF ok i] ok i show ?thesis by blast
qed

text \<open>C16. When the dummy slots can be allocated but the padding slots cannot, the worker falls back to
  variable-size batches without giving the dummy slots and table rows back: they stay taken although
  no pool owns them.\<close>

theorem failed_pool_init_leaks:
  assumes ok: "allocator_ok a" and fs: "0 < fixed_requests_per_verify w" and ws: "2 \<le> window_size w"
    and fit: "align_slots a (fixed_requests_per_verify w * window_size w) \<le> available_size a"
    and short: "available_size a < align_slots a (fixed_requests_per_verify w * window_size w)
      + align_slots a (fixed_requests_per_verify w * (window_size w - 1))"
    and rows: "fixed_requests_per_verify w \<le> length (free_slots p)" and ctx: "window_size w \<le> max_context_len p"
  shows "\<exists>p' a'. init_fixed_pool_at w p a = (w, p', a')
     \<and> available_size a' + align_slots a (fixed_requests_per_verify w * window_size w) = available_size a
     \<and> length (free_slots p') + fixed_requests_per_verify w = length (free_slots p)"
proof -
  let ?fs = "fixed_requests_per_verify w" and ?ws = "window_size w"
  let ?n = "align_slots a (?fs * ?ws)" and ?m = "align_slots a (?fs * (?ws - 1))"
  have ps: "page_size a \<noteq> 0" using ok by (simp add: allocator_ok_def)
  from kv.alloc_Some [OF ok align_slots_dvd [OF ps]] fit obtain xs a1 where
    x: "alloc a ?n = Inr (Some xs, a1)" "length xs = ?n" "avail_slots a = mset xs + avail_slots a1"
    "allocator_ok a1" "page_size a1 = page_size a"
    by (metis size_avail)
  have "?fs * ?ws \<le> ?n" by (rule align_slots_ge)
  then have ne: "xs \<noteq> []" using x(2) fs ws by auto
  have m: "align_slots a1 (?fs * (?ws - 1)) = ?m" using x(5) by (simp add: align_slots_def)
  have sz: "available_size a1 + ?n = available_size a"
    using arg_cong [OF x(3), of size] x(2) by (simp add: size_avail)
  have "page_size a1 dvd ?m" using align_slots_dvd [OF ps] x(5) by simp
  moreover have "size (avail_slots a1) < ?m" using sz short by (simp add: size_avail)
  ultimately obtain a2 where y: "alloc a1 ?m = Inr (None, a2)" "avail_slots a2 = avail_slots a1"
    using kv.alloc_None [OF x(4)] by blast
  have "available_size a2 = available_size a1" using arg_cong [OF y(2), of size] by (simp add: size_avail)
  moreover have "0 < ?fs * (?ws - 1)" using fs ws by simp
  ultimately show ?thesis
    using x(1) y(1) ne rows ctx sz m by (simp add: init_fixed_pool_at_def pool_init_def alloc_or_raise_def Let_def)
qed

theorem failed_pool_init_leaks_witness:
  "\<exists>p' a'. init_fixed_pool_at (init_worker True 2 100 3) (rt_init 4 64) (token_init 8 False) =
       (init_worker True 2 100 3, p', a') \<and> available_size a' + 6 = 8 \<and> length (free_slots p') + 2 = 4"
proof -
  let ?w = "init_worker True 2 100 3" and ?p = "rt_init 4 64" and ?a = "token_init 8 False"
  have e: "0 < fixed_requests_per_verify ?w" "2 \<le> window_size ?w"
    "align_slots ?a (fixed_requests_per_verify ?w * window_size ?w) \<le> available_size ?a"
    "available_size ?a < align_slots ?a (fixed_requests_per_verify ?w * window_size ?w)
      + align_slots ?a (fixed_requests_per_verify ?w * (window_size ?w - 1))"
    "fixed_requests_per_verify ?w \<le> length (free_slots ?p)" "window_size ?w \<le> max_context_len ?p"
    by code_simp+
  have "align_slots ?a (fixed_requests_per_verify ?w * window_size ?w) = 6" "available_size ?a = 8"
    "fixed_requests_per_verify ?w = 2" "length (free_slots ?p) = 4"
    by code_simp+
  with failed_pool_init_leaks [OF token_init_ok e] show ?thesis by simp
qed

end
