(* ===== verification/LLM42_DVR.thy ===== *)
theory LLM42_DVR
  imports LLM42_Worker
begin

text \<open>
  Correctness of the decode-verify-rollback protocol.  A verification pass in fixed-size mode returns,
  makes progress on every request, never touches verified tokens, and leaves every request of the
  batch fully verified: its output is the one a reference next-token function generates from the
  prompt, whatever tokens the fast decode path had proposed.
\<close>

section \<open>The verifier\<close>

text \<open>
  What the protocol relies on in the model: with the tokens before the window in the KV cache, the replay of the window
  predicts, at every position, the token a reference function \<open>ref\<close> assigns to the request's own token prefix,
  independently of the other requests of the batch, the padding and the dummies.
\<close>

definition replays_window :: "(token list \<Rightarrow> token) \<Rightarrow> nat \<Rightarrow> req list \<Rightarrow> token list \<times> real list option \<Rightarrow> bool" where
  "replays_window ref w rs out \<longleftrightarrow>
     length rs * w \<le> length (fst out) \<and>
     (\<forall>ls. snd out = Some ls \<longrightarrow> length rs * w \<le> length ls) \<and>
     (\<forall>j < length rs. \<forall>i < length (unverified (rs ! j)).
        fst out ! (j * w + i) = ref (take (Suc (context_pos (rs ! j) + i)) (full_ids (rs ! j))))"

definition replay_batch :: "nat \<Rightarrow> nat \<Rightarrow> store \<Rightarrow> ref list \<Rightarrow> schedule_batch \<Rightarrow> bool" where
  "replay_batch w k h refs b \<longleftrightarrow>
     b_reqs b = refs \<and> b_forward_mode b = Some TARGET_LLM42_VERIFY \<and>
     b_input_ids b = Some (concat (map (replay_tokens w) (map h refs)) @ replicate (k * w) DUMMY_TOKEN_ID) \<and>
     b_extend_lens b = replicate (length refs + k) (int w) \<and>
     b_prefix_lens b = map (int \<circ> context_pos \<circ> h) refs @ replicate k 0"

definition pass_predicts :: "(token list \<Rightarrow> token) \<Rightarrow> verifier \<Rightarrow> nat \<Rightarrow> nat \<Rightarrow> store \<Rightarrow> ref list \<Rightarrow> bool" where
  "pass_predicts ref fwd w k h refs \<longleftrightarrow>
     (\<forall>b. replay_batch w k h refs b \<longrightarrow> replays_window ref w (map h refs) (fwd (kv_tokens h) b))"

text \<open>The first \<open>n\<close> output tokens \<open>ref\<close> generates from a prompt.\<close>

fun ref_gen :: "(token list \<Rightarrow> token) \<Rightarrow> token list \<Rightarrow> nat \<Rightarrow> token list" where
  "ref_gen ref prompt 0 = []"
| "ref_gen ref prompt (Suc n) = ref_gen ref prompt n @ [ref (prompt @ ref_gen ref prompt n)]"

lemma length_ref_gen [simp]: "length (ref_gen ref prompt n) = n"
  by (induction n) simp_all

lemma take_ref_gen: "m \<le> n \<Longrightarrow> take m (ref_gen ref prompt n) = ref_gen ref prompt m"
  by (induction n) (auto simp: le_Suc_eq)

text \<open>The invariant of a request: its verified tokens are the reference output.\<close>

definition ref_ok :: "(token list \<Rightarrow> token) \<Rightarrow> req \<Rightarrow> bool" where
  "ref_ok ref r \<longleftrightarrow>
     llm42_verified_tokens r \<le> length (output_ids r) \<and>
     take (llm42_verified_tokens r) (output_ids r) = ref_gen ref (origin_input_ids r) (llm42_verified_tokens r)"

text \<open>Extending the reference output by the tokens the verifier confirms.\<close>

lemma confirmed_ref_gen:
  assumes ok: "ref_ok ref r" and r: "replayable p r" and len: "length v = length (unverified r)"
    and v: "\<forall>i < length (unverified r). v ! i = ref (take (Suc (context_pos r + i)) (full_ids r))"
    and n: "n \<le> min (Suc (agreed r v)) (length v)"
  shows "take (llm42_verified_tokens r) (output_ids r) @ take n v =
    ref_gen ref (origin_input_ids r) (llm42_verified_tokens r + n)"
  using n
proof (induction n)
  case 0
  then show ?case using ok by (simp add: ref_ok_def)
next
  case (Suc n)
  let ?k = "llm42_verified_tokens r" and ?o = "origin_input_ids r"
  have IH: "take ?k (output_ids r) @ take n v = ref_gen ref ?o (?k + n)" using Suc by simp
  have n: "n \<le> agreed r v" "n < length v" using Suc.prems by simp_all
  have "take n (unverified r) = take n v"
  proof -
    have "take n (take (agreed r v) (unverified r)) = take n (take (agreed r v) v)"
      using first_mismatch_take [of "unverified r" v] by (simp add: agreed_def)
    then show ?thesis using n by (simp add: min_absorb1)
  qed
  then have "take (Suc (context_pos r + n)) (full_ids r) = ?o @ ref_gen ref ?o (?k + n)"
    using replayable_bounds(5) [OF r] IH
    by (simp add: full_ids_def unverified_def take_add flip: add_Suc)
  then have "v ! n = ref (?o @ ref_gen ref ?o (?k + n))" using v n len by simp
  moreover have "take (Suc n) v = take n v @ [v ! n]" using n by (simp add: take_Suc_conv_app_nth)
  ultimately show ?case using IH by (simp flip: append_assoc)
qed

section \<open>The steps of a pass\<close>

lemma append_no_dummies: "append_dummy_entries 0 w (from_requests aa f ws rs) = from_requests aa f ws rs"
  by (simp add: append_dummy_entries_def from_requests_def init_info_def Let_def)

lemma dummy_arguments_ok:
  assumes "fixed_pool_of w = Some fp" "pool_ready fp" "k \<le> fp_fixed_size fp"
  shows "\<exists>d dlocs drows. dummy_arguments w k = Inr d \<and> dummies_ok (fp_window_size fp) d dlocs drows
    \<and> d_num_dummies d = k"
proof (cases "k = 0")
  case True
  then show ?thesis by (simp add: dummy_arguments_def dummies_ok_def no_dummies_def)
next
  case False
  obtain l where l: "dummy_cache_locs fp = Some l" "fp_fixed_size fp * fp_window_size fp \<le> length l"
    using assms(2) by (auto simp: pool_ready_def split: option.splits)
  have le: "k * fp_window_size fp \<le> fp_fixed_size fp * fp_window_size fp" using assms(3) by simp
  then have "k * fp_window_size fp \<le> length l" using l(2) by linarith
  with assms False l le show ?thesis
    by (auto simp: dummy_arguments_def get_dummy_data_def dummies_ok_def pool_ready_def
        get_dummy_sampling_tensors_def init_dummy_tensors_def Let_def min_absorb1 min_absorb2)
qed

lemma assign_padding_fixed:
  assumes pool: "fixed_pool_of (s_worker s) = Some fp" "pool_ready fp" and n: "length rs \<le> fp_fixed_size fp"
    and u: "\<forall>r \<in> set rs. unverified r \<noteq> []"
  defines "w \<equiv> fp_window_size fp"
  shows "\<exists>locs. assign_padding (append_dummy_entries k w (from_requests True True (Some w) rs)) s =
      Inr (fixed_info w k locs rs, s) \<and> length rs * (w - 1) \<le> length locs"
proof -
  let ?info = "append_dummy_entries k w (from_requests True True (Some w) rs)"
  have t: "total_padding_cache_slots ?info = length rs * (w - 1)"
    by (simp add: from_requests_forced [OF u] append_dummy_entries_def init_info_def Let_def
        map_replicate_const sum_list_replicate comp_def)
  have le: "length rs * (w - 1) \<le> fp_fixed_size fp * (w - 1)" using n by simp
  show ?thesis
  proof (cases "length rs * (w - 1) = 0")
    case True
    then show ?thesis using t by (intro exI [of _ "[]"]) (simp add: assign_padding_def fixed_info_def Let_def)
  next
    case False
    then have "fp_fixed_size fp * (w - 1) \<noteq> 0" using le by linarith
    then obtain pad where pad: "padding_cache_pool fp = Some pad" "fp_fixed_size fp * (w - 1) \<le> length pad"
      using pool(2) by (auto simp: pool_ready_def w_def split: option.splits)
    let ?locs = "take (length rs * (w - 1)) pad"
    have le2: "length rs * (w - 1) \<le> length pad" using le pad(2) by linarith
    then have "get_padding_cache_locs fp (length rs * (w - 1)) = Inr (Some ?locs)"
      using pad(1) False by (simp add: get_padding_cache_locs_def not_less)
    then have "assign_padding ?info s = Inr (fixed_info w k ?locs rs, s)"
      using t False pool(1) by (simp add: assign_padding_def fixed_info_def Let_def)
    then show ?thesis using le2 by (intro exI [of _ ?locs]) simp
  qed
qed

lemma prepared_reqs: "prepare_verify_batch ed info p h refs d = Inr b \<Longrightarrow> b_reqs b = refs"
  by (cases "d_num_dummies d"; cases "d_input_ids d"; cases "d_cache_locs d"; cases "d_window_size d")
    (auto simp: prepare_verify_batch_def Let_def finish_real_def finish_dummies_def set_lens_def new_batch_def
      split: if_splits)

lemma collect_rollbacks_spec:
  assumes "distinct refs" "length infs = length refs" "collect_rollbacks info i h refs infs = (h', res)"
  shows "(\<forall>j < length refs. h' (refs ! j) = advance info (i + j) (snd (infs ! j)) (h (refs ! j)))
     \<and> (\<forall>x. x \<notin> set refs \<longrightarrow> h' x = h x)
     \<and> res = filter (\<lambda>(x, n). 0 < n) (zip refs (map snd infs))"
  using assms
proof (induction refs arbitrary: i h infs h' res)
  case (Cons x refs)
  then obtain pos n infs' where infs: "infs = (pos, n) # infs'" "length infs' = length refs"
    by (cases infs) auto
  let ?h = "h(x := advance info i n (h x))"
  obtain h1 res1 where r: "collect_rollbacks info (Suc i) ?h refs infs' = (h1, res1)" by fastforce
  with Cons.prems(3) have h': "h' = h1" "res = (if 0 < n then [(x, n)] else []) @ res1"
    by (simp_all add: infs)
  from Cons.IH [OF _ infs(2) r] Cons.prems(1) have
    IH: "\<forall>j < length refs. h1 (refs ! j) = advance info (Suc i + j) (snd (infs' ! j)) (?h (refs ! j))"
    "\<forall>y. y \<notin> set refs \<longrightarrow> h1 y = ?h y" "res1 = filter (\<lambda>(x, n). 0 < n) (zip refs (map snd infs'))" by auto
  have "?h (refs ! j) = h (refs ! j)" if "j < length refs" for j using that Cons.prems(1) by auto
  with IH(1,2) Cons.prems(1) h' infs have "\<forall>j < length (x # refs).
      h' ((x # refs) ! j) = advance info (i + j) (snd (infs ! j)) (h ((x # refs) ! j))"
    by (auto simp: less_Suc_eq_0_disj)
  with IH h' infs show ?case by auto
qed simp

lemma update_entries_total:
  assumes "i + length xs \<le> length outs" "i + length xs \<le> length lens"
  shows "\<exists>outs' lens'. update_entries h R i xs (outs, lens) = Inr (outs', lens')
    \<and> length outs' = length outs \<and> length lens' = length lens"
  using assms
proof (induction xs arbitrary: i outs lens)
  case (Cons x xs)
  have "\<exists>outs' lens'. update_entries h R (Suc i) xs (outs[i := t], lens[i := n]) = Inr (outs', lens')
      \<and> length outs' = length outs \<and> length lens' = length lens" for t n
    using Cons.IH [of "Suc i" "outs[i := t]" "lens[i := n]"] Cons.prems by simp
  moreover have "\<exists>outs' lens'. update_entries h R (Suc i) xs (outs, lens) = Inr (outs', lens')
      \<and> length outs' = length outs \<and> length lens' = length lens"
    using Cons.IH [of "Suc i" outs lens] Cons.prems by simp
  moreover have "\<not> (length outs \<le> i \<or> length lens \<le> i)" using Cons.prems by simp
  ultimately show ?case by (simp only: update_entries.simps Let_def if_False split: if_split) blast
qed simp

definition batch_ok :: "schedule_batch \<Rightarrow> bool" where
  "batch_ok b \<longleftrightarrow>
     (\<forall>outs. b_output_ids b = Some outs \<longrightarrow> length (b_reqs b) \<le> length outs \<and>
        (\<exists>lens. b_seq_lens b = Some lens \<and> length (b_reqs b) \<le> length lens))"

lemma update_batch_state_total:
  assumes "batch_ok b"
  shows "\<exists>b'. update_batch_state h R b = Inr b' \<and> batch_ok b' \<and> b_reqs b' = b_reqs b"
proof (cases "b_output_ids b")
  case (Some outs)
  with assms obtain lens where l: "b_seq_lens b = Some lens" "length (b_reqs b) \<le> length lens"
    "length (b_reqs b) \<le> length outs" by (auto simp: batch_ok_def)
  from update_entries_total [of 0 "b_reqs b" outs lens h R] l obtain outs' lens' where
    "update_entries h R 0 (b_reqs b) (outs, lens) = Inr (outs', lens')"
    "length outs' = length outs" "length lens' = length lens" by auto
  with Some l show ?thesis by (auto simp: update_batch_state_def batch_ok_def)
qed (use assms in \<open>simp add: update_batch_state_def\<close>)

section \<open>A pass in fixed-size mode\<close>

text \<open>The worker runs with a pool of its window size, aligned windows and the real comparison.\<close>

definition fixed_mode :: "worker \<Rightarrow> fixed_pool \<Rightarrow> bool" where
  "fixed_mode w fp \<longleftrightarrow>
     fixed_pool_of w = Some fp \<and> pool_ready fp \<and> fp_window_size fp = window_size w \<and>
     always_align w \<and> 100 \<le> skip_mismatch w"

text \<open>A pass only changes the output, its log-probabilities, the finish state and the counters.\<close>

definition pass_frame :: "req \<Rightarrow> req \<Rightarrow> bool" where
  "pass_frame r r' \<longleftrightarrow>
     (finished_reason r' = finished_reason r \<or> finished_reason r' = None) \<and>
     (\<exists>outs fin vals idx ofs ver n1 n2 n3.
        r' = r\<lparr>output_ids := outs, finished_reason := fin, output_token_logprobs_val := vals,
               output_token_logprobs_idx := idx, send_output_token_logprobs_offset := ofs,
               llm42_verified_tokens := ver, llm42_num_verification_windows := n1,
               llm42_num_rollbacks := n2, llm42_tokens_rolled_back := n3\<rparr>)"

lemma pass_frame_fields:
  assumes "pass_frame r r'"
  shows "origin_input_ids r' = origin_input_ids r" "req_pool_idx r' = req_pool_idx r"
    "is_deterministic r' = is_deterministic r" "is_retracted r' = is_retracted r"
    "kv_committed_len r' = kv_committed_len r" "kv_allocated_len r' = kv_allocated_len r"
    "kv_committed_freed r' = kv_committed_freed r" "kv_overallocated_freed r' = kv_overallocated_freed r"
    "sampling_params r' = sampling_params r" "completed r' = completed r" "to_finish r' = to_finish r"
    "send_token_offset r' = send_token_offset r" "finished_len r' = finished_len r"
    "decode_batch_idx r' = decode_batch_idx r" "finished_output r' = finished_output r"
    "vocab_size r' = vocab_size r" "grammar r' = grammar r" "eos_token_ids r' = eos_token_ids r"
    "rid r' = rid r"
  using assms unfolding pass_frame_def by auto

text \<open>What a pass does to a verified request.\<close>

definition pass_step :: "(token list \<Rightarrow> token) \<Rightarrow> req \<Rightarrow> req \<Rightarrow> bool" where
  "pass_step ref r r' \<longleftrightarrow>
     llm42_verified_tokens r' = length (output_ids r') \<and>
     llm42_verified_tokens r < llm42_verified_tokens r' \<and>
     length (output_ids r') \<le> length (output_ids r) \<and>
     take (llm42_verified_tokens r) (output_ids r') = take (llm42_verified_tokens r) (output_ids r) \<and>
     pass_frame r r' \<and>
     (ref_ok ref r \<longrightarrow> ref_ok ref r')"

lemma advance_fields [simp]:
  "output_ids (advance info i n r) = output_ids r"
  "origin_input_ids (advance info i n r) = origin_input_ids r"
  "req_pool_idx (advance info i n r) = req_pool_idx r"
  "finished_reason (advance info i n r) = finished_reason r"
  "llm42_verified_tokens (advance info i n r) =
     (if 0 < n then length (output_ids r)
      else llm42_verified_tokens r + (if i < length (output_lens info) then output_lens info ! i else 0))"
  by (simp_all add: advance_def Let_def)

lemma compared_advance_frame:
  assumes "compared outs (if b then finished_reason r else None) r r1"
  shows "(finished_reason (advance info i n r1) = finished_reason r \<or> finished_reason (advance info i n r1) = None) \<and>
     (\<exists>outs fin vals idx ofs ver n1 n2 n3. advance info i n r1 =
        r\<lparr>output_ids := outs, finished_reason := fin, output_token_logprobs_val := vals,
               output_token_logprobs_idx := idx, send_output_token_logprobs_offset := ofs,
               llm42_verified_tokens := ver, llm42_num_verification_windows := n1,
               llm42_num_rollbacks := n2, llm42_tokens_rolled_back := n3\<rparr>)"
proof -
  obtain vals idx ofs where r1: "r1 = r\<lparr>output_ids := outs, finished_reason := if b then finished_reason r else None,
      output_token_logprobs_val := vals, output_token_logprobs_idx := idx, send_output_token_logprobs_offset := ofs\<rparr>"
    using assms unfolding compared_def by blast
  let ?a = "advance info i n r1"
  have "?a = r\<lparr>output_ids := output_ids ?a, finished_reason := finished_reason ?a,
      output_token_logprobs_val := output_token_logprobs_val ?a,
      output_token_logprobs_idx := output_token_logprobs_idx ?a,
      send_output_token_logprobs_offset := send_output_token_logprobs_offset ?a,
      llm42_verified_tokens := llm42_verified_tokens ?a,
      llm42_num_verification_windows := llm42_num_verification_windows ?a,
      llm42_num_rollbacks := llm42_num_rollbacks ?a, llm42_tokens_rolled_back := llm42_tokens_rolled_back ?a\<rparr>"
    by (simp add: r1 advance_def Let_def)
  then have "\<exists>outs fin vals idx ofs ver n1 n2 n3. ?a =
        r\<lparr>output_ids := outs, finished_reason := fin, output_token_logprobs_val := vals,
               output_token_logprobs_idx := idx, send_output_token_logprobs_offset := ofs,
               llm42_verified_tokens := ver, llm42_num_verification_windows := n1,
               llm42_num_rollbacks := n2, llm42_tokens_rolled_back := n3\<rparr>" by (intro exI)
  moreover have "finished_reason ?a = (if b then finished_reason r else None)" by (simp add: r1)
  ultimately show ?thesis by simp
qed

text \<open>The comparison followed by the bookkeeping is such a step.\<close>

lemma compared_advance_step:
  assumes r: "replayable p r" and len: "length v = length (unverified r)"
    and v: "\<forall>i < length (unverified r). v ! i = ref (take (Suc (context_pos r + i)) (full_ids r))"
    and c: "compared_with v r r1"
    and info: "i < length (output_lens info)" "output_lens info ! i = length (unverified r)"
  shows "pass_step ref r (advance info i (int (length (unverified r) - Suc (agreed r v))) r1)"
proof -
  let ?k = "llm42_verified_tokens r" and ?m = "agreed r v" and ?U = "length (unverified r)"
  let ?r' = "advance info i (int (?U - Suc ?m)) r1"
  have m: "?m \<le> ?U" using first_mismatch_le [of "unverified r" v] len by (simp add: agreed_def)
  note b = replayable_bounds [OF r]
  note f = compared_fields [OF c [unfolded compared_with_def]]
  have k: "?k + ?U = length (output_ids r)" "0 < ?U" using b(1) by (simp_all add: unverified_def)
  have out: "output_ids ?r' = take ?k (output_ids r) @ take (Suc ?m) v" using f(1) by (simp add: confirmed_def)
  have lo: "length (output_ids ?r') = ?k + min (Suc ?m) ?U" using out b(1) len by (simp add: min.commute)
  have ver: "llm42_verified_tokens ?r' = length (output_ids ?r')"
  proof (cases "Suc ?m < ?U")
    case True
    then show ?thesis by simp
  next
    case False
    then show ?thesis using lo info f(3) by (simp add: min_def)
  qed
  moreover have "?k < length (output_ids ?r')" using lo k(2) by simp
  moreover have "length (output_ids ?r') \<le> length (output_ids r)" using lo k(1) by simp
  moreover have "take ?k (output_ids ?r') = take ?k (output_ids r)"
    unfolding out using b(1) by simp
  moreover have "pass_frame r ?r'"
    using c unfolding compared_with_def pass_frame_def by (rule compared_advance_frame)
  moreover have "ref_ok ref ?r'" if "ref_ok ref r"
  proof -
    have t: "take (Suc ?m) v = take (min (Suc ?m) (length v)) v" by (simp add: min_def)
    have "output_ids ?r' = ref_gen ref (origin_input_ids r) (?k + min (Suc ?m) (length v))"
      unfolding out t by (rule confirmed_ref_gen [OF that r len v]) simp
    then show ?thesis using ver f(4) by (simp add: ref_ok_def)
  qed
  ultimately show ?thesis unfolding pass_step_def by auto
qed

lemma compare_outputs_fixed:
  assumes skip: "100 \<le> skip_mismatch wk" and dist: "distinct refs"
    and fit: "\<forall>r \<in> set (map h refs). fits_window p w r"
    and out: "replays_window ref w (map h refs) (ids, lps)"
    and info_def: "info = fixed_info w k locs (map h refs)"
  shows "\<exists>h1. compare_outputs fl wk info h refs ids lps =
      Inr (h1, map (\<lambda>j. outcome ids (j * w) (h (refs ! j))) [0..<length refs])
    \<and> (\<forall>j < length refs. pass_step ref (h (refs ! j))
         (advance info j (snd (outcome ids (j * w) (h (refs ! j)))) (h1 (refs ! j)))
       \<and> length (output_ids (h1 (refs ! j))) +
           nat (snd (outcome ids (j * w) (h (refs ! j)))) = length (output_ids (h (refs ! j))))
    \<and> (\<forall>x. x \<notin> set refs \<longrightarrow> h1 x = h x)"
proof -
  have ids: "0 + length refs * w \<le> length ids" "\<And>ls. lps = Some ls \<Longrightarrow> 0 + length refs * w \<le> length ls"
    using out by (auto simp: replays_window_def)
  have u: "\<forall>r \<in> set (map h refs). unverified r \<noteq> []" using fit fits_window_unverified by blast
  obtain h1 where h1: "compare_loop fl None info ids lps 0 0 h refs =
      Inr (h1, map (\<lambda>j. outcome ids (0 + j * w) (h (refs ! j))) [0..<length refs])"
    "\<forall>j < length refs. compared_with (verdict ids (0 + j * w) (h (refs ! j))) (h (refs ! j)) (h1 (refs ! j))"
    "\<forall>x. x \<notin> set refs \<longrightarrow> h1 x = h x"
    using compare_loop_spec [OF dist fixed_info_windows [OF fit], of ids lps fl k locs] ids
    unfolding info_def by blast
  have "verify_and_compare fl info h refs ids lps None = compare_loop fl None info ids lps 0 0 h refs"
    by (simp add: verify_and_compare_def info_def fixed_info_fields(6) [OF u] Let_def)
  then have c: "compare_outputs fl wk info h refs ids lps =
      Inr (h1, map (\<lambda>j. outcome ids (j * w) (h (refs ! j))) [0..<length refs])"
    using skip h1(1) by (simp add: compare_outputs_def)
  have "pass_step ref (h (refs ! j)) (advance info j (snd (outcome ids (j * w) (h (refs ! j)))) (h1 (refs ! j)))
      \<and> length (output_ids (h1 (refs ! j))) + nat (snd (outcome ids (j * w) (h (refs ! j)))) =
          length (output_ids (h (refs ! j)))" if j: "j < length refs" for j
  proof -
    let ?r = "h (refs ! j)" and ?v = "verdict ids (j * w) (h (refs ! j))"
    have f: "fits_window p w ?r" using fit j by simp
    then have r: "replayable p ?r" and U: "length (unverified ?r) \<le> w" by (simp_all add: fits_window_def)
    have jw: "j * w + w \<le> length ids"
      using ids(1) mult_le_mono1 [of "Suc j" "length refs" w] j by simp
    then have len: "length ?v = length (unverified ?r)" using U by (simp add: verdict_def)
    have v: "\<forall>i < length (unverified ?r). ?v ! i = ref (take (Suc (context_pos ?r + i)) (full_ids ?r))"
      using out j U jw by (simp add: replays_window_def verdict_def)
    have i: "j < length (output_lens info)" "output_lens info ! j = length (unverified ?r)"
      unfolding info_def fixed_info_fields(2) [OF u] using j U by (simp_all add: nth_append)
    have cw: "compared_with ?v ?r (h1 (refs ! j))" using h1(2) j by simp
    have step: "pass_step ref ?r (advance info j (snd (outcome ids (j * w) ?r)) (h1 (refs ! j)))"
      unfolding outcome_def snd_conv by (rule compared_advance_step [OF r len v cw i])
    note b = replayable_bounds [OF r]
    have "agreed ?r ?v \<le> length (unverified ?r)"
      using first_mismatch_le [of "unverified ?r" ?v] len by (simp add: agreed_def)
    moreover have "output_ids (h1 (refs ! j)) = confirmed ?r ?v"
      using compared_fields(1) [OF cw [unfolded compared_with_def]] .
    moreover have "length (output_ids ?r) = llm42_verified_tokens ?r + length (unverified ?r)"
      using b(1) by (simp add: unverified_def)
    ultimately have "length (output_ids (h1 (refs ! j))) + nat (snd (outcome ids (j * w) ?r)) = length (output_ids ?r)"
      using b(1,7) len by (simp add: confirmed_def outcome_def min_def)
    with step show ?thesis by simp
  qed
  with c h1(3) show ?thesis by blast
qed

text \<open>The requests a pass rolled back, with the number of tokens their output got shorter.\<close>

definition rolled_back :: "store \<Rightarrow> store \<Rightarrow> ref list \<Rightarrow> (ref \<times> int) list" where
  "rolled_back h h' refs =
     filter (\<lambda>(x, n). 0 < n)
       (map (\<lambda>x. (x, int (length (output_ids (h x))) - int (length (output_ids (h' x))))) refs)"

lemma run_verification_eval:
  assumes "from_requests (always_align (s_worker s)) f (Some (window_size (s_worker s))) (map (s_store s) refs) = info0"
    and "fixed_pool_of (s_worker s) = Some fp"
    and "(if 0 < k then append_dummy_entries k (fp_window_size fp) info0 else info0) = info1"
    and "assign_padding info1 s = Inr (info, s)" "dummy_arguments (s_worker s) k = Inr d"
    and "prepare_verify_batch ed info (s_pool s) (s_store s) refs d = Inr b" "fwd (kv_tokens (s_store s)) b = (ids, lps)"
    and "compare_outputs fl (s_worker s) info (s_store s) refs ids lps = Inr (h1, infs)"
    and "collect_rollbacks info 0 h1 refs infs = (h2, res)"
    and "(if res \<noteq> [] then update_batch_state h2 (set (map fst res)) (s_batch s) else Inr (s_batch s)) = Inr batch"
  shows "run_verification ed fl fwd f k refs s =
    Inr (res, s\<lparr>s_store := h2, s_batch := batch, s_worker := count_pass (length refs) info (s_worker s)\<rparr>)"
proof -
  have "(if 0 < k then (case fixed_pool_of (s_worker s) of None \<Rightarrow> Inl AttributeError
      | Some fp \<Rightarrow> Inr (append_dummy_entries k (fp_window_size fp) info0)) else Inr info0) = Inr info1"
    using assms(2,3) by (cases k) auto
  then show ?thesis
    unfolding run_verification_def Let_def assms(1) using assms(2,4-) by (cases "res = []") simp_all
qed

lemma run_verification_fixed:
  assumes mode: "fixed_mode (s_worker s) fp" and bok: "batch_ok (s_batch s)" and dist: "distinct refs"
    and fit: "\<forall>r \<in> set (map (s_store s) refs). fits_window (s_pool s) (window_size (s_worker s)) r"
    and size: "length refs + k = fp_fixed_size fp"
    and pred: "pass_predicts ref fwd (window_size (s_worker s)) k (s_store s) refs"
  shows "\<exists>s' info. run_verification ed fl fwd True k refs s = Inr (rolled_back (s_store s) (s_store s') refs, s')
     \<and> (\<forall>x \<in> set refs. pass_step ref (s_store s x) (s_store s' x))
     \<and> (\<forall>x. x \<notin> set refs \<longrightarrow> s_store s' x = s_store s x)
     \<and> s_pool s' = s_pool s \<and> s_alloc s' = s_alloc s \<and> s_sigterm s' = s_sigterm s
     \<and> s_worker s' = count_pass (length refs) info (s_worker s)
     \<and> batch_ok (s_batch s') \<and> b_reqs (s_batch s') = b_reqs (s_batch s)"
proof -
  let ?w = "window_size (s_worker s)" and ?h = "s_store s"
  have fp: "fixed_pool_of (s_worker s) = Some fp" "pool_ready fp" "fp_window_size fp = ?w"
    "always_align (s_worker s)" "100 \<le> skip_mismatch (s_worker s)"
    using mode by (simp_all add: fixed_mode_def)
  have u: "\<forall>r \<in> set (map ?h refs). unverified r \<noteq> []" using fit fits_window_unverified by blast
  obtain locs where pad: "assign_padding (append_dummy_entries k ?w (from_requests True True (Some ?w) (map ?h refs))) s =
      Inr (fixed_info ?w k locs (map ?h refs), s)" "length refs * (?w - 1) \<le> length locs"
    using assign_padding_fixed [OF fp(1,2) _ u, of k] size fp(3) by auto
  let ?info = "fixed_info ?w k locs (map ?h refs)"
  obtain d dlocs drows where d: "dummy_arguments (s_worker s) k = Inr d" "dummies_ok ?w d dlocs drows"
    "d_num_dummies d = k"
    using dummy_arguments_ok [OF fp(1,2), of k] size fp(3) by auto
  obtain b where b: "prepare_verify_batch ed ?info (s_pool s) ?h refs d = Inr b"
    and rb: "replay_batch ?w k ?h refs b"
    using fixed_layout [OF fit pad(2) d(2,3), of ed] prepared_reqs unfolding replay_batch_def by blast
  obtain ids lps where out: "fwd (kv_tokens ?h) b = (ids, lps)" by fastforce
  have "replays_window ref ?w (map ?h refs) (ids, lps)"
    using pred rb by (simp add: pass_predicts_def flip: out)
  from compare_outputs_fixed [OF fp(5) dist fit this refl, of fl k locs] obtain h1 where
    h1: "compare_outputs fl (s_worker s) ?info ?h refs ids lps =
        Inr (h1, map (\<lambda>j. outcome ids (j * ?w) (?h (refs ! j))) [0..<length refs])"
    and step: "\<forall>j < length refs. pass_step ref (?h (refs ! j))
         (advance ?info j (snd (outcome ids (j * ?w) (?h (refs ! j)))) (h1 (refs ! j)))
       \<and> length (output_ids (h1 (refs ! j))) +
           nat (snd (outcome ids (j * ?w) (?h (refs ! j)))) = length (output_ids (?h (refs ! j)))"
    and other: "\<forall>x. x \<notin> set refs \<longrightarrow> h1 x = ?h x" by blast
  let ?infs = "map (\<lambda>j. outcome ids (j * ?w) (?h (refs ! j))) [0..<length refs]"
  obtain h2 res where col: "collect_rollbacks ?info 0 h1 refs ?infs = (h2, res)" by fastforce
  note cs = collect_rollbacks_spec [OF dist _ col, simplified]
  have h2: "h2 (refs ! j) = advance ?info j (snd (outcome ids (j * ?w) (?h (refs ! j)))) (h1 (refs ! j))"
    if "j < length refs" for j using cs that by simp
  have nn: "0 \<le> snd (outcome ids (j * ?w) (?h (refs ! j)))" for j by (simp add: outcome_def)
  have n: "snd (outcome ids (j * ?w) (?h (refs ! j))) =
      int (length (output_ids (?h (refs ! j)))) - int (length (output_ids (h2 (refs ! j))))"
    if j: "j < length refs" for j
  proof -
    have "length (output_ids (h1 (refs ! j))) + nat (snd (outcome ids (j * ?w) (?h (refs ! j)))) =
        length (output_ids (?h (refs ! j)))" using step j by blast
    then show ?thesis using nn [of j] h2 [OF j] by simp
  qed
  have res: "res = rolled_back ?h h2 refs"
  proof -
    have "zip refs (map snd ?infs) =
        map (\<lambda>x. (x, int (length (output_ids (?h x))) - int (length (output_ids (h2 x))))) refs"
      by (rule nth_equalityI) (use n in auto)
    then show ?thesis using cs by (simp add: rolled_back_def)
  qed
  obtain batch where bt: "(if res \<noteq> [] then update_batch_state h2 (set (map fst res)) (s_batch s)
      else Inr (s_batch s)) = Inr batch" "batch_ok batch" "b_reqs batch = b_reqs (s_batch s)"
    using update_batch_state_total [OF bok] bok by (cases "res = []") auto
  have i0: "from_requests (always_align (s_worker s)) True (Some ?w) (map ?h refs) =
      from_requests True True (Some ?w) (map ?h refs)" by (simp add: fp(4))
  have i1: "(if 0 < k then append_dummy_entries k (fp_window_size fp) (from_requests True True (Some ?w) (map ?h refs))
      else from_requests True True (Some ?w) (map ?h refs)) =
      append_dummy_entries k ?w (from_requests True True (Some ?w) (map ?h refs))"
    by (cases k) (simp_all add: append_no_dummies fp(3))
  have "run_verification ed fl fwd True k refs s = Inr (rolled_back ?h h2 refs,
      s\<lparr>s_store := h2, s_batch := batch, s_worker := count_pass (length refs) ?info (s_worker s)\<rparr>)"
    using run_verification_eval [where fwd = fwd and s = s, OF i0 fp(1) i1 pad(1) d(1) b out h1 col bt(1)] res by simp
  moreover have "\<forall>x \<in> set refs. pass_step ref (?h x) (h2 x)"
    using step h2 by (auto simp: in_set_conv_nth)
  moreover have "\<forall>x. x \<notin> set refs \<longrightarrow> h2 x = ?h x" using cs other by auto
  ultimately show ?thesis
    using bt(2,3)
    by (intro exI [of _ "s\<lparr>s_store := h2, s_batch := batch,
          s_worker := count_pass (length refs) ?info (s_worker s)\<rparr>"] exI [of _ ?info]) simp
qed

text \<open>C5. A verification pass in fixed-size mode, over requests that fit the window and with a verifier
  that predicts by a reference function from the cached tokens and the replayed window, always returns.  Afterwards every request of the batch is
  fully verified, has at least one new verified token, has kept its verified tokens, and has not
  grown; if its verified tokens were the reference output before, its whole output is now.  The
  reported rollbacks are exactly the requests whose output got shorter, with the number of lost
  tokens; all other requests, the table, the allocator and the pool are unchanged.\<close>

theorem verification_pass_sound:
  assumes "fixed_mode (s_worker s) fp" "batch_ok (s_batch s)" "distinct refs"
    and "\<forall>r \<in> set (map (s_store s) refs). fits_window (s_pool s) (window_size (s_worker s)) r"
    and "length refs + k = fp_fixed_size fp"
    and "pass_predicts ref fwd (window_size (s_worker s)) k (s_store s) refs"
  shows "\<exists>s'. run_verification ed fl fwd True k refs s = Inr (rolled_back (s_store s) (s_store s') refs, s')
     \<and> (\<forall>x \<in> set refs. let r = s_store s x; r' = s_store s' x in
          llm42_verified_tokens r' = length (output_ids r')
        \<and> llm42_verified_tokens r < llm42_verified_tokens r'
        \<and> length (output_ids r') \<le> length (output_ids r)
        \<and> take (llm42_verified_tokens r) (output_ids r') = take (llm42_verified_tokens r) (output_ids r)
        \<and> (ref_ok ref r \<longrightarrow>
             output_ids r' = ref_gen ref (origin_input_ids r) (length (output_ids r'))))
     \<and> (\<forall>x. x \<notin> set refs \<longrightarrow> s_store s' x = s_store s x)
     \<and> s_pool s' = s_pool s \<and> s_alloc s' = s_alloc s"
proof -
  from run_verification_fixed [OF assms, of ed fl] obtain s' where
    s': "run_verification ed fl fwd True k refs s = Inr (rolled_back (s_store s) (s_store s') refs, s')"
    "\<forall>x \<in> set refs. pass_step ref (s_store s x) (s_store s' x)"
    "\<forall>x. x \<notin> set refs \<longrightarrow> s_store s' x = s_store s x" "s_pool s' = s_pool s" "s_alloc s' = s_alloc s"
    by blast
  have "output_ids r' = ref_gen ref (origin_input_ids r) (length (output_ids r'))"
    if "pass_step ref r r'" "ref_ok ref r" for r r'
    using that pass_frame_fields(1) [of r r'] by (auto simp: pass_step_def ref_ok_def)
  with s' show ?thesis
    by (intro exI [of _ s']) (auto simp: Let_def pass_step_def)
qed

subsection \<open>A concrete verifier\<close>

text \<open>Every reference function, however it depends on the whole prefix, has such a verifier: it appends the window to the
  tokens in the KV cache, position by position.\<close>

definition model_verifier :: "(token list \<Rightarrow> token) \<Rightarrow> verifier" where
  "model_verifier ref kv b =
     (let ids = the (b_input_ids b); w = nat (hd (b_extend_lens b))
      in (concat (map (\<lambda>j. map (\<lambda>i. ref (kv (b_reqs b ! j) @ take (Suc i) (drop (j * w) ids))) [0..<w]) [0..<length (b_reqs b)]), None))"

lemma nth_concat_const:
  assumes "\<And>j. j < n \<Longrightarrow> length (f j) = w" "j < n" "i < w"
  shows "concat (map f [0..<n]) ! (j * w + i) = f j ! i"
  using assms
proof (induction n)
  case (Suc n)
  have m: "map (length \<circ> f) [0..<n] = map (\<lambda>_. w) [0..<n]" using Suc.prems(1) by (intro map_cong) simp_all
  have l: "length (concat (map f [0..<n])) = n * w" by (simp add: length_concat m sum_list_triv del: map_eq_conv)
  show ?case
  proof (cases "j < n")
    case True
    have "Suc j * w \<le> n * w" using True by (intro mult_le_mono1) simp
    then have "j * w + i < n * w" using Suc.prems(3) by simp
    then show ?thesis using Suc.IH [OF Suc.prems(1) True Suc.prems(3)] by (simp add: nth_append l)
  next
    case False
    then have "j = n" using Suc.prems(2) by simp
    then show ?thesis by (simp add: nth_append l)
  qed
qed simp

lemma model_predicts:
  assumes fit: "\<forall>r \<in> set (map h refs). fits_window p w r"
  shows "pass_predicts ref (model_verifier ref) w k h refs"
  unfolding pass_predicts_def
proof (intro allI impI)
  fix b assume "replay_batch w k h refs b"
  then have b: "b_reqs b = refs" "b_extend_lens b = replicate (length refs + k) (int w)"
    "the (b_input_ids b) = concat (map (replay_tokens w) (map h refs)) @ replicate (k * w) DUMMY_TOKEN_ID"
    by (simp_all add: replay_batch_def)
  let ?c = "concat (map (replay_tokens w) (map h refs))" and ?out = "model_verifier ref (kv_tokens h) b"
  let ?f = "\<lambda>j. map (\<lambda>i. ref (kv_tokens h (refs ! j) @ take (Suc i) (drop (j * w) (the (b_input_ids b))))) [0..<w]"
  have out: "?out = (concat (map ?f [0..<length refs]), None)"
    by (cases "refs = []") (simp_all add: model_verifier_def b(1,2) replicate_add)
  have len: "length ?c = length refs * w" using length_concat_replay [OF fit] by simp
  have "fst ?out ! (j * w + i) = ref (take (Suc (context_pos (h (refs ! j)) + i)) (full_ids (h (refs ! j))))"
    if j: "j < length refs" and i: "i < length (unverified (h (refs ! j)))" for i j
  proof -
    let ?r = "h (refs ! j)"
    have f: "fits_window p w ?r" using fit j by simp
    then have r: "replayable p ?r" and iw: "i < w" using i by (auto simp: fits_window_def)
    note bd = replayable_bounds [OF r]
    have seg: "\<forall>x \<in> set (map h refs). length (replay_tokens w x) = w" using fit length_replay_tokens by blast
    have "slice ?c (j * w) (j * w + w) = take w (replay_tokens w (map h refs ! j))"
      by (rule slice_concat [OF seg]) (use j in simp_all)
    then have s: "slice ?c (j * w) (j * w + w) = replay_tokens w ?r"
      using j length_replay_tokens [OF f] by simp
    have jw: "j * w + w \<le> length ?c" using mult_le_mono1 [of "Suc j" "length refs" w] j len by simp
    have "take (Suc i) (drop (j * w) (the (b_input_ids b))) = take (Suc i) (slice ?c (j * w) (j * w + w))"
      unfolding b(3) slice_def using jw iw by (simp add: take_drop [symmetric] min_def) 
    also have "\<dots> = take (Suc i) (replay_tokens w ?r)" by (simp only: s)
    also have "\<dots> = take (Suc i) (drop (context_pos ?r) (full_ids ?r))"
      using i bd(2,3,6) by (simp add: replay_tokens_def slice_def)
    finally have "kv_tokens h (refs ! j) @ take (Suc i) (drop (j * w) (the (b_input_ids b))) = take (context_pos ?r + Suc i) (full_ids ?r)"
      by (simp only: kv_tokens_def take_add)
    moreover have "fst ?out ! (j * w + i) = ?f j ! i" unfolding out fst_conv by (rule nth_concat_const) (use j iw in simp_all)
    ultimately show ?thesis using iw by simp
  qed
  moreover have "length (fst ?out) = length refs * w"
    by (simp add: out length_concat comp_def sum_list_triv)
  ultimately show "replays_window ref w (map h refs) ?out" by (simp add: replays_window_def) (simp add: out)
qed

text \<open>A reference that depends on the first and the last token of its prefix.\<close>

definition digit_ref :: "token list \<Rightarrow> token" where
  "digit_ref xs = (last xs + hd xs mod 10) mod 32000"

abbreviation "digit_verifier \<equiv> model_verifier digit_ref"

text \<open>A system with one request, whose decode has gone wrong at the third token, and a fixed pool of two
  windows of four positions.\<close>

definition example_sys :: sys where
  "example_sys =
     (case init_fixed_pool_at (init_worker True 2 100 4) (example_pool\<lparr>free_slots := [1, 2, 3]\<rparr>)
             ((token_init 40 False)\<lparr>free_pages := [9, 10, 11, 12, 13, 14, 15, 16, 17, 18, 19, 20, 21, 22, 23, 24]\<rparr>) of
        (w, p, a) \<Rightarrow>
          \<lparr>s_store = (\<lambda>_. example_req\<lparr>output_ids := [14, 15, 9, 10], llm42_verified_tokens := 1\<rparr>),
           s_pool = p, s_alloc = a, s_worker = w, s_batch = new_batch [0] False, s_sigterm = False\<rparr>)"

lemma example_sys_mode:
  "fixed_mode (s_worker example_sys) (the (fixed_pool_of (s_worker example_sys)))"
  by code_simp

lemma example_sys_fits:
  "\<forall>r \<in> set (map (s_store example_sys) [0]). fits_window (s_pool example_sys) (window_size (s_worker example_sys)) r"
  by code_simp

lemma example_sys_batch_ok: "batch_ok (s_batch example_sys)"
  by (simp add: batch_ok_def example_sys_def new_batch_def split_beta)

theorem verification_pass_sound_witness:
  "fixed_mode (s_worker example_sys) (the (fixed_pool_of (s_worker example_sys))) \<and>
   pass_predicts digit_ref digit_verifier 4 1 (s_store example_sys) [0] \<and>
   (\<exists>s'. run_verification True id digit_verifier True 1 [0] example_sys =
          Inr (rolled_back (s_store example_sys) (s_store s') [0], s')
       \<and> output_ids (s_store s' 0) = ref_gen digit_ref [11, 12, 13] (length (output_ids (s_store s' 0)))
       \<and> 1 < length (output_ids (s_store s' 0)))"
proof -
  have c: "distinct [0 :: ref]"
    "length [0 :: ref] + 1 = fp_fixed_size (the (fixed_pool_of (s_worker example_sys)))"
    "window_size (s_worker example_sys) = 4" "origin_input_ids (s_store example_sys 0) = [11, 12, 13]"
    "ref_ok digit_ref (s_store example_sys 0)" "llm42_verified_tokens (s_store example_sys 0) = 1"
    by code_simp+
  have p: "pass_predicts digit_ref digit_verifier (window_size (s_worker example_sys)) 1
      (s_store example_sys) [0]"
    by (rule model_predicts [OF example_sys_fits])
  from verification_pass_sound [OF example_sys_mode example_sys_batch_ok c(1) example_sys_fits c(2) p,
      of True id] example_sys_mode p c
  show ?thesis by (auto simp: Let_def)
qed

end
