(* ===== verification/LLM42_Round.thy ===== *)
theory LLM42_Round
  imports LLM42_DVR
begin

text \<open>
  A whole round of \<open>check_and_verify_deterministic_requests\<close> (\<open>llm42/llm42_worker.py\<close>): the passes over
  all groups of the fixed-size mode, composed.
\<close>

text \<open>The verifier predicts by the reference function for every batch of replays that fit the window.\<close>

definition sound_verifier ::
  "(token list \<Rightarrow> token) \<Rightarrow> verifier \<Rightarrow> req_to_token_pool \<Rightarrow> nat \<Rightarrow> bool" where
  "sound_verifier ref fwd p w \<longleftrightarrow>
     (\<forall>k h refs. (\<forall>r \<in> set (map h refs). fits_window p w r) \<longrightarrow> pass_predicts ref fwd w k h refs)"

lemma model_sound: "sound_verifier ref (model_verifier ref) p w"
  unfolding sound_verifier_def using model_predicts by blast

lemma rolled_back_append: "rolled_back h h' (xs @ ys) = rolled_back h h' xs @ rolled_back h h' ys"
  by (simp add: rolled_back_def)

lemma rolled_back_cong:
  "(\<And>x. x \<in> set refs \<Longrightarrow> h x = g x) \<Longrightarrow> (\<And>x. x \<in> set refs \<Longrightarrow> h' x = g' x) \<Longrightarrow>
   rolled_back h h' refs = rolled_back g g' refs"
  by (auto simp: rolled_back_def intro!: arg_cong [where f = "filter _"])

lemma count_pass_mode [simp]:
  "fixed_mode (count_pass n info w) fp = fixed_mode w fp" "window_size (count_pass n info w) = window_size w"
  by (simp_all add: count_pass_def fixed_mode_def)

text \<open>What the groups of one round leave: every request of a group has made a pass, no other changes.\<close>

lemma verify_groups_fixed:
  assumes "fixed_mode (s_worker s) fp" "batch_ok (s_batch s)" "distinct (concat (map fst gs))"
    and "\<forall>r \<in> set (map (s_store s) (concat (map fst gs))). fits_window (s_pool s) (window_size (s_worker s)) r"
    and "\<forall>(b, d) \<in> set gs. length b + d = fp_fixed_size fp"
    and "sound_verifier ref fwd (s_pool s) (window_size (s_worker s))"
  shows "\<exists>s'. verify_groups ed fl fwd gs s =
        Inr (rolled_back (s_store s) (s_store s') (concat (map fst gs)), s')
     \<and> (\<forall>x \<in> set (concat (map fst gs)). pass_step ref (s_store s x) (s_store s' x))
     \<and> (\<forall>x. x \<notin> set (concat (map fst gs)) \<longrightarrow> s_store s' x = s_store s x)
     \<and> s_pool s' = s_pool s \<and> s_alloc s' = s_alloc s \<and> s_sigterm s' = s_sigterm s
     \<and> fixed_mode (s_worker s') fp \<and> window_size (s_worker s') = window_size (s_worker s)
     \<and> batch_ok (s_batch s') \<and> b_reqs (s_batch s') = b_reqs (s_batch s)"
  using assms
proof (induction gs arbitrary: s)
  case Nil
  then show ?case by (intro exI [of _ s]) (simp add: rolled_back_def)
next
  case (Cons g gs)
  obtain refs k where g: "g = (refs, k)" by (cases g)
  let ?w = "window_size (s_worker s)" and ?rest = "concat (map fst gs)"
  have fit: "\<forall>r \<in> set (map (s_store s) refs). fits_window (s_pool s) ?w r"
    and dist: "distinct refs" "distinct ?rest" "set refs \<inter> set ?rest = {}"
    and k: "length refs + k = fp_fixed_size fp"
    using Cons.prems(3-5) by (auto simp: g)
  have "pass_predicts ref fwd ?w k (s_store s) refs"
    using Cons.prems(6) fit unfolding sound_verifier_def by blast
  from run_verification_fixed [OF Cons.prems(1,2) dist(1) fit k this, of ed fl] obtain s1 info where
    s1: "run_verification ed fl fwd True k refs s = Inr (rolled_back (s_store s) (s_store s1) refs, s1)"
      "\<forall>x \<in> set refs. pass_step ref (s_store s x) (s_store s1 x)"
      "\<forall>x. x \<notin> set refs \<longrightarrow> s_store s1 x = s_store s x"
      "s_pool s1 = s_pool s" "s_alloc s1 = s_alloc s" "s_sigterm s1 = s_sigterm s"
      "s_worker s1 = count_pass (length refs) info (s_worker s)"
      "batch_ok (s_batch s1)" "b_reqs (s_batch s1) = b_reqs (s_batch s)"
    by (elim exE conjE)
  have same: "s_store s1 x = s_store s x" if "x \<in> set ?rest" for x
    using that dist(3) s1(3) by blast
  have "\<forall>r \<in> set (map (s_store s1) ?rest). fits_window (s_pool s1) (window_size (s_worker s1)) r"
    using Cons.prems(4) same by (simp add: g s1(4,7))
  from Cons.IH [of s1, OF _ s1(8) dist(2) this] Cons.prems(1,5,6) obtain s2 where
    s2: "verify_groups ed fl fwd gs s1 = Inr (rolled_back (s_store s1) (s_store s2) ?rest, s2)"
      "\<forall>x \<in> set ?rest. pass_step ref (s_store s1 x) (s_store s2 x)"
      "\<forall>x. x \<notin> set ?rest \<longrightarrow> s_store s2 x = s_store s1 x"
      "s_pool s2 = s_pool s1" "s_alloc s2 = s_alloc s1" "s_sigterm s2 = s_sigterm s1"
      "fixed_mode (s_worker s2) fp" "window_size (s_worker s2) = window_size (s_worker s1)"
      "batch_ok (s_batch s2)" "b_reqs (s_batch s2) = b_reqs (s_batch s1)"
    by (auto simp: s1(4,7))
  have keep: "s_store s2 x = s_store s1 x" if "x \<in> set refs" for x using that dist(3) s2(3) by blast
  have "rolled_back (s_store s) (s_store s1) refs = rolled_back (s_store s) (s_store s2) refs"
    "rolled_back (s_store s1) (s_store s2) ?rest = rolled_back (s_store s) (s_store s2) ?rest"
    by (rule rolled_back_cong; simp add: keep same)+
  then have "verify_groups ed fl fwd (g # gs) s =
      Inr (rolled_back (s_store s) (s_store s2) (concat (map fst (g # gs))), s2)"
    by (simp add: g s1(1) s2(1) rolled_back_append)
  moreover have "\<forall>x \<in> set (concat (map fst (g # gs))). pass_step ref (s_store s x) (s_store s2 x)"
    using s1(2) s2(2) keep same by (auto simp: g)
  moreover have "\<forall>x. x \<notin> set (concat (map fst (g # gs))) \<longrightarrow> s_store s2 x = s_store s x"
    using s1(3) s2(3) by (simp add: g)
  ultimately show ?case
    using s1(4-9) s2(4-10) by (intro exI [of _ s2]) simp
qed

text \<open>The state a round starts from: the fixed pool is in place, the batch has no request twice, and every
  request that waits for verification fits the window.\<close>

definition round_ok :: "sys \<Rightarrow> fixed_pool \<Rightarrow> bool" where
  "round_ok s fp \<longleftrightarrow>
     fixed_mode (s_worker s) fp \<and> 0 < fp_fixed_size fp \<and> batch_ok (s_batch s) \<and> distinct (b_reqs (s_batch s)) \<and>
     (\<forall>x \<in> set (b_reqs (s_batch s)). needs_verification (s_store s x) \<longrightarrow>
        fits_window (s_pool s) (window_size (s_worker s)) (s_store s x))"

lemma round_fixed:
  assumes ok: "round_ok s fp" and v: "sound_verifier ref fwd (s_pool s) (window_size (s_worker s))"
  shows "\<exists>T s'. check_and_verify_deterministic_requests ed fl fwd s =
        Some (Inr (rolled_back (s_store s) (s_store s') T, s'))
     \<and> distinct T \<and> set T \<subseteq> {x \<in> set (b_reqs (s_batch s)). needs_verification (s_store s x)}
     \<and> {x \<in> set (b_reqs (s_batch s)). needs_verification (s_store s x) \<and> is_ready (s_worker s) (s_store s x)} \<subseteq> set T
     \<and> (\<forall>x \<in> set T. pass_step ref (s_store s x) (s_store s' x))
     \<and> (\<forall>x. x \<notin> set T \<longrightarrow> s_store s' x = s_store s x)
     \<and> s_pool s' = s_pool s \<and> s_alloc s' = s_alloc s \<and> s_sigterm s' = s_sigterm s
     \<and> fixed_mode (s_worker s') fp \<and> window_size (s_worker s') = window_size (s_worker s)
     \<and> batch_ok (s_batch s') \<and> b_reqs (s_batch s') = b_reqs (s_batch s)"
proof -
  let ?h = "s_store s" and ?w = "s_worker s"
  let ?all = "filter (\<lambda>x. needs_verification (?h x)) (b_reqs (s_batch s))"
  let ?rdy = "filter (\<lambda>x. is_ready ?w (?h x)) ?all" and ?nr = "filter (\<lambda>x. \<not> is_ready ?w (?h x)) ?all"
  have fp: "fixed_mode ?w fp" "fixed_pool_of ?w = Some fp" "0 < fp_fixed_size fp" "batch_ok (s_batch s)"
    and dist: "distinct (b_reqs (s_batch s))" and fit: "\<forall>x \<in> set ?all. fits_window (s_pool s) (window_size ?w) (?h x)"
    using ok by (auto simp: round_ok_def fixed_mode_def)
  show ?thesis
  proof (cases "?rdy = []")
    case True
    then have "check_and_verify_deterministic_requests ed fl fwd s = Some (Inr ([], s))"
      by (simp only: check_and_verify_deterministic_requests_def Let_def simp_thms if_True)
    with True fp show ?thesis
      by (intro exI [of _ "[]"] exI [of _ s]) (auto simp: rolled_back_def filter_empty_conv)
  next
    case False
    obtain gs k where gs: "group_batches (fp_fixed_size fp) ?rdy ?nr = Some gs"
      "mset (concat (map fst gs)) = mset (?rdy @ take k ?nr)"
      "\<forall>(b, d) \<in> set gs. b \<noteq> [] \<and> length b + d = fp_fixed_size fp"
      using group_batches_spec [OF fp(3)] by blast
    let ?T = "concat (map fst gs)"
    have "distinct (?rdy @ take k ?nr)" using dist by (auto dest: in_set_takeD)
    then have dT: "distinct ?T" using gs(2) mset_eq_imp_distinct_iff by blast
    have T: "set ?T = set (?rdy @ take k ?nr)" using gs(2) by (rule mset_eq_setD)
    then have sub: "set ?T \<subseteq> set ?all" "set ?rdy \<subseteq> set ?T" by (auto dest: in_set_takeD)
    have "\<forall>r \<in> set (map ?h ?T). fits_window (s_pool s) (window_size ?w) r" using fit sub(1) by auto
    moreover have "\<forall>(b, d) \<in> set gs. length b + d = fp_fixed_size fp" using gs(3) by auto
    ultimately obtain s' where s': "verify_groups ed fl fwd gs s = Inr (rolled_back ?h (s_store s') ?T, s')"
      and post: "(\<forall>x \<in> set ?T. pass_step ref (?h x) (s_store s' x))
        \<and> (\<forall>x. x \<notin> set ?T \<longrightarrow> s_store s' x = ?h x)
        \<and> s_pool s' = s_pool s \<and> s_alloc s' = s_alloc s \<and> s_sigterm s' = s_sigterm s
        \<and> fixed_mode (s_worker s') fp \<and> window_size (s_worker s') = window_size ?w
        \<and> batch_ok (s_batch s') \<and> b_reqs (s_batch s') = b_reqs (s_batch s)"
      using verify_groups_fixed [OF fp(1,4) dT _ _ v, of ed fl] by blast
    have "check_and_verify_deterministic_requests ed fl fwd s = Some (Inr (rolled_back ?h (s_store s') ?T, s'))"
      using gs(1) s'
      by (simp only: check_and_verify_deterministic_requests_def Let_def False if_False fp(2) option.simps)
    with post dT sub show ?thesis by (intro exI [of _ ?T] exI [of _ s']) auto
  qed
qed

text \<open>C6. A round in fixed-size mode, with a verifier that predicts \<open>ref\<close> of a request's tokens from those in the KV cache and the
  replayed window, returns, and afterwards no request of the batch is both unverified and
  ready: every finished or full-window request is fully verified.  Each request is either untouched
  or fully verified with its verified tokens kept and at least one more; reference outputs stay
  reference outputs, and the reported rollbacks are exactly the requests that lost tokens.\<close>

theorem verification_round_sound:
  assumes "round_ok s fp" "sound_verifier ref fwd (s_pool s) (window_size (s_worker s))"
  shows "\<exists>res s'. check_and_verify_deterministic_requests ed fl fwd s = Some (Inr (res, s'))
     \<and> (\<forall>x \<in> set (b_reqs (s_batch s)).
          \<not> (needs_verification (s_store s' x) \<and> is_ready (s_worker s') (s_store s' x)))
     \<and> (\<forall>x. s_store s' x = s_store s x \<or> pass_step ref (s_store s x) (s_store s' x))
     \<and> (\<forall>x. ref_ok ref (s_store s x) \<longrightarrow> ref_ok ref (s_store s' x))
     \<and> (\<forall>x n. (x, n) \<in> set res \<longleftrightarrow> 0 < n \<and>
          int (length (output_ids (s_store s' x))) = int (length (output_ids (s_store s x))) - n)"
proof -
  from round_fixed [OF assms, of ed fl] obtain T s' where
    c: "check_and_verify_deterministic_requests ed fl fwd s = Some (Inr (rolled_back (s_store s) (s_store s') T, s'))"
    and T: "{x \<in> set (b_reqs (s_batch s)). needs_verification (s_store s x) \<and> is_ready (s_worker s) (s_store s x)} \<subseteq> set T"
    and p: "\<forall>x \<in> set T. pass_step ref (s_store s x) (s_store s' x)"
    and q: "\<forall>x. x \<notin> set T \<longrightarrow> s_store s' x = s_store s x"
    and w: "window_size (s_worker s') = window_size (s_worker s)"
    by blast
  have rdy: "is_ready (s_worker s') r = is_ready (s_worker s) r" for r by (simp add: is_ready_def w)
  have verified: "\<not> needs_verification (s_store s' x)" if "x \<in> set T" for x
    using p that by (auto simp: pass_step_def needs_verification_def)
  have "\<not> (needs_verification (s_store s' x) \<and> is_ready (s_worker s') (s_store s' x))"
    if "x \<in> set (b_reqs (s_batch s))" for x
  proof (cases "x \<in> set T")
    case False
    then show ?thesis using T q that rdy by auto
  qed (use verified in simp)
  moreover have "s_store s' x = s_store s x \<or> pass_step ref (s_store s x) (s_store s' x)" for x
    using p q by blast
  moreover have "ref_ok ref (s_store s' x)" if "ref_ok ref (s_store s x)" for x
    using p q that by (cases "x \<in> set T") (auto simp: pass_step_def)
  moreover have "(x, n) \<in> set (rolled_back (s_store s) (s_store s') T) \<longleftrightarrow> 0 < n \<and>
      int (length (output_ids (s_store s' x))) = int (length (output_ids (s_store s x))) - n" for x n
    using q by (cases "x \<in> set T") (auto simp: rolled_back_def)
  ultimately show ?thesis using c by blast
qed

lemma example_round_ok: "round_ok example_sys (the (fixed_pool_of (s_worker example_sys)))"
proof -
  have "0 < fp_fixed_size (the (fixed_pool_of (s_worker example_sys)))"
    "b_reqs (s_batch example_sys) = [0]" by code_simp+
  with example_sys_mode example_sys_fits example_sys_batch_ok show ?thesis by (simp add: round_ok_def)
qed

theorem verification_round_sound_witness:
  "round_ok example_sys (the (fixed_pool_of (s_worker example_sys))) \<and>
   sound_verifier digit_ref digit_verifier (s_pool example_sys) (window_size (s_worker example_sys)) \<and>
   (\<exists>res s'. check_and_verify_deterministic_requests True id digit_verifier example_sys = Some (Inr (res, s'))
      \<and> ref_ok digit_ref (s_store s' 0))"
proof -
  have "ref_ok digit_ref (s_store example_sys 0)" by code_simp
  with verification_round_sound [OF example_round_ok model_sound, of True id] example_round_ok model_sound
  show ?thesis by blast
qed

end
