(* ===== verification/Input_Logprobs.thy ===== *)
theory Input_Logprobs
  imports Req
begin

text \<open>The log-probabilities of prompt tokens, collected chunk by chunk during a prefill: the helpers
  \<open>_process_input_token_logprobs\<close> to \<open>_initialize_empty_logprob_containers\<close> of
  \<open>src/python/sglang/srt/managers/scheduler_output_processor_mixin.py\<close>.  A request that is prefilled in several
  chunks ends with the log-probabilities a single prefill would have given.\<close>

text \<open>\<open>LogitsProcessorOutput\<close>: the fields the output processor reads.  The fields with the prefix \<open>lo_\<close> are
  those whose names a request has too.\<close>

record logits_output =
  next_token_logprobs :: "real list option"
  next_token_top_logprobs_val :: "real list list"
  next_token_top_logprobs_idx :: "token list list"
  next_token_token_ids_logprobs_val :: "real list list option"
  next_token_token_ids_logprobs_idx :: "token list list"
  lo_input_token_logprobs :: "real list option"
  lo_input_top_logprobs_val :: "real list list list"
  lo_input_top_logprobs_idx :: "token list list list"
  lo_input_token_ids_logprobs_val :: "real list list list"
  lo_input_token_ids_logprobs_idx :: "token list list list"

text \<open>The two settings the helpers read: the delimiter token of multi-item scoring and the vocabulary size.\<close>

record scoring =
  multi_item_scoring_delimiter :: "token option"
  model_vocab_size :: int

definition is_prefill_only :: "req \<Rightarrow> bool" where
  "is_prefill_only r = (max_new_tokens (sampling_params r) = Some 0)"

definition is_multi_item_scoring :: "scoring \<Rightarrow> req \<Rightarrow> bool" where
  "is_multi_item_scoring M r =
     (is_prefill_only r \<and> (case multi_item_scoring_delimiter M of None \<Rightarrow> False | Some d \<Rightarrow> d \<noteq> 0))"

definition is_delimiter :: "scoring \<Rightarrow> token \<Rightarrow> bool" where
  "is_delimiter M t = (multi_item_scoring_delimiter M = Some t)"

definition process_input_token_logprobs :: "scoring \<Rightarrow> real list \<Rightarrow> req \<Rightarrow> req" where
  "process_input_token_logprobs M lps r =
     (let multi = is_multi_item_scoring M r;
          relevant = drop_int (origin_input_ids r) (logprob_start_len r);
          idx = (if multi then filter (is_delimiter M) relevant else relevant)
      in r\<lparr>input_lp := (input_lp r)\<lparr>
             input_token_logprobs_val := Some (if multi then map Some lps else None # map Some (butlast lps)),
             input_token_logprobs_idx := Some (map (\<lambda>x. if x < model_vocab_size M - 1 then x else 0) idx)\<rparr>\<rparr>)"

text \<open>\<open>zip(..., strict=True)\<close> raises when the lengths differ; the loop extends both lists.\<close>

definition extend_strict :: "bool \<Rightarrow> 'a list list option \<Rightarrow> 'b list list option \<Rightarrow> ('a option list \<times> 'b option list) result" where
  "extend_strict multi vals idxs =
     (case (vals, idxs) of
        (Some vs, Some is) \<Rightarrow>
          if length vs \<noteq> length is then Inl ValueError
          else Inr (if multi then map Some (concat vs) else butlast (None # map Some (concat vs)),
                    if multi then map Some (concat is) else butlast (None # map Some (concat is)))
      | _ \<Rightarrow> Inl TypeError)"

definition process_input_top_logprobs :: "scoring \<Rightarrow> req \<Rightarrow> req result" where
  "process_input_top_logprobs M r =
     (if top_logprobs_num r \<le> 0 then Inr r
      else bind_result
        (extend_strict (is_multi_item_scoring M r) (temp_input_top_logprobs_val (input_lp r))
           (temp_input_top_logprobs_idx (input_lp r))) (\<lambda>(v, i).
        Inr (r\<lparr>input_lp := (input_lp r)\<lparr>input_top_logprobs_val := Some v, input_top_logprobs_idx := Some i,
               temp_input_top_logprobs_idx := None, temp_input_top_logprobs_val := None\<rparr>\<rparr>)))"

definition process_input_token_ids_logprobs :: "scoring \<Rightarrow> req \<Rightarrow> req result" where
  "process_input_token_ids_logprobs M r =
     (if token_ids_logprob r = None then Inr r
      else bind_result
        (extend_strict (is_multi_item_scoring M r) (temp_input_token_ids_logprobs_val (input_lp r))
           (temp_input_token_ids_logprobs_idx (input_lp r))) (\<lambda>(v, i).
        Inr (r\<lparr>input_lp := (input_lp r)\<lparr>input_token_ids_logprobs_val := Some v, input_token_ids_logprobs_idx := Some i,
               temp_input_token_ids_logprobs_idx := None, temp_input_token_ids_logprobs_val := None\<rparr>\<rparr>)))"

definition calculate_relevant_tokens_len :: "scoring \<Rightarrow> req \<Rightarrow> nat" where
  "calculate_relevant_tokens_len M r =
     (let relevant = drop_int (origin_input_ids r) (logprob_start_len r)
      in if is_multi_item_scoring M r then length (filter (is_delimiter M) relevant) else length relevant)"

definition calculate_num_input_logprobs :: "scoring \<Rightarrow> req \<Rightarrow> int \<Rightarrow> int \<Rightarrow> int" where
  "calculate_num_input_logprobs M r ext_len ext_start =
     (if is_multi_item_scoring M r
      then int (length (filter (is_delimiter M) (py_slice (origin_input_ids r) ext_start ext_len)))
      else ext_len - ext_start)"

section \<open>Adding a chunk\<close>

definition default_list :: "'a list option \<Rightarrow> 'a list option" where
  "default_list xs = (case xs of None \<Rightarrow> Some [] | Some ys \<Rightarrow> Some ys)"

definition init_temp_logprobs :: "input_logprobs \<Rightarrow> input_logprobs" where
  "init_temp_logprobs l =
     l\<lparr>input_token_logprobs := default_list (input_token_logprobs l),
       temp_input_top_logprobs_val := default_list (temp_input_top_logprobs_val l),
       temp_input_top_logprobs_idx := default_list (temp_input_top_logprobs_idx l),
       temp_input_token_ids_logprobs_val := default_list (temp_input_token_ids_logprobs_val l),
       temp_input_token_ids_logprobs_idx := default_list (temp_input_token_ids_logprobs_idx l)\<rparr>"

definition snoc_option :: "'a \<Rightarrow> 'a list option \<Rightarrow> 'a list option" where
  "snoc_option x = map_option (\<lambda>xs. xs @ [x])"

text \<open>The chunk's values join the temporary holders.\<close>

definition extend_temp_logprobs :: "nat \<Rightarrow> req \<Rightarrow> logits_output \<Rightarrow> real list \<Rightarrow> req result" where
  "extend_temp_logprobs i r out lps =
     (let l = input_lp r;
          l1 = l\<lparr>input_token_logprobs := map_option (\<lambda>xs. xs @ lps) (input_token_logprobs l)\<rparr>
      in bind_result
           (if 0 < top_logprobs_num r then
              bind_result (py_nth (lo_input_top_logprobs_val out) i) (\<lambda>v.
              bind_result (py_nth (lo_input_top_logprobs_idx out) i) (\<lambda>x.
                Inr (l1\<lparr>temp_input_top_logprobs_val := snoc_option v (temp_input_top_logprobs_val l1),
                        temp_input_top_logprobs_idx := snoc_option x (temp_input_top_logprobs_idx l1)\<rparr>)))
            else Inr l1) (\<lambda>l2.
         bind_result
           (if token_ids_logprob r \<noteq> None then
              bind_result (py_nth (lo_input_token_ids_logprobs_val out) i) (\<lambda>v.
              bind_result (py_nth (lo_input_token_ids_logprobs_idx out) i) (\<lambda>x.
                Inr (l2\<lparr>temp_input_token_ids_logprobs_val := snoc_option v (temp_input_token_ids_logprobs_val l2),
                        temp_input_token_ids_logprobs_idx := snoc_option x (temp_input_token_ids_logprobs_idx l2)\<rparr>)))
            else Inr l2) (\<lambda>l3.
         Inr (r\<lparr>input_lp := l3\<rparr>))))"

text \<open>The assertions after the last chunk.\<close>

definition length_is :: "nat \<Rightarrow> 'a list option \<Rightarrow> bool" where
  "length_is n xs = (case xs of None \<Rightarrow> False | Some ys \<Rightarrow> length ys = n)"

definition input_lengths_ok :: "scoring \<Rightarrow> req \<Rightarrow> bool" where
  "input_lengths_ok M r =
     (let n = calculate_relevant_tokens_len M r; l = input_lp r
      in length_is n (input_token_logprobs_val l) \<and> length_is n (input_token_logprobs_idx l) \<and>
         (0 < top_logprobs_num r \<longrightarrow>
            length_is n (input_top_logprobs_val l) \<and> length_is n (input_top_logprobs_idx l)) \<and>
         (token_ids_logprob r \<noteq> None \<longrightarrow>
            length_is n (input_token_ids_logprobs_val l) \<and> length_is n (input_token_ids_logprobs_idx l)))"

definition finish_input_logprobs :: "scoring \<Rightarrow> req \<Rightarrow> req result" where
  "finish_input_logprobs M r =
     (let lps = the (input_token_logprobs (input_lp r));
          r1 = r\<lparr>input_lp := (input_lp r)\<lparr>input_token_logprobs := None\<rparr>\<rparr>;
          l = input_lp r1
      in if input_token_logprobs_val l \<noteq> None \<or> input_token_logprobs_idx l \<noteq> None \<or>
            input_top_logprobs_val l \<noteq> None \<or> input_top_logprobs_idx l \<noteq> None then Inl AssertionError
         else bind_result (process_input_top_logprobs M (process_input_token_logprobs M lps r1)) (\<lambda>r2.
              bind_result (process_input_token_ids_logprobs M r2) (\<lambda>r3.
                if return_logprob r3 \<and> \<not> input_lengths_ok M r3 then Inl AssertionError else Inr r3)))"

definition add_input_logprob_return_values ::
  "scoring \<Rightarrow> nat \<Rightarrow> req \<Rightarrow> logits_output \<Rightarrow> int \<Rightarrow> int \<Rightarrow> bool \<Rightarrow> req result" where
  "add_input_logprob_return_values M i r out pt num last_chunk =
     (case lo_input_token_logprobs out of None \<Rightarrow> Inl AssertionError
      | Some lps \<Rightarrow>
          (let r1 = r\<lparr>input_lp := init_temp_logprobs (input_lp r)\<rparr>
           in if input_token_logprobs_val (input_lp r1) \<noteq> None then Inr r1
              else bind_result (extend_temp_logprobs i r1 out (py_slice lps pt (pt + num))) (\<lambda>r2.
                     if last_chunk then finish_input_logprobs M r2 else Inr r2)))"

definition initialize_empty_logprob_containers :: "req \<Rightarrow> req" where
  "initialize_empty_logprob_containers r =
     (let l = input_lp r
      in r\<lparr>input_lp := l\<lparr>input_token_logprobs_val := default_list (input_token_logprobs_val l),
                         input_token_logprobs_idx := default_list (input_token_logprobs_idx l),
                         input_top_logprobs_val := default_list (input_top_logprobs_val l),
                         input_top_logprobs_idx := default_list (input_top_logprobs_idx l),
                         input_token_ids_logprobs_val := default_list (input_token_ids_logprobs_val l),
                         input_token_ids_logprobs_idx := default_list (input_token_ids_logprobs_idx l)\<rparr>\<rparr>)"

section \<open>Output tokens\<close>

definition append_option :: "'a \<Rightarrow> 'a list option \<Rightarrow> 'a list option result" where
  "append_option x xs = (case xs of None \<Rightarrow> Inl AttributeError | Some ys \<Rightarrow> Inr (Some (ys @ [x])))"

definition append_token_logprob :: "logits_output \<Rightarrow> nat \<Rightarrow> token \<Rightarrow> req \<Rightarrow> req result" where
  "append_token_logprob out i t r =
     (case next_token_logprobs out of None \<Rightarrow> Inl AttributeError
      | Some lps \<Rightarrow>
          bind_result (py_nth lps i) (\<lambda>lp.
          bind_result (append_option lp (output_token_logprobs_val r)) (\<lambda>v.
          bind_result (append_option t (output_token_logprobs_idx r)) (\<lambda>ix.
            Inr (r\<lparr>output_token_logprobs_val := v, output_token_logprobs_idx := ix\<rparr>)))))"

definition append_top_logprobs :: "logits_output \<Rightarrow> nat \<Rightarrow> req \<Rightarrow> req result" where
  "append_top_logprobs out i r =
     (if 0 < top_logprobs_num r then
        bind_result (py_nth (next_token_top_logprobs_val out) i) (\<lambda>a.
        bind_result (append_option a (output_top_logprobs_val r)) (\<lambda>tv.
        bind_result (py_nth (next_token_top_logprobs_idx out) i) (\<lambda>b.
        bind_result (append_option b (output_top_logprobs_idx r)) (\<lambda>ti.
          Inr (r\<lparr>output_top_logprobs_val := tv, output_top_logprobs_idx := ti\<rparr>)))))
      else Inr r)"

definition append_token_ids_logprobs :: "logits_output \<Rightarrow> nat \<Rightarrow> req \<Rightarrow> req result" where
  "append_token_ids_logprobs out i r =
     (if token_ids_logprob r \<noteq> None then
        (case next_token_token_ids_logprobs_val out of None \<Rightarrow> Inl TypeError
         | Some vs \<Rightarrow>
             bind_result (py_nth vs i) (\<lambda>a.
             bind_result (append_option a (output_token_ids_logprobs_val r)) (\<lambda>tv.
             bind_result (py_nth (next_token_token_ids_logprobs_idx out) i) (\<lambda>b.
             bind_result (append_option b (output_token_ids_logprobs_idx r)) (\<lambda>ti.
               Inr (r\<lparr>output_token_ids_logprobs_val := tv, output_token_ids_logprobs_idx := ti\<rparr>))))))
      else Inr r)"

text \<open>The block of the decode loop that records a sampled token.\<close>

definition append_output_logprobs :: "logits_output \<Rightarrow> nat \<Rightarrow> token \<Rightarrow> req \<Rightarrow> req result" where
  "append_output_logprobs out i t r =
     bind_result (append_token_logprob out i t r) (\<lambda>r1.
     bind_result (append_top_logprobs out i r1) (append_token_ids_logprobs out i))"

text \<open>The prefill variant, which also adds the prompt's values.\<close>

definition add_logprob_return_values ::
  "scoring \<Rightarrow> nat \<Rightarrow> req \<Rightarrow> int \<Rightarrow> token \<Rightarrow> int \<Rightarrow> logits_output \<Rightarrow> req result" where
  "add_logprob_return_values M i r pt t num out =
     bind_result (if next_token_logprobs out \<noteq> None then append_token_logprob out i t r else Inr r) (\<lambda>r1.
     bind_result
       (if 0 < num then add_input_logprob_return_values M i r1 out pt num True
        else Inr (initialize_empty_logprob_containers r1)) (\<lambda>r2.
     bind_result (append_top_logprobs out i r2) (\<lambda>r3.
       if next_token_token_ids_logprobs_val out \<noteq> None then append_token_ids_logprobs out i r3 else Inr r3)))"

section \<open>What the operations keep\<close>

text \<open>Only the prompt's log-probabilities change.\<close>

definition only_input_lp :: "req \<Rightarrow> req \<Rightarrow> bool" where
  "only_input_lp r r' \<longleftrightarrow> (\<exists>l. r' = r\<lparr>input_lp := l\<rparr>)"

lemma only_input_lp_update [simp]: "only_input_lp r (r\<lparr>input_lp := l\<rparr>)"
  by (auto simp: only_input_lp_def)

lemma only_input_lp_refl [simp]: "only_input_lp r r"
  unfolding only_input_lp_def by (rule exI [of _ "input_lp r"]) simp

lemma only_input_lp_trans: "only_input_lp r r' \<Longrightarrow> only_input_lp r' r'' \<Longrightarrow> only_input_lp r r''"
  unfolding only_input_lp_def by auto

lemma extend_temp_frame: "extend_temp_logprobs i r out lps = Inr r' \<Longrightarrow> only_input_lp r r'"
  by (auto simp: extend_temp_logprobs_def Let_def)

lemma finish_input_frame:
  assumes "finish_input_logprobs M r = Inr r'"
  shows "only_input_lp r r'"
proof -
  let ?r1 = "process_input_token_logprobs M (the (input_token_logprobs (input_lp r)))
    (r\<lparr>input_lp := (input_lp r)\<lparr>input_token_logprobs := None\<rparr>\<rparr>)"
  obtain r2 where r2: "process_input_top_logprobs M ?r1 = Inr r2" "process_input_token_ids_logprobs M r2 = Inr r'"
    using assms by (auto simp: finish_input_logprobs_def Let_def split: if_splits)
  have "only_input_lp r ?r1" by (simp add: process_input_token_logprobs_def Let_def)
  moreover have "only_input_lp ?r1 r2"
    using r2(1) by (auto simp: process_input_top_logprobs_def split: if_splits)
  moreover have "only_input_lp r2 r'"
    using r2(2) by (auto simp: process_input_token_ids_logprobs_def split: if_splits)
  ultimately show ?thesis using only_input_lp_trans by blast
qed

lemma add_input_logprobs_frame:
  assumes "add_input_logprob_return_values M i r out pt n last_chunk = Inr r'"
  shows "\<exists>l. r' = r\<lparr>input_lp := l\<rparr>"
proof -
  let ?r1 = "r\<lparr>input_lp := init_temp_logprobs (input_lp r)\<rparr>"
  have "only_input_lp r r'"
  proof (cases "r' = ?r1")
    case False
    then obtain lps r2 where "extend_temp_logprobs i ?r1 out lps = Inr r2" "r' = r2 \<or> finish_input_logprobs M r2 = Inr r'"
      using assms by (auto simp: add_input_logprob_return_values_def Let_def split: option.splits if_splits)
    then show ?thesis
      using extend_temp_frame finish_input_frame only_input_lp_trans only_input_lp_update by metis
  qed simp
  then show ?thesis unfolding only_input_lp_def by blast
qed

section \<open>Chunked prefill\<close>

text \<open>The calls for the chunks of one request: all but the last one pass \<open>last_prefill_chunk = False\<close>.\<close>

type_synonym chunk = "nat \<times> logits_output \<times> int \<times> int"

fun add_chunks :: "scoring \<Rightarrow> req \<Rightarrow> chunk list \<Rightarrow> req result" where
  "add_chunks M r [] = Inr r"
| "add_chunks M r [(i, out, pt, num)] = add_input_logprob_return_values M i r out pt num True"
| "add_chunks M r ((i, out, pt, num) # c # cs) =
     bind_result (add_input_logprob_return_values M i r out pt num False) (\<lambda>r1. add_chunks M r1 (c # cs))"

definition chunk_values :: "chunk \<Rightarrow> real list" where
  "chunk_values = (\<lambda>(i, out, pt, num). py_slice (the (lo_input_token_logprobs out)) pt (pt + num))"

text \<open>The entry of a per-request list of the logits output that belongs to the chunk.\<close>

definition chunk_entry :: "(logits_output \<Rightarrow> 'a list) \<Rightarrow> chunk \<Rightarrow> 'a" where
  "chunk_entry f = (\<lambda>(i, out, pt, num). f out ! i)"

text \<open>The logits output of a chunk has what the request asks for: values for the prompt, and an entry for the
  request in the lists of top and of selected-token log-probabilities when it wants those.\<close>

definition chunk_complete :: "req \<Rightarrow> chunk \<Rightarrow> bool" where
  "chunk_complete r = (\<lambda>(i, out, pt, num).
     lo_input_token_logprobs out \<noteq> None \<and>
     (0 < top_logprobs_num r \<longrightarrow>
        i < length (lo_input_top_logprobs_val out) \<and> i < length (lo_input_top_logprobs_idx out)) \<and>
     (token_ids_logprob r \<noteq> None \<longrightarrow>
        i < length (lo_input_token_ids_logprobs_val out) \<and> i < length (lo_input_token_ids_logprobs_idx out)))"

text \<open>The temporary holders after some chunks.\<close>

definition collected :: "req \<Rightarrow> chunk list \<Rightarrow> input_logprobs" where
  "collected r cs =
     (let top = 0 < top_logprobs_num r; ids = token_ids_logprob r \<noteq> None
      in no_input_logprobs\<lparr>input_token_logprobs := Some (concat (map chunk_values cs)),
           temp_input_top_logprobs_val := Some (if top then map (chunk_entry lo_input_top_logprobs_val) cs else []),
           temp_input_top_logprobs_idx := Some (if top then map (chunk_entry lo_input_top_logprobs_idx) cs else []),
           temp_input_token_ids_logprobs_val := Some (if ids then map (chunk_entry lo_input_token_ids_logprobs_val) cs else []),
           temp_input_token_ids_logprobs_idx := Some (if ids then map (chunk_entry lo_input_token_ids_logprobs_idx) cs else [])\<rparr>)"

lemma collected_input_lp [simp]: "collected (r\<lparr>input_lp := l\<rparr>) cs = collected r cs"
  by (simp add: collected_def)

lemma chunk_complete_input_lp [simp]: "chunk_complete (r\<lparr>input_lp := l\<rparr>) = chunk_complete r"
  by (simp add: chunk_complete_def fun_eq_iff)

lemma multi_input_lp [simp]: "is_multi_item_scoring M (r\<lparr>input_lp := l\<rparr>) = is_multi_item_scoring M r"
  by (simp add: is_multi_item_scoring_def is_prefill_only_def)

lemma init_temp_collected:
  "init_temp_logprobs (collected r cs) = collected r cs" "init_temp_logprobs no_input_logprobs = collected r []"
  by (simp_all add: init_temp_logprobs_def collected_def no_input_logprobs_def default_list_def Let_def)

lemma extend_temp_collected:
  assumes "chunk_complete r (i, out, pt, num)"
  shows "extend_temp_logprobs i (r\<lparr>input_lp := collected r ds\<rparr>) out (chunk_values (i, out, pt, num)) =
      Inr (r\<lparr>input_lp := collected r (ds @ [(i, out, pt, num)])\<rparr>)"
  using assms
  by (auto simp: extend_temp_logprobs_def chunk_complete_def collected_def chunk_entry_def snoc_option_def py_nth_def
      no_input_logprobs_def Let_def)

lemma add_one_chunk:
  assumes ok: "chunk_complete r (i, out, pt, num)"
    and l: "input_lp r = collected r ds \<or> input_lp r = no_input_logprobs \<and> ds = []"
  shows "add_input_logprob_return_values M i r out pt num fin =
      (let r' = r\<lparr>input_lp := collected r (ds @ [(i, out, pt, num)])\<rparr>
       in if fin then finish_input_logprobs M r' else Inr r')"
proof -
  obtain lps where lps: "lo_input_token_logprobs out = Some lps" using ok by (auto simp: chunk_complete_def)
  have i: "init_temp_logprobs (input_lp r) = collected r ds"
    using l init_temp_collected by metis
  have v: "input_token_logprobs_val (collected r ds) = None" by (simp add: collected_def no_input_logprobs_def Let_def)
  have c: "py_slice lps pt (pt + num) = chunk_values (i, out, pt, num)" by (simp add: chunk_values_def lps)
  show ?thesis
    by (simp add: add_input_logprob_return_values_def lps i v c extend_temp_collected [OF ok] Let_def del: One_nat_def)
qed

lemma add_chunks_collect:
  assumes "cs \<noteq> []" "\<forall>c \<in> set cs. chunk_complete r c"
    and "input_lp r = collected r ds \<or> input_lp r = no_input_logprobs \<and> ds = []"
  shows "add_chunks M r cs = finish_input_logprobs M (r\<lparr>input_lp := collected r (ds @ cs)\<rparr>)"
  using assms
proof (induction M r cs arbitrary: ds rule: add_chunks.induct)
  case (2 M r i out pt num)
  then show ?case using add_one_chunk [of r i out pt num ds M True] by (simp add: Let_def)
next
  case (3 M r i out pt num c cs)
  let ?r1 = "r\<lparr>input_lp := collected r (ds @ [(i, out, pt, num)])\<rparr>"
  have a: "add_input_logprob_return_values M i r out pt num False = Inr ?r1"
    using add_one_chunk [of r i out pt num ds M False] 3(3,4) by (simp add: Let_def)
  have "add_chunks M ?r1 (c # cs) =
      finish_input_logprobs M (?r1\<lparr>input_lp := collected ?r1 ((ds @ [(i, out, pt, num)]) @ c # cs)\<rparr>)"
    by (rule 3(1)) (use 3(3) in auto)
  then show ?case using a by simp
qed simp

text \<open>What the request ends with, computed from the concatenated values of all chunks: shifted by one position behind
  a leading \<open>None\<close>, or as they are for multi-item scoring.\<close>

definition shifted :: "bool \<Rightarrow> 'a list \<Rightarrow> 'a option list" where
  "shifted multi xs = (if multi then map Some xs else butlast (None # map Some xs))"

definition scored_logprobs :: "scoring \<Rightarrow> req \<Rightarrow> chunk list \<Rightarrow> input_logprobs" where
  "scored_logprobs M r cs =
     (let multi = is_multi_item_scoring M r; lps = concat (map chunk_values cs);
          top = 0 < top_logprobs_num r; ids = token_ids_logprob r \<noteq> None;
          prompt = drop_int (origin_input_ids r) (logprob_start_len r)
      in no_input_logprobs\<lparr>
           input_token_logprobs_val := Some (if multi then map Some lps else None # map Some (butlast lps)),
           input_token_logprobs_idx := Some (map (\<lambda>x. if x < model_vocab_size M - 1 then x else 0)
             (if multi then filter (is_delimiter M) prompt else prompt)),
           input_top_logprobs_val := (if top then Some (shifted multi (concat (map (chunk_entry lo_input_top_logprobs_val) cs))) else None),
           input_top_logprobs_idx := (if top then Some (shifted multi (concat (map (chunk_entry lo_input_top_logprobs_idx) cs))) else None),
           input_token_ids_logprobs_val := (if ids then Some (shifted multi (concat (map (chunk_entry lo_input_token_ids_logprobs_val) cs))) else None),
           input_token_ids_logprobs_idx := (if ids then Some (shifted multi (concat (map (chunk_entry lo_input_token_ids_logprobs_idx) cs))) else None),
           temp_input_top_logprobs_val := (if top then None else Some []),
           temp_input_top_logprobs_idx := (if top then None else Some []),
           temp_input_token_ids_logprobs_val := (if ids then None else Some []),
           temp_input_token_ids_logprobs_idx := (if ids then None else Some [])\<rparr>)"

text \<open>The chunks together have one value of every kind asked for per scored position of the prompt.  A regular
  request with no values at all still gets the leading \<open>None\<close>.\<close>

definition covered :: "scoring \<Rightarrow> req \<Rightarrow> chunk list \<Rightarrow> bool" where
  "covered M r cs \<longleftrightarrow>
     (let n = calculate_relevant_tokens_len M r; lps = length (concat (map chunk_values cs))
      in (if is_multi_item_scoring M r then lps else max 1 lps) = n \<and>
         (0 < top_logprobs_num r \<longrightarrow>
            length (concat (map (chunk_entry lo_input_top_logprobs_val) cs)) = n \<and>
            length (concat (map (chunk_entry lo_input_top_logprobs_idx) cs)) = n) \<and>
         (token_ids_logprob r \<noteq> None \<longrightarrow>
            length (concat (map (chunk_entry lo_input_token_ids_logprobs_val) cs)) = n \<and>
            length (concat (map (chunk_entry lo_input_token_ids_logprobs_idx) cs)) = n))"

lemma length_shifted [simp]: "length (shifted multi xs) = length xs"
  by (simp add: shifted_def)

lemma extend_strict_shifted:
  "length vs = length is \<Longrightarrow> extend_strict multi (Some vs) (Some is) = Inr (shifted multi (concat vs), shifted multi (concat is))"
  by (simp add: extend_strict_def shifted_def)

lemma finish_collected:
  "finish_input_logprobs M (r\<lparr>input_lp := collected r cs\<rparr>) =
     (if return_logprob r \<and> \<not> covered M r cs then Inl AssertionError
      else Inr (r\<lparr>input_lp := scored_logprobs M r cs\<rparr>))"
proof -
  let ?multi = "is_multi_item_scoring M r" and ?lps = "concat (map chunk_values cs)"
  let ?r1 = "process_input_token_logprobs M ?lps (r\<lparr>input_lp := (collected r cs)\<lparr>input_token_logprobs := None\<rparr>\<rparr>)"
  have c: "input_token_logprobs (collected r cs) = Some ?lps" "input_token_logprobs_val (collected r cs) = None"
    "input_token_logprobs_idx (collected r cs) = None" "input_top_logprobs_val (collected r cs) = None"
    "input_top_logprobs_idx (collected r cs) = None" by (simp_all add: collected_def no_input_logprobs_def Let_def)
  have "bind_result (process_input_top_logprobs M ?r1) (process_input_token_ids_logprobs M) =
      Inr (r\<lparr>input_lp := scored_logprobs M r cs\<rparr>)"
    by (simp add: process_input_top_logprobs_def process_input_token_ids_logprobs_def process_input_token_logprobs_def
        collected_def scored_logprobs_def no_input_logprobs_def extend_strict_shifted Let_def)
  then obtain r2 where "process_input_top_logprobs M ?r1 = Inr r2"
      "process_input_token_ids_logprobs M r2 = Inr (r\<lparr>input_lp := scored_logprobs M r cs\<rparr>)" by auto
  moreover have "input_lengths_ok M (r\<lparr>input_lp := scored_logprobs M r cs\<rparr>) = covered M r cs"
    by (auto simp: input_lengths_ok_def covered_def scored_logprobs_def length_is_def calculate_relevant_tokens_len_def
        Let_def max_def)
  ultimately show ?thesis by (simp add: finish_input_logprobs_def c Let_def)
qed

text \<open>C32. Prompt log-probabilities do not depend on how the prefill is cut into chunks.  A request without any prompt
  log-probabilities gets a non-empty list of chunks, each of whose logits outputs has prompt values and, when the
  request asks for top or for selected-token log-probabilities, an entry for it in those lists.  Then adding the chunks
  one after the other stores what the concatenated values of all chunks determine - token, top and selected-token
  values, shifted by one position behind a leading \<open>None\<close>, or unshifted at the delimiters for multi-item scoring - unless
  the request returns log-probabilities and the number of values of some kind is not the number of scored prompt
  positions, in which case it fails with the assertion.  (Without any token value a regular request still stores the
  leading \<open>None\<close>, so no value counts as one for it.)\<close>

theorem chunked_input_logprobs:
  assumes "input_lp r = no_input_logprobs" "cs \<noteq> []" "\<forall>c \<in> set cs. chunk_complete r c"
  shows "add_chunks M r cs =
     (if return_logprob r \<and> \<not> covered M r cs then Inl AssertionError
      else Inr (r\<lparr>input_lp := scored_logprobs M r cs\<rparr>))"
  using add_chunks_collect [OF assms(2,3), of "[]"] assms(1) by (simp add: finish_collected)

text \<open>The logits output of a chunk for a batch of one request that asks for the top log-probability of each position.\<close>

definition example_chunk :: "real list \<Rightarrow> (real list \<times> token list) list \<Rightarrow> logits_output" where
  "example_chunk lps tops = \<lparr>next_token_logprobs = None, next_token_top_logprobs_val = [], next_token_top_logprobs_idx = [],
     next_token_token_ids_logprobs_val = None, next_token_token_ids_logprobs_idx = [], lo_input_token_logprobs = Some lps,
     lo_input_top_logprobs_val = [map fst tops], lo_input_top_logprobs_idx = [map snd tops],
     lo_input_token_ids_logprobs_val = [], lo_input_token_ids_logprobs_idx = []\<rparr>"

theorem chunked_input_logprobs_witness:
  "let r = example_req\<lparr>return_logprob := True, top_logprobs_num := 1\<rparr>;
       M = \<lparr>multi_item_scoring_delimiter = None, model_vocab_size = 32000\<rparr>;
       a = (0, example_chunk [-1, -2] [([-0.5], [7]), ([-2], [12])], 0, 2); b = (0, example_chunk [-9, -3] [([-1], [3])], 1, 1)
   in (\<exists>r'. add_chunks M r [a, b] = Inr r' \<and>
         input_token_logprobs_val (input_lp r') = Some [None, Some (-1), Some (-2)] \<and>
         input_token_logprobs_idx (input_lp r') = Some [11, 12, 13] \<and>
         input_top_logprobs_val (input_lp r') = Some [None, Some [-0.5], Some [-2]]) \<and>
      add_chunks M r [a] = Inl AssertionError"
proof -
  let ?r = "example_req\<lparr>return_logprob := True, top_logprobs_num := 1\<rparr>"
    and ?M = "\<lparr>multi_item_scoring_delimiter = None, model_vocab_size = 32000\<rparr>"
  let ?a = "(0, example_chunk [-1, -2] [([-0.5], [7]), ([-2], [12])], 0, 2) :: chunk"
    and ?b = "(0, example_chunk [-9, -3] [([-1], [3])], 1, 1) :: chunk"
  have r: "input_lp ?r = no_input_logprobs" "\<not> is_multi_item_scoring ?M ?r" "return_logprob ?r"
    "drop_int (origin_input_ids ?r) (logprob_start_len ?r) = [11, 12, 13]"
    by (simp_all add: is_multi_item_scoring_def example_req_def init_req_def drop_int_def py_clip_def)
  have v: "chunk_values ?a = [-1, -2]" "chunk_values ?b = [-3]"
    by (simp_all add: chunk_values_def example_chunk_def py_slice_def py_clip_def slice_def)
  have k: "\<forall>c \<in> set [?a, ?b]. chunk_complete ?r c"
    by (simp add: chunk_complete_def example_chunk_def example_req_def init_req_def)
  then have k1: "\<forall>c \<in> set [?a]. chunk_complete ?r c" by simp
  have "covered ?M ?r [?a, ?b]" "\<not> covered ?M ?r [?a]"
    using r v by (simp_all add: covered_def calculate_relevant_tokens_len_def chunk_entry_def example_chunk_def
        example_req_def init_req_def)
  moreover have "input_token_logprobs_val (scored_logprobs ?M ?r [?a, ?b]) = Some [None, Some (-1), Some (-2)]"
    "input_token_logprobs_idx (scored_logprobs ?M ?r [?a, ?b]) = Some [11, 12, 13]"
    "input_top_logprobs_val (scored_logprobs ?M ?r [?a, ?b]) = Some [None, Some [-0.5], Some [-2]]"
    using r v by (simp_all add: scored_logprobs_def no_input_logprobs_def shifted_def chunk_entry_def example_chunk_def
        Let_def)
  ultimately show ?thesis
    using chunked_input_logprobs [OF r(1) _ k, of ?M] chunked_input_logprobs [OF r(1) _ k1, of ?M] r(3)
    by (simp add: Let_def del: add_chunks.simps)
qed

end
