(* ===== verification/Output_Processor.thy ===== *)
theory Output_Processor
  imports LLM42_Round Input_Logprobs
begin

text \<open>
  The processing of batch results, \<open>managers/scheduler_output_processor_mixin.py\<close>, and
  \<open>abort_request\<close> of \<open>managers/scheduler.py\<close>, for text generation without speculative
  decoding and without prefill/decode disaggregation.  The prefix cache is the \<open>ChunkCache\<close>.  Hidden
  states, routed experts, custom info, cache statistics and time statistics are left out of the messages.
\<close>

section \<open>The scheduler's state\<close>

record conf =
  enable_llm42 :: bool
  enable_overlap :: bool
  server_stream_interval :: int
  conf_scoring :: scoring

text \<open>One entry of a \<open>BatchTokenIDOutput\<close>.\<close>

record token_output =
  o_rid :: string
  o_finished_reason :: "(string \<times> json) list option"
  o_decoded_text :: string
  o_decode_ids :: "token list"
  o_read_offset :: nat
  o_output_ids :: "token list"
  o_skip_special_tokens :: bool
  o_spaces_between_special_tokens :: bool
  o_no_stop_trim :: bool
  o_prompt_tokens :: nat
  o_completion_tokens :: nat
  o_retraction_count :: nat
  o_num_rollbacks :: nat
  o_tokens_rolled_back :: nat
  o_num_verification_windows :: nat
  o_input_token_logprobs_val :: "real option list option"
  o_input_token_logprobs_idx :: "token list option"
  o_input_top_logprobs_val :: "real list option list option"
  o_input_top_logprobs_idx :: "token list option list option"
  o_input_token_ids_logprobs_val :: "real list option list option"
  o_input_token_ids_logprobs_idx :: "token list option list option"
  o_token_logprobs_val :: "real list"
  o_token_logprobs_idx :: "token list"
  o_top_logprobs_val :: "real list list"
  o_top_logprobs_idx :: "token list list"
  o_token_ids_logprobs_val :: "real list list"
  o_token_ids_logprobs_idx :: "token list list"

datatype message = BatchTokenIDOutput "token_output list" | AbortReq string

text \<open>\<open>cur_reqs\<close> holds the requests of \<open>cur_batch\<close> when it is another batch than \<open>running_batch\<close>.\<close>

record sched =
  sc_sys :: sys
  waiting_queue :: "ref list"
  grammar_queue :: "ref list"
  running_reqs :: "ref list"
  cur_reqs :: "ref list option"
  num_generated_tokens :: nat
  forward_ct_decode :: int
  sent :: "message list"

abbreviation sc_store :: "sched \<Rightarrow> store" where
  "sc_store S \<equiv> s_store (sc_sys S)"

definition set_store :: "store \<Rightarrow> sched \<Rightarrow> sched" where
  "set_store h S = S\<lparr>sc_sys := (sc_sys S)\<lparr>s_store := h\<rparr>\<rparr>"

definition set_alloc :: "allocator \<Rightarrow> sched \<Rightarrow> sched" where
  "set_alloc a S = S\<lparr>sc_sys := (sc_sys S)\<lparr>s_alloc := a\<rparr>\<rparr>"

definition put_req :: "ref \<Rightarrow> req \<Rightarrow> sched \<Rightarrow> sched" where
  "put_req x r S = set_store ((sc_store S)(x := r)) S"

section \<open>Aborting\<close>

definition abort_matches :: "bool \<Rightarrow> string \<Rightarrow> req \<Rightarrow> bool" where
  "abort_matches abort_all recv_rid r = (abort_all \<or> take (length recv_rid) (rid r) = recv_rid)"

definition update_where :: "(req \<Rightarrow> bool) \<Rightarrow> (req \<Rightarrow> req) \<Rightarrow> ref list \<Rightarrow> store \<Rightarrow> store" where
  "update_where P f xs h = fold (\<lambda>x h. if P (h x) then h(x := f (h x)) else h) xs h"

definition abort_request :: "bool \<Rightarrow> string \<Rightarrow> sched \<Rightarrow> sched" where
  "abort_request abort_all recv_rid S =
     (let h = sc_store S;
          gone = filter (\<lambda>x. abort_matches abort_all recv_rid (h x)) (waiting_queue S);
          h1 = update_where (abort_matches abort_all recv_rid) (set_finish_with_abort ''Aborted by AbortReq.'')
                 (grammar_queue S) h;
          h2 = update_where (\<lambda>r. \<not> finished r \<and> abort_matches abort_all recv_rid r)
                 (\<lambda>r. r\<lparr>to_finish := Some (make_abort None None None)\<rparr>)
                 (running_reqs S @ (case cur_reqs S of None \<Rightarrow> [] | Some xs \<Rightarrow> xs)) h1
      in (set_store h2 S)\<lparr>waiting_queue := filter (\<lambda>x. \<not> abort_matches abort_all recv_rid (h x)) (waiting_queue S),
                          sent := sent S @ map (\<lambda>x. AbortReq (rid (h x))) (rev gone)\<rparr>)"

section \<open>Streaming\<close>

definition DEFAULT_FORCE_STREAM_INTERVAL :: nat where
  "DEFAULT_FORCE_STREAM_INTERVAL = 50"

definition needs_verify :: "conf \<Rightarrow> req \<Rightarrow> bool" where
  "needs_verify C r = (sp_is_deterministic (sampling_params r) \<and> enable_llm42 C)"

text \<open>\<open>req.sampling_params.stream_interval or self.stream_interval\<close>, and the test whether \<open>n\<close> tokens are due.\<close>

definition interval :: "conf \<Rightarrow> req \<Rightarrow> int" where
  "interval C r =
     (case stream_interval (sampling_params r) of
        Some k \<Rightarrow> if k \<noteq> 0 then k else server_stream_interval C
      | None \<Rightarrow> server_stream_interval C)"

definition stream_due :: "int \<Rightarrow> nat \<Rightarrow> bool result" where
  "stream_due k n =
     (if k = 0 then Inl ZeroDivisionError
      else Inr (if 1 < k then int n mod k = 1 else int n mod k = 0))"

text \<open>Whether the request has something to send now.\<close>

definition should_output :: "conf \<Rightarrow> env \<Rightarrow> req \<Rightarrow> (bool \<times> req) result" where
  "should_output C E r =
     (if finished r then
        if finished_output r then Inr (False, r)
        else if needs_verify C r \<and> llm42_verified_tokens r < length (output_ids r) then Inr (False, r)
        else Inr (True, r\<lparr>finished_output := True,
                          finished_len := (case finished_len r of None \<Rightarrow> Some (int (length (output_ids r)))
                                           | Some n \<Rightarrow> Some n)\<rparr>)
      else if needs_verify C r then
        if send_token_offset r < llm42_verified_tokens r \<and> stream r
        then bind_result (stream_due (interval C r) (llm42_verified_tokens r)) (\<lambda>b. Inr (b, r))
        else Inr (False, r)
      else if stream r then
        bind_result (stream_due (interval C r) (length (output_ids r))) (\<lambda>b.
          if b then bind_result (check_match_stop_str_prefix E r) (\<lambda>m. Inr (\<not> m, r)) else Inr (False, r))
      else Inr (length (output_ids r) mod DEFAULT_FORCE_STREAM_INTERVAL = 0, r))"

definition drop_option :: "nat \<Rightarrow> 'a list option \<Rightarrow> 'a list result" where
  "drop_option n xs = (case xs of None \<Rightarrow> Inl TypeError | Some ys \<Rightarrow> Inr (drop n ys))"

text \<open>The entry for one request, without its log-probabilities.\<close>

definition stream_entry :: "conf \<Rightarrow> req \<Rightarrow> token_output \<times> req" where
  "stream_entry C r =
     (let nv = needs_verify C r;
          ((decode_ids, ro), r1) = init_incremental_detokenize nv r;
          outs = output_ids_through_stop r1;
          upto = (if nv \<and> \<not> finished r1 then min (length outs) (llm42_verified_tokens r1) else length outs);
          r2 = r1\<lparr>send_decode_id_offset := length decode_ids, send_token_offset := upto\<rparr>
      in (\<lparr>o_rid = rid r, o_finished_reason = map_option to_json (finished_reason r),
           o_decoded_text = decoded_text r, o_decode_ids = drop (send_decode_id_offset r) decode_ids,
           o_read_offset = ro, o_output_ids = slice outs (send_token_offset r) upto,
           o_skip_special_tokens = skip_special_tokens (sampling_params r),
           o_spaces_between_special_tokens = spaces_between_special_tokens (sampling_params r),
           o_no_stop_trim = no_stop_trim (sampling_params r),
           o_prompt_tokens = length (origin_input_ids r),
           o_completion_tokens = (if nv then llm42_verified_tokens r else length outs),
           o_retraction_count = retraction_count r, o_num_rollbacks = llm42_num_rollbacks r,
           o_tokens_rolled_back = llm42_tokens_rolled_back r,
           o_num_verification_windows = llm42_num_verification_windows r,
           o_input_token_logprobs_val = Some [], o_input_token_logprobs_idx = Some [],
           o_input_top_logprobs_val = Some [], o_input_top_logprobs_idx = Some [],
           o_input_token_ids_logprobs_val = Some [], o_input_token_ids_logprobs_idx = Some [],
           o_token_logprobs_val = [], o_token_logprobs_idx = [], o_top_logprobs_val = [],
           o_top_logprobs_idx = [], o_token_ids_logprobs_val = [], o_token_ids_logprobs_idx = []\<rparr>, r2))"

text \<open>The prompt's log-probabilities are sent once.\<close>

definition stream_input_logprobs :: "token_output \<Rightarrow> req \<Rightarrow> token_output \<times> req" where
  "stream_input_logprobs out r =
     (let l = input_lp r
      in if return_logprob r \<and> \<not> input_logprob_sent l
         then (out\<lparr>o_input_token_logprobs_val := input_token_logprobs_val l,
                   o_input_token_logprobs_idx := input_token_logprobs_idx l,
                   o_input_top_logprobs_val := input_top_logprobs_val l,
                   o_input_top_logprobs_idx := input_top_logprobs_idx l,
                   o_input_token_ids_logprobs_val := input_token_ids_logprobs_val l,
                   o_input_token_ids_logprobs_idx := input_token_ids_logprobs_idx l\<rparr>,
               r\<lparr>input_lp := l\<lparr>input_logprob_sent := True\<rparr>\<rparr>)
         else (out, r))"

definition stream_output_logprobs :: "token_output \<Rightarrow> req \<Rightarrow> (token_output \<times> req) result" where
  "stream_output_logprobs out r =
     (let n = send_output_token_logprobs_offset r
      in if \<not> return_logprob r then Inr (out, r)
         else bind_result (drop_option n (output_token_logprobs_val r)) (\<lambda>v.
              bind_result (drop_option n (output_token_logprobs_idx r)) (\<lambda>i.
              bind_result (drop_option n (output_top_logprobs_val r)) (\<lambda>tv.
              bind_result (drop_option n (output_top_logprobs_idx r)) (\<lambda>ti.
              bind_result (drop_option n (output_token_ids_logprobs_val r)) (\<lambda>dv.
              bind_result (drop_option n (output_token_ids_logprobs_idx r)) (\<lambda>di.
                Inr (out\<lparr>o_token_logprobs_val := v, o_token_logprobs_idx := i, o_top_logprobs_val := tv,
                         o_top_logprobs_idx := ti, o_token_ids_logprobs_val := dv,
                         o_token_ids_logprobs_idx := di\<rparr>,
                     r\<lparr>send_output_token_logprobs_offset := length (the (output_token_logprobs_val r))\<rparr>))))))))"

definition stream_logprobs :: "token_output \<Rightarrow> req \<Rightarrow> (token_output \<times> req) result" where
  "stream_logprobs out r = (case stream_input_logprobs out r of (out1, r1) \<Rightarrow> stream_output_logprobs out1 r1)"

definition stream_req :: "conf \<Rightarrow> env \<Rightarrow> bool \<Rightarrow> req \<Rightarrow> (token_output list \<times> req) result" where
  "stream_req C E ret_logprob r =
     bind_result (should_output C E r) (\<lambda>(b, r1).
       if \<not> b then Inr ([], r1)
       else (let (out, r2) = stream_entry C r1
             in if ret_logprob then bind_result (stream_logprobs out r2) (\<lambda>(out', r3). Inr ([out'], r3))
                else Inr ([out], r2)))"

fun stream_loop ::
  "conf \<Rightarrow> env \<Rightarrow> bool \<Rightarrow> ref option \<Rightarrow> store \<Rightarrow> ref list \<Rightarrow> (token_output list \<times> store) result" where
  "stream_loop C E ret_logprob skip h [] = Inr ([], h)"
| "stream_loop C E ret_logprob skip h (x # xs) =
     (if skip = Some x then stream_loop C E ret_logprob skip h xs
      else bind_result (stream_req C E ret_logprob (h x)) (\<lambda>(outs, r).
           bind_result (stream_loop C E ret_logprob skip (h(x := r)) xs) (\<lambda>(outs', h').
             Inr (outs @ outs', h'))))"

definition stream_output_generation ::
  "conf \<Rightarrow> env \<Rightarrow> bool \<Rightarrow> ref option \<Rightarrow> bool \<Rightarrow> ref list \<Rightarrow> sched \<Rightarrow> sched result" where
  "stream_output_generation C E ret_logprob skip idle_batch xs S =
     bind_result (stream_loop C E ret_logprob skip (sc_store S) xs) (\<lambda>(outs, h).
       Inr ((set_store h S)\<lparr>sent := sent S @ (if xs \<noteq> [] \<or> idle_batch then [BatchTokenIDOutput outs] else [])\<rparr>))"

section \<open>Steps shared by prefill and decode results\<close>

text \<open>\<open>release_kv_cache\<close> followed by the completion time.\<close>

definition release_req :: "ref \<Rightarrow> sched \<Rightarrow> sched result" where
  "release_req x S =
     bind_result (release_kv_cache False (s_pool (sc_sys S)) (s_alloc (sc_sys S)) (sc_store S x)) (\<lambda>(p, a, r).
       Inr (put_req x (r\<lparr>completed := True\<rparr>) (S\<lparr>sc_sys := (sc_sys S)\<lparr>s_pool := p, s_alloc := a\<rparr>\<rparr>)))"

text \<open>The grammar's \<open>ValueError\<close> is caught and aborts the request; other exceptions escape.\<close>

definition accept_grammar :: "env \<Rightarrow> ref \<Rightarrow> token \<Rightarrow> sched \<Rightarrow> sched result" where
  "accept_grammar E x t S =
     (case grammar (sc_store S x) of
        None \<Rightarrow> Inr S
      | Some g \<Rightarrow>
          bind_result
            (case gr_accept E t g of
               Inr g' \<Rightarrow> Inr (put_req x ((sc_store S x)\<lparr>grammar := Some g'\<rparr>) S)
             | Inl e \<Rightarrow> if e = ValueError then Inr (abort_request False (rid (sc_store S x)) S) else Inl e)
            (\<lambda>S1. case grammar (sc_store S1 x) of
                None \<Rightarrow> Inl AttributeError
              | Some g1 \<Rightarrow>
                  Inr (put_req x ((sc_store S1 x)\<lparr>grammar := Some (gr_set_finished E (finished (sc_store S1 x)) g1)\<rparr>) S1)))"

section \<open>Decode results\<close>

definition verified_later :: "conf \<Rightarrow> req \<Rightarrow> bool" where
  "verified_later C r = (enable_llm42 C \<and> is_deterministic r)"

definition process_decode_req ::
  "conf \<Rightarrow> env \<Rightarrow> bool \<Rightarrow> logits_output \<Rightarrow> nat \<Rightarrow> ref \<Rightarrow> token \<Rightarrow> sched \<Rightarrow> sched result" where
  "process_decode_req C E ret_logprob lg i x t S =
     (let r = sc_store S x; later = verified_later C r
      in if enable_overlap C \<and> (finished r \<or> is_retracted r) then Inr S
         else
           (let r1 = r\<lparr>output_ids := output_ids r @ [t]\<rparr>
            in bind_result (if later \<and> return_logprob r \<and> ret_logprob then append_output_logprobs lg i t r1 else Inr r1) (\<lambda>r2.
               bind_result (check_finished E 1 r2) (\<lambda>r3.
               bind_result (if finished r3 \<and> \<not> later then release_req x (put_req x r3 S) else Inr (put_req x r3 S)) (\<lambda>S1.
               bind_result (if return_logprob r \<and> \<not> later
                            then (if ret_logprob
                                  then bind_result (append_output_logprobs lg i t (sc_store S1 x)) (\<lambda>r4. Inr (put_req x r4 S1))
                                  else Inl UnboundLocalError)
                            else Inr S1) (\<lambda>S2.
                 accept_grammar E x t S2))))))"

fun process_decode_loop ::
  "conf \<Rightarrow> env \<Rightarrow> bool \<Rightarrow> logits_output \<Rightarrow> nat \<Rightarrow> (ref \<times> token) list \<Rightarrow> sched \<Rightarrow> sched result" where
  "process_decode_loop C E ret_logprob lg i [] S = Inr S"
| "process_decode_loop C E ret_logprob lg i ((x, t) # xs) S =
     bind_result (process_decode_req C E ret_logprob lg i x t S) (\<lambda>S1.
       process_decode_loop C E ret_logprob lg (Suc i) xs S1)"

text \<open>The KV slots of the discarded positions are freed, and the counters follow.  Only requests with a table
  row are verified.\<close>

definition free_rolled_back_req :: "ref \<Rightarrow> int \<Rightarrow> sched \<Rightarrow> sched result" where
  "free_rolled_back_req x n S =
     (let r = sc_store S x;
          start = length (origin_input_ids r) + (length (output_ids r) - 1)
      in case req_pool_idx r of None \<Rightarrow> Inl RuntimeError
         | Some row \<Rightarrow>
             (let valid = filter (\<lambda>l. l \<noteq> 0) (rt_slice (s_pool (sc_sys S)) row start (start + nat n))
              in bind_result (if valid \<noteq> [] then free (s_alloc (sc_sys S)) valid else Inr (s_alloc (sc_sys S))) (\<lambda>a.
                   Inr (put_req x (r\<lparr>kv_committed_len := kv_committed_len r - n,
                                     kv_allocated_len := kv_allocated_len r - n,
                                     decode_batch_idx := decode_batch_idx r - n\<rparr>) (set_alloc a S)))))"

fun free_rolled_back :: "(ref \<times> int) list \<Rightarrow> sched \<Rightarrow> sched result" where
  "free_rolled_back [] S = Inr S"
| "free_rolled_back ((x, n) # res) S = bind_result (free_rolled_back_req x n S) (free_rolled_back res)"

definition cache_verified_req :: "env \<Rightarrow> ref \<Rightarrow> sched \<Rightarrow> sched result" where
  "cache_verified_req E x S =
     (let r = sc_store S x
      in if is_retracted r \<or> \<not> is_deterministic r \<or> completed r then Inr S
         else bind_result (check_finished E 1 r) (\<lambda>r1.
                if finished r1 then release_req x (put_req x r1 S) else Inr (put_req x r1 S)))"

fun cache_verified :: "env \<Rightarrow> ref list \<Rightarrow> sched \<Rightarrow> sched result" where
  "cache_verified E [] S = Inr S"
| "cache_verified E (x # xs) S = bind_result (cache_verified_req E x S) (cache_verified E xs)"

text \<open>Verification of the batch and what follows it.  \<open>None\<close> is a grouping loop that never ends.\<close>

definition verify_step ::
  "env \<Rightarrow> bool \<Rightarrow> (real \<Rightarrow> real) \<Rightarrow> verifier \<Rightarrow> sched \<Rightarrow> sched result option" where
  "verify_step E ed fl fwd S =
     map_option (\<lambda>v. bind_result v (\<lambda>(res, s).
         bind_result (free_rolled_back res (S\<lparr>sc_sys := s\<rparr>)) (\<lambda>S1. cache_verified E (b_reqs (s_batch s)) S1)))
       (check_and_verify_deterministic_requests ed fl fwd (sc_sys S))"

definition process_batch_result_decode ::
  "conf \<Rightarrow> env \<Rightarrow> bool \<Rightarrow> (real \<Rightarrow> real) \<Rightarrow> verifier \<Rightarrow> logits_output \<Rightarrow> token list \<Rightarrow> sched \<Rightarrow> sched result option" where
  "process_batch_result_decode C E ed fl fwd lg next_token_ids S =
     (let b = s_batch (sc_sys S);
          S0 = (set_alloc (free_group_begin (s_alloc (sc_sys S))) S)
                 \<lparr>num_generated_tokens := num_generated_tokens S + length (b_reqs b)\<rparr>
      in if b_return_logprob b \<and> next_token_logprobs lg = None then Some (Inl AttributeError) else
         case process_decode_loop C E (b_return_logprob b) lg 0 (zip (b_reqs b) next_token_ids) S0 of
           Inl e \<Rightarrow> Some (Inl e)
         | Inr S1 \<Rightarrow>
             map_option (\<lambda>v. bind_result v (\<lambda>S2.
               bind_result (stream_output_generation C E (b_return_logprob b) None False (b_reqs b) S2) (\<lambda>S3.
               bind_result (free_group_end (s_alloc (sc_sys S3))) (\<lambda>a.
                 Inr ((set_alloc a S3)\<lparr>forward_ct_decode := (forward_ct_decode S3 + 1) mod 2 ^ 30\<rparr>)))))
               (if enable_llm42 C then verify_step E ed fl fwd S1 else Some (Inr S1)))"

section \<open>Prefill results\<close>

text \<open>\<open>extend_logprob_start_len_per_req[i]\<close> and \<open>extend_input_len_per_req[i]\<close> of the batch result.\<close>

definition chunk_lens :: "py_error \<Rightarrow> int list option \<Rightarrow> int list option \<Rightarrow> nat \<Rightarrow> (int \<times> int) result" where
  "chunk_lens e starts lens i =
     (case (starts, lens) of
        (Some ss, Some ls) \<Rightarrow> bind_result (py_nth ss i) (\<lambda>s. bind_result (py_nth ls i) (\<lambda>l. Inr (s, l)))
      | _ \<Rightarrow> Inl e)"

text \<open>The log-probabilities of a finished prefill, and of a chunk; the integer is the running \<open>logprob_pt\<close>.\<close>

definition prefill_logprobs ::
  "conf \<Rightarrow> bool \<Rightarrow> logits_output \<Rightarrow> int list option \<Rightarrow> int list option \<Rightarrow> nat \<Rightarrow> token \<Rightarrow> req \<Rightarrow> int \<Rightarrow>
   (req \<times> int) result" where
  "prefill_logprobs C ret_logprob lg starts lens i t r pt =
     (if \<not> ret_logprob then Inr (r, pt)
      else bind_result (chunk_lens AssertionError starts lens i) (\<lambda>(s, l).
        (let n = calculate_num_input_logprobs (conf_scoring C) r l s
         in bind_result (if return_logprob r then add_logprob_return_values (conf_scoring C) i r pt t n lg else Inr r)
              (\<lambda>r1. Inr (r1, pt + n)))))"

definition chunk_logprobs ::
  "conf \<Rightarrow> bool \<Rightarrow> logits_output \<Rightarrow> int list option \<Rightarrow> int list option \<Rightarrow> nat \<Rightarrow> req \<Rightarrow> int \<Rightarrow> (req \<times> int) result" where
  "chunk_logprobs C ret_logprob lg starts lens i r pt =
     (if \<not> ret_logprob then Inr (r, pt)
      else bind_result (chunk_lens TypeError starts lens i) (\<lambda>(s, l).
        if s < l then
          (let n = calculate_num_input_logprobs (conf_scoring C) r l s
           in bind_result (if return_logprob r then add_input_logprob_return_values (conf_scoring C) i r lg pt n False
                           else Inr r) (\<lambda>r1. Inr (r1, pt + n)))
        else Inr (r, pt)))"

record prefill_state =
  pf_sched :: sched
  skip_stream_req :: "ref option"
  logprob_pt :: int

definition process_prefill_req ::
  "conf \<Rightarrow> env \<Rightarrow> schedule_batch \<Rightarrow> logits_output \<Rightarrow> int list option \<Rightarrow> int list option \<Rightarrow> nat \<Rightarrow> ref \<Rightarrow> token \<Rightarrow>
   prefill_state \<Rightarrow> prefill_state result" where
  "process_prefill_req C E b lg starts lens i x t P =
     (let S = pf_sched P; r = sc_store S x
      in if finished r \<or> is_retracted r then Inr P
         else if is_chunked r \<le> 0 then
           (let r1 = r\<lparr>output_ids := output_ids r @ [t]\<rparr>;
                r2 = (if is_deterministic r1 \<and> enable_llm42 C \<and> length (output_ids r1) = 1
                      then r1\<lparr>llm42_verified_tokens := 1\<rparr> else r1)
            in bind_result (check_finished E 1 r2) (\<lambda>r3.
               bind_result
                 (if finished r3 then release_req x (put_req x r3 S)
                  else if (case b_decoding_reqs b of None \<Rightarrow> True | Some ds \<Rightarrow> x \<notin> set ds)
                  then bind_result (chunk_cache_unfinished_req (s_pool (sc_sys S)) r3) (\<lambda>r4. Inr (put_req x r4 S))
                  else Inr (put_req x r3 S)) (\<lambda>S1.
               bind_result (prefill_logprobs C (b_return_logprob b) lg starts lens i t (sc_store S1 x) (logprob_pt P))
                 (\<lambda>(r5, pt).
               bind_result (accept_grammar E x t (put_req x r5 S1)) (\<lambda>S3.
                 Inr (P\<lparr>pf_sched := S3, logprob_pt := pt\<rparr>))))))
         else bind_result
                (chunk_logprobs C (b_return_logprob b) lg starts lens i (r\<lparr>is_chunked := is_chunked r - 1\<rparr>) (logprob_pt P))
                (\<lambda>(r1, pt). Inr (P\<lparr>pf_sched := put_req x r1 S, skip_stream_req := Some x, logprob_pt := pt\<rparr>)))"

fun process_prefill_loop ::
  "conf \<Rightarrow> env \<Rightarrow> schedule_batch \<Rightarrow> logits_output \<Rightarrow> int list option \<Rightarrow> int list option \<Rightarrow> nat \<Rightarrow> (ref \<times> token) list \<Rightarrow>
   prefill_state \<Rightarrow> prefill_state result" where
  "process_prefill_loop C E b lg starts lens i [] P = Inr P"
| "process_prefill_loop C E b lg starts lens i ((x, t) # xs) P =
     bind_result (process_prefill_req C E b lg starts lens i x t P)
       (process_prefill_loop C E b lg starts lens (Suc i) xs)"

definition process_batch_result_prefill ::
  "conf \<Rightarrow> env \<Rightarrow> logits_output \<Rightarrow> int list option \<Rightarrow> int list option \<Rightarrow> token list \<Rightarrow> sched \<Rightarrow> sched result" where
  "process_batch_result_prefill C E lg starts lens next_token_ids S =
     (let b = s_batch (sc_sys S)
      in bind_result
           (process_prefill_loop C E b lg starts lens 0 (zip (b_reqs b) next_token_ids)
              \<lparr>pf_sched = S, skip_stream_req = None, logprob_pt = 0\<rparr>) (\<lambda>P.
           stream_output_generation C E (b_return_logprob b) (skip_stream_req P) False (b_reqs b) (pf_sched P)))"

text \<open>An idle batch only sends the (possibly empty) message.\<close>

definition process_batch_result_idle :: "conf \<Rightarrow> env \<Rightarrow> sched \<Rightarrow> sched result" where
  "process_batch_result_idle C E S =
     (let b = s_batch (sc_sys S) in stream_output_generation C E (b_return_logprob b) None True (b_reqs b) S)"

end
