(* ===== verification/Output_Stream.thy ===== *)
theory Output_Stream
  imports Output_Processor
begin

text \<open>
  What the users of deterministic requests see.  The state changes of the output processing are split
  into the ones that touch the protocol fields of a request (its output, the verified and the sent
  counts, the finish state) and \<^emph>\<open>quiet\<close> ones; the invariant that everything sent is reference output
  is carried through each operation.
\<close>

section \<open>Quiet changes\<close>

text \<open>The fields the protocol depends on.\<close>

definition quiet :: "req \<Rightarrow> req \<Rightarrow> bool" where
  "quiet r r' \<longleftrightarrow>
     rid r' = rid r \<and> origin_input_ids r' = origin_input_ids r \<and> output_ids r' = output_ids r \<and>
     llm42_verified_tokens r' = llm42_verified_tokens r \<and> send_token_offset r' = send_token_offset r \<and>
     finished_len r' = finished_len r \<and> finished_reason r' = finished_reason r \<and>
     finished_output r' = finished_output r \<and>
     sampling_params r' = sampling_params r \<and> is_deterministic r' = is_deterministic r \<and>
     vocab_size r' = vocab_size r \<and> is_retracted r' = is_retracted r \<and> completed r' = completed r \<and>
     req_pool_idx r' = req_pool_idx r \<and> is_chunked r' = is_chunked r"

lemma quiet_refl [simp, intro]: "quiet r r"
  by (simp add: quiet_def)

lemma quiet_updates [simp]:
  "quiet r (r'\<lparr>grammar := g\<rparr>) = quiet r r'" "quiet r (r'\<lparr>to_finish := f\<rparr>) = quiet r r'"
  "quiet r (r'\<lparr>prefix_indices := p\<rparr>) = quiet r r'"
  "quiet r (r'\<lparr>output_token_logprobs_val := a\<rparr>) = quiet r r'"
  "quiet r (r'\<lparr>output_token_logprobs_idx := b\<rparr>) = quiet r r'"
  "quiet r (r'\<lparr>output_top_logprobs_val := c\<rparr>) = quiet r r'"
  "quiet r (r'\<lparr>output_top_logprobs_idx := d\<rparr>) = quiet r r'"
  "quiet r (r'\<lparr>output_token_ids_logprobs_val := c\<rparr>) = quiet r r'"
  "quiet r (r'\<lparr>output_token_ids_logprobs_idx := d\<rparr>) = quiet r r'"
  "quiet r (r'\<lparr>kv_committed_len := i\<rparr>) = quiet r r'" "quiet r (r'\<lparr>kv_allocated_len := i\<rparr>) = quiet r r'"
  "quiet r (r'\<lparr>decode_batch_idx := i\<rparr>) = quiet r r'" "quiet r (r'\<lparr>input_lp := l\<rparr>) = quiet r r'"
  by (simp_all add: quiet_def)

lemma quiet_trans [trans]: "quiet r r' \<Longrightarrow> quiet r' r'' \<Longrightarrow> quiet r r''"
  by (simp add: quiet_def)

text \<open>What all operations on requests keep of the scheduler's state; only entries of \<open>BatchTokenIDOutput\<close>
  messages count as output.\<close>

definition entries_of :: "message \<Rightarrow> token_output list" where
  "entries_of m = (case m of BatchTokenIDOutput es \<Rightarrow> es | AbortReq _ \<Rightarrow> [])"

definition streamed :: "string \<Rightarrow> message list \<Rightarrow> token list" where
  "streamed i ms = concat (map o_output_ids (filter (\<lambda>e. o_rid e = i) (concat (map entries_of ms))))"

lemma streamed_append [simp]: "streamed i (ms @ ms') = streamed i ms @ streamed i ms'"
  by (simp add: streamed_def)

lemma streamed_aborts [simp]: "streamed i (map (\<lambda>x. AbortReq (f x)) xs) = []"
  by (induction xs) (simp_all add: streamed_def entries_of_def)

lemma streamed_Nil [simp]: "streamed i [] = []"
  by (simp add: streamed_def)

definition same_frame :: "sched \<Rightarrow> sched \<Rightarrow> bool" where
  "same_frame S S' \<longleftrightarrow>
     s_worker (sc_sys S') = s_worker (sc_sys S) \<and> s_batch (sc_sys S') = s_batch (sc_sys S) \<and>
     rt_size (s_pool (sc_sys S')) = rt_size (s_pool (sc_sys S)) \<and>
     max_context_len (s_pool (sc_sys S')) = max_context_len (s_pool (sc_sys S)) \<and>
     grammar_queue S' = grammar_queue S \<and> (\<forall>i. streamed i (sent S') = streamed i (sent S))"

lemma same_frame_refl [simp, intro]: "same_frame S S"
  by (simp add: same_frame_def)

lemma same_frame_trans [trans]: "same_frame S S' \<Longrightarrow> same_frame S' S'' \<Longrightarrow> same_frame S S''"
  by (simp add: same_frame_def)

lemma set_store_simps [simp]:
  "sc_store (set_store h S) = h" "s_worker (sc_sys (set_store h S)) = s_worker (sc_sys S)"
  "s_batch (sc_sys (set_store h S)) = s_batch (sc_sys S)" "s_pool (sc_sys (set_store h S)) = s_pool (sc_sys S)"
  "s_alloc (sc_sys (set_store h S)) = s_alloc (sc_sys S)"
  "grammar_queue (set_store h S) = grammar_queue S" "sent (set_store h S) = sent S"
  by (simp_all add: set_store_def)

lemma put_req_simps [simp]:
  "sc_store (put_req x r S) = (sc_store S)(x := r)" "same_frame S (put_req x r S)"
  "s_pool (sc_sys (put_req x r S)) = s_pool (sc_sys S)" "s_alloc (sc_sys (put_req x r S)) = s_alloc (sc_sys S)"
  "grammar_queue (put_req x r S) = grammar_queue S"
  by (simp_all add: put_req_def same_frame_def)

lemma set_alloc_simps [simp]: "sc_store (set_alloc a S) = sc_store S" "same_frame S (set_alloc a S)"
  by (simp_all add: set_alloc_def same_frame_def)

lemma update_where_quiet:
  assumes "\<And>r. quiet r (f r)"
  shows "quiet (h x) (update_where P f xs h x)"
proof (induction xs arbitrary: h)
  case (Cons y ys)
  let ?h = "if P (h y) then h(y := f (h y)) else h"
  have "quiet (h x) (?h x)" using assms by simp
  also have "quiet (?h x) (update_where P f ys ?h x)" by (rule Cons.IH)
  finally show ?case by (simp add: update_where_def)
qed (simp add: update_where_def)

lemma update_where_other: "x \<notin> set xs \<Longrightarrow> update_where P f xs h x = h x"
  by (induction xs arbitrary: h) (auto simp: update_where_def)

lemma abort_request_quiet:
  assumes "x \<notin> set (grammar_queue S)"
  shows "quiet (sc_store S x) (sc_store (abort_request b i S) x)"
proof -
  let ?f = "\<lambda>r. r\<lparr>to_finish := Some (make_abort None None None)\<rparr>"
  let ?h = "update_where (abort_matches b i) (set_finish_with_abort ''Aborted by AbortReq.'') (grammar_queue S) (sc_store S)"
  have f: "\<And>r. quiet r (?f r)" by simp
  have "?h x = sc_store S x" by (rule update_where_other [OF assms])
  moreover have "quiet (?h x) (update_where (\<lambda>r. \<not> finished r \<and> abort_matches b i r) ?f
      (running_reqs S @ (case cur_reqs S of None \<Rightarrow> [] | Some xs \<Rightarrow> xs)) ?h x)"
    by (rule update_where_quiet [OF f])
  ultimately show ?thesis by (simp add: abort_request_def Let_def)
qed

lemma abort_request_frame: "same_frame S (abort_request b i S)"
  by (simp add: abort_request_def Let_def same_frame_def)

text \<open>The two ways through \<open>accept_grammar\<close> that change something.\<close>

lemma accept_grammar_cases:
  assumes "accept_grammar E y t S = Inr S'"
  shows "S' = S \<or> (\<exists>T g g'. S' = put_req y ((sc_store T y)\<lparr>grammar := g\<rparr>) T \<and>
      (T = put_req y ((sc_store S y)\<lparr>grammar := g'\<rparr>) S \<or> T = abort_request False (rid (sc_store S y)) S))"
proof (cases "grammar (sc_store S y)")
  case None
  then show ?thesis using assms by (simp add: accept_grammar_def)
next
  case (Some g)
  show ?thesis
  proof (cases "gr_accept E t g")
    case (Inl e)
    let ?T = "abort_request False (rid (sc_store S y)) S"
    obtain g1 where "S' = put_req y ((sc_store ?T y)\<lparr>grammar := g1\<rparr>) ?T"
      using assms Some Inl by (auto simp: accept_grammar_def split: option.splits if_splits)
    then show ?thesis by blast
  next
    case (Inr g1)
    let ?T = "put_req y ((sc_store S y)\<lparr>grammar := Some g1\<rparr>) S"
    obtain g2 where "S' = put_req y ((sc_store ?T y)\<lparr>grammar := g2\<rparr>) ?T"
      using assms Some Inr by (auto simp: accept_grammar_def)
    then show ?thesis by blast
  qed
qed

lemma put_req_quiet: "quiet (sc_store S y) r \<Longrightarrow> quiet (sc_store S x) (sc_store (put_req y r S) x)"
  by simp

lemma accept_grammar_quiet:
  assumes "accept_grammar E y t S = Inr S'" "x \<notin> set (grammar_queue S)"
  shows "quiet (sc_store S x) (sc_store S' x)"
  using accept_grammar_cases [OF assms(1)]
proof (elim disjE exE conjE)
  fix T g g'
  assume S': "S' = put_req y ((sc_store T y)\<lparr>grammar := g\<rparr>) T"
  have step: "quiet (sc_store T x) (sc_store (put_req y ((sc_store T y)\<lparr>grammar := g\<rparr>) T) x)" for T g
    by (rule put_req_quiet) simp
  {
    assume T: "T = put_req y ((sc_store S y)\<lparr>grammar := g'\<rparr>) S"
    show ?thesis unfolding S' T by (rule quiet_trans [OF step step])
  next
    assume T: "T = abort_request False (rid (sc_store S y)) S"
    show ?thesis unfolding S' T by (rule quiet_trans [OF abort_request_quiet [OF assms(2)] step])
  }
qed simp

lemma accept_grammar_frame:
  assumes "accept_grammar E y t S = Inr S'"
  shows "same_frame S S'"
  using accept_grammar_cases [OF assms]
proof (elim disjE exE conjE)
  fix T g g'
  assume S': "S' = put_req y ((sc_store T y)\<lparr>grammar := g\<rparr>) T"
  {
    assume T: "T = put_req y ((sc_store S y)\<lparr>grammar := g'\<rparr>) S"
    show ?thesis unfolding S' T by (rule same_frame_trans [OF put_req_simps(2) put_req_simps(2)])
  next
    assume T: "T = abort_request False (rid (sc_store S y)) S"
    show ?thesis unfolding S' T by (rule same_frame_trans [OF abort_request_frame put_req_simps(2)])
  }
qed simp

lemma append_token_logprob_quiet: "append_token_logprob lg i t r = Inr r' \<Longrightarrow> quiet r r'"
  by (cases "next_token_logprobs lg") (clarsimp simp: append_token_logprob_def)+

lemma append_top_logprobs_quiet: "append_top_logprobs lg i r = Inr r' \<Longrightarrow> quiet r r'"
  by (cases "0 < top_logprobs_num r") (clarsimp simp: append_top_logprobs_def)+

lemma append_token_ids_logprobs_quiet: "append_token_ids_logprobs lg i r = Inr r' \<Longrightarrow> quiet r r'"
  by (cases "token_ids_logprob r"; cases "next_token_token_ids_logprobs_val lg")
    (clarsimp simp: append_token_ids_logprobs_def)+

lemmas append_logprobs_quiet = append_token_logprob_quiet append_top_logprobs_quiet append_token_ids_logprobs_quiet

lemma append_output_logprobs_quiet:
  assumes "append_output_logprobs lg i t r = Inr r'"
  shows "quiet r r'"
proof -
  obtain r1 r2 where "append_token_logprob lg i t r = Inr r1" "append_top_logprobs lg i r1 = Inr r2"
    "append_token_ids_logprobs lg i r2 = Inr r'" using assms by (auto simp: append_output_logprobs_def)
  then show ?thesis using append_logprobs_quiet quiet_trans by metis
qed

lemma add_logprob_return_values_quiet:
  assumes "add_logprob_return_values M i r pt t n lg = Inr r'"
  shows "quiet r r'"
proof -
  obtain r1 r2 r3 where s:
    "(if next_token_logprobs lg \<noteq> None then append_token_logprob lg i t r else Inr r) = Inr r1"
    "(if 0 < n then add_input_logprob_return_values M i r1 lg pt n True
      else Inr (initialize_empty_logprob_containers r1)) = Inr r2"
    "append_top_logprobs lg i r2 = Inr r3"
    "(if next_token_token_ids_logprobs_val lg \<noteq> None then append_token_ids_logprobs lg i r3 else Inr r3) = Inr r'"
    using assms by (auto simp: add_logprob_return_values_def simp del: not_None_eq)
  have "quiet r r1" using s(1) append_logprobs_quiet(1) [of lg i t r r1] by (simp split: if_splits)
  moreover have "quiet r1 r2"
    using s(2) add_input_logprobs_frame [of M i r1 lg pt n True r2]
    by (auto simp: initialize_empty_logprob_containers_def Let_def split: if_splits)
  moreover have "quiet r2 r3" by (rule append_logprobs_quiet(2) [OF s(3)])
  moreover have "quiet r3 r'" using s(4) append_logprobs_quiet(3) [of lg i r3 r'] by (simp split: if_splits)
  ultimately show ?thesis using quiet_trans by metis
qed

lemma release_req_other: "release_req y S = Inr S' \<Longrightarrow> x \<noteq> y \<Longrightarrow> sc_store S' x = sc_store S x"
  by (auto simp: release_req_def put_req_def set_store_def)

section \<open>The finish check\<close>

text \<open>What \<open>check_finished\<close> may change: the finish state, and the last output token when it is not in the
  vocabulary.\<close>

definition finish_step :: "req \<Rightarrow> req \<Rightarrow> bool" where
  "finish_step r r' \<longleftrightarrow>
     (\<exists>outs f n tf. r' = r\<lparr>output_ids := outs, finished_reason := f, finished_len := n, to_finish := tf\<rparr> \<and>
        length outs = length (output_ids r) \<and> butlast outs = butlast (output_ids r) \<and>
        (outs = output_ids r \<or>
           output_ids r \<noteq> [] \<and> (\<exists>v. vocab_size r = Some v \<and> (v < last (output_ids r) \<or> last (output_ids r) < 0))) \<and>
        (n = finished_len r \<or> n = Some (int (length outs)) \<or>
           (\<exists>m. max_new_tokens (sampling_params r) = Some m \<and> n = Some m \<and> m \<le> int (length outs))) \<and>
        (\<forall>m. max_new_tokens (sampling_params r) = Some m \<longrightarrow> finished_reason r = None \<longrightarrow>
           f \<noteq> None \<or> int (length outs) < m) \<and>
        (finished_reason r \<noteq> None \<longrightarrow> f = finished_reason r))"

lemma finish_step_same:
  "(\<And>m. max_new_tokens (sampling_params r) = Some m \<Longrightarrow> finished_reason r = None \<Longrightarrow> int (length (output_ids r)) < m)
   \<Longrightarrow> finish_step r r"
  unfolding finish_step_def
  by (intro exI [of _ "output_ids r"] exI [of _ "finished_reason r"] exI [of _ "finished_len r"] exI [of _ "to_finish r"]) simp

lemma finish_step_reason:
  assumes "finished_reason r = None"
    "n = finished_len r \<or> n = Some (int (length (output_ids r))) \<or>
       (\<exists>m. max_new_tokens (sampling_params r) = Some m \<and> n = Some m \<and> m \<le> int (length (output_ids r)))"
  shows "finish_step r (r\<lparr>finished_reason := Some f, finished_len := n, to_finish := tf\<rparr>)"
  unfolding finish_step_def
  by (intro exI [of _ "output_ids r"] exI [of _ "Some f"] exI [of _ n] exI [of _ tf]) (use assms in simp)

lemma last_n_one: "last_n xs (Suc 0) = (if xs = [] then [] else [last xs])"
  by (cases xs rule: rev_cases) (simp_all add: last_n_def)

lemma token_finish_step:
  assumes "check_token_based_finish E (last_n (output_ids r) (Suc 0)) r = Some r'" "finished_reason r = None"
  shows "finish_step r r'"
proof -
  have o: "output_ids r \<noteq> []" "r' = r\<lparr>finished_reason := Some (FINISH_MATCHED_TOKEN (last (output_ids r))),
      finished_len := Some (int (length (output_ids r)))\<rparr>"
    using assms(1) by (auto simp: check_token_based_finish_def last_n_one split: if_splits)
  have "r' = r\<lparr>finished_reason := Some (FINISH_MATCHED_TOKEN (last (output_ids r))),
      finished_len := Some (int (length (output_ids r))), to_finish := to_finish r\<rparr>"
    by (simp add: o(2))
  also have "finish_step r \<dots>" by (rule finish_step_reason) (simp_all add: assms(2))
  finally show ?thesis .
qed

lemma vocab_finish_step:
  assumes "check_vocab_boundary_finish E (last_n (output_ids r) (Suc 0)) r = Inr (Some r')" "finished_reason r = None"
  shows "finish_step r r'"
proof -
  let ?n = "length (output_ids r)"
  obtain v where o: "output_ids r \<noteq> []" "vocab_size r = Some v" "v < last (output_ids r) \<or> last (output_ids r) < 0"
    and r': "r' = r\<lparr>output_ids := (output_ids r)[?n - 1 := replace_bad_token E r (last (output_ids r))],
        finished_reason := Some (FINISH_MATCHED_STR ''NaN happened''), finished_len := Some (int (?n - 1) + 1)\<rparr>"
    using assms(1) by (auto simp: check_vocab_boundary_finish_def last_n_one Let_def split: if_splits option.splits)
  have "butlast ((output_ids r)[?n - 1 := t]) = butlast (output_ids r)" for t
    by (simp add: butlast_list_update)
  moreover have "int (?n - 1) + 1 = int ?n" using o(1) by (cases "output_ids r") simp_all
  ultimately show ?thesis
    unfolding finish_step_def r'
    by (intro exI [of _ "(output_ids r)[?n - 1 := replace_bad_token E r (last (output_ids r))]"]
        exI [of _ "Some (FINISH_MATCHED_STR ''NaN happened'')"] exI [of _ "Some (int ?n)"] exI [of _ "to_finish r"])
      (use o assms(2) in simp)
qed

lemma str_finish_step:
  assumes "check_str_based_finish E r = Inr (Some r')" "finished_reason r = None"
  shows "finish_step r r'"
proof -
  obtain f where "r' = r\<lparr>finished_reason := Some f\<rparr>"
    using assms(1) by (auto simp: check_str_based_finish_def split: if_splits option.splits)
  then have "r' = r\<lparr>finished_reason := Some f, finished_len := finished_len r, to_finish := to_finish r\<rparr>" by simp
  also have "finish_step r \<dots>" by (rule finish_step_reason) (simp_all add: assms(2))
  finally show ?thesis .
qed

lemma check_finished_cases:
  assumes "check_finished E 1 r = Inr r'" "finished_reason r = None" "to_finish r = None"
    and "max_new_tokens (sampling_params r) = Some m" "int (length (output_ids r)) < m"
  shows "(\<exists>f. r' = r\<lparr>finished_reason := Some f\<rparr>) \<or>
     check_token_based_finish E (last_n (output_ids r) (Suc 0)) r = Some r' \<or>
     check_vocab_boundary_finish E (last_n (output_ids r) (Suc 0)) r = Inr (Some r') \<or>
     check_str_based_finish E r = Inr (Some r') \<or> r' = r"
proof (cases "case grammar r of Some g \<Rightarrow> gr_terminated E g | None \<Rightarrow> False")
  case True
  then show ?thesis using assms by (auto simp: check_finished_def finished_def split: if_splits)
next
  case False
  let ?new = "last_n (output_ids r) (Suc 0)"
  have eq: "(case check_token_based_finish E ?new r of Some r' \<Rightarrow> Inr r'
      | None \<Rightarrow> bind_result (check_vocab_boundary_finish E ?new r) (\<lambda>v.
          case v of Some r' \<Rightarrow> Inr r'
          | None \<Rightarrow> bind_result (check_str_based_finish E r) (\<lambda>s. case s of Some r' \<Rightarrow> Inr r' | None \<Rightarrow> Inr r))) = Inr r'"
    using assms False by (simp add: check_finished_def finished_def Let_def)
  show ?thesis
  proof (cases "check_token_based_finish E ?new r")
    case None
    note tok = None
    then obtain v where v: "check_vocab_boundary_finish E ?new r = Inr v" using eq by auto
    show ?thesis
    proof (cases v)
      case None
      then obtain s where "check_str_based_finish E r = Inr s" using eq tok v by auto
      then show ?thesis using eq tok v None by (cases s) simp_all
    qed (use eq tok v in simp)
  qed (use eq in simp)
qed

lemma check_finished_step:
  assumes "check_finished E 1 r = Inr r'"
  shows "finish_step r r'"
proof (cases "finished_reason r")
  case None
  note r = None
  show ?thesis
  proof (cases "to_finish r")
    case (Some f)
    have "r' = r\<lparr>finished_reason := Some f, finished_len := finished_len r, to_finish := None\<rparr>"
      using assms r Some by (simp add: check_finished_def finished_def)
    also have "finish_step r \<dots>" by (rule finish_step_reason) (simp_all add: r)
    finally show ?thesis .
  next
    case None
    note tf = None
    obtain m where m: "max_new_tokens (sampling_params r) = Some m"
      using assms r tf by (auto simp: check_finished_def finished_def split: option.splits)
    show ?thesis
    proof (cases "m \<le> int (length (output_ids r))")
      case True
      have "r' = r\<lparr>finished_reason := Some (FINISH_LENGTH m), finished_len := Some m, to_finish := to_finish r\<rparr>"
        using assms r tf m True by (auto simp: check_finished_def finished_def)
      also have "finish_step r \<dots>" by (rule finish_step_reason) (use r m True in simp_all)
      finally show ?thesis .
    next
      case False
      then have lt: "\<And>m'. max_new_tokens (sampling_params r) = Some m' \<Longrightarrow> int (length (output_ids r)) < m'"
        using m by simp
      from check_finished_cases [OF assms r tf m lt [OF m]] show ?thesis
      proof (elim disjE exE)
        fix f assume "r' = r\<lparr>finished_reason := Some f\<rparr>"
        then have "r' = r\<lparr>finished_reason := Some f, finished_len := finished_len r, to_finish := to_finish r\<rparr>" by simp
        also have "finish_step r \<dots>" by (rule finish_step_reason) (simp_all add: r)
        finally show ?thesis .
      next
        assume "r' = r"
        moreover have "finish_step r r" by (rule finish_step_same) (rule lt)
        ultimately show ?thesis by simp
      qed (rule token_finish_step [OF _ r] vocab_finish_step [OF _ r] str_finish_step [OF _ r], assumption)+
    qed
  qed
next
  case (Some f)
  then have "r' = r" using assms by (simp add: check_finished_def finished_def)
  moreover have "finish_step r r" by (rule finish_step_same) (simp add: Some)
  ultimately show ?thesis by simp
qed

section \<open>The invariant of a deterministic request\<close>

text \<open>The verified tokens are reference output, what has been sent is verified, a recorded finish position
  never lies before what has been sent, the output stays within the limit, and the reference stays
  within the vocabulary.\<close>

definition tracked :: "(token list \<Rightarrow> token) \<Rightarrow> req \<Rightarrow> bool" where
  "tracked ref r \<longleftrightarrow>
     is_deterministic r \<and> sp_is_deterministic (sampling_params r) \<and> ref_ok ref r \<and>
     send_token_offset r \<le> llm42_verified_tokens r \<and>
     (\<exists>m. max_new_tokens (sampling_params r) = Some m \<and> 1 \<le> m \<and> int (length (output_ids r)) \<le> m) \<and>
     (\<forall>n. finished_len r = Some n \<longrightarrow> int (send_token_offset r) \<le> n) \<and>
     (\<exists>v. vocab_size r = Some v \<and> (\<forall>xs. 0 \<le> ref xs \<and> ref xs \<le> v))"

text \<open>There is room for another token.\<close>

definition has_room :: "req \<Rightarrow> bool" where
  "has_room r \<longleftrightarrow>
     (\<exists>m. max_new_tokens (sampling_params r) = Some m \<and> int (length (output_ids r)) < m)"

lemma tracked_quiet: "quiet r r' \<Longrightarrow> tracked ref r' \<longleftrightarrow> tracked ref r"
  by (simp add: quiet_def tracked_def ref_ok_def)

lemma tracked_append:
  assumes "tracked ref r" "has_room r"
  shows "tracked ref (r\<lparr>output_ids := output_ids r @ [t]\<rparr>)"
  using assms by (auto simp: tracked_def has_room_def ref_ok_def)

lemma take_butlast_eq: "butlast xs = butlast ys \<Longrightarrow> length xs = length ys \<Longrightarrow> n < length xs \<Longrightarrow> take n xs = take n ys"
  using take_butlast [of n xs] take_butlast [of n ys] by simp

lemma ref_ok_last:
  assumes "ref_ok ref r" "llm42_verified_tokens r = length (output_ids r)" "output_ids r \<noteq> []"
  shows "\<exists>xs. last (output_ids r) = ref xs"
proof -
  obtain n where n: "length (output_ids r) = Suc n" using assms(3) by (cases "output_ids r") auto
  have "output_ids r = ref_gen ref (origin_input_ids r) (Suc n)"
    using assms(1,2) n by (simp add: ref_ok_def)
  then show ?thesis by (metis last_snoc ref_gen.simps(2))
qed

lemma tracked_finish_step:
  assumes t: "tracked ref r" and f: "finish_step r r'"
  shows "tracked ref r'" "finished_reason r = None \<Longrightarrow> finished_reason r' \<noteq> None \<or> has_room r'"
proof -
  from f obtain outs fr n tf where r': "r' = r\<lparr>output_ids := outs, finished_reason := fr, finished_len := n, to_finish := tf\<rparr>"
    and len: "length outs = length (output_ids r)" and bl: "butlast outs = butlast (output_ids r)"
    and voc: "outs = output_ids r \<or>
           output_ids r \<noteq> [] \<and> (\<exists>v. vocab_size r = Some v \<and> (v < last (output_ids r) \<or> last (output_ids r) < 0))"
    and n: "n = finished_len r \<or> n = Some (int (length outs)) \<or>
           (\<exists>m. max_new_tokens (sampling_params r) = Some m \<and> n = Some m \<and> m \<le> int (length outs))"
    and room: "\<forall>m. max_new_tokens (sampling_params r) = Some m \<longrightarrow> finished_reason r = None \<longrightarrow>
           fr \<noteq> None \<or> int (length outs) < m"
    unfolding finish_step_def by (elim exE conjE)
  have ok: "ref_ok ref r" and send: "send_token_offset r \<le> llm42_verified_tokens r"
    and ver: "llm42_verified_tokens r \<le> length (output_ids r)"
    using t by (simp_all add: tracked_def ref_ok_def)
  obtain m where m: "max_new_tokens (sampling_params r) = Some m" "int (length (output_ids r)) \<le> m"
    using t by (auto simp: tracked_def)
  have "take (llm42_verified_tokens r) outs = take (llm42_verified_tokens r) (output_ids r)"
  proof (cases "outs = output_ids r")
    case False
    then obtain v where o: "output_ids r \<noteq> []" "vocab_size r = Some v" "v < last (output_ids r) \<or> last (output_ids r) < 0"
      using voc by blast
    have "\<And>xs. 0 \<le> ref xs \<and> ref xs \<le> v" using t o(2) by (auto simp: tracked_def)
    then have "last (output_ids r) \<noteq> ref xs" for xs using o(3) by (metis leD)
    then have "llm42_verified_tokens r \<noteq> length (output_ids r)"
      using ref_ok_last [OF ok _ o(1)] by blast
    then show ?thesis using ver len bl by (intro take_butlast_eq) simp_all
  qed simp
  then have "ref_ok ref r'" using ok len by (simp add: ref_ok_def r')
  moreover have "\<forall>k. n = Some k \<longrightarrow> int (send_token_offset r) \<le> k"
    using n t m len send ver by (auto simp: tracked_def)
  ultimately show "tracked ref r'" using t len by (auto simp: tracked_def r')
  show "finished_reason r' \<noteq> None \<or> has_room r'" if "finished_reason r = None"
    using room m(1) that len by (auto simp: r' has_room_def)
qed

lemma tracked_pass_step:
  assumes t: "tracked ref r" and p: "pass_step ref r r'"
  shows "tracked ref r'"
proof -
  have "pass_frame r r'" "ref_ok ref r'" "length (output_ids r') \<le> length (output_ids r)"
    "llm42_verified_tokens r < llm42_verified_tokens r'"
    using t p by (simp_all add: pass_step_def tracked_def)
  note f = this
  obtain m where "max_new_tokens (sampling_params r) = Some m" "1 \<le> m" "int (length (output_ids r)) \<le> m"
    using t by (auto simp: tracked_def)
  with f(3) have "\<exists>m. max_new_tokens (sampling_params r) = Some m \<and> 1 \<le> m \<and> int (length (output_ids r')) \<le> m"
    by (intro exI [of _ m]) simp
  moreover have "send_token_offset r \<le> llm42_verified_tokens r'" using t f(4) by (simp add: tracked_def)
  ultimately show ?thesis
    using t f(2) by (simp add: tracked_def pass_frame_fields [OF f(1)])
qed

section \<open>Streaming\<close>

text \<open>The step of one request from \<open>r\<close> to \<open>r'\<close> that sends the entries \<open>es\<close>: it sends the reference output
  between the two offsets.\<close>

definition stream_step :: "(token list \<Rightarrow> token) \<Rightarrow> req \<Rightarrow> token_output list \<Rightarrow> req \<Rightarrow> bool" where
  "stream_step ref r es r' \<longleftrightarrow>
     tracked ref r' \<and> rid r' = rid r \<and> origin_input_ids r' = origin_input_ids r \<and>
     output_ids r' = output_ids r \<and> llm42_verified_tokens r' = llm42_verified_tokens r \<and>
     finished_reason r' = finished_reason r \<and> sampling_params r' = sampling_params r \<and>
     is_retracted r' = is_retracted r \<and> completed r' = completed r \<and> req_pool_idx r' = req_pool_idx r \<and>
     (\<forall>e \<in> set es. o_rid e = rid r) \<and>
     ref_gen ref (origin_input_ids r) (send_token_offset r') =
       ref_gen ref (origin_input_ids r) (send_token_offset r) @ concat (map o_output_ids es)"

lemma stream_step_refl: "tracked ref r \<Longrightarrow> stream_step ref r [] r"
  by (simp add: stream_step_def)

lemma detokenize_frame:
  "\<exists>a b c d. snd (init_incremental_detokenize nv r) =
     r\<lparr>read_offset := a, surr_offset := b, surr_and_decode_ids := c, cur_decode_ids_len := d\<rparr>"
proof -
  have "snd (init_incremental_detokenize nv r) =
      r\<lparr>read_offset := read_offset (snd (init_incremental_detokenize nv r)),
        surr_offset := surr_offset (snd (init_incremental_detokenize nv r)),
        surr_and_decode_ids := surr_and_decode_ids (snd (init_incremental_detokenize nv r)),
        cur_decode_ids_len := cur_decode_ids_len (snd (init_incremental_detokenize nv r))\<rparr>"
    by (simp add: init_incremental_detokenize_def Let_def)
  then show ?thesis by (intro exI)
qed

text \<open>What a tracked request that has something to send shows.\<close>

lemma output_through_stop:
  assumes "tracked ref r"
  shows "\<exists>k. output_ids_through_stop r = take k (output_ids r) \<and> send_token_offset r \<le> k"
proof (cases "finished_len r")
  case None
  then show ?thesis using assms by (intro exI [of _ "length (output_ids r)"])
      (simp add: output_ids_through_stop_def tracked_def ref_ok_def)
next
  case (Some n)
  then have "int (send_token_offset r) \<le> n" using assms by (simp add: tracked_def)
  then show ?thesis using Some
    by (intro exI [of _ "nat n"]) (simp add: output_ids_through_stop_def take_int_def)
qed

lemma stream_entry_step:
  assumes t: "tracked ref r" and nv: "needs_verify C r"
    and fin: "finished r \<Longrightarrow> llm42_verified_tokens r = length (output_ids r)"
    and e: "stream_entry C r = (out, r')"
  shows "stream_step ref r [out] r'"
proof -
  obtain ids ro r1 where d: "init_incremental_detokenize True r = ((ids, ro), r1)" by (metis surj_pair)
  from detokenize_frame [of True r] obtain a b c dl where
    r1: "r1 = r\<lparr>read_offset := a, surr_offset := b, surr_and_decode_ids := c, cur_decode_ids_len := dl\<rparr>"
    by (auto simp: d)
  obtain k where k: "output_ids_through_stop r = take k (output_ids r)" "send_token_offset r \<le> k"
    using output_through_stop [OF t] by blast
  have k1: "output_ids_through_stop r1 = take k (output_ids r)"
    using k(1) by (simp add: output_ids_through_stop_def r1 split: option.splits)
  let ?v = "llm42_verified_tokens r" and ?outs = "take k (output_ids r)"
  let ?upto = "if finished r then length ?outs else min (length ?outs) ?v"
  have ver: "?v \<le> length (output_ids r)" "send_token_offset r \<le> ?v"
    and take: "take ?v (output_ids r) = ref_gen ref (origin_input_ids r) ?v"
    using t by (simp_all add: tracked_def ref_ok_def)
  have up: "?upto \<le> ?v" "send_token_offset r \<le> ?upto" "?upto \<le> length ?outs" using fin ver k(2) by auto
  have r': "r' = r1\<lparr>send_decode_id_offset := length ids, send_token_offset := ?upto\<rparr>"
    and out: "o_rid out = rid r" "o_output_ids out = slice ?outs (send_token_offset r) ?upto"
    using e nv d k1 by (auto simp: stream_entry_def Let_def finished_def r1)
  have "ref_gen ref (origin_input_ids r) ?upto = take ?upto ?outs"
  proof -
    have "take ?upto (take ?v (output_ids r)) = take ?upto (output_ids r)" using up(1) by (simp only: take_take min.absorb1)
    moreover have "take ?upto ?outs = take ?upto (output_ids r)" using up(3) by (simp only: take_take length_take min.absorb1 min.bounded_iff)
    ultimately show ?thesis using take_ref_gen [OF up(1), of ref "origin_input_ids r"] take by simp
  qed
  also have "\<dots> = take (send_token_offset r) ?outs @ slice ?outs (send_token_offset r) ?upto"
    by (rule take_append_slice [OF up(2), symmetric])
  also have "take (send_token_offset r) ?outs = ref_gen ref (origin_input_ids r) (send_token_offset r)"
    using take_ref_gen [OF ver(2), of ref "origin_input_ids r"] take k(2) ver(2)
    by (metis min.absorb1 take_take)
  finally have g: "ref_gen ref (origin_input_ids r) ?upto =
      ref_gen ref (origin_input_ids r) (send_token_offset r) @ o_output_ids out" by (simp only: out)
  have "\<forall>n. finished_len r = Some n \<longrightarrow> int ?upto \<le> n"
  proof (intro allI impI)
    fix n assume n: "finished_len r = Some n"
    then have "0 \<le> n" using t by (auto simp: tracked_def)
    then have "take (nat n) (output_ids r) = ?outs" using n k(1) by (simp add: output_ids_through_stop_def take_int_def)
    then have "length ?outs \<le> nat n" by (metis length_take min.cobounded2)
    then show "int ?upto \<le> n" using up(3) \<open>0 \<le> n\<close> by linarith
  qed
  then have "tracked ref r'" using t up(1) by (simp add: tracked_def r' r1 ref_ok_def)
  with g out show ?thesis by (simp add: stream_step_def r' r1)
qed

lemma stream_input_logprobs_frame:
  assumes "stream_input_logprobs out r = (out', r')"
  shows "\<exists>l. r' = r\<lparr>input_lp := l\<rparr>" "o_rid out' = o_rid out" "o_output_ids out' = o_output_ids out"
proof -
  have "(\<exists>l. r' = r\<lparr>input_lp := l\<rparr>) \<and> o_rid out' = o_rid out \<and> o_output_ids out' = o_output_ids out"
  proof (cases "return_logprob r \<and> \<not> input_logprob_sent (input_lp r)")
    case True
    then have "r' = r\<lparr>input_lp := (input_lp r)\<lparr>input_logprob_sent := True\<rparr>\<rparr>" "o_rid out' = o_rid out"
      "o_output_ids out' = o_output_ids out"
      using assms by (clarsimp simp: stream_input_logprobs_def Let_def)+
    then show ?thesis by blast
  next
    case False
    then have "stream_input_logprobs out r = (out, r)" by (simp only: stream_input_logprobs_def Let_def if_False)
    then have "r' = r" "out' = out" using assms by simp_all
    then show ?thesis by (intro conjI exI [of _ "input_lp r"]) simp_all
  qed
  then show "\<exists>l. r' = r\<lparr>input_lp := l\<rparr>" "o_rid out' = o_rid out" "o_output_ids out' = o_output_ids out" by blast+
qed

lemma stream_output_logprobs_frame:
  assumes "stream_output_logprobs out r = Inr (out', r')"
  shows "\<exists>n. r' = r\<lparr>send_output_token_logprobs_offset := n\<rparr>" "o_rid out' = o_rid out"
    "o_output_ids out' = o_output_ids out"
proof -
  have "(\<exists>n. r' = r\<lparr>send_output_token_logprobs_offset := n\<rparr>) \<and> o_rid out' = o_rid out \<and>
    o_output_ids out' = o_output_ids out"
  proof (cases "return_logprob r")
    case True
    then have "r' = r\<lparr>send_output_token_logprobs_offset := length (the (output_token_logprobs_val r))\<rparr>"
      "o_rid out' = o_rid out" "o_output_ids out' = o_output_ids out"
      using assms by (clarsimp simp: stream_output_logprobs_def Let_def)+
    then show ?thesis by blast
  next
    case False
    then have "r' = r" "out' = out" using assms by (simp_all add: stream_output_logprobs_def Let_def)
    then show ?thesis by (intro conjI exI [of _ "send_output_token_logprobs_offset r"]) simp_all
  qed
  then show "\<exists>n. r' = r\<lparr>send_output_token_logprobs_offset := n\<rparr>" "o_rid out' = o_rid out"
    "o_output_ids out' = o_output_ids out" by blast+
qed

lemma stream_logprobs_frame:
  assumes "stream_logprobs out r = Inr (out', r')"
  obtains l n where "r' = r\<lparr>input_lp := l, send_output_token_logprobs_offset := n\<rparr>" "o_rid out' = o_rid out"
    "o_output_ids out' = o_output_ids out"
proof -
  obtain out1 r1 where s: "stream_input_logprobs out r = (out1, r1)" by fastforce
  then have s2: "stream_output_logprobs out1 r1 = Inr (out', r')" using assms by (simp add: stream_logprobs_def)
  show ?thesis using that stream_input_logprobs_frame [OF s] stream_output_logprobs_frame [OF s2] by auto
qed

lemma stream_logprobs_step:
  assumes "stream_logprobs out r = Inr (out', r')" "tracked ref r"
  shows "o_rid out' = o_rid out" "o_output_ids out' = o_output_ids out" "stream_step ref r [] r'"
    "send_token_offset r' = send_token_offset r"
proof -
  obtain l n where r': "r' = r\<lparr>input_lp := l, send_output_token_logprobs_offset := n\<rparr>"
    and o: "o_rid out' = o_rid out" "o_output_ids out' = o_output_ids out"
    by (rule stream_logprobs_frame [OF assms(1)])
  show "o_rid out' = o_rid out" "o_output_ids out' = o_output_ids out" by (rule o)+
  show "stream_step ref r [] r'" "send_token_offset r' = send_token_offset r"
    using assms(2) by (simp_all add: r' stream_step_def tracked_def ref_ok_def)
qed

lemma should_output_cases:
  assumes "should_output C E r = Inr (b, r1)" "needs_verify C r" "llm42_verified_tokens r \<le> length (output_ids r)"
  shows "r1 = r \<or> (\<exists>fl. r1 = r\<lparr>finished_output := True, finished_len := fl\<rparr> \<and>
      (fl = finished_len r \<or> fl = Some (int (length (output_ids r)))))" (is ?A)
    and "b \<Longrightarrow> finished r \<Longrightarrow> llm42_verified_tokens r = length (output_ids r)"
proof -
  have f: "r1 = r \<and> \<not> b \<or> llm42_verified_tokens r = length (output_ids r) \<and>
      (\<exists>fl. r1 = r\<lparr>finished_output := True, finished_len := fl\<rparr> \<and>
        (fl = finished_len r \<or> fl = Some (int (length (output_ids r)))))" if "finished r"
  proof (cases "finished_output r \<or> llm42_verified_tokens r < length (output_ids r)")
    case True
    then have "should_output C E r = Inr (False, r)" using that assms(2) by (auto simp: should_output_def)
    then show ?thesis using assms(1) by simp
  next
    case False
    let ?fl = "case finished_len r of None \<Rightarrow> Some (int (length (output_ids r))) | Some n \<Rightarrow> Some n"
    have "should_output C E r = Inr (True, r\<lparr>finished_output := True, finished_len := ?fl\<rparr>)"
      using False that by (simp add: should_output_def)
    then have "r1 = r\<lparr>finished_output := True, finished_len := ?fl\<rparr>" using assms(1) by simp
    moreover have "?fl = finished_len r \<or> ?fl = Some (int (length (output_ids r)))" by (cases "finished_len r") simp_all
    ultimately show ?thesis using False assms(3) by (metis le_antisym linorder_not_less)
  qed
  have "r1 = r" if nf: "\<not> finished r"
  proof (cases "send_token_offset r < llm42_verified_tokens r \<and> stream r")
    case True
    then have "should_output C E r =
        bind_result (stream_due (interval C r) (llm42_verified_tokens r)) (\<lambda>b. Inr (b, r))"
      using nf assms(2) by (simp add: should_output_def)
    then show ?thesis
      using assms(1) by (cases "stream_due (interval C r) (llm42_verified_tokens r)") simp_all
  next
    case False
    then have "should_output C E r = Inr (False, r)" using nf assms(2) by (auto simp: should_output_def)
    then show ?thesis using assms(1) by simp
  qed
  with f show ?A by blast
  show "b \<Longrightarrow> finished r \<Longrightarrow> llm42_verified_tokens r = length (output_ids r)" using f by blast
qed

lemma should_output_step:
  assumes so: "should_output C E r = Inr (b, r1)" and nv: "needs_verify C r" and t: "tracked ref r"
  shows "stream_step ref r [] r1" "send_token_offset r1 = send_token_offset r" "needs_verify C r1"
    "b \<Longrightarrow> finished r1 \<Longrightarrow> llm42_verified_tokens r1 = length (output_ids r1)"
proof -
  have ver: "send_token_offset r \<le> length (output_ids r)" "llm42_verified_tokens r \<le> length (output_ids r)"
    using t by (auto simp: tracked_def ref_ok_def)
  note c = should_output_cases [OF so nv ver(2)]
  obtain fo fl where r1: "r1 = r\<lparr>finished_output := fo, finished_len := fl\<rparr>"
    and fl: "fl = finished_len r \<or> fl = Some (int (length (output_ids r)))"
  proof (cases "r1 = r")
    case True
    then have "r1 = r\<lparr>finished_output := finished_output r, finished_len := finished_len r\<rparr>" by simp
    then show ?thesis using that by blast
  qed (use c(1) that in blast)
  have "\<forall>n. fl = Some n \<longrightarrow> int (send_token_offset r) \<le> n" using fl ver(1) t by (auto simp: tracked_def)
  then have "tracked ref r1" using t by (simp add: tracked_def ref_ok_def r1)
  then show "stream_step ref r [] r1" by (simp add: stream_step_def r1)
  show "send_token_offset r1 = send_token_offset r" "needs_verify C r1" using nv by (simp_all add: r1 needs_verify_def)
  show "b \<Longrightarrow> finished r1 \<Longrightarrow> llm42_verified_tokens r1 = length (output_ids r1)"
    using c(2) by (simp add: r1 finished_def)
qed

lemma stream_step_trans:
  assumes "stream_step ref r es r'" "stream_step ref r' es' r''"
  shows "stream_step ref r (es @ es') r''"
  using assms unfolding stream_step_def by (simp add: ball_Un)

lemma stream_req_step:
  assumes t: "tracked ref r" and llm: "enable_llm42 C" and s: "stream_req C E rl r = Inr (es, r')"
  shows "stream_step ref r es r'"
proof -
  have nv: "needs_verify C r" using t llm by (simp add: needs_verify_def tracked_def)
  obtain b r1 where so: "should_output C E r = Inr (b, r1)" using s by (auto simp: stream_req_def)
  note s1 = should_output_step [OF so nv t]
  have t1: "tracked ref r1" using s1(1) by (simp add: stream_step_def)
  obtain out r2 where e: "stream_entry C r1 = (out, r2)" by fastforce
  show ?thesis
  proof (cases b)
    case False
    then show ?thesis using s so s1(1) by (simp add: stream_req_def)
  next
    case True
    from stream_step_trans [OF s1(1) stream_entry_step [OF t1 s1(3) s1(4) [OF True] e]]
    have st: "stream_step ref r [out] r2" by simp
    show ?thesis
    proof (cases rl)
      case False
      then show ?thesis using s so \<open>b\<close> e st by (simp add: stream_req_def)
    next
      case True
      then obtain out' where lp: "stream_logprobs out r2 = Inr (out', r')" "es = [out']"
        using s so \<open>b\<close> e by (auto simp: stream_req_def)
      have "tracked ref r2" using st by (simp add: stream_step_def)
      note l = stream_logprobs_step [OF lp(1) this]
      have "stream_step ref r [out] r'" using stream_step_trans [OF st l(3)] by simp
      then show ?thesis using l(1,2) lp(2) by (simp add: stream_step_def)
    qed
  qed
qed

text \<open>The loop over a batch.  Requests outside it are not touched.\<close>

lemma stream_loop_other:
  "stream_loop C E rl skip h xs = Inr (es, h') \<Longrightarrow> x \<notin> set xs \<Longrightarrow> h' x = h x"
  by (induction xs arbitrary: h es) (auto split: if_splits)

lemma stream_entry_rid: "stream_entry C r = (out, r') \<Longrightarrow> o_rid out = rid r \<and> rid r' = rid r"
proof -
  assume e: "stream_entry C r = (out, r')"
  obtain a b c d where "snd (init_incremental_detokenize (needs_verify C r) r) =
      r\<lparr>read_offset := a, surr_offset := b, surr_and_decode_ids := c, cur_decode_ids_len := d\<rparr>"
    using detokenize_frame [of "needs_verify C r" r] by blast
  then show ?thesis using e by (auto simp: stream_entry_def Let_def split_beta)
qed

lemma should_output_rid: "should_output C E r = Inr (b, r1) \<Longrightarrow> rid r1 = rid r"
  by (auto simp: should_output_def split: if_splits)

lemma stream_logprobs_rid: "stream_logprobs out r = Inr (out', r') \<Longrightarrow> o_rid out' = o_rid out \<and> rid r' = rid r"
  by (erule stream_logprobs_frame) simp

lemma stream_req_rid:
  assumes "stream_req C E rl r = Inr (es, r')"
  shows "rid r' = rid r" "\<forall>e \<in> set es. o_rid e = rid r"
proof -
  obtain b r1 where so: "should_output C E r = Inr (b, r1)" using assms by (auto simp: stream_req_def)
  obtain out r2 where e: "stream_entry C r1 = (out, r2)" by fastforce
  have i: "rid r1 = rid r" "o_rid out = rid r1" "rid r2 = rid r1"
    using should_output_rid [OF so] stream_entry_rid [OF e] by simp_all
  have "rid r' = rid r \<and> (\<forall>e \<in> set es. o_rid e = rid r)"
  proof (cases "b \<and> rl")
    case True
    then obtain out' where "stream_logprobs out r2 = Inr (out', r')" "es = [out']"
      using assms so e by (auto simp: stream_req_def)
    then show ?thesis using stream_logprobs_rid i by simp
  next
    case False
    then show ?thesis using assms so e i by (cases b) (auto simp: stream_req_def)
  qed
  then show "rid r' = rid r" "\<forall>e \<in> set es. o_rid e = rid r" by blast+
qed

lemma stream_loop_rids:
  "stream_loop C E rl skip h xs = Inr (es, h') \<Longrightarrow> distinct xs \<Longrightarrow> \<forall>e \<in> set es. \<exists>y \<in> set xs. o_rid e = rid (h y)"
proof (induction xs arbitrary: h es)
  case (Cons y ys)
  show ?case
  proof (cases "skip = Some y")
    case True
    then show ?thesis using Cons by simp
  next
    case False
    then obtain es1 r es2 where s: "stream_req C E rl (h y) = Inr (es1, r)"
      and l: "stream_loop C E rl skip (h(y := r)) ys = Inr (es2, h')" and es: "es = es1 @ es2"
      using Cons.prems(1) by auto
    have "\<forall>e \<in> set es2. \<exists>z \<in> set ys. o_rid e = rid (h z)"
      using Cons.IH [OF l] Cons.prems(2) by (metis distinct.simps(2) fun_upd_other)
    then show ?thesis using stream_req_rid(2) [OF s] by (auto simp: es)
  qed
qed simp

text \<open>A tracked request in the batch makes exactly one such step; no entry of another request carries its
  identifier.\<close>

lemma stream_loop_step:
  assumes "stream_loop C E rl skip h xs = Inr (es, h')" "enable_llm42 C" "distinct xs" "x \<in> set xs" "tracked ref (h x)"
    and "\<forall>y \<in> set xs. rid (h y) = rid (h x) \<longrightarrow> y = x"
  shows "stream_step ref (h x) (filter (\<lambda>e. o_rid e = rid (h x)) es) (h' x)"
  using assms
proof (induction xs arbitrary: h es)
  case (Cons y ys)
  show ?case
  proof (cases "skip = Some y")
    case True
    then have l: "stream_loop C E rl skip h ys = Inr (es, h')" using Cons.prems(1) by simp
    show ?thesis
    proof (cases "x = y")
      case True
      have "h' x = h x" using stream_loop_other [OF l] Cons.prems(3) True by simp
      moreover have "filter (\<lambda>e. o_rid e = rid (h x)) es = []"
        using stream_loop_rids [OF l] Cons.prems(3,6) True by (force simp: filter_empty_conv)
      ultimately show ?thesis using stream_step_refl [OF Cons.prems(5)] by simp
    next
      case False
      then show ?thesis using Cons.IH [OF l Cons.prems(2)] Cons.prems(3-6) by simp
    qed
  next
    case False
    then obtain es1 r es2 where s: "stream_req C E rl (h y) = Inr (es1, r)"
      and l: "stream_loop C E rl skip (h(y := r)) ys = Inr (es2, h')" and es: "es = es1 @ es2"
      using Cons.prems(1) by auto
    note i = stream_req_rid [OF s]
    have r2: "\<forall>e \<in> set es2. o_rid e \<in> rid ` h ` set ys"
    proof
      fix e assume "e \<in> set es2"
      then obtain z where "z \<in> set ys" "o_rid e = rid ((h(y := r)) z)"
        using stream_loop_rids [OF l] Cons.prems(3) by auto
      then show "o_rid e \<in> rid ` h ` set ys" using Cons.prems(3) by (auto split: if_splits)
    qed
    show ?thesis
    proof (cases "x = y")
      case True
      have "h' x = r" using stream_loop_other [OF l] Cons.prems(3) True by simp
      moreover have "filter (\<lambda>e. o_rid e = rid (h x)) es1 = es1" using i(2) True by (simp add: filter_id_conv)
      moreover have "filter (\<lambda>e. o_rid e = rid (h x)) es2 = []"
        using r2 Cons.prems(3,6) True by (force simp: filter_empty_conv)
      ultimately show ?thesis using stream_req_step [OF Cons.prems(5,2)] s True by (simp add: es)
    next
      case neq: False
      have "filter (\<lambda>e. o_rid e = rid (h x)) es1 = []"
        using i(2) Cons.prems(6) neq by (auto simp: filter_empty_conv)
      moreover have "stream_step ref ((h(y := r)) x) (filter (\<lambda>e. o_rid e = rid ((h(y := r)) x)) es2) (h' x)"
        by (rule Cons.IH [OF l Cons.prems(2)]) (use Cons.prems(3-6) neq i(1) in auto)
      ultimately show ?thesis using neq by (simp add: es)
    qed
  qed
qed simp

end
