(* ===== verification/Output_Decode.thy ===== *)
theory Output_Decode
  imports Output_Stream
begin

text \<open>
  The effect of \<open>process_batch_result_decode\<close> and \<open>process_batch_result_prefill\<close> on deterministic
  requests, put together from the lemmas on the single operations.
\<close>

section \<open>Releasing a request\<close>

lemma release_kv_cache_shape:
  assumes "release_kv_cache spec p a r = Inr (p', a', r')"
  shows "rt_size p' = rt_size p" "max_context_len p' = max_context_len p" "req_to_token p' = req_to_token p"
    and "r' = r\<lparr>kv_committed_freed := True, kv_overallocated_freed := True, req_pool_idx := None\<rparr>"
proof -
  from assms obtain i where i: "req_pool_idx r = Some i" by (auto simp: release_kv_cache_def split: option.splits)
  obtain a1 r1 where c: "chunk_cache_finished_req p a r = Inr (a1, r1)"
    using assms i by (auto simp: release_kv_cache_def)
  have r1: "r1 = r\<lparr>kv_committed_freed := True\<rparr>"
    using c by (auto simp: chunk_cache_finished_req_def pop_committed_kv_cache_def Let_def split: option.splits if_splits)
  obtain s e r2 where o: "pop_overallocated_kv_cache r1 = Inr ((s, e), r2)"
    using assms i c by (auto simp: release_kv_cache_def)
  have r2: "r2 = r\<lparr>kv_committed_freed := True, kv_overallocated_freed := True\<rparr>"
    using o by (auto simp: pop_overallocated_kv_cache_def r1 split: if_splits)
  have "rt_free p r2 = Inr (p', r')"
    using assms i c o by (auto simp: release_kv_cache_def Let_def split: if_splits)
  then have p': "p' = p\<lparr>free_slots := free_slots p @ [i]\<rparr>" and r': "r' = r2\<lparr>req_pool_idx := None\<rparr>"
    using i by (auto simp: rt_free_def r2)
  show "rt_size p' = rt_size p" "max_context_len p' = max_context_len p" "req_to_token p' = req_to_token p"
    by (simp_all add: p')
  show "r' = r\<lparr>kv_committed_freed := True, kv_overallocated_freed := True, req_pool_idx := None\<rparr>"
    by (simp add: r' r2)
qed

definition released :: "req \<Rightarrow> req" where
  "released r = r\<lparr>kv_committed_freed := True, kv_overallocated_freed := True, req_pool_idx := None, completed := True\<rparr>"

lemma release_req_spec:
  assumes "release_req x S = Inr S'"
  shows "sc_store S' = (sc_store S)(x := released (sc_store S x))" "same_frame S S'"
proof -
  obtain p a r where r: "release_kv_cache False (s_pool (sc_sys S)) (s_alloc (sc_sys S)) (sc_store S x) = Inr (p, a, r)"
    and S': "S' = put_req x (r\<lparr>completed := True\<rparr>) (S\<lparr>sc_sys := (sc_sys S)\<lparr>s_pool := p, s_alloc := a\<rparr>\<rparr>)"
    using assms by (auto simp: release_req_def)
  note sh = release_kv_cache_shape [OF r]
  show "sc_store S' = (sc_store S)(x := released (sc_store S x))"
    by (simp add: S' sh(4) released_def)
  show "same_frame S S'" by (simp add: S' same_frame_def put_req_def set_store_def sh)
qed

lemma tracked_released [simp]: "tracked ref (released r) = tracked ref r"
  by (simp add: tracked_def released_def ref_ok_def)

section \<open>One decoded token\<close>

text \<open>What a decoded token does to a deterministic request.\<close>

definition decode_step :: "req \<Rightarrow> req \<Rightarrow> bool" where
  "decode_step r r' \<longleftrightarrow>
     (\<exists>t r2 r3. quiet (r\<lparr>output_ids := output_ids r @ [t]\<rparr>) r2 \<and> finish_step r2 r3 \<and> quiet r3 r')"

lemma quiet_decode_step:
  assumes "quiet r r0" "decode_step r0 r'"
  shows "decode_step r r'"
proof -
  obtain t r2 r3 where d: "quiet (r0\<lparr>output_ids := output_ids r0 @ [t]\<rparr>) r2" "finish_step r2 r3" "quiet r3 r'"
    using assms(2) unfolding decode_step_def by blast
  have "quiet (r\<lparr>output_ids := output_ids r @ [t]\<rparr>) (r0\<lparr>output_ids := output_ids r0 @ [t]\<rparr>)"
    using assms(1) by (simp add: quiet_def)
  from quiet_trans [OF this d(1)] d(2,3) show ?thesis unfolding decode_step_def by blast
qed

lemma process_decode_req_cases:
  assumes "process_decode_req C E rl lg i y t S = Inr S'"
    and run: "\<not> (enable_overlap C \<and> (finished (sc_store S y) \<or> is_retracted (sc_store S y)))"
  obtains r2 r3 S1 S2 where "quiet ((sc_store S y)\<lparr>output_ids := output_ids (sc_store S y) @ [t]\<rparr>) r2"
    and "check_finished E 1 r2 = Inr r3"
    and "S1 = put_req y r3 S \<or> \<not> verified_later C (sc_store S y) \<and> release_req y (put_req y r3 S) = Inr S1"
    and "S2 = S1 \<or> (\<exists>r4. quiet (sc_store S1 y) r4 \<and> S2 = put_req y r4 S1)"
    and "accept_grammar E y t S2 = Inr S'"
proof -
  let ?r = "sc_store S y" and ?later = "verified_later C (sc_store S y)"
  let ?r1 = "?r\<lparr>output_ids := output_ids ?r @ [t]\<rparr>"
  obtain r2 r3 S1 S2 where s:
    "(if ?later \<and> return_logprob ?r \<and> rl then append_output_logprobs lg i t ?r1 else Inr ?r1) = Inr r2"
    "check_finished E 1 r2 = Inr r3"
    "(if finished r3 \<and> \<not> ?later then release_req y (put_req y r3 S) else Inr (put_req y r3 S)) = Inr S1"
    "(if return_logprob ?r \<and> \<not> ?later
      then (if rl then bind_result (append_output_logprobs lg i t (sc_store S1 y)) (\<lambda>r4. Inr (put_req y r4 S1))
            else Inl UnboundLocalError)
      else Inr S1) = Inr S2"
    "accept_grammar E y t S2 = Inr S'"
    using assms by (auto simp: process_decode_req_def Let_def simp del: bind_result.simps)
  have "quiet ?r1 r2" using s(1) append_output_logprobs_quiet by (auto split: if_splits)
  moreover have "S1 = put_req y r3 S \<or> \<not> ?later \<and> release_req y (put_req y r3 S) = Inr S1"
    using s(3) by (auto split: if_splits)
  moreover have "S2 = S1 \<or> (\<exists>r4. quiet (sc_store S1 y) r4 \<and> S2 = put_req y r4 S1)"
    using s(4) by (auto split: if_splits dest: append_output_logprobs_quiet)
  ultimately show ?thesis using that s(2,5) by blast
qed

lemma process_decode_req_frame:
  assumes "process_decode_req C E rl lg i y t S = Inr S'"
  shows "same_frame S S'"
proof (cases "enable_overlap C \<and> (finished (sc_store S y) \<or> is_retracted (sc_store S y))")
  case True
  then show ?thesis using assms by (simp add: process_decode_req_def Let_def)
next
  case False
  obtain r2 r3 S1 S2 where
    s0: "quiet ((sc_store S y)\<lparr>output_ids := output_ids (sc_store S y) @ [t]\<rparr>) r2" "check_finished E 1 r2 = Inr r3"
      "S1 = put_req y r3 S \<or> \<not> verified_later C (sc_store S y) \<and> release_req y (put_req y r3 S) = Inr S1"
      "S2 = S1 \<or> (\<exists>r4. quiet (sc_store S1 y) r4 \<and> S2 = put_req y r4 S1)" "accept_grammar E y t S2 = Inr S'"
    by (rule process_decode_req_cases [OF assms False])
  note s = s0(3-5)
  have "same_frame S S1"
    using s(1) same_frame_trans [OF put_req_simps(2) release_req_spec(2)] by auto
  also have "same_frame S1 S2" using s(2) by auto
  also have "same_frame S2 S'" by (rule accept_grammar_frame [OF s(3)])
  finally show ?thesis .
qed

lemma process_decode_req_other:
  assumes "process_decode_req C E rl lg i y t S = Inr S'" "x \<noteq> y" "x \<notin> set (grammar_queue S)"
  shows "quiet (sc_store S x) (sc_store S' x)"
proof (cases "enable_overlap C \<and> (finished (sc_store S y) \<or> is_retracted (sc_store S y))")
  case True
  then show ?thesis using assms by (simp add: process_decode_req_def Let_def)
next
  case False
  obtain r2 r3 S1 S2 where
    s0: "quiet ((sc_store S y)\<lparr>output_ids := output_ids (sc_store S y) @ [t]\<rparr>) r2" "check_finished E 1 r2 = Inr r3"
      "S1 = put_req y r3 S \<or> \<not> verified_later C (sc_store S y) \<and> release_req y (put_req y r3 S) = Inr S1"
      "S2 = S1 \<or> (\<exists>r4. quiet (sc_store S1 y) r4 \<and> S2 = put_req y r4 S1)" "accept_grammar E y t S2 = Inr S'"
    by (rule process_decode_req_cases [OF assms(1) False])
  note s = s0(3-5)
  have 1: "sc_store S1 x = sc_store S x" "same_frame S S1"
    using s(1) release_req_spec [of y "put_req y r3 S" S1] same_frame_trans [OF put_req_simps(2)] assms(2) by auto
  have 2: "sc_store S2 x = sc_store S1 x" "same_frame S1 S2" using s(2) assms(2) by auto
  have "grammar_queue S2 = grammar_queue S" using 1(2) 2(2) by (simp add: same_frame_def)
  then show ?thesis using accept_grammar_quiet [OF s(3), of x] assms(3) 1(1) 2(1) by simp
qed

lemma process_decode_req_self:
  assumes "process_decode_req C E rl lg i y t S = Inr S'" "verified_later C (sc_store S y)"
    "\<not> finished (sc_store S y)" "\<not> is_retracted (sc_store S y)" "y \<notin> set (grammar_queue S)"
  shows "decode_step (sc_store S y) (sc_store S' y)"
proof -
  have "\<not> (enable_overlap C \<and> (finished (sc_store S y) \<or> is_retracted (sc_store S y)))" using assms by simp
  then obtain r2 r3 S1 S2 where
    s0: "quiet ((sc_store S y)\<lparr>output_ids := output_ids (sc_store S y) @ [t]\<rparr>) r2" "check_finished E 1 r2 = Inr r3"
      "S1 = put_req y r3 S \<or> \<not> verified_later C (sc_store S y) \<and> release_req y (put_req y r3 S) = Inr S1"
      "S2 = S1 \<or> (\<exists>r4. quiet (sc_store S1 y) r4 \<and> S2 = put_req y r4 S1)" "accept_grammar E y t S2 = Inr S'"
    by (rule process_decode_req_cases [OF assms(1)])
  have S1: "S1 = put_req y r3 S" using s0(3) assms(2) by simp
  note s = s0(1,2) S1 s0(4,5)
  have "quiet r3 (sc_store S2 y)" "grammar_queue S2 = grammar_queue S" using s(3,4) by auto
  then have "quiet r3 (sc_store S' y)"
    using accept_grammar_quiet [OF s(5)] assms(5) quiet_trans by metis
  with s(1) check_finished_step [OF s(2)] show ?thesis unfolding decode_step_def by blast
qed

text \<open>A request keeps its id and its kind.\<close>

definition identity :: "req \<Rightarrow> string \<times> bool" where
  "identity r = (rid r, is_deterministic r)"

lemma finish_step_identity: "finish_step r r' \<Longrightarrow> identity r' = identity r"
  by (auto simp: finish_step_def identity_def)

lemma quiet_identity: "quiet r r' \<Longrightarrow> identity r' = identity r"
  by (simp add: quiet_def identity_def)

lemma identity_updates:
  "identity (to_finish_update g r) = identity r" "identity (set_finish_with_abort m r) = identity r"
  "identity (grammar_update h r) = identity r"
  by (simp_all add: identity_def set_finish_with_abort_def)

lemma update_where_identity:
  assumes "\<And>r. identity (f r) = identity r"
  shows "identity (update_where P f xs h x) = identity (h x)"
  by (induction xs arbitrary: h) (auto simp: update_where_def assms)

lemma accept_grammar_identity:
  assumes "accept_grammar E y t S = Inr S'"
  shows "identity (sc_store S' x) = identity (sc_store S x)"
proof -
  have "identity (sc_store (abort_request b i S) x) = identity (sc_store S x)" for b i
    unfolding abort_request_def Let_def
    by (simp add: update_where_identity [where f = "to_finish_update g" for g, OF identity_updates(1)]
        update_where_identity [OF identity_updates(2)])
  then show ?thesis using accept_grammar_cases [OF assms] by (cases "x = y") (auto simp: identity_updates)
qed

lemma process_decode_req_identity:
  assumes "process_decode_req C E rl lg i y t S = Inr S'"
  shows "identity (sc_store S' x) = identity (sc_store S x)"
proof (cases "enable_overlap C \<and> (finished (sc_store S y) \<or> is_retracted (sc_store S y))")
  case True
  then show ?thesis using assms by (simp add: process_decode_req_def Let_def)
next
  case False
  obtain r2 r3 S1 S2 where
    s: "quiet ((sc_store S y)\<lparr>output_ids := output_ids (sc_store S y) @ [t]\<rparr>) r2" "check_finished E 1 r2 = Inr r3"
      "S1 = put_req y r3 S \<or> \<not> verified_later C (sc_store S y) \<and> release_req y (put_req y r3 S) = Inr S1"
      "S2 = S1 \<or> (\<exists>r4. quiet (sc_store S1 y) r4 \<and> S2 = put_req y r4 S1)" "accept_grammar E y t S2 = Inr S'"
    by (rule process_decode_req_cases [OF assms(1) False])
  have "identity r3 = identity (sc_store S y)"
    using finish_step_identity [OF check_finished_step [OF s(2)]] quiet_identity [OF s(1)] by (simp add: identity_def)
  then have "identity (sc_store S1 x) = identity (sc_store S x)"
    using s(3) release_req_spec(1) [of y "put_req y r3 S" S1] by (cases "x = y") (auto simp: released_def identity_def)
  moreover have "identity (sc_store S2 x) = identity (sc_store S1 x)"
    using s(4) quiet_identity by (cases "x = y") auto
  ultimately show ?thesis using accept_grammar_identity [OF s(5)] by simp
qed

text \<open>The loop: a deterministic request of the batch makes one step, the others of interest a quiet one.\<close>

lemma process_decode_loop_spec:
  assumes "process_decode_loop C E rl lg i zs S = Inr S'" "enable_llm42 C" "distinct (map fst zs)"
    and "set (map fst zs) \<inter> set (grammar_queue S) = {}"
    and "\<forall>x \<in> set (map fst zs). \<not> finished (sc_store S x) \<and> \<not> is_retracted (sc_store S x)"
  shows "same_frame S S' \<and> (\<forall>x. identity (sc_store S' x) = identity (sc_store S x)) \<and>
     (\<forall>x. x \<notin> set (grammar_queue S) \<longrightarrow> x \<notin> set (map fst zs) \<longrightarrow> quiet (sc_store S x) (sc_store S' x)) \<and>
     (\<forall>x \<in> set (map fst zs). is_deterministic (sc_store S x) \<longrightarrow> decode_step (sc_store S x) (sc_store S' x))"
  using assms
proof (induction zs arbitrary: S i)
  case (Cons z zs)
  obtain y t where z: "z = (y, t)" by fastforce
  obtain S1 where p1: "process_decode_req C E rl lg i y t S = Inr S1"
    and p2: "process_decode_loop C E rl lg (Suc i) zs S1 = Inr S'" using Cons.prems(1) by (auto simp: z)
  note fr = process_decode_req_frame [OF p1] and idt = process_decode_req_identity [OF p1]
  have gq: "grammar_queue S1 = grammar_queue S" using fr by (simp add: same_frame_def)
  have q1: "quiet (sc_store S x) (sc_store S1 x)" if "x \<noteq> y" "x \<notin> set (grammar_queue S)" for x
    by (rule process_decode_req_other [OF p1 that])
  have y: "y \<notin> set (map fst zs)" using Cons.prems(3) by (simp add: z)
  have "\<forall>x \<in> set (map fst zs). \<not> finished (sc_store S1 x) \<and> \<not> is_retracted (sc_store S1 x)"
  proof
    fix x assume x: "x \<in> set (map fst zs)"
    then have "x \<noteq> y" "x \<notin> set (grammar_queue S)" using y Cons.prems(4) by auto
    from q1 [OF this] show "\<not> finished (sc_store S1 x) \<and> \<not> is_retracted (sc_store S1 x)"
      using bspec [OF Cons.prems(5), of x] x by (simp add: quiet_def finished_def)
  qed
  from Cons.IH [OF p2 Cons.prems(2) _ _ this] Cons.prems(3,4) gq have
    ih: "same_frame S1 S'" "\<And>x. identity (sc_store S' x) = identity (sc_store S1 x)"
      "\<And>x. x \<notin> set (grammar_queue S) \<Longrightarrow> x \<notin> set (map fst zs) \<Longrightarrow> quiet (sc_store S1 x) (sc_store S' x)"
      "\<And>x. x \<in> set (map fst zs) \<Longrightarrow> is_deterministic (sc_store S1 x) \<Longrightarrow> decode_step (sc_store S1 x) (sc_store S' x)"
    by auto
  have "decode_step (sc_store S x) (sc_store S' x)"
    if x: "x \<in> set (map fst (z # zs))" "is_deterministic (sc_store S x)" for x
  proof (cases "x = y")
    case True
    have ny: "y \<notin> set (grammar_queue S)" using Cons.prems(4) by (simp add: z)
    have "decode_step (sc_store S y) (sc_store S1 y)"
      by (rule process_decode_req_self [OF p1])
        (use Cons.prems(2,5) x(2) True ny in \<open>simp_all add: z verified_later_def\<close>)
    with ih(3) [OF ny y] show ?thesis unfolding decode_step_def True using quiet_trans by blast
  next
    case False
    then have x': "x \<in> set (map fst zs)" "x \<notin> set (grammar_queue S)" using x(1) Cons.prems(4) by (auto simp: z)
    have "is_deterministic (sc_store S1 x)" using idt [of x] x(2) by (simp add: identity_def)
    from ih(4) [OF x'(1) this] q1 [OF False x'(2)] show ?thesis by (auto dest: quiet_decode_step)
  qed
  moreover have "quiet (sc_store S x) (sc_store S' x)"
    if "x \<notin> set (grammar_queue S)" "x \<notin> set (map fst (z # zs))" for x
    using quiet_trans [OF q1 ih(3)] that by (simp add: z)
  ultimately show ?case using same_frame_trans [OF fr ih(1)] ih(2) idt by simp
qed simp

lemma finish_step_fields:
  assumes "finish_step r r'"
  shows "rid r' = rid r" "origin_input_ids r' = origin_input_ids r" "llm42_verified_tokens r' = llm42_verified_tokens r"
    "send_token_offset r' = send_token_offset r" "is_retracted r' = is_retracted r" "completed r' = completed r"
    "req_pool_idx r' = req_pool_idx r" "length (output_ids r') = length (output_ids r)"
    "sampling_params r' = sampling_params r"
  using assms by (auto simp: finish_step_def)

lemma decode_step_fields:
  assumes "decode_step r r'"
  shows "rid r' = rid r" "origin_input_ids r' = origin_input_ids r" "llm42_verified_tokens r' = llm42_verified_tokens r"
    "send_token_offset r' = send_token_offset r" "is_retracted r' = is_retracted r" "completed r' = completed r"
    "req_pool_idx r' = req_pool_idx r" "length (output_ids r') = Suc (length (output_ids r))"
proof -
  obtain t r2 r3 where d: "quiet (r\<lparr>output_ids := output_ids r @ [t]\<rparr>) r2" "finish_step r2 r3" "quiet r3 r'"
    using assms unfolding decode_step_def by blast
  then show "rid r' = rid r" "origin_input_ids r' = origin_input_ids r" "llm42_verified_tokens r' = llm42_verified_tokens r"
    "send_token_offset r' = send_token_offset r" "is_retracted r' = is_retracted r" "completed r' = completed r"
    "req_pool_idx r' = req_pool_idx r" "length (output_ids r') = Suc (length (output_ids r))"
    using finish_step_fields [OF d(2)] by (simp_all add: quiet_def)
qed

lemma decode_step_tracked:
  assumes "tracked ref r" "has_room r" "decode_step r r'"
  shows "tracked ref r'"
proof -
  obtain t r2 r3 where d: "quiet (r\<lparr>output_ids := output_ids r @ [t]\<rparr>) r2" "finish_step r2 r3" "quiet r3 r'"
    using assms(3) unfolding decode_step_def by blast
  have "tracked ref r2" using tracked_append [OF assms(1,2)] tracked_quiet [OF d(1)] by blast
  from tracked_finish_step(1) [OF this d(2)] show ?thesis using tracked_quiet [OF d(3)] by blast
qed

section \<open>After the verification\<close>

lemma free_rolled_back_spec:
  "free_rolled_back res S = Inr S' \<Longrightarrow> same_frame S S' \<and> (\<forall>x. quiet (sc_store S x) (sc_store S' x))"
proof (induction res arbitrary: S)
  case (Cons z res)
  obtain y n where z: "z = (y, n)" by fastforce
  obtain S1 where S1: "free_rolled_back_req y n S = Inr S1" "free_rolled_back res S1 = Inr S'"
    using Cons.prems by (auto simp: z)
  obtain r a where r: "S1 = put_req y r (set_alloc a S)" "quiet (sc_store S y) r"
    using S1(1) by (auto simp: free_rolled_back_req_def Let_def split: option.splits)
  have "same_frame S S1" unfolding r(1) by (rule same_frame_trans [OF set_alloc_simps(2) put_req_simps(2)])
  moreover have "quiet (sc_store S x) (sc_store S1 x)" for x using r by simp
  ultimately show ?case using Cons.IH [OF S1(2)] same_frame_trans quiet_trans by blast
qed simp

definition cached_step :: "req \<Rightarrow> req \<Rightarrow> bool" where
  "cached_step r r' \<longleftrightarrow>
     r' = r \<and> (is_retracted r \<or> \<not> is_deterministic r \<or> completed r) \<or>
     (\<exists>r1. finish_step r r1 \<and> (r' = r1 \<or> r' = released r1))"

lemma cache_verified_req_spec:
  assumes "cache_verified_req E x S = Inr S'"
  shows "same_frame S S'" "y \<noteq> x \<Longrightarrow> sc_store S' y = sc_store S y" "cached_step (sc_store S x) (sc_store S' x)"
proof -
  let ?r = "sc_store S x"
  have "same_frame S S' \<and> (\<forall>y. y \<noteq> x \<longrightarrow> sc_store S' y = sc_store S y) \<and> cached_step ?r (sc_store S' x)"
  proof (cases "is_retracted ?r \<or> \<not> is_deterministic ?r \<or> completed ?r")
    case True
    then show ?thesis using assms by (auto simp: cache_verified_req_def Let_def cached_step_def)
  next
    case False
    then obtain r1 where r1: "check_finished E 1 ?r = Inr r1"
      and S': "(if finished r1 then release_req x (put_req x r1 S) else Inr (put_req x r1 S)) = Inr S'"
      using assms by (auto simp: cache_verified_req_def Let_def)
    note f = check_finished_step [OF r1]
    show ?thesis
    proof (cases "finished r1")
      case True
      then have rl: "release_req x (put_req x r1 S) = Inr S'" using S' by simp
      note r = release_req_spec [OF rl]
      show ?thesis using same_frame_trans [OF put_req_simps(2) r(2)] f r(1) unfolding cached_step_def by auto
    next
      case False
      then have "S' = put_req x r1 S" using S' by simp
      then show ?thesis using f unfolding cached_step_def by auto
    qed
  qed
  then show "same_frame S S'" "y \<noteq> x \<Longrightarrow> sc_store S' y = sc_store S y" "cached_step ?r (sc_store S' x)" by blast+
qed

lemma cache_verified_spec:
  assumes "cache_verified E xs S = Inr S'" "distinct xs"
  shows "same_frame S S' \<and> (\<forall>x. x \<notin> set xs \<longrightarrow> sc_store S' x = sc_store S x) \<and>
     (\<forall>x \<in> set xs. cached_step (sc_store S x) (sc_store S' x))"
  using assms
proof (induction xs arbitrary: S)
  case (Cons y ys)
  obtain S1 where S1: "cache_verified_req E y S = Inr S1" "cache_verified E ys S1 = Inr S'"
    using Cons.prems(1) by auto
  note c = cache_verified_req_spec [OF S1(1)]
  have ih: "same_frame S1 S'" "\<And>x. x \<notin> set ys \<Longrightarrow> sc_store S' x = sc_store S1 x"
    "\<And>x. x \<in> set ys \<Longrightarrow> cached_step (sc_store S1 x) (sc_store S' x)"
    using Cons.IH [OF S1(2)] Cons.prems(2) by simp_all
  have "cached_step (sc_store S x) (sc_store S' x)" if "x \<in> set (y # ys)" for x
  proof (cases "x = y")
    case True
    then show ?thesis using c(3) ih(2) Cons.prems(2) by simp
  next
    case False
    then show ?thesis using c(2) [OF False] ih(3) [of x] that False by simp
  qed
  then show ?case using same_frame_trans [OF c(1) ih(1)] c(2) ih(2) by simp
qed simp

lemma cached_step_tracked:
  assumes "cached_step r r'" "tracked ref r"
  shows "tracked ref r'" "send_token_offset r' = send_token_offset r" "origin_input_ids r' = origin_input_ids r"
    "rid r' = rid r" "\<not> is_retracted r \<Longrightarrow> \<not> completed r \<Longrightarrow> finished r' \<or> has_room r'"
proof -
  have det: "is_deterministic r" using assms(2) by (simp add: tracked_def)
  show "tracked ref r'" using assms tracked_finish_step(1) [OF assms(2)] by (auto simp: cached_step_def)
  show "send_token_offset r' = send_token_offset r" "origin_input_ids r' = origin_input_ids r" "rid r' = rid r"
    using assms(1) finish_step_fields [of r] by (auto simp: cached_step_def released_def)
  show "finished r' \<or> has_room r'" if nr: "\<not> is_retracted r" "\<not> completed r"
  proof -
    obtain r1 where r1: "finish_step r r1" "r' = r1 \<or> r' = released r1"
      using assms(1) nr det unfolding cached_step_def by blast
    have "finished_reason r1 \<noteq> None \<or> has_room r1"
    proof (cases "finished_reason r")
      case None
      then show ?thesis by (rule tracked_finish_step(2) [OF assms(2) r1(1)])
    next
      case (Some f)
      then show ?thesis using r1(1) by (auto simp: finish_step_def)
    qed
    then show ?thesis using r1(2) by (auto simp: finished_def has_room_def released_def)
  qed
qed

end
