(* ===== verification/Decode_Step.thy ===== *)
theory Decode_Step
  imports Output_Decode
begin

text \<open>The whole of \<open>process_batch_result_decode\<close> of
  \<open>src/python/sglang/srt/managers/scheduler_output_processor_mixin.py\<close> as one step on the requests: append the
  sampled tokens, verify, free the discarded slots, re-check and cache, stream.  The tokens a client has received
  for a deterministic request are always a prefix of the output the reference decoder generates for its prompt.\<close>

section \<open>The verification step\<close>

lemma fits_window_shape:
  "rt_size p' = rt_size p \<Longrightarrow> max_context_len p' = max_context_len p \<Longrightarrow> fits_window p' w r = fits_window p w r"
  by (cases "req_pool_idx r") (simp_all add: fits_window_def replayable_def)

lemma sound_verifier_shape:
  "rt_size p' = rt_size p \<Longrightarrow> max_context_len p' = max_context_len p \<Longrightarrow>
   sound_verifier ref fwd p' w = sound_verifier ref fwd p w"
  unfolding sound_verifier_def using fits_window_shape [of p' p] by simp

definition verified_step :: "(token list \<Rightarrow> token) \<Rightarrow> worker \<Rightarrow> req \<Rightarrow> req \<Rightarrow> bool" where
  "verified_step ref w r r' \<longleftrightarrow>
     (\<exists>ra rb. (pass_step ref r ra \<or> ra = r \<and> \<not> (needs_verification r \<and> is_ready w r)) \<and>
        quiet ra rb \<and> cached_step rb r')"

text \<open>The worker, the batch and the queues after a step: the counters and batch tensors may change.\<close>

definition step_frame :: "fixed_pool \<Rightarrow> sched \<Rightarrow> sched \<Rightarrow> bool" where
  "step_frame fp S S' \<longleftrightarrow>
     fixed_mode (s_worker (sc_sys S')) fp \<and> window_size (s_worker (sc_sys S')) = window_size (s_worker (sc_sys S)) \<and>
     batch_ok (s_batch (sc_sys S')) \<and> b_reqs (s_batch (sc_sys S')) = b_reqs (s_batch (sc_sys S)) \<and>
     rt_size (s_pool (sc_sys S')) = rt_size (s_pool (sc_sys S)) \<and>
     max_context_len (s_pool (sc_sys S')) = max_context_len (s_pool (sc_sys S)) \<and>
     grammar_queue S' = grammar_queue S"

lemma verify_step_spec:
  assumes ok: "round_ok (sc_sys S) fp"
    and v: "sound_verifier ref fwd (s_pool (sc_sys S)) (window_size (s_worker (sc_sys S)))"
  shows "\<exists>res. verify_step E ed fl fwd S = Some res \<and>
     (\<forall>S'. res = Inr S' \<longrightarrow> step_frame fp S S' \<and> (\<forall>i. streamed i (sent S') = streamed i (sent S)) \<and>
        (\<forall>x. x \<notin> set (b_reqs (s_batch (sc_sys S))) \<longrightarrow> quiet (sc_store S x) (sc_store S' x)) \<and>
        (\<forall>x \<in> set (b_reqs (s_batch (sc_sys S))).
           verified_step ref (s_worker (sc_sys S)) (sc_store S x) (sc_store S' x)))"
proof -
  let ?s = "sc_sys S" and ?h = "sc_store S"
  let ?B = "b_reqs (s_batch ?s)"
  from round_fixed [OF assms, of ed fl] obtain T s' where
    c: "check_and_verify_deterministic_requests ed fl fwd ?s = Some (Inr (rolled_back ?h (s_store s') T, s'))"
    and T: "set T \<subseteq> {x \<in> set ?B. needs_verification (?h x)}"
      "{x \<in> set ?B. needs_verification (?h x) \<and> is_ready (s_worker ?s) (?h x)} \<subseteq> set T"
    and p: "\<forall>x \<in> set T. pass_step ref (?h x) (s_store s' x)" and q: "\<forall>x. x \<notin> set T \<longrightarrow> s_store s' x = ?h x"
    and s': "s_pool s' = s_pool ?s" "fixed_mode (s_worker s') fp" "window_size (s_worker s') = window_size (s_worker ?s)"
      "batch_ok (s_batch s')" "b_reqs (s_batch s') = ?B"
    by (elim exE conjE) (rule that)
  let ?S0 = "S\<lparr>sc_sys := s'\<rparr>" and ?res = "rolled_back ?h (s_store s') T"
  have eq: "verify_step E ed fl fwd S = Some (bind_result (free_rolled_back ?res ?S0) (cache_verified E ?B))"
    by (simp add: verify_step_def c s')
  have d: "distinct ?B" using ok by (simp add: round_ok_def)
  have "step_frame fp S S' \<and> (\<forall>i. streamed i (sent S') = streamed i (sent S)) \<and>
        (\<forall>x. x \<notin> set ?B \<longrightarrow> quiet (?h x) (sc_store S' x)) \<and>
        (\<forall>x \<in> set ?B. verified_step ref (s_worker ?s) (?h x) (sc_store S' x))"
    if S': "bind_result (free_rolled_back ?res ?S0) (cache_verified E ?B) = Inr S'" for S'
  proof -
    obtain S1 where S1: "free_rolled_back ?res ?S0 = Inr S1" "cache_verified E ?B S1 = Inr S'" using S' by auto
    have f: "same_frame ?S0 S1" "\<And>x. quiet (s_store s' x) (sc_store S1 x)"
      using free_rolled_back_spec [OF S1(1)] by simp_all
    have g: "same_frame S1 S'" "\<And>x. x \<notin> set ?B \<Longrightarrow> sc_store S' x = sc_store S1 x"
      "\<And>x. x \<in> set ?B \<Longrightarrow> cached_step (sc_store S1 x) (sc_store S' x)"
      using cache_verified_spec [OF S1(2) d] by simp_all
    have fr: "same_frame ?S0 S'" by (rule same_frame_trans [OF f(1) g(1)])
    have "verified_step ref (s_worker ?s) (?h x) (sc_store S' x)" if x: "x \<in> set ?B" for x
      unfolding verified_step_def
    proof (intro exI conjI)
      show "quiet (s_store s' x) (sc_store S1 x)" by (rule f(2))
      show "cached_step (sc_store S1 x) (sc_store S' x)" by (rule g(3) [OF x])
      show "pass_step ref (?h x) (s_store s' x) \<or>
          s_store s' x = ?h x \<and> \<not> (needs_verification (?h x) \<and> is_ready (s_worker ?s) (?h x))"
        using p q T(2) x by blast
    qed
    moreover have "quiet (?h x) (sc_store S' x)" if "x \<notin> set ?B" for x
    proof -
      have "x \<notin> set T" using T(1) that by blast
      then show ?thesis using q f(2) [of x] g(2) [OF that] by simp
    qed
    moreover have "step_frame fp S S'" "\<forall>i. streamed i (sent S') = streamed i (sent S)"
      using fr s' by (simp_all add: same_frame_def step_frame_def)
    ultimately show ?thesis by blast
  qed
  then show ?thesis using eq by blast
qed

text \<open>What the step does to a tracked request that has a table row.\<close>

lemma verified_step_tracked:
  assumes "verified_step ref w r r'" "tracked ref r"
  shows "tracked ref r'" "send_token_offset r' = send_token_offset r" "origin_input_ids r' = origin_input_ids r"
    "rid r' = rid r"
    "\<not> is_retracted r \<Longrightarrow> \<not> completed r \<Longrightarrow> finished r' \<or> has_room r'"
proof -
  obtain ra rb where s: "pass_step ref r ra \<or> ra = r" "quiet ra rb" "cached_step rb r'"
    using assms(1) unfolding verified_step_def by blast
  have ta: "tracked ref ra" using s(1) assms(2) tracked_pass_step by auto
  have fa: "send_token_offset ra = send_token_offset r" "origin_input_ids ra = origin_input_ids r" "rid ra = rid r"
    "is_retracted ra = is_retracted r" "completed ra = completed r"
    using s(1) by (auto simp: pass_step_def dest: pass_frame_fields)
  have tb: "tracked ref rb" using ta tracked_quiet [OF s(2)] by simp
  note c = cached_step_tracked [OF s(3) tb]
  show "tracked ref r'" by (rule c(1))
  show "send_token_offset r' = send_token_offset r" "origin_input_ids r' = origin_input_ids r" "rid r' = rid r"
    using c(2,3,4) fa s(2) by (simp_all add: quiet_def)
  show "finished r' \<or> has_room r'" if "\<not> is_retracted r" "\<not> completed r"
    using c(5) fa s(2) that by (simp add: quiet_def)
qed

lemma verified_step_identity:
  assumes "verified_step ref w r r'"
  shows "identity r' = identity r"
proof -
  obtain ra rb where s: "pass_step ref r ra \<or> ra = r" "quiet ra rb" "cached_step rb r'"
    using assms unfolding verified_step_def by blast
  have "identity ra = identity r"
    using s(1) by (auto simp: pass_step_def identity_def dest: pass_frame_fields)
  moreover have "identity rb = identity ra" by (rule quiet_identity [OF s(2)])
  moreover have "identity r' = identity rb"
    using s(3) finish_step_identity [of rb] by (auto simp: cached_step_def identity_def released_def)
  ultimately show ?thesis by simp
qed

text \<open>After the step the window is not full, and a request that has not finished has room for another token.\<close>

definition in_window :: "nat \<Rightarrow> req \<Rightarrow> bool" where
  "in_window w r \<longleftrightarrow> length (output_ids r) < llm42_verified_tokens r + w \<and> (finished r \<or> has_room r)"

text \<open>A request of the batch between the decode loop and the verification.\<close>

definition in_flight :: "nat \<Rightarrow> req \<Rightarrow> bool" where
  "in_flight w r \<longleftrightarrow>
     needs_verification r \<and> \<not> completed r \<and> 0 < w \<and> length (output_ids r) \<le> llm42_verified_tokens r + w"

lemma verified_step_window:
  assumes st: "verified_step ref w r r'" and t: "tracked ref r" and n: "needs_verification r" "\<not> completed r"
    and w: "0 < window_size w"
  shows "in_window (window_size w) r'"
proof -
  obtain ra rb where s: "pass_step ref r ra \<or> ra = r \<and> \<not> is_ready w r" "quiet ra rb" "cached_step rb r'"
    using st n(1) unfolding verified_step_def by blast
  have "length (output_ids ra) < llm42_verified_tokens ra + window_size w"
    using s(1) w by (auto simp: pass_step_def is_ready_def)
  moreover have "length (output_ids r') = length (output_ids rb)" "llm42_verified_tokens r' = llm42_verified_tokens rb"
    using s(3) finish_step_fields [of rb] by (auto simp: cached_step_def released_def)
  moreover have "finished r' \<or> has_room r'"
    using verified_step_tracked(5) [OF st t] n by (simp add: needs_verification_def)
  ultimately show ?thesis using s(2) by (simp add: in_window_def quiet_def)
qed

text \<open>A measure that every decode step increases, rollbacks included: a verified token is worth a whole window of
  unverified ones.\<close>

definition potential :: "nat \<Rightarrow> req \<Rightarrow> nat" where
  "potential w r = llm42_verified_tokens r * Suc w + (length (output_ids r) - llm42_verified_tokens r)"

lemma verified_step_potential:
  assumes st: "verified_step ref w r r'" and n: "needs_verification r"
    and bound: "length (output_ids r) \<le> llm42_verified_tokens r + window_size w"
  shows "potential (window_size w) r \<le> potential (window_size w) r'"
proof -
  let ?w = "window_size w"
  obtain ra rb where s: "pass_step ref r ra \<or> ra = r" "quiet ra rb" "cached_step rb r'"
    using st n(1) unfolding verified_step_def by blast
  have "length (output_ids r') = length (output_ids ra)" "llm42_verified_tokens r' = llm42_verified_tokens ra"
    using s(2,3) finish_step_fields [of rb] by (auto simp: cached_step_def released_def quiet_def)
  then have eq: "potential ?w r' = potential ?w ra" by (simp add: potential_def)
  from s(1) show ?thesis
  proof
    assume p: "pass_step ref r ra"
    then obtain k where k: "llm42_verified_tokens ra = llm42_verified_tokens r + Suc k"
      unfolding pass_step_def by (metis less_iff_Suc_add add_Suc_right)
    have "potential ?w r \<le> llm42_verified_tokens r * Suc ?w + ?w" using bound by (simp add: potential_def)
    also have "\<dots> \<le> llm42_verified_tokens ra * Suc ?w" by (simp add: k algebra_simps)
    also have "\<dots> \<le> potential ?w ra" by (simp add: potential_def)
    finally show ?thesis by (simp add: eq)
  qed (simp add: eq)
qed

section \<open>The decode step\<close>

text \<open>What the scheduler guarantees of the requests it runs in a decode batch: they are live, hold a row of the
  table, have room for a token, and a deterministic one has not filled its verification window.\<close>

definition decodable :: "req_to_token_pool \<Rightarrow> nat \<Rightarrow> req \<Rightarrow> bool" where
  "decodable p w r \<longleftrightarrow>
     \<not> finished r \<and> \<not> is_retracted r \<and>
     (is_deterministic r \<longrightarrow>
        \<not> completed r \<and> has_room r \<and> origin_input_ids r \<noteq> [] \<and>
        (case req_pool_idx r of Some i \<Rightarrow> i < rt_size p | None \<Rightarrow> False) \<and>
        seqlen r \<le> max_context_len p \<and> length (output_ids r) < llm42_verified_tokens r + w)"

definition decode_ready :: "fixed_pool \<Rightarrow> ref set \<Rightarrow> token list \<Rightarrow> sched \<Rightarrow> bool" where
  "decode_ready fp R toks S \<longleftrightarrow>
     (let s = sc_sys S; xs = b_reqs (s_batch s)
      in fixed_mode (s_worker s) fp \<and> 0 < fp_fixed_size fp \<and> batch_ok (s_batch s) \<and> distinct xs \<and>
         length toks = length xs \<and> (set xs \<union> R) \<inter> set (grammar_queue S) = {} \<and>
         (\<forall>x \<in> set xs. decodable (s_pool s) (window_size (s_worker s)) (sc_store S x) \<and>
            (is_deterministic (sc_store S x) \<longrightarrow> x \<in> R)) \<and>
         (\<forall>x \<in> R. \<forall>y \<in> set xs. rid (sc_store S y) = rid (sc_store S x) \<longrightarrow> y = x))"

text \<open>The invariant of a request and its stream: the tokens sent under its id are the reference output as far as
  the request records them as sent.\<close>

definition stream_inv :: "(token list \<Rightarrow> token) \<Rightarrow> sched \<Rightarrow> ref \<Rightarrow> bool" where
  "stream_inv ref S x \<longleftrightarrow>
     tracked ref (sc_store S x) \<and>
     streamed (rid (sc_store S x)) (sent S) =
       ref_gen ref (origin_input_ids (sc_store S x)) (send_token_offset (sc_store S x))"

lemma decoded_round_ok:
  assumes ready: "decode_ready fp R toks S" and fr: "same_frame S S1"
    and idt: "\<And>x. identity (sc_store S1 x) = identity (sc_store S x)"
    and dec: "\<And>x. x \<in> set (b_reqs (s_batch (sc_sys S))) \<Longrightarrow> is_deterministic (sc_store S x) \<Longrightarrow>
      decode_step (sc_store S x) (sc_store S1 x)"
  shows "round_ok (sc_sys S1) fp"
proof -
  let ?B = "b_reqs (s_batch (sc_sys S))" and ?w = "window_size (s_worker (sc_sys S))" and ?p = "s_pool (sc_sys S)"
  have f: "s_worker (sc_sys S1) = s_worker (sc_sys S)" "s_batch (sc_sys S1) = s_batch (sc_sys S)"
    "rt_size (s_pool (sc_sys S1)) = rt_size ?p" "max_context_len (s_pool (sc_sys S1)) = max_context_len ?p"
    using fr by (simp_all add: same_frame_def)
  have "fits_window ?p ?w (sc_store S1 x)" if x: "x \<in> set ?B" "needs_verification (sc_store S1 x)" for x
  proof -
    have det: "is_deterministic (sc_store S x)" using x(2) idt [of x] by (simp add: needs_verification_def identity_def)
    note d = decode_step_fields [OF dec [OF x(1) det]]
    have "decodable ?p ?w (sc_store S x)" using ready x(1) by (auto simp: decode_ready_def Let_def)
    then have "origin_input_ids (sc_store S x) \<noteq> []" "seqlen (sc_store S x) \<le> max_context_len ?p"
      "case req_pool_idx (sc_store S x) of Some i \<Rightarrow> i < rt_size ?p | None \<Rightarrow> False"
      "length (output_ids (sc_store S x)) < llm42_verified_tokens (sc_store S x) + ?w"
      using det by (simp_all add: decodable_def)
    then show ?thesis
      using d x(2) by (auto simp: fits_window_def replayable_def unverified_def seqlen_def needs_verification_def)
  qed
  then have "\<forall>x \<in> set ?B. needs_verification (sc_store S1 x) \<longrightarrow> fits_window (s_pool (sc_sys S1)) ?w (sc_store S1 x)"
    using fits_window_shape [OF f(3,4)] by simp
  then show ?thesis using ready by (simp add: round_ok_def f decode_ready_def Let_def)
qed

lemma stream_output_frame:
  assumes "stream_output_generation C E rl skip idle xs S = Inr S'"
  shows "s_worker (sc_sys S') = s_worker (sc_sys S)" "s_batch (sc_sys S') = s_batch (sc_sys S)"
    "s_pool (sc_sys S') = s_pool (sc_sys S)" "grammar_queue S' = grammar_queue S"
  using assms by (auto simp: stream_output_generation_def set_store_def split: if_splits)

lemma stream_output_inv:
  assumes s: "stream_output_generation C E rl skip idle xs S = Inr S'" and c: "enable_llm42 C" "distinct xs"
    and inv: "stream_inv ref S x" and u: "\<forall>y \<in> set xs. rid (sc_store S y) = rid (sc_store S x) \<longrightarrow> y = x"
  shows "\<exists>es. stream_step ref (sc_store S x) es (sc_store S' x)" "stream_inv ref S' x"
proof -
  let ?r = "sc_store S x"
  obtain es h where l: "stream_loop C E rl skip (sc_store S) xs = Inr (es, h)"
    and S': "S' = (set_store h S)\<lparr>sent := sent S @ (if xs \<noteq> [] \<or> idle then [BatchTokenIDOutput es] else [])\<rparr>"
    using s by (auto simp: stream_output_generation_def)
  let ?es = "filter (\<lambda>e. o_rid e = rid ?r) es"
  have t: "tracked ref ?r" using inv by (simp add: stream_inv_def)
  have st: "stream_step ref ?r ?es (h x)"
  proof (cases "x \<in> set xs")
    case True
    then show ?thesis by (rule stream_loop_step [OF l c _ t u])
  next
    case False
    have "?es = []" using stream_loop_rids [OF l c(2)] u False by (force simp: filter_empty_conv)
    then show ?thesis using stream_loop_other [OF l False] stream_step_refl [OF t] by simp
  qed
  have h: "sc_store S' = h" by (simp add: S' set_store_def)
  show "\<exists>es. stream_step ref ?r es (sc_store S' x)" using st h by blast
  have "xs = [] \<Longrightarrow> es = []" using l by auto
  then have "streamed (rid ?r) (sent S') = streamed (rid ?r) (sent S) @ concat (map o_output_ids ?es)"
    by (auto simp: S' streamed_def entries_of_def)
  then show "stream_inv ref S' x" using st inv by (simp add: h stream_inv_def stream_step_def)
qed

lemma decode_loop_tracked:
  assumes ready: "decode_ready fp R toks S" and inv: "tracked ref (sc_store S x)" "x \<in> R"
    and gq: "\<And>x. x \<notin> set (grammar_queue S) \<Longrightarrow> x \<notin> set (b_reqs (s_batch (sc_sys S))) \<Longrightarrow>
      quiet (sc_store S x) (sc_store S1 x)"
    and dec: "\<And>x. x \<in> set (b_reqs (s_batch (sc_sys S))) \<Longrightarrow> is_deterministic (sc_store S x) \<Longrightarrow>
      decode_step (sc_store S x) (sc_store S1 x)"
  shows "tracked ref (sc_store S1 x)" "send_token_offset (sc_store S1 x) = send_token_offset (sc_store S x)"
    "origin_input_ids (sc_store S1 x) = origin_input_ids (sc_store S x)"
    "x \<in> set (b_reqs (s_batch (sc_sys S))) \<Longrightarrow> in_flight (window_size (s_worker (sc_sys S))) (sc_store S1 x) \<and>
     potential (window_size (s_worker (sc_sys S))) (sc_store S1 x) = Suc (potential (window_size (s_worker (sc_sys S))) (sc_store S x))"
    "x \<notin> set (b_reqs (s_batch (sc_sys S))) \<Longrightarrow> potential w (sc_store S1 x) = potential w (sc_store S x)"
proof -
  let ?r = "sc_store S x" and ?r1 = "sc_store S1 x"
  let ?w = "window_size (s_worker (sc_sys S))"
  have det: "is_deterministic ?r" and ver: "llm42_verified_tokens ?r \<le> length (output_ids ?r)"
    using inv by (simp_all add: tracked_def ref_ok_def)
  have live: "has_room ?r" "req_pool_idx ?r \<noteq> None" "\<not> is_retracted ?r" "\<not> completed ?r" "0 < ?w"
    "length (output_ids ?r) < llm42_verified_tokens ?r + ?w"
    if "x \<in> set (b_reqs (s_batch (sc_sys S)))"
  proof -
    from that ready have d: "decodable (s_pool (sc_sys S)) ?w ?r" by (auto simp: decode_ready_def Let_def)
    then show "has_room ?r" "req_pool_idx ?r \<noteq> None" "\<not> is_retracted ?r" "\<not> completed ?r"
      using det by (auto simp: decodable_def split: option.splits)
    show "length (output_ids ?r) < llm42_verified_tokens ?r + ?w" using d det by (auto simp: decodable_def)
    then show "0 < ?w" using ver by simp
  qed
  have "tracked ref ?r1 \<and> send_token_offset ?r1 = send_token_offset ?r \<and> origin_input_ids ?r1 = origin_input_ids ?r"
  proof (cases "x \<in> set (b_reqs (s_batch (sc_sys S)))")
    case True
    then show ?thesis
      using decode_step_tracked [OF inv(1) live(1) dec [OF True det]] decode_step_fields [OF dec [OF True det]] by simp
  next
    case False
    have "x \<notin> set (grammar_queue S)" using ready inv(2) by (auto simp: decode_ready_def Let_def)
    note q = gq [OF this False]
    then show ?thesis using tracked_quiet [OF q] inv(1) by (simp add: quiet_def)
  qed
  then show "tracked ref ?r1" "send_token_offset ?r1 = send_token_offset ?r" "origin_input_ids ?r1 = origin_input_ids ?r"
    by blast+
  have ng: "x \<notin> set (grammar_queue S)" using ready inv(2) by (auto simp: decode_ready_def Let_def)
  show "potential w ?r1 = potential w ?r" if "x \<notin> set (b_reqs (s_batch (sc_sys S)))"
    using gq [OF ng that] by (simp add: quiet_def potential_def)
  show "in_flight ?w ?r1 \<and> potential ?w ?r1 = Suc (potential ?w ?r)" if x: "x \<in> set (b_reqs (s_batch (sc_sys S)))"
  proof -
    have "is_deterministic ?r1" using \<open>tracked ref ?r1\<close> by (simp add: tracked_def)
    then show ?thesis
      using decode_step_fields [OF dec [OF x det]] live [OF x] ver
      by (simp add: in_flight_def needs_verification_def potential_def)
  qed
qed

lemma verified_stream_frame:
  assumes ok: "round_ok (sc_sys S1) fp"
    and v: "sound_verifier ref fwd (s_pool (sc_sys S1)) (window_size (s_worker (sc_sys S1)))"
    and S2: "verify_step E ed fl fwd S1 = Some (Inr S2)"
    and S3: "stream_output_generation C E rl skip idle (b_reqs (s_batch (sc_sys S1))) S2 = Inr S3"
  shows "step_frame fp S1 S3"
  using verify_step_spec [OF ok v, of E ed fl] S2 stream_output_frame [OF S3] by (simp add: step_frame_def)

lemma verified_stream_inv:
  assumes ok: "round_ok (sc_sys S1) fp"
    and v: "sound_verifier ref fwd (s_pool (sc_sys S1)) (window_size (s_worker (sc_sys S1)))"
    and S2: "verify_step E ed fl fwd S1 = Some (Inr S2)" and llm: "enable_llm42 C"
    and S3: "stream_output_generation C E rl skip idle (b_reqs (s_batch (sc_sys S1))) S2 = Inr S3"
    and inv: "stream_inv ref S1 x"
    and u: "\<forall>y \<in> set (b_reqs (s_batch (sc_sys S1))). rid (sc_store S1 y) = rid (sc_store S1 x) \<longrightarrow> y = x"
  shows "stream_inv ref S3 x" "rid (sc_store S3 x) = rid (sc_store S1 x)"
    "origin_input_ids (sc_store S3 x) = origin_input_ids (sc_store S1 x)"
    "x \<in> set (b_reqs (s_batch (sc_sys S1))) \<Longrightarrow> in_flight (window_size (s_worker (sc_sys S1))) (sc_store S1 x) \<Longrightarrow>
     in_window (window_size (s_worker (sc_sys S1))) (sc_store S3 x) \<and>
     potential (window_size (s_worker (sc_sys S1))) (sc_store S1 x) \<le>
       potential (window_size (s_worker (sc_sys S1))) (sc_store S3 x)"
    "x \<notin> set (b_reqs (s_batch (sc_sys S1))) \<Longrightarrow> potential w (sc_store S3 x) = potential w (sc_store S1 x)"
proof -
  let ?B = "b_reqs (s_batch (sc_sys S1))" and ?w = "window_size (s_worker (sc_sys S1))"
  from verify_step_spec [OF ok v, of E ed fl] S2 have
    sent: "\<And>i. streamed i (sent S2) = streamed i (sent S1)"
    and q: "\<And>x. x \<notin> set ?B \<Longrightarrow> quiet (sc_store S1 x) (sc_store S2 x)"
    and st: "\<And>x. x \<in> set ?B \<Longrightarrow> verified_step ref (s_worker (sc_sys S1)) (sc_store S1 x) (sc_store S2 x)"
    by simp_all
  have t: "tracked ref (sc_store S1 x)" using inv by (simp add: stream_inv_def)
  have x2: "tracked ref (sc_store S2 x) \<and> send_token_offset (sc_store S2 x) = send_token_offset (sc_store S1 x) \<and>
     origin_input_ids (sc_store S2 x) = origin_input_ids (sc_store S1 x) \<and> rid (sc_store S2 x) = rid (sc_store S1 x)"
  proof (cases "x \<in> set ?B")
    case True
    then show ?thesis using verified_step_tracked [OF st [OF True] t] by simp
  next
    case False
    then show ?thesis using q [OF False] tracked_quiet [OF q [OF False]] t by (simp add: quiet_def)
  qed
  have "rid (sc_store S2 y) = rid (sc_store S1 y)" if "y \<in> set ?B" for y
    using verified_step_identity [OF st [OF that]] by (simp add: identity_def)
  then have u2: "\<forall>y \<in> set ?B. rid (sc_store S2 y) = rid (sc_store S2 x) \<longrightarrow> y = x" using u x2 by simp
  have "distinct ?B" using ok by (simp add: round_ok_def)
  moreover have "stream_inv ref S2 x" using inv x2 sent by (simp add: stream_inv_def)
  ultimately obtain es where i3: "stream_inv ref S3 x" and s3: "stream_step ref (sc_store S2 x) es (sc_store S3 x)"
    using stream_output_inv [OF S3 llm _ _ u2] by blast
  have p: "potential k (sc_store S3 x) = potential k (sc_store S2 x)" for k
    using s3 by (simp add: stream_step_def potential_def)
  show "stream_inv ref S3 x" by (rule i3)
  show "rid (sc_store S3 x) = rid (sc_store S1 x)" "origin_input_ids (sc_store S3 x) = origin_input_ids (sc_store S1 x)"
    using s3 x2 by (simp_all add: stream_step_def)
  show "potential w (sc_store S3 x) = potential w (sc_store S1 x)" if "x \<notin> set ?B"
    using q [OF that] p by (simp add: quiet_def potential_def)
  show "in_window ?w (sc_store S3 x) \<and> potential ?w (sc_store S1 x) \<le> potential ?w (sc_store S3 x)"
    if x: "x \<in> set ?B" and n: "in_flight ?w (sc_store S1 x)"
  proof
    have "in_window ?w (sc_store S2 x)"
      using verified_step_window [OF st [OF x] t] n by (simp add: in_flight_def)
    then show "in_window ?w (sc_store S3 x)"
      using s3 by (simp add: in_window_def stream_step_def finished_def has_room_def)
    show "potential ?w (sc_store S1 x) \<le> potential ?w (sc_store S3 x)"
      using verified_step_potential [OF st [OF x]] n p by (simp add: in_flight_def)
  qed
qed

text \<open>The effect of a decode step on a tracked request.\<close>

definition decode_effect :: "(token list \<Rightarrow> token) \<Rightarrow> nat \<Rightarrow> sched \<Rightarrow> sched \<Rightarrow> ref \<Rightarrow> bool" where
  "decode_effect ref w S S' x \<longleftrightarrow>
     stream_inv ref S' x \<and> rid (sc_store S' x) = rid (sc_store S x) \<and>
     origin_input_ids (sc_store S' x) = origin_input_ids (sc_store S x) \<and>
     (if x \<in> set (b_reqs (s_batch (sc_sys S)))
      then in_window w (sc_store S' x) \<and> potential w (sc_store S x) < potential w (sc_store S' x)
      else potential w (sc_store S' x) = potential w (sc_store S x))"

text \<open>From the end of the loop over the batch to the end of the step.\<close>

lemma decode_effect_after_loop:
  assumes ready: "decode_ready fp R toks S" and llm: "enable_llm42 C"
    and v: "sound_verifier ref fwd (s_pool (sc_sys S)) (window_size (s_worker (sc_sys S)))"
    and fr: "same_frame S S1"
    and loop: "(\<forall>x. identity (sc_store S1 x) = identity (sc_store S x)) \<and>
      (\<forall>x. x \<notin> set (grammar_queue S) \<longrightarrow> x \<notin> set (b_reqs (s_batch (sc_sys S))) \<longrightarrow> quiet (sc_store S x) (sc_store S1 x)) \<and>
      (\<forall>x \<in> set (b_reqs (s_batch (sc_sys S))). is_deterministic (sc_store S x) \<longrightarrow> decode_step (sc_store S x) (sc_store S1 x))"
  shows "\<exists>res. verify_step E ed fl fwd S1 = Some res"
    "verify_step E ed fl fwd S1 = Some (Inr S2) \<Longrightarrow>
     stream_output_generation C E rl skip idle (b_reqs (s_batch (sc_sys S))) S2 = Inr S3 \<Longrightarrow> step_frame fp S S3"
    "verify_step E ed fl fwd S1 = Some (Inr S2) \<Longrightarrow>
     stream_output_generation C E rl skip idle (b_reqs (s_batch (sc_sys S))) S2 = Inr S3 \<Longrightarrow>
     x \<in> R \<Longrightarrow> stream_inv ref S x \<Longrightarrow> decode_effect ref (window_size (s_worker (sc_sys S))) S S3 x"
proof -
  let ?b = "s_batch (sc_sys S)" and ?w = "window_size (s_worker (sc_sys S))"
  have idt: "\<And>x. identity (sc_store S1 x) = identity (sc_store S x)"
    and gq: "\<And>x. x \<notin> set (grammar_queue S) \<Longrightarrow> x \<notin> set (b_reqs ?b) \<Longrightarrow> quiet (sc_store S x) (sc_store S1 x)"
    and dec: "\<And>x. x \<in> set (b_reqs ?b) \<Longrightarrow> is_deterministic (sc_store S x) \<Longrightarrow> decode_step (sc_store S x) (sc_store S1 x)"
    using loop by blast+
  have f1: "s_batch (sc_sys S1) = ?b" "s_worker (sc_sys S1) = s_worker (sc_sys S)"
    "rt_size (s_pool (sc_sys S1)) = rt_size (s_pool (sc_sys S))"
    "max_context_len (s_pool (sc_sys S1)) = max_context_len (s_pool (sc_sys S))"
    "grammar_queue S1 = grammar_queue S" "\<And>i. streamed i (sent S1) = streamed i (sent S)"
    using fr by (simp_all add: same_frame_def)
  have ok: "round_ok (sc_sys S1) fp" by (rule decoded_round_ok [OF ready fr idt dec])
  have v1: "sound_verifier ref fwd (s_pool (sc_sys S1)) (window_size (s_worker (sc_sys S1)))"
    using v sound_verifier_shape [OF f1(3,4)] f1(2) by simp
  show "\<exists>res. verify_step E ed fl fwd S1 = Some res" using verify_step_spec [OF ok v1, of E ed fl] by metis
  assume S2: "verify_step E ed fl fwd S1 = Some (Inr S2)"
    and S3: "stream_output_generation C E rl skip idle (b_reqs ?b) S2 = Inr S3"
  show "step_frame fp S S3"
    using verified_stream_frame [OF ok v1 S2 S3 [folded f1(1)]] f1 by (simp add: step_frame_def)
  assume x: "x \<in> R" and inv: "stream_inv ref S x"
  have rids: "\<And>y. rid (sc_store S1 y) = rid (sc_store S y)" using idt by (simp add: identity_def)
  have t: "tracked ref (sc_store S x)" using inv by (simp add: stream_inv_def)
  note d = decode_loop_tracked [OF ready t x gq dec]
  have "stream_inv ref S1 x" using inv d rids f1(6) by (simp add: stream_inv_def)
  moreover have "\<forall>y \<in> set (b_reqs (s_batch (sc_sys S1))). rid (sc_store S1 y) = rid (sc_store S1 x) \<longrightarrow> y = x"
    using ready x rids f1(1) by (simp add: decode_ready_def Let_def)
  ultimately have e: "stream_inv ref S3 x" "rid (sc_store S3 x) = rid (sc_store S1 x)"
    "origin_input_ids (sc_store S3 x) = origin_input_ids (sc_store S1 x)"
    "x \<in> set (b_reqs ?b) \<Longrightarrow> in_flight ?w (sc_store S1 x) \<Longrightarrow>
     in_window ?w (sc_store S3 x) \<and> potential ?w (sc_store S1 x) \<le> potential ?w (sc_store S3 x)"
    "x \<notin> set (b_reqs ?b) \<Longrightarrow> potential ?w (sc_store S3 x) = potential ?w (sc_store S1 x)"
    using verified_stream_inv [OF ok v1 S2 llm S3 [folded f1(1)]] f1(1,2) by simp_all
  show "decode_effect ref ?w S S3 x"
    using e d(3-5) rids by (simp add: decode_effect_def Suc_le_eq)
qed

lemma decode_result_spec:
  assumes ready: "decode_ready fp R toks S" and llm: "enable_llm42 C"
    and v: "sound_verifier ref fwd (s_pool (sc_sys S)) (window_size (s_worker (sc_sys S)))"
    and inv: "\<forall>x \<in> R. stream_inv ref S x"
  shows "\<exists>res. process_batch_result_decode C E ed fl fwd lg toks S = Some res \<and>
     (\<forall>S'. res = Inr S' \<longrightarrow> step_frame fp S S' \<and>
        (\<forall>x \<in> R. decode_effect ref (window_size (s_worker (sc_sys S))) S S' x))"
proof -
  let ?b = "s_batch (sc_sys S)" and ?w = "window_size (s_worker (sc_sys S))"
  let ?B = "b_reqs ?b" and ?bad = "b_return_logprob (s_batch (sc_sys S)) \<and> next_token_logprobs lg = None"
  let ?S0 = "(set_alloc (free_group_begin (s_alloc (sc_sys S))) S)\<lparr>num_generated_tokens := num_generated_tokens S + length ?B\<rparr>"
  have S0: "sc_store ?S0 = sc_store S" "same_frame S ?S0" "grammar_queue ?S0 = grammar_queue S"
    by (simp_all add: set_alloc_def same_frame_def)
  have r: "distinct ?B" "length toks = length ?B" "set ?B \<inter> set (grammar_queue S) = {}"
    "\<forall>x \<in> set ?B. \<not> finished (sc_store S x) \<and> \<not> is_retracted (sc_store S x)"
    using ready unfolding decode_ready_def Let_def decodable_def by blast+
  have fst: "map fst (zip ?B toks) = ?B" using r(2) by simp
  show ?thesis
  proof (cases "if ?bad then Inl AttributeError else process_decode_loop C E (b_return_logprob ?b) lg 0 (zip ?B toks) ?S0")
    case (Inl e)
    then show ?thesis by (cases ?bad) (simp_all add: process_batch_result_decode_def Let_def)
  next
    case (Inr S1)
    then have lp: "\<not> ?bad" and loop: "process_decode_loop C E (b_return_logprob ?b) lg 0 (zip ?B toks) ?S0 = Inr S1"
      by (simp_all split: if_splits)
    have l: "same_frame ?S0 S1" "(\<forall>x. identity (sc_store S1 x) = identity (sc_store S x)) \<and>
      (\<forall>x. x \<notin> set (grammar_queue S) \<longrightarrow> x \<notin> set ?B \<longrightarrow> quiet (sc_store S x) (sc_store S1 x)) \<and>
      (\<forall>x \<in> set ?B. is_deterministic (sc_store S x) \<longrightarrow> decode_step (sc_store S x) (sc_store S1 x))"
      using process_decode_loop_spec [OF loop llm] r(1,3,4) unfolding fst S0 by simp_all
    note after = decode_effect_after_loop [OF ready llm v same_frame_trans [OF S0(2) l(1)] l(2)]
    obtain res where vs: "verify_step E ed fl fwd S1 = Some res" using after(1) by blast
    let ?fin = "\<lambda>S2. bind_result (stream_output_generation C E (b_return_logprob ?b) None False ?B S2) (\<lambda>S3.
         bind_result (free_group_end (s_alloc (sc_sys S3))) (\<lambda>a.
           Inr ((set_alloc a S3)\<lparr>forward_ct_decode := (forward_ct_decode S3 + 1) mod 2 ^ 30\<rparr>)))"
    have eq: "process_batch_result_decode C E ed fl fwd lg toks S = Some (bind_result res ?fin)"
      using loop llm vs lp by (simp only: process_batch_result_decode_def Let_def if_False if_True sum.case option.map)
    have "step_frame fp S S' \<and> (\<forall>x \<in> R. decode_effect ref ?w S S' x)" if b: "bind_result res ?fin = Inr S'" for S'
    proof -
      obtain S2 S3 a where res: "res = Inr S2"
        and S3: "stream_output_generation C E (b_return_logprob ?b) None False ?B S2 = Inr S3"
        and S': "S' = (set_alloc a S3)\<lparr>forward_ct_decode := (forward_ct_decode S3 + 1) mod 2 ^ 30\<rparr>"
        using b by (cases res) auto
      have "step_frame fp S S3" "\<forall>x \<in> R. decode_effect ref ?w S S3 x"
        using after(2,3) [OF vs [unfolded res] S3] inv by simp_all
      moreover have e: "sc_store S' = sc_store S3" "sent S' = sent S3" by (simp_all add: S' set_alloc_def)
      have "decode_effect ref ?w S S' x = decode_effect ref ?w S S3 x" for x
        by (simp only: decode_effect_def stream_inv_def e)
      ultimately show ?thesis by (simp add: S' step_frame_def set_alloc_def)
    qed
    then show ?thesis using eq by blast
  qed
qed

text \<open>The one-request system of the earlier examples inside a scheduler; its next sampled token fills the window.\<close>

definition example_conf :: conf where
  "example_conf = \<lparr>enable_llm42 = True, enable_overlap = False, server_stream_interval = 1,
     conf_scoring = \<lparr>multi_item_scoring_delimiter = None, model_vocab_size = 32000\<rparr>\<rparr>"

definition example_logits :: logits_output where
  "example_logits = \<lparr>next_token_logprobs = None, next_token_top_logprobs_val = [], next_token_top_logprobs_idx = [],
     next_token_token_ids_logprobs_val = None, next_token_token_ids_logprobs_idx = [], lo_input_token_logprobs = None,
     lo_input_top_logprobs_val = [], lo_input_top_logprobs_idx = [], lo_input_token_ids_logprobs_val = [],
     lo_input_token_ids_logprobs_idx = []\<rparr>"

definition example_sched :: sched where
  "example_sched = \<lparr>sc_sys = example_sys, waiting_queue = [], grammar_queue = [], running_reqs = [0], cur_reqs = None,
     num_generated_tokens = 0, forward_ct_decode = 0, sent = []\<rparr>"

lemma example_sched_ready: "decode_ready (the (fixed_pool_of (s_worker example_sys))) {0} [t] example_sched"
proof -
  have c: "sc_sys example_sched = example_sys" "grammar_queue example_sched = []" "b_reqs (s_batch example_sys) = [0]"
    by (simp_all add: example_sched_def) code_simp
  have "max_new_tokens (sampling_params (s_store example_sys 0)) = Some 128" "length (output_ids (s_store example_sys 0)) = 4"
    by code_simp+
  then have "has_room (s_store example_sys 0)" by (simp add: has_room_def)
  moreover have "\<not> finished (s_store example_sys 0) \<and> \<not> is_retracted (s_store example_sys 0) \<and>
      \<not> completed (s_store example_sys 0) \<and> origin_input_ids (s_store example_sys 0) \<noteq> [] \<and>
      (case req_pool_idx (s_store example_sys 0) of Some i \<Rightarrow> i < rt_size (s_pool example_sys) | None \<Rightarrow> False) \<and>
      seqlen (s_store example_sys 0) \<le> max_context_len (s_pool example_sys) \<and>
      length (output_ids (s_store example_sys 0)) < llm42_verified_tokens (s_store example_sys 0) + window_size (s_worker example_sys)"
    by code_simp
  ultimately have d: "decodable (s_pool example_sys) (window_size (s_worker example_sys)) (s_store example_sys 0)"
    by (simp add: decodable_def)
  have "0 < fp_fixed_size (the (fixed_pool_of (s_worker example_sys)))" by code_simp
  note d = d this
  show ?thesis using d example_sys_mode example_sys_batch_ok by (simp add: decode_ready_def c)
qed

lemma digit_bounds: "0 \<le> digit_ref xs" "digit_ref xs \<le> 32000"
  by (simp_all add: digit_ref_def order_less_imp_le)

lemma example_stream_inv: "stream_inv digit_ref example_sched 0"
proof -
  have c: "sc_sys example_sched = example_sys" "sent example_sched = []" by (simp_all add: example_sched_def)
  let ?r = "s_store example_sys 0"
  have r: "is_deterministic ?r" "sp_is_deterministic (sampling_params ?r)" "ref_ok digit_ref ?r"
    "send_token_offset ?r = 0" "max_new_tokens (sampling_params ?r) = Some 128" "length (output_ids ?r) = 4"
    "finished_len ?r = None" "vocab_size ?r = Some 32000" by code_simp+
  show ?thesis using r digit_bounds by (simp add: stream_inv_def tracked_def c streamed_def)
qed

lemma example_decode:
  assumes "t = 11 \<or> t = 99"
  shows "\<exists>S'. process_batch_result_decode example_conf example_env True id digit_verifier example_logits [t] example_sched =
     Some (Inr S') \<and> send_token_offset (sc_store S' 0) = 3"
proof -
  let ?res = "\<lambda>t. process_batch_result_decode example_conf example_env True id digit_verifier example_logits [t] example_sched"
  have "(case ?res 11 of Some (Inr S') \<Rightarrow> send_token_offset (sc_store S' 0) = 3 | _ \<Rightarrow> False)"
    "(case ?res 99 of Some (Inr S') \<Rightarrow> send_token_offset (sc_store S' 0) = 3 | _ \<Rightarrow> False)" by code_simp+
  then have "(case ?res t of Some (Inr S') \<Rightarrow> send_token_offset (sc_store S' 0) = 3 | _ \<Rightarrow> False)" using assms by blast
  then show ?thesis by (auto split: option.splits sum.splits)
qed

text \<open>C2. Decode results are processed so that only reference tokens reach the client.  When LLM-42 is enabled in fixed-size mode, a
  decode batch has unfinished requests that are not retracted, hold rows with room and have open windows, the
  verifier predicts \<open>ref\<close> of a request's tokens from those in the KV cache and the replayed window, and the invariant of the
  streams holds, the processing terminates; unless it raises, the tokens sent for each tracked request are the reference output for its prompt up
  to the number of tokens recorded as sent, and every deterministic request of the batch is left with an open
  window and has made progress.\<close>

theorem decode_streams_only_reference:
  assumes "decode_ready fp R toks S" "enable_llm42 C"
    and "sound_verifier ref fwd (s_pool (sc_sys S)) (window_size (s_worker (sc_sys S)))"
    and "\<forall>x \<in> R. stream_inv ref S x"
  shows "\<exists>res. process_batch_result_decode C E ed fl fwd lg toks S = Some res \<and>
     (\<forall>S'. res = Inr S' \<longrightarrow> (\<forall>x \<in> R. tracked ref (sc_store S' x) \<and>
        streamed (rid (sc_store S x)) (sent S') =
          ref_gen ref (origin_input_ids (sc_store S x)) (send_token_offset (sc_store S' x)) \<and>
        (x \<in> set (b_reqs (s_batch (sc_sys S))) \<longrightarrow>
           in_window (window_size (s_worker (sc_sys S))) (sc_store S' x) \<and>
           potential (window_size (s_worker (sc_sys S))) (sc_store S x) <
             potential (window_size (s_worker (sc_sys S))) (sc_store S' x))))"
proof -
  obtain res where res: "process_batch_result_decode C E ed fl fwd lg toks S = Some res"
    "\<And>S' x. res = Inr S' \<Longrightarrow> x \<in> R \<Longrightarrow> decode_effect ref (window_size (s_worker (sc_sys S))) S S' x"
    using decode_result_spec [OF assms] by metis
  show ?thesis
    by (intro exI [of _ res] conjI res(1) allI impI ballI)
      (use res(2) in \<open>force simp: decode_effect_def stream_inv_def\<close>)+
qed

theorem decode_streams_only_reference_witness:
  "decode_ready (the (fixed_pool_of (s_worker example_sys))) {0} [11] example_sched \<and>
   sound_verifier digit_ref digit_verifier (s_pool example_sys) (window_size (s_worker example_sys)) \<and>
   (\<exists>S'. process_batch_result_decode example_conf example_env True id digit_verifier example_logits [11] example_sched =
        Some (Inr S') \<and> send_token_offset (sc_store S' 0) = 3 \<and> streamed ''a'' (sent S') = ref_gen digit_ref [11, 12, 13] 3)"
proof -
  let ?res = "process_batch_result_decode example_conf example_env True id digit_verifier example_logits [11] example_sched"
  have c: "sc_sys example_sched = example_sys" "enable_llm42 example_conf"
    by (simp_all add: example_sched_def example_conf_def)
  obtain S' where S': "?res = Some (Inr S')" "send_token_offset (sc_store S' 0) = 3" using example_decode [of 11] by blast
  have r: "rid (s_store example_sys 0) = ''a''" "origin_input_ids (s_store example_sys 0) = [11, 12, 13]" by code_simp+
  have "streamed ''a'' (sent S') = ref_gen digit_ref [11, 12, 13] 3"
    using decode_streams_only_reference [OF example_sched_ready [of 11] c(2), of digit_ref digit_verifier example_env True id
      example_logits] example_stream_inv model_sound S' r by (simp add: c)
  then show ?thesis using S' example_sched_ready model_sound by blast
qed

end
