(* ===== verification/Prefill_Step.thy ===== *)
theory Prefill_Step
  imports Decode_Step
begin

text \<open>\<open>process_batch_result_prefill\<close> of \<open>src/python/sglang/srt/managers/scheduler_output_processor_mixin.py\<close> as a step
  on the requests.  The first output token of a deterministic request is marked as verified; the invariant of its
  stream holds when that token is the one the reference decoder gives for the prompt, which the code ensures by
  prefilling such a request in a batch of its own.\<close>

section \<open>One request\<close>

lemma prefill_logprobs_quiet: "prefill_logprobs C rl lg starts lens i t r pt = Inr (r', pt') \<Longrightarrow> quiet r r'"
  by (cases "return_logprob r") (auto simp: prefill_logprobs_def Let_def dest: add_logprob_return_values_quiet split: if_splits)

lemma chunk_logprobs_quiet: "chunk_logprobs C rl lg starts lens i r pt = Inr (r', pt') \<Longrightarrow> quiet r r'"
  by (cases "return_logprob r") (auto simp: chunk_logprobs_def Let_def dest: add_input_logprobs_frame split: if_splits)

text \<open>The new token, marked as verified when it is the first one of a deterministic request.\<close>

definition first_marked :: "conf \<Rightarrow> req \<Rightarrow> token \<Rightarrow> req" where
  "first_marked C r t =
     (let r1 = r\<lparr>output_ids := output_ids r @ [t]\<rparr>
      in if is_deterministic r1 \<and> enable_llm42 C \<and> length (output_ids r1) = 1
         then r1\<lparr>llm42_verified_tokens := 1\<rparr> else r1)"

definition after_prefill :: "ref \<Rightarrow> req \<Rightarrow> sched \<Rightarrow> sched \<Rightarrow> bool" where
  "after_prefill y r3 S S1 \<longleftrightarrow>
     (\<exists>r4. quiet r3 r4 \<and> S1 = put_req y r4 S) \<or> release_req y (put_req y r3 S) = Inr S1"

lemma chunk_cache_unfinished_quiet: "chunk_cache_unfinished_req p r = Inr r' \<Longrightarrow> quiet r r'"
  by (auto simp: chunk_cache_unfinished_req_def split: option.splits)

lemma after_prefill_frame:
  assumes "after_prefill y r3 S S1"
  shows "same_frame S S1" "x \<noteq> y \<Longrightarrow> sc_store S1 x = sc_store S x"
    "quiet r3 (sc_store S1 y) \<or> sc_store S1 y = released r3"
  using assms release_req_spec [of y "put_req y r3 S" S1] same_frame_trans [OF put_req_simps(2)]
  by (auto simp: after_prefill_def)

lemma process_prefill_req_cases:
  assumes "process_prefill_req C E b lg starts lens i y t P = Inr P'"
  shows "P' = P \<or>
    (\<exists>n r. quiet ((sc_store (pf_sched P) y)\<lparr>is_chunked := n\<rparr>) r \<and> pf_sched P' = put_req y r (pf_sched P)) \<or>
    (\<exists>r3 S1 r5. \<not> finished (sc_store (pf_sched P) y) \<and> \<not> is_retracted (sc_store (pf_sched P) y) \<and>
       is_chunked (sc_store (pf_sched P) y) \<le> 0 \<and>
       check_finished E 1 (first_marked C (sc_store (pf_sched P) y) t) = Inr r3 \<and>
       after_prefill y r3 (pf_sched P) S1 \<and>
       quiet (sc_store S1 y) r5 \<and> accept_grammar E y t (put_req y r5 S1) = Inr (pf_sched P'))"
proof (cases "finished (sc_store (pf_sched P) y) \<or> is_retracted (sc_store (pf_sched P) y)")
  case True
  then show ?thesis using assms by (simp add: process_prefill_req_def Let_def)
next
  case run: False
  let ?S = "pf_sched P" and ?r = "sc_store (pf_sched P) y"
  show ?thesis
  proof (cases "is_chunked ?r \<le> 0")
    case False
    then obtain r1 pt where c: "chunk_logprobs C (b_return_logprob b) lg starts lens i
        (?r\<lparr>is_chunked := is_chunked ?r - 1\<rparr>) (logprob_pt P) = Inr (r1, pt)"
      and P': "pf_sched P' = put_req y r1 ?S" using assms run by (auto simp: process_prefill_req_def Let_def)
    from chunk_logprobs_quiet [OF c] P' show ?thesis by blast
  next
    case True
    let ?cache = "\<lambda>r3. if finished r3 then release_req y (put_req y r3 ?S)
        else if (case b_decoding_reqs b of None \<Rightarrow> True | Some ds \<Rightarrow> y \<notin> set ds)
        then bind_result (chunk_cache_unfinished_req (s_pool (sc_sys ?S)) r3) (\<lambda>r4. Inr (put_req y r4 ?S))
        else Inr (put_req y r3 ?S)"
    have eq: "process_prefill_req C E b lg starts lens i y t P = bind_result (check_finished E 1 (first_marked C ?r t)) (\<lambda>r3.
        bind_result (?cache r3) (\<lambda>S1.
        bind_result (prefill_logprobs C (b_return_logprob b) lg starts lens i t (sc_store S1 y) (logprob_pt P)) (\<lambda>(r5, pt).
        bind_result (accept_grammar E y t (put_req y r5 S1)) (\<lambda>S3. Inr (P\<lparr>pf_sched := S3, logprob_pt := pt\<rparr>)))))"
      using run True by (simp only: process_prefill_req_def first_marked_def Let_def if_False if_True)
    from assms [unfolded eq] obtain r3 S1 r5 pt where s: "check_finished E 1 (first_marked C ?r t) = Inr r3"
      "?cache r3 = Inr S1"
      "prefill_logprobs C (b_return_logprob b) lg starts lens i t (sc_store S1 y) (logprob_pt P) = Inr (r5, pt)"
      "accept_grammar E y t (put_req y r5 S1) = Inr (pf_sched P')"
      by (auto simp del: if_split)
    have "after_prefill y r3 ?S S1" unfolding after_prefill_def
      using s(2) by (auto split: if_splits option.splits dest: chunk_cache_unfinished_quiet)
    then show ?thesis using run True s(1,4) prefill_logprobs_quiet [OF s(3)] by blast
  qed
qed


lemma process_prefill_req_frame:
  assumes "process_prefill_req C E b lg starts lens i y t P = Inr P'"
  shows "same_frame (pf_sched P) (pf_sched P')"
    "x \<noteq> y \<Longrightarrow> x \<notin> set (grammar_queue (pf_sched P)) \<Longrightarrow> quiet (sc_store (pf_sched P) x) (sc_store (pf_sched P') x)"
proof -
  let ?S = "pf_sched P"
  have "same_frame ?S (pf_sched P') \<and> (x \<noteq> y \<longrightarrow> x \<notin> set (grammar_queue ?S) \<longrightarrow>
      quiet (sc_store ?S x) (sc_store (pf_sched P') x))"
    using process_prefill_req_cases [OF assms]
  proof (elim disjE exE conjE)
    fix r3 S1 r5
    assume c: "after_prefill y r3 ?S S1"
      and g: "accept_grammar E y t (put_req y r5 S1) = Inr (pf_sched P')"
    note S1 = after_prefill_frame(1,2) [OF c]
    have "same_frame S1 (pf_sched P')" by (rule same_frame_trans [OF put_req_simps(2) accept_grammar_frame [OF g]])
    moreover have "quiet (sc_store ?S x) (sc_store (pf_sched P') x)"
      if x: "x \<noteq> y" "x \<notin> set (grammar_queue ?S)"
      using accept_grammar_quiet [OF g, of x] S1 x by (simp add: same_frame_def)
    ultimately show ?thesis using same_frame_trans [OF S1(1)] by blast
  qed auto
  then show "same_frame ?S (pf_sched P')"
    "x \<noteq> y \<Longrightarrow> x \<notin> set (grammar_queue ?S) \<Longrightarrow> quiet (sc_store ?S x) (sc_store (pf_sched P') x)" by blast+
qed


text \<open>What a finished prefill needs of a request that gets its next token: room, and for the first token that it
  is the reference's.\<close>

definition prefill_ok :: "(token list \<Rightarrow> token) \<Rightarrow> req \<Rightarrow> token \<Rightarrow> bool" where
  "prefill_ok ref r t \<longleftrightarrow>
     (\<not> finished r \<longrightarrow> \<not> is_retracted r \<longrightarrow> is_chunked r \<le> 0 \<longrightarrow>
        has_room r \<and> (output_ids r = [] \<longrightarrow> t = ref (origin_input_ids r)))"

lemma prefill_ok_quiet: "quiet r r' \<Longrightarrow> prefill_ok ref r' t = prefill_ok ref r t"
  by (simp add: quiet_def prefill_ok_def finished_def has_room_def)

text \<open>The fields a client's stream depends on are kept, and no token is lost.\<close>

definition same_stream :: "req \<Rightarrow> req \<Rightarrow> bool" where
  "same_stream r r' \<longleftrightarrow>
     rid r' = rid r \<and> origin_input_ids r' = origin_input_ids r \<and> send_token_offset r' = send_token_offset r \<and>
     llm42_verified_tokens r \<le> llm42_verified_tokens r' \<and>
     length (output_ids r) - llm42_verified_tokens r \<le> length (output_ids r') - llm42_verified_tokens r'"

lemma same_stream_refl [simp]: "same_stream r r"
  by (simp add: same_stream_def)

lemma same_stream_trans: "same_stream r r' \<Longrightarrow> same_stream r' r'' \<Longrightarrow> same_stream r r''"
  by (simp add: same_stream_def)

lemma quiet_same_stream: "quiet r r' \<Longrightarrow> same_stream r r'"
  by (simp add: quiet_def same_stream_def)

lemma tracked_first_marked:
  assumes t: "tracked ref r" and "has_room r" "enable_llm42 C" and first: "output_ids r = [] \<longrightarrow> t = ref (origin_input_ids r)"
  shows "tracked ref (first_marked C r t)" "same_stream r (first_marked C r t)"
proof -
  let ?r1 = "r\<lparr>output_ids := output_ids r @ [t]\<rparr>"
  have t1: "tracked ref ?r1" by (rule tracked_append [OF assms(1,2)])
  show "tracked ref (first_marked C r t)"
  proof (cases "output_ids r = []")
    case True
    then have "tracked ref (?r1\<lparr>llm42_verified_tokens := 1\<rparr>)"
      using t t1 first by (simp add: tracked_def ref_ok_def)
    then show ?thesis using t True assms(3) by (simp add: first_marked_def tracked_def)
  next
    case False
    then show ?thesis using t1 by (simp add: first_marked_def)
  qed
  show "same_stream r (first_marked C r t)"
    using t by (auto simp: first_marked_def same_stream_def Let_def tracked_def ref_ok_def)
qed

lemma process_prefill_req_tracked:
  assumes p: "process_prefill_req C E b lg starts lens i y t P = Inr P'" and c: "enable_llm42 C"
    and t: "tracked ref (sc_store (pf_sched P) y)" and ok: "prefill_ok ref (sc_store (pf_sched P) y) t"
    and gq: "y \<notin> set (grammar_queue (pf_sched P))"
  shows "tracked ref (sc_store (pf_sched P') y) \<and> same_stream (sc_store (pf_sched P) y) (sc_store (pf_sched P') y)"
  using process_prefill_req_cases [OF p]
proof (elim disjE exE conjE)
  assume "P' = P"
  then show ?thesis using t by simp
next
  fix n r
  assume q: "quiet ((sc_store (pf_sched P) y)\<lparr>is_chunked := n\<rparr>) r" and P': "pf_sched P' = put_req y r (pf_sched P)"
  have "tracked ref ((sc_store (pf_sched P) y)\<lparr>is_chunked := n\<rparr>)" using t by (simp add: tracked_def ref_ok_def)
  then show ?thesis using tracked_quiet [OF q] quiet_same_stream [OF q] P' by (simp add: same_stream_def)
next
  let ?S = "pf_sched P" and ?r = "sc_store (pf_sched P) y"
  fix r3 S1 r5
  assume r: "\<not> finished ?r" "\<not> is_retracted ?r" "is_chunked ?r \<le> 0" "check_finished E 1 (first_marked C ?r t) = Inr r3"
    "after_prefill y r3 ?S S1" "quiet (sc_store S1 y) r5" "accept_grammar E y t (put_req y r5 S1) = Inr (pf_sched P')"
  note fm = tracked_first_marked [OF t _ c, of t]
  have "has_room ?r" "output_ids ?r = [] \<longrightarrow> t = ref (origin_input_ids ?r)" using ok r(1-3) by (simp_all add: prefill_ok_def)
  note fm = fm [OF this]
  note f3 = check_finished_step [OF r(4)]
  have 3: "tracked ref r3" "same_stream ?r r3"
    using tracked_finish_step(1) [OF fm(1) f3] fm(2) finish_step_fields [OF f3] by (simp_all add: same_stream_def)
  have 4: "tracked ref (sc_store S1 y) \<and> same_stream r3 (sc_store S1 y)"
    using after_prefill_frame(3) [OF r(5)]
  proof
    assume q: "quiet r3 (sc_store S1 y)"
    show ?thesis using tracked_quiet [OF q] 3(1) quiet_same_stream [OF q] by simp
  next
    assume "sc_store S1 y = released r3"
    then show ?thesis using 3(1) by (simp add: tracked_released) (simp add: same_stream_def released_def)
  qed
  have "y \<notin> set (grammar_queue (put_req y r5 S1))" using gq after_prefill_frame(1) [OF r(5)] by (simp add: same_frame_def)
  from accept_grammar_quiet [OF r(7) this] have q: "quiet (sc_store S1 y) (sc_store (pf_sched P') y)"
    using quiet_trans [OF r(6)] by simp
  show ?thesis
    using tracked_quiet [OF q] 4 same_stream_trans [OF same_stream_trans [OF 3(2)] quiet_same_stream [OF q]] by simp
qed


section \<open>The batch\<close>

lemma process_prefill_loop_tracked:
  assumes "process_prefill_loop C E b lg starts lens i zs P = Inr P'" "enable_llm42 C" "distinct (map fst zs)"
    and "x \<notin> set (grammar_queue (pf_sched P))" "tracked ref (sc_store (pf_sched P) x)"
    and "\<forall>t. (x, t) \<in> set zs \<longrightarrow> prefill_ok ref (sc_store (pf_sched P) x) t"
  shows "same_frame (pf_sched P) (pf_sched P') \<and> tracked ref (sc_store (pf_sched P') x) \<and>
    same_stream (sc_store (pf_sched P) x) (sc_store (pf_sched P') x)"
  using assms
proof (induction zs arbitrary: i P)
  case (Cons z zs)
  obtain y t where z: "z = (y, t)" by fastforce
  obtain P1 where p1: "process_prefill_req C E b lg starts lens i y t P = Inr P1"
    and p2: "process_prefill_loop C E b lg starts lens (Suc i) zs P1 = Inr P'" using Cons.prems(1) by (auto simp: z)
  note fr = process_prefill_req_frame [OF p1]
  have gq: "x \<notin> set (grammar_queue (pf_sched P1))" using fr(1) Cons.prems(4) by (simp add: same_frame_def)
  have d: "distinct (map fst zs)" using Cons.prems(3) by simp
  have x1: "tracked ref (sc_store (pf_sched P1) x) \<and> same_stream (sc_store (pf_sched P) x) (sc_store (pf_sched P1) x) \<and>
    (\<forall>t. (x, t) \<in> set zs \<longrightarrow> prefill_ok ref (sc_store (pf_sched P1) x) t)"
  proof (cases "x = y")
    case True
    have "(x, t') \<notin> set zs" for t' using Cons.prems(3) True by (force simp: z)
    then show ?thesis using process_prefill_req_tracked [OF p1 Cons.prems(2)] Cons.prems(4-6) True by (simp add: z)
  next
    case False
    note q = fr(2) [OF False Cons.prems(4)]
    show ?thesis
      using tracked_quiet [OF q] prefill_ok_quiet [OF q] quiet_same_stream [OF q] Cons.prems(5,6) by simp
  qed
  then have ih: "same_frame (pf_sched P1) (pf_sched P') \<and> tracked ref (sc_store (pf_sched P') x) \<and>
    same_stream (sc_store (pf_sched P1) x) (sc_store (pf_sched P') x)"
    by (intro Cons.IH [OF p2 Cons.prems(2) d gq]) simp_all
  then show ?case using same_frame_trans [OF fr(1)] same_stream_trans x1 by blast
qed simp

lemma process_prefill_req_identity:
  assumes "process_prefill_req C E b lg starts lens i y t P = Inr P'"
  shows "identity (sc_store (pf_sched P') x) = identity (sc_store (pf_sched P) x)"
  using process_prefill_req_cases [OF assms]
proof (elim disjE exE conjE)
  fix n r
  assume q: "quiet ((sc_store (pf_sched P) y)\<lparr>is_chunked := n\<rparr>) r" and P': "pf_sched P' = put_req y r (pf_sched P)"
  have "identity r = identity (sc_store (pf_sched P) y)" using quiet_identity [OF q] by (simp add: identity_def)
  then show ?thesis using P' by (cases "x = y") simp_all
next
  let ?S = "pf_sched P" and ?r = "sc_store (pf_sched P) y"
  fix r3 S1 r5
  assume r: "check_finished E 1 (first_marked C ?r t) = Inr r3" "after_prefill y r3 ?S S1" "quiet (sc_store S1 y) r5"
    "accept_grammar E y t (put_req y r5 S1) = Inr (pf_sched P')"
  have "identity r3 = identity ?r"
    using finish_step_identity [OF check_finished_step [OF r(1)]] by (simp add: identity_def first_marked_def Let_def)
  moreover have "identity (sc_store S1 y) = identity r3"
    using after_prefill_frame(3) [OF r(2)]
  proof
    assume "sc_store S1 y = released r3"
    then show ?thesis by (simp add: identity_def released_def)
  qed (rule quiet_identity)
  ultimately have "identity r5 = identity ?r" using quiet_identity [OF r(3)] by simp
  then have "identity (sc_store (put_req y r5 S1) x) = identity (sc_store ?S x)"
    using after_prefill_frame(2) [OF r(2)] by (cases "x = y") simp_all
  then show ?thesis using accept_grammar_identity [OF r(4)] by simp
qed simp

lemma process_prefill_loop_identity:
  "process_prefill_loop C E b lg starts lens i zs P = Inr P' \<Longrightarrow>
   identity (sc_store (pf_sched P') x) = identity (sc_store (pf_sched P) x)"
proof (induction zs arbitrary: i P)
  case (Cons z zs)
  then obtain P1 where "process_prefill_req C E b lg starts lens i (fst z) (snd z) P = Inr P1"
    "process_prefill_loop C E b lg starts lens (Suc i) zs P1 = Inr P'" by (cases z) auto
  then show ?case using Cons.IH process_prefill_req_identity by metis
qed simp

definition prefill_ready :: "(token list \<Rightarrow> token) \<Rightarrow> ref set \<Rightarrow> token list \<Rightarrow> sched \<Rightarrow> bool" where
  "prefill_ready ref R toks S \<longleftrightarrow>
     (let xs = b_reqs (s_batch (sc_sys S))
      in distinct xs \<and> length toks = length xs \<and> R \<inter> set (grammar_queue S) = {} \<and>
         (\<forall>(x, t) \<in> set (zip xs toks). x \<in> R \<longrightarrow> prefill_ok ref (sc_store S x) t) \<and>
         (\<forall>x \<in> R. \<forall>y \<in> set xs. rid (sc_store S y) = rid (sc_store S x) \<longrightarrow> y = x))"

lemma prefill_result_spec:
  assumes ready: "prefill_ready ref R toks S" and llm: "enable_llm42 C"
    and S': "process_batch_result_prefill C E lg starts lens toks S = Inr S'"
    and x: "x \<in> R" and inv: "stream_inv ref S x"
  shows "stream_inv ref S' x" "rid (sc_store S' x) = rid (sc_store S x)"
    "origin_input_ids (sc_store S' x) = origin_input_ids (sc_store S x)"
    "potential w (sc_store S x) \<le> potential w (sc_store S' x)"
proof -
  let ?b = "s_batch (sc_sys S)" and ?P0 = "\<lparr>pf_sched = S, skip_stream_req = None, logprob_pt = 0\<rparr>"
  let ?B = "b_reqs ?b"
  obtain P where l: "process_prefill_loop C E ?b lg starts lens 0 (zip ?B toks) ?P0 = Inr P"
    and s: "stream_output_generation C E (b_return_logprob ?b) (skip_stream_req P) False ?B (pf_sched P) = Inr S'"
    using S' by (auto simp: process_batch_result_prefill_def Let_def)
  have r: "distinct ?B" "length toks = length ?B" "x \<notin> set (grammar_queue S)"
    "\<forall>t. (x, t) \<in> set (zip ?B toks) \<longrightarrow> prefill_ok ref (sc_store S x) t"
    "\<forall>y \<in> set ?B. rid (sc_store S y) = rid (sc_store S x) \<longrightarrow> y = x"
    using ready x by (auto simp: prefill_ready_def Let_def)
  have t: "tracked ref (sc_store S x)" using inv by (simp add: stream_inv_def)
  have p: "same_frame S (pf_sched P)" "tracked ref (sc_store (pf_sched P) x)"
    "same_stream (sc_store S x) (sc_store (pf_sched P) x)"
    using process_prefill_loop_tracked [OF l llm, of x ref] r t by simp_all
  have "rid (sc_store (pf_sched P) y) = rid (sc_store S y)" for y
    using process_prefill_loop_identity [OF l, of y] by (simp add: identity_def)
  then have u: "\<forall>y \<in> set ?B. rid (sc_store (pf_sched P) y) = rid (sc_store (pf_sched P) x) \<longrightarrow> y = x" using r(5) by simp
  have "stream_inv ref (pf_sched P) x" using inv p by (simp add: stream_inv_def same_frame_def same_stream_def)
  note so = stream_output_inv [OF s llm r(1) this u]
  show "stream_inv ref S' x" by (rule so(2))
  show "rid (sc_store S' x) = rid (sc_store S x)" "origin_input_ids (sc_store S' x) = origin_input_ids (sc_store S x)"
    using so(1) p(3) by (auto simp: stream_step_def same_stream_def)
  show "potential w (sc_store S x) \<le> potential w (sc_store S' x)"
    using so(1) p(3) unfolding potential_def by (intro add_mono mult_le_mono) (auto simp: stream_step_def same_stream_def)
qed

lemma prefill_loop_frame:
  "process_prefill_loop C E b lg starts lens i zs P = Inr P' \<Longrightarrow> same_frame (pf_sched P) (pf_sched P')"
proof (induction zs arbitrary: i P)
  case (Cons z zs)
  then obtain P1 where "process_prefill_req C E b lg starts lens i (fst z) (snd z) P = Inr P1"
    "process_prefill_loop C E b lg starts lens (Suc i) zs P1 = Inr P'" by (cases z) auto
  then show ?case using Cons.IH process_prefill_req_frame(1) same_frame_trans by metis
qed simp

lemma prefill_result_frame:
  assumes "process_batch_result_prefill C E lg starts lens toks S = Inr S'"
  shows "s_worker (sc_sys S') = s_worker (sc_sys S)" "s_batch (sc_sys S') = s_batch (sc_sys S)"
    "grammar_queue S' = grammar_queue S"
proof -
  let ?b = "s_batch (sc_sys S)" and ?P0 = "\<lparr>pf_sched = S, skip_stream_req = None, logprob_pt = 0\<rparr>"
  obtain P where l: "process_prefill_loop C E ?b lg starts lens 0 (zip (b_reqs ?b) toks) ?P0 = Inr P"
    and s: "stream_output_generation C E (b_return_logprob ?b) (skip_stream_req P) False (b_reqs ?b) (pf_sched P) = Inr S'"
    using assms by (auto simp: process_batch_result_prefill_def Let_def)
  show "s_worker (sc_sys S') = s_worker (sc_sys S)" "s_batch (sc_sys S') = s_batch (sc_sys S)"
    "grammar_queue S' = grammar_queue S"
    using prefill_loop_frame [OF l] stream_output_frame [OF s] by (simp_all add: same_frame_def)
qed

end
