(* ===== verification/Serving.thy ===== *)
theory Serving
  imports Prefill_Step "HOL-Library.Sublist"
begin

text \<open>The scheduler as a state machine over whole batch results: prefill results, decode results (with the
  verification inside), idle batches, aborts, retractions and any other bookkeeping that leaves the protocol's
  fields alone, in any order.  For every execution, the tokens a client receives for a deterministic request are
  the reference output of its prompt, whatever the batches, the sampled tokens, the log-probabilities and the
  moments of verification were; and a request is decoded a bounded number of times.\<close>

section \<open>Bookkeeping steps\<close>

text \<open>The fields of a request that only batch results may change.\<close>

definition protocol_fields ::
  "req \<Rightarrow> string \<times> token list \<times> token list \<times> nat \<times> nat \<times> int option \<times> sampling_params \<times> bool \<times> int option" where
  "protocol_fields r = (rid r, origin_input_ids r, output_ids r, llm42_verified_tokens r, send_token_offset r,
     finished_len r, sampling_params r, is_deterministic r, vocab_size r)"

definition rescheduled :: "ref set \<Rightarrow> sched \<Rightarrow> sched \<Rightarrow> bool" where
  "rescheduled R S S' \<longleftrightarrow>
     (\<forall>x \<in> R. protocol_fields (sc_store S' x) = protocol_fields (sc_store S x)) \<and>
     (\<forall>i. streamed i (sent S') = streamed i (sent S)) \<and>
     window_size (s_worker (sc_sys S')) = window_size (s_worker (sc_sys S))"

lemma protocol_fields_extend: "protocol_fields (set_extend_input_len n r) = protocol_fields r"
  by (simp add: protocol_fields_def set_extend_input_len_def Let_def)

lemma protocol_fields_retract: "protocol_fields (reset_for_retract r) = protocol_fields r"
  by (simp add: protocol_fields_def reset_for_retract_def)

lemma protocol_fields_next_round: "protocol_fields (init_next_round_input m r) = protocol_fields r"
proof (cases m)
  case None
  then show ?thesis unfolding init_next_round_input_def Let_def option.case protocol_fields_extend
    by (simp only: option.case) (simp add: protocol_fields_def)
next
  case (Some f)
  show ?thesis unfolding init_next_round_input_def Let_def protocol_fields_extend Some option.case
    by (simp add: protocol_fields_def)
qed

lemmas protocol_fields_kept = protocol_fields_retract protocol_fields_extend protocol_fields_next_round

lemma quiet_protocol_fields: "quiet r r' \<Longrightarrow> protocol_fields r' = protocol_fields r"
  by (simp add: quiet_def protocol_fields_def)

text \<open>The operations outside the batch results are such steps: retracting a request, preparing its next prefill,
  aborting requests.\<close>

lemma bookkeeping:
  "rescheduled R S (put_req x (reset_for_retract (sc_store S x)) S)"
  "rescheduled R S (put_req x (init_next_round_input m (sc_store S x)) S)"
  "R \<inter> set (grammar_queue S) = {} \<Longrightarrow> rescheduled R S (abort_request b i S)"
proof -
  show "rescheduled R S (put_req x (reset_for_retract (sc_store S x)) S)"
    "rescheduled R S (put_req x (init_next_round_input m (sc_store S x)) S)"
    by (auto simp: rescheduled_def protocol_fields_kept put_req_def set_store_def)
  assume gq: "R \<inter> set (grammar_queue S) = {}"
  have "protocol_fields (sc_store (abort_request b i S) y) = protocol_fields (sc_store S y)" if "y \<in> R" for y
  proof -
    have "y \<notin> set (grammar_queue S)" using gq that by blast
    from abort_request_quiet [OF this] show ?thesis by (rule quiet_protocol_fields)
  qed
  then show "rescheduled R S (abort_request b i S)"
    using abort_request_frame [of S b i] by (simp add: rescheduled_def same_frame_def)
qed

section \<open>The machine\<close>

text \<open>The label of a step is the set of requests it decodes.\<close>

inductive serve ::
  "(token list \<Rightarrow> token) \<Rightarrow> conf \<Rightarrow> env \<Rightarrow> verifier \<Rightarrow> ref set \<Rightarrow> ref set \<Rightarrow> sched \<Rightarrow> sched \<Rightarrow> bool"
  for ref C E fwd R where
  decode: "decode_ready fp R toks S \<Longrightarrow>
     process_batch_result_decode C E ed fl fwd lg toks S = Some (Inr S') \<Longrightarrow>
     serve ref C E fwd R (set (b_reqs (s_batch (sc_sys S)))) S S'"
| prefill: "prefill_ready ref R toks S \<Longrightarrow>
     process_batch_result_prefill C E lg starts lens toks S = Inr S' \<Longrightarrow> serve ref C E fwd R {} S S'"
| bookkeeping: "rescheduled R S S' \<Longrightarrow> serve ref C E fwd R {} S S'"

inductive run ::
  "(token list \<Rightarrow> token) \<Rightarrow> conf \<Rightarrow> env \<Rightarrow> verifier \<Rightarrow> ref set \<Rightarrow> ref set list \<Rightarrow> sched \<Rightarrow> sched \<Rightarrow> bool"
  for ref C E fwd R where
  start: "run ref C E fwd R [] S S"
| step: "run ref C E fwd R Ds S S1 \<Longrightarrow> serve ref C E fwd R D S1 S2 \<Longrightarrow> run ref C E fwd R (Ds @ [D]) S S2"

text \<open>A verifier that replays any window faithfully.\<close>

definition faithful_verifier :: "(token list \<Rightarrow> token) \<Rightarrow> verifier \<Rightarrow> bool" where
  "faithful_verifier ref fwd \<longleftrightarrow> (\<forall>p w. sound_verifier ref fwd p w)"

lemma model_faithful: "faithful_verifier ref (model_verifier ref)"
  by (simp add: faithful_verifier_def model_sound)


section \<open>Invariants\<close>

lemma rescheduled_inv:
  assumes "rescheduled R S S'" "x \<in> R" "stream_inv ref S x"
  shows "stream_inv ref S' x" "rid (sc_store S' x) = rid (sc_store S x)"
    "origin_input_ids (sc_store S' x) = origin_input_ids (sc_store S x)"
    "potential w (sc_store S' x) = potential w (sc_store S x)"
proof -
  have f: "protocol_fields (sc_store S' x) = protocol_fields (sc_store S x)"
    "\<forall>i. streamed i (sent S') = streamed i (sent S)" using assms(1,2) by (auto simp: rescheduled_def)
  have "tracked ref (sc_store S' x) = tracked ref (sc_store S x)"
    using f(1) by (simp add: tracked_def ref_ok_def protocol_fields_def)
  then show "stream_inv ref S' x" using assms(3) f by (simp add: stream_inv_def protocol_fields_def)
  show "rid (sc_store S' x) = rid (sc_store S x)" "origin_input_ids (sc_store S' x) = origin_input_ids (sc_store S x)"
    "potential w (sc_store S' x) = potential w (sc_store S x)"
    using f(1) by (simp_all add: protocol_fields_def potential_def)
qed

lemma serve_inv:
  assumes st: "serve ref C E fwd R D S S'" and llm: "enable_llm42 C" and v: "faithful_verifier ref fwd"
    and inv: "\<forall>x \<in> R. stream_inv ref S x"
  shows "window_size (s_worker (sc_sys S')) = window_size (s_worker (sc_sys S)) \<and>
    (\<forall>x \<in> R. stream_inv ref S' x \<and> rid (sc_store S' x) = rid (sc_store S x) \<and>
       origin_input_ids (sc_store S' x) = origin_input_ids (sc_store S x) \<and>
       potential (window_size (s_worker (sc_sys S))) (sc_store S x) + (if x \<in> D then 1 else 0) \<le>
         potential (window_size (s_worker (sc_sys S))) (sc_store S' x))"
  using st
proof cases
  case (decode fp toks ed fl lg)
  have "sound_verifier ref fwd (s_pool (sc_sys S)) (window_size (s_worker (sc_sys S)))"
    using v by (simp add: faithful_verifier_def)
  from decode_result_spec [OF decode(2) llm this inv, of E ed fl lg] decode(3)
  have "step_frame fp S S'" "\<forall>x \<in> R. decode_effect ref (window_size (s_worker (sc_sys S))) S S' x" by simp_all
  then show ?thesis by (auto simp: step_frame_def decode_effect_def decode(1) Suc_le_eq)
next
  case (prefill toks lg starts lens)
  then show ?thesis
    using prefill_result_spec [OF prefill(2) llm prefill(3)] prefill_result_frame [OF prefill(3)] inv by simp
next
  case bookkeeping
  then show ?thesis using rescheduled_inv [OF bookkeeping(2), where ref = ref] inv by (simp add: rescheduled_def)
qed

lemma run_inv:
  assumes "run ref C E fwd R Ds S S'" "enable_llm42 C" "faithful_verifier ref fwd" "\<forall>x \<in> R. stream_inv ref S x"
  shows "window_size (s_worker (sc_sys S')) = window_size (s_worker (sc_sys S)) \<and>
    (\<forall>x \<in> R. stream_inv ref S' x \<and> rid (sc_store S' x) = rid (sc_store S x) \<and>
       origin_input_ids (sc_store S' x) = origin_input_ids (sc_store S x) \<and>
       potential (window_size (s_worker (sc_sys S))) (sc_store S x) + length (filter (\<lambda>D. x \<in> D) Ds) \<le>
         potential (window_size (s_worker (sc_sys S))) (sc_store S' x))"
  using assms
proof (induction rule: run.induct)
  case (step Ds S S1 D S2)
  note i = step.IH [OF step.prems]
  have "\<forall>x \<in> R. stream_inv ref S1 x" using i by blast
  note s = serve_inv [OF step.hyps(2) step.prems(1,2) this]
  have "potential (window_size (s_worker (sc_sys S))) (sc_store S x) + length (filter (\<lambda>D. x \<in> D) (Ds @ [D])) \<le>
         potential (window_size (s_worker (sc_sys S))) (sc_store S2 x)" if "x \<in> R" for x
    using i s that by force
  then show ?case using i s by auto
qed simp

lemma run_request:
  assumes "run ref C E fwd R Ds S S'" "enable_llm42 C" "faithful_verifier ref fwd" "\<forall>x \<in> R. stream_inv ref S x" "x \<in> R"
  shows "tracked ref (sc_store S' x)"
    "streamed (rid (sc_store S x)) (sent S') =
       ref_gen ref (origin_input_ids (sc_store S x)) (send_token_offset (sc_store S' x))"
    "length (filter (\<lambda>D. x \<in> D) Ds) \<le> potential (window_size (s_worker (sc_sys S))) (sc_store S' x)"
proof -
  have "stream_inv ref S' x" "rid (sc_store S' x) = rid (sc_store S x)"
    "origin_input_ids (sc_store S' x) = origin_input_ids (sc_store S x)"
    "potential (window_size (s_worker (sc_sys S))) (sc_store S x) + length (filter (\<lambda>D. x \<in> D) Ds) \<le>
       potential (window_size (s_worker (sc_sys S))) (sc_store S' x)"
    using conjunct2 [OF run_inv [OF assms(1-4)]] assms(5) by blast+
  then show "tracked ref (sc_store S' x)"
    "streamed (rid (sc_store S x)) (sent S') =
       ref_gen ref (origin_input_ids (sc_store S x)) (send_token_offset (sc_store S' x))"
    "length (filter (\<lambda>D. x \<in> D) Ds) \<le> potential (window_size (s_worker (sc_sys S))) (sc_store S' x)"
    by (simp_all add: stream_inv_def)
qed

lemma tracked_potential:
  assumes "tracked ref r"
  shows "int (potential w r) \<le> the (max_new_tokens (sampling_params r)) * (int w + 1)"
proof -
  obtain m where m: "max_new_tokens (sampling_params r) = Some m" "int (length (output_ids r)) \<le> m"
    and v: "llm42_verified_tokens r \<le> length (output_ids r)"
    using assms by (auto simp: tracked_def ref_ok_def)
  have "potential w r = length (output_ids r) + llm42_verified_tokens r * w" using v by (simp add: potential_def)
  also have "\<dots> \<le> length (output_ids r) + length (output_ids r) * w" using v by simp
  also have "\<dots> = length (output_ids r) * Suc w" by simp
  finally have "int (potential w r) \<le> int (length (output_ids r)) * (int w + 1)"
    by (metis add.commute of_nat_Suc of_nat_le_iff of_nat_mult)
  also have "\<dots> \<le> m * (int w + 1)" using m(2) by (intro mult_right_mono) simp_all
  finally show ?thesis by (simp add: m(1))
qed

text \<open>A new deterministic request, of which nothing has been sent, satisfies the invariant.\<close>

lemma new_request_inv:
  assumes "sc_store S x = init_req i ids up sp lp k tk strm eos (Some v)" "sp_is_deterministic sp"
    and "max_new_tokens sp = Some m" "1 \<le> m" "\<forall>xs. 0 \<le> ref xs \<and> ref xs \<le> v" "streamed i (sent S) = []"
  shows "stream_inv ref S x"
  using assms by (simp add: stream_inv_def tracked_def ref_ok_def init_req_def)

section \<open>Determinism and termination\<close>

lemma example_run:
  assumes "t = (11 :: token) \<or> t = 99"
  shows "\<exists>S'. run digit_ref example_conf example_env digit_verifier {0} [{0}] example_sched S' \<and>
    send_token_offset (sc_store S' 0) = 3"
proof -
  obtain S' where S': "process_batch_result_decode example_conf example_env True id digit_verifier example_logits [t]
      example_sched = Some (Inr S')" "send_token_offset (sc_store S' 0) = 3"
    using example_decode [OF assms] by blast
  have b: "set (b_reqs (s_batch (sc_sys example_sched))) = {0}" by code_simp
  from run.step [OF run.start serve.decode [OF example_sched_ready S'(1)]] S'(2) show ?thesis by (auto simp: b)
qed

lemma example_conf_llm42: "enable_llm42 example_conf"
  by (simp add: example_conf_def)

lemma example_streams: "\<forall>x \<in> {0}. stream_inv digit_ref example_sched x"
  using example_stream_inv by simp

lemma example_request:
  "rid (sc_store example_sched 0) = ''a''" "origin_input_ids (sc_store example_sched 0) = [11, 12, 13]"
  "window_size (s_worker (sc_sys example_sched)) = 4"
  by code_simp+

text \<open>C1. The output of a deterministic request is determined by its prompt.  In every execution of the scheduler with LLM-42 enabled -
  any interleaving of prefill results, decode results with their verification, aborts, retractions and other
  bookkeeping - the tokens sent to the client are the output the reference decoder \<open>ref\<close> generates for the prompt, up
  to the number of tokens recorded as sent, whatever tokens the decode steps sample.  Two things are assumed of the model.  The
  verifier, given the tokens a request has in the KV cache and the window to replay, predicts \<open>ref\<close> of the request's own
  tokens, whatever else is in the batch.  And the first token of a deterministic request, which its prefill samples and no
  verification replays, is \<open>ref\<close> of the prompt; that is what the isolated prefill is for.  The steps are those of \<open>serve\<close>:
  verification in fixed-size mode with aligned windows and no skipped mismatches, decode batches of unfinished requests that are not
  retracted, hold a row with room for a token and have an open window, and request ids that are not shared.\<close>

theorem deterministic_output:
  assumes "run ref C E fwd R Ds S S'" "enable_llm42 C" "faithful_verifier ref fwd"
    and "\<forall>x \<in> R. stream_inv ref S x" "x \<in> R"
  shows "streamed (rid (sc_store S x)) (sent S') =
     ref_gen ref (origin_input_ids (sc_store S x)) (send_token_offset (sc_store S' x))"
  by (rule run_request(2) [OF assms])

theorem deterministic_output_witness:
  "\<exists>S'. run digit_ref example_conf example_env digit_verifier {0} [{0}] example_sched S' \<and>
     streamed ''a'' (sent S') = ref_gen digit_ref [11, 12, 13] 3"
proof -
  obtain S' where S': "run digit_ref example_conf example_env digit_verifier {0} [{0}] example_sched S'"
    "send_token_offset (sc_store S' 0) = 3" using example_run [of 11] by blast
  from deterministic_output [OF S'(1) example_conf_llm42 model_faithful example_streams, of 0] S'
  show ?thesis by (auto simp: example_request)
qed

text \<open>C3. Two executions agree.  Whatever the configurations, batches and verifiers of two servers running the same model, and
  whatever tokens their decode steps sample, when both serve a request with the same prompt deterministically, one client's stream is
  a prefix of the other's.  On both servers LLM-42 is enabled, the verifier predicts \<open>ref\<close> from the cached tokens and the window, the
  first token of the request's prefill is the one of \<open>ref\<close>, and the steps are those of \<open>serve\<close> (fixed-size
  verification of open windows).\<close>

theorem executions_agree:
  assumes "run ref C1 E1 fwd1 R1 Ds1 S1 S1'" "enable_llm42 C1" "faithful_verifier ref fwd1" "\<forall>x \<in> R1. stream_inv ref S1 x"
    and "run ref C2 E2 fwd2 R2 Ds2 S2 S2'" "enable_llm42 C2" "faithful_verifier ref fwd2" "\<forall>y \<in> R2. stream_inv ref S2 y"
    and "x \<in> R1" "y \<in> R2" "origin_input_ids (sc_store S1 x) = origin_input_ids (sc_store S2 y)"
  shows "prefix (streamed (rid (sc_store S1 x)) (sent S1')) (streamed (rid (sc_store S2 y)) (sent S2')) \<or>
     prefix (streamed (rid (sc_store S2 y)) (sent S2')) (streamed (rid (sc_store S1 x)) (sent S1'))"
proof -
  have s: "streamed (rid (sc_store S1 x)) (sent S1') =
      ref_gen ref (origin_input_ids (sc_store S1 x)) (send_token_offset (sc_store S1' x))"
    "streamed (rid (sc_store S2 y)) (sent S2') =
      ref_gen ref (origin_input_ids (sc_store S1 x)) (send_token_offset (sc_store S2' y))"
    using run_request(2) [OF assms(1-4,9)] run_request(2) [OF assms(5-8,10)] assms(11) by simp_all
  have p: "prefix (ref_gen ref ids m) (ref_gen ref ids n)" if "m \<le> n" for ids m n
    using take_ref_gen [OF that, of ref ids] by (metis take_is_prefix)
  show ?thesis unfolding s using p nat_le_linear by blast
qed

theorem executions_agree_witness:
  "\<exists>S1 S2. run digit_ref example_conf example_env digit_verifier {0} [{0}] example_sched S1 \<and>
     run digit_ref example_conf example_env digit_verifier {0} [{0}] example_sched S2 \<and>
     (prefix (streamed ''a'' (sent S1)) (streamed ''a'' (sent S2)) \<or>
      prefix (streamed ''a'' (sent S2)) (streamed ''a'' (sent S1)))"
proof -
  obtain S1 S2 where r: "run digit_ref example_conf example_env digit_verifier {0} [{0}] example_sched S1"
    "run digit_ref example_conf example_env digit_verifier {0} [{0}] example_sched S2"
    using example_run [of 11] example_run [of 99] by blast
  from executions_agree [OF r(1) example_conf_llm42 model_faithful example_streams
      r(2) example_conf_llm42 model_faithful example_streams, of 0 0] r
  show ?thesis by (auto simp: example_request)
qed

text \<open>C4. Rollbacks do not keep a request running for ever: in every execution a deterministic request takes part in at most
  \<open>max_new_tokens * (window_size + 1)\<close> decode batches.  The executions are those of \<open>serve\<close>: LLM-42 is enabled, the verifier predicts
  \<open>ref\<close> from the cached tokens and the window and so does the first token of a prefill, verification is in fixed-size mode, and a decode batch
  has unfinished requests that are not retracted, have an open window and room for a token.\<close>

theorem decode_batches_bounded:
  assumes "run ref C E fwd R Ds S S'" "enable_llm42 C" "faithful_verifier ref fwd"
    and "\<forall>x \<in> R. stream_inv ref S x" "x \<in> R"
  shows "int (length (filter (\<lambda>D. x \<in> D) Ds)) \<le>
     the (max_new_tokens (sampling_params (sc_store S' x))) * (int (window_size (s_worker (sc_sys S))) + 1)"
proof -
  have "length (filter (\<lambda>D. x \<in> D) Ds) \<le> potential (window_size (s_worker (sc_sys S))) (sc_store S' x)"
    by (rule run_request(3) [OF assms])
  with tracked_potential [OF run_request(1) [OF assms], of "window_size (s_worker (sc_sys S))"]
  show ?thesis by linarith
qed

theorem decode_batches_bounded_witness:
  "\<exists>S'. run digit_ref example_conf example_env digit_verifier {0} [{0}] example_sched S' \<and>
     int (length (filter (\<lambda>D. 0 \<in> D) [{0 :: ref}])) \<le> the (max_new_tokens (sampling_params (sc_store S' 0))) * (4 + 1)"
proof -
  obtain S' where S': "run digit_ref example_conf example_env digit_verifier {0} [{0}] example_sched S'"
    using example_run [of 11] by blast
  from decode_batches_bounded [OF S' example_conf_llm42 model_faithful example_streams, of 0] S'
  show ?thesis by (auto simp: example_request)
qed

end
