(* ===== verification/Paged_Kernels.thy ===== *)
theory Paged_Kernels
  imports Allocator
begin

text \<open>The paged allocator's extend and decode allocation, \<open>src/python/sglang/srt/mem_cache/allocator.py\<close>: the two
  Triton kernels, one program per request writing its part of \<open>out_indices\<close>, the sequential routine used for very
  large extends, and the methods that call them.  Whatever the order in which the programs of a kernel run, the
  result is the one of the sequential routine.  The extend kernel sums over all lanes of two masked loads that give no fill
  value, so its result depends on what the masked lanes hold; it is right when both loads return the same there.\<close>

section \<open>Primitives of the kernels\<close>

text \<open>\<open>(a + page_size - 1) // page_size\<close>.\<close>

definition cdiv :: "int \<Rightarrow> int \<Rightarrow> int" where
  "cdiv a p = (a + p - 1) div p"

text \<open>A load; \<open>u\<close> stands for what an out-of-range load returns.\<close>

definition ld :: "int \<Rightarrow> int list \<Rightarrow> int \<Rightarrow> int" where
  "ld u xs i = (if 0 \<le> i \<and> i < int (length xs) then xs ! nat i else u)"

text \<open>What a load without fill value leaves in a masked-out lane is undefined: \<open>u pid l k\<close> is what the \<open>l\<close>-th load of program
  \<open>pid\<close> leaves in lane \<open>k\<close>.  The lanes of two loads agree when both leave the same in each lane, as on hardware that fills
  with zeros.\<close>

type_synonym lanes = "nat \<Rightarrow> nat \<Rightarrow> nat \<Rightarrow> int"

definition lanes_agree :: "lanes \<Rightarrow> bool" where
  "lanes_agree u \<longleftrightarrow> (\<forall>pid k. u pid 0 k = u pid 1 k)"

text \<open>A store of \<open>f k\<close> at \<open>base + k\<close> for the offsets \<open>k\<close> in \<open>tl.arange(0, n)\<close> under the mask \<open>k < m\<close>.\<close>

definition st :: "int list \<Rightarrow> int \<Rightarrow> nat \<Rightarrow> int \<Rightarrow> (int \<Rightarrow> int) \<Rightarrow> int list" where
  "st out base n m f =
     fold (\<lambda>i out. if int i < m then out[nat (base + int i) := f (int i)] else out) [0..<n] out"

fun bit_length :: "nat \<Rightarrow> nat" where
  "bit_length n = (if n = 0 then 0 else Suc (bit_length (n div 2)))"

definition next_power_of_2 :: "nat \<Rightarrow> nat" where
  "next_power_of_2 n = (if 0 < n then 2 ^ bit_length (n - 1) else 1)"

declare bit_length.simps [simp del]

section \<open>The kernels\<close>

text \<open>The three parts a program fills: the rest of the old partial page, the new full pages, the new partial page.\<close>

definition extend_parts ::
  "(nat \<Rightarrow> nat \<Rightarrow> int) \<Rightarrow> int list \<Rightarrow> nat \<Rightarrow> nat \<Rightarrow> int \<Rightarrow> int \<Rightarrow> int \<Rightarrow> int \<Rightarrow> int \<Rightarrow> int list \<Rightarrow> int list" where
  "extend_parts u free_page_ptr psz max_tokens seq_len pre_len last_loc output_start_loc new_page_start_loc out =
     (let p = int psz;
          num_part1 = min seq_len (cdiv pre_len p * p) - pre_len;
          out1 = st out output_start_loc psz num_part1 (\<lambda>k. last_loc + 1 + k)
      in if pre_len + num_part1 = seq_len then out1
         else
           (let num_part2 = seq_len div p * p - cdiv pre_len p * p;
                out2 = st out1 (output_start_loc + num_part1) max_tokens num_part2
                         (\<lambda>k. ld (u 5 (nat k)) free_page_ptr (new_page_start_loc + k div p) * p + k mod p)
            in if pre_len + num_part1 + num_part2 = seq_len then out2
               else
                 (let num_part3 = seq_len - seq_len div p * p;
                      start_loc = ld (u 6 0) free_page_ptr (new_page_start_loc + (cdiv seq_len p - cdiv pre_len p) - 1)
                  in st out2 (output_start_loc + num_part1 + num_part2) psz num_part3 (\<lambda>k. start_loc * p + k))))"

definition alloc_extend_kernel ::
  "lanes \<Rightarrow> int list \<Rightarrow> int list \<Rightarrow> int list \<Rightarrow> int list \<Rightarrow> nat \<Rightarrow> nat \<Rightarrow> nat \<Rightarrow> nat \<Rightarrow> int list \<Rightarrow> int list" where
  "alloc_extend_kernel u pre_lens_ptr seq_lens_ptr last_loc_ptr free_page_ptr bs_upper psz max_tokens pid out =
     (let p = int psz;
          seq_lens = map (\<lambda>k. if k \<le> pid then ld (u pid 0 k) seq_lens_ptr (int k) else u pid 0 k) [0..<bs_upper];
          pre_lens = map (\<lambda>k. if k \<le> pid then ld (u pid 1 k) pre_lens_ptr (int k) else u pid 1 k) [0..<bs_upper];
          seq_len = ld (u pid 2 0) seq_lens_ptr (int pid); pre_len = ld (u pid 3 0) pre_lens_ptr (int pid);
          output_start_loc = sum_list (map2 (-) seq_lens pre_lens) - (seq_len - pre_len);
          new_page_start_loc = sum_list (map2 (\<lambda>s q. cdiv s p - cdiv q p) seq_lens pre_lens) - (cdiv seq_len p - cdiv pre_len p)
      in extend_parts (u pid) free_page_ptr psz max_tokens seq_len pre_len (ld (u pid 4 0) last_loc_ptr (int pid))
           output_start_loc new_page_start_loc out)"

definition alloc_decode_kernel ::
  "lanes \<Rightarrow> int list \<Rightarrow> int list \<Rightarrow> int list \<Rightarrow> nat \<Rightarrow> nat \<Rightarrow> nat \<Rightarrow> int list \<Rightarrow> int list" where
  "alloc_decode_kernel u seq_lens_ptr last_loc_ptr free_page_ptr bs_upper psz pid out =
     (let p = int psz;
          seq_lens = map (\<lambda>k. if k \<le> pid then ld (u pid 0 k) seq_lens_ptr (int k) else u pid 0 k) [0..<bs_upper];
          pre_lens = map2 (\<lambda>k s. if k \<le> pid then s - 1 else s) [0..<bs_upper] seq_lens;
          seq_len = ld (u pid 2 0) seq_lens_ptr (int pid); pre_len = seq_len - 1;
          num_self = cdiv seq_len p - cdiv pre_len p;
          new_page_start_loc = sum_list (map2 (\<lambda>s q. cdiv s p - cdiv q p) seq_lens pre_lens) - num_self
      in if num_self = 0 then out[pid := ld (u pid 4 0) last_loc_ptr (int pid) + 1]
         else out[pid := ld (u pid 5 0) free_page_ptr new_page_start_loc * p])"

section \<open>The sequential routine\<close>

text \<open>\<open>out[a:b] = vals\<close>: the lengths must agree, except that a single value is spread over the slice.\<close>

definition assign_slice :: "int list \<Rightarrow> int \<Rightarrow> int \<Rightarrow> int list \<Rightarrow> int list result" where
  "assign_slice out a b vals =
     (let n = length (py_slice out a b); vs = (if length vals = 1 then replicate n (hd vals) else vals)
      in if n \<noteq> length vs then Inl RuntimeError
         else Inr (take (py_clip (length out) a) out @ vs @ drop (py_clip (length out) a + length vs) out))"

definition naive_request ::
  "int list \<Rightarrow> int list \<Rightarrow> int list \<Rightarrow> int list \<Rightarrow> nat \<Rightarrow> nat \<Rightarrow> int list \<Rightarrow> int list result" where
  "naive_request prefix_lens seq_lens last_loc free_pgs psz i out =
     (let p = int psz;
          extend_lens = map2 (-) seq_lens prefix_lens;
          end_pos = sum_list (take (Suc i) extend_lens); start_pos = end_pos - extend_lens ! i;
          num_new = map2 (\<lambda>s q. cdiv s p - cdiv q p) seq_lens prefix_lens;
          num_full = map2 (\<lambda>s q. s div p - cdiv q p) seq_lens prefix_lens;
          need_page = num_new ! i - num_full ! i;
          end_new = sum_list (take (Suc i) num_new); start_new = end_new - num_new ! i;
          seq_len = seq_lens ! i; pre_len = prefix_lens ! i;
          num1 = min seq_len (cdiv pre_len p * p) - pre_len
      in bind_result
           (if num1 \<noteq> 0
            then assign_slice out start_pos (start_pos + num1) (map (\<lambda>k. last_loc ! i + 1 + int k) [0..<nat num1])
            else Inr out) (\<lambda>out1.
         if pre_len + num1 = seq_len then Inr out1
         else
           (let num2 = (seq_len div p - cdiv pre_len p) * p
            in bind_result
                 (if num2 \<noteq> 0
                  then assign_slice out1 (start_pos + num1) (start_pos + num1 + num2)
                         (pages_slots psz (py_slice free_pgs start_new (end_new - need_page)))
                  else Inr out1) (\<lambda>out2.
               if pre_len + num1 + num2 = seq_len then Inr out2
               else
                 (let num3 = seq_len - seq_len div p * p
                  in if num3 \<noteq> 0
                     then bind_result (py_item free_pgs (end_new - 1)) (\<lambda>page.
                            assign_slice out2 (end_pos - num3) end_pos (map (\<lambda>k. page * p + int k) [0..<nat num3]))
                     else Inr out2)))))"

definition alloc_extend_naive ::
  "int list \<Rightarrow> int list \<Rightarrow> int list \<Rightarrow> int list \<Rightarrow> nat \<Rightarrow> int list \<Rightarrow> int list result" where
  "alloc_extend_naive prefix_lens seq_lens last_loc free_pgs psz out =
     fold_result (naive_request prefix_lens seq_lens last_loc free_pgs psz) [0..<length prefix_lens] out"

section \<open>The methods\<close>

definition get_num_new_pages :: "int list \<Rightarrow> nat \<Rightarrow> int list \<Rightarrow> int" where
  "get_num_new_pages seq_lens psz prefix_lens =
     sum_list (map2 (\<lambda>s q. cdiv s (int psz) - cdiv q (int psz)) seq_lens prefix_lens)"

definition get_num_new_pages_decode :: "int list \<Rightarrow> nat \<Rightarrow> int" where
  "get_num_new_pages_decode seq_lens psz = int (length (filter (\<lambda>s. s mod int psz = 1) seq_lens))"

text \<open>\<open>order\<close> is the order in which the programs of a launch run, \<open>numel\<close> the constant
  \<open>tl.core.TRITON_MAX_TENSOR_NUMEL\<close>.  The output tensor is not initialised: \<open>u 0 7\<close> is what it holds.\<close>

definition alloc_extend ::
  "nat \<Rightarrow> lanes \<Rightarrow> nat list \<Rightarrow> allocator \<Rightarrow> int list \<Rightarrow> int list \<Rightarrow> int list \<Rightarrow> nat \<Rightarrow> (slot list option \<times> allocator) result" where
  "alloc_extend numel u order a prefix_lens seq_lens last_loc extend_num_tokens =
     (let psz = page_size a; bs = length prefix_lens
      in if debug_mode a \<and> \<not> list_all2 (\<lambda>l q. (l + 1) mod int psz = q mod int psz) last_loc prefix_lens
         then Inl AssertionError
         else
           (let a1 = a\<lparr>seen_max_num_extend_tokens :=
                        max (seen_max_num_extend_tokens a) (min numel (next_power_of_2 extend_num_tokens))\<rparr>;
                a2 = (if need_sort a1 \<and> length (free_pages a1) < extend_num_tokens div psz + bs + 1
                      then merge_and_sort_free a1 else a1);
                out0 = map (u 0 7) [0..<extend_num_tokens]
            in bind_result
                 (if extend_num_tokens < numel
                  then Inr (fold (alloc_extend_kernel u prefix_lens seq_lens last_loc (free_pages a2) (next_power_of_2 bs) psz
                                    (seen_max_num_extend_tokens a2)) order out0)
                  else alloc_extend_naive prefix_lens seq_lens last_loc (free_pages a2) psz out0) (\<lambda>out.
               if debug_mode a2 \<and> length (torch_unique out) \<noteq> length out then Inl AssertionError
               else
                 (let n = get_num_new_pages seq_lens psz prefix_lens
                  in if int (length (free_pages a2)) < n then Inr (None, a2)
                     else Inr (Some out, a2\<lparr>free_pages := drop_int (free_pages a2) n\<rparr>)))))"

definition alloc_decode ::
  "lanes \<Rightarrow> nat list \<Rightarrow> allocator \<Rightarrow> int list \<Rightarrow> int list \<Rightarrow> (slot list option \<times> allocator) result" where
  "alloc_decode u order a seq_lens last_loc =
     (let psz = page_size a; bs = length seq_lens
      in if debug_mode a \<and> \<not> list_all2 (\<lambda>l s. (l + 2) mod int psz = s mod int psz) last_loc seq_lens
         then Inl AssertionError
         else
           (let a1 = (if need_sort a \<and> length (free_pages a) < bs then merge_and_sort_free a else a);
                out = fold (alloc_decode_kernel u seq_lens last_loc (free_pages a1) (next_power_of_2 bs) psz) order
                        (map (u 0 7) [0..<bs])
            in if debug_mode a1 \<and> length (torch_unique out) \<noteq> length out then Inl AssertionError
               else
                 (let n = get_num_new_pages_decode seq_lens psz
                  in if int (length (free_pages a1)) < n then Inr (None, a1)
                     else Inr (Some out, a1\<lparr>free_pages := drop_int (free_pages a1) n\<rparr>))))"

section \<open>Writing blocks\<close>

definition overwrite :: "'a list \<Rightarrow> nat \<Rightarrow> 'a list \<Rightarrow> 'a list" where
  "overwrite out a vs = take a out @ vs @ drop (a + length vs) out"

lemma length_overwrite [simp]: "a + length vs \<le> length out \<Longrightarrow> length (overwrite out a vs) = length out"
  by (simp add: overwrite_def)

lemma overwrite_Nil [simp]: "overwrite out a [] = out"
  by (simp add: overwrite_def)

lemma nth_overwrite:
  assumes "a + length vs \<le> length out" "i < length out"
  shows "overwrite out a vs ! i = (if a \<le> i \<and> i < a + length vs then vs ! (i - a) else out ! i)"
  using assms by (auto simp: overwrite_def nth_append)

lemma overwrite_append:
  assumes "a + length vs + length ws \<le> length out"
  shows "overwrite (overwrite out a vs) (a + length vs) ws = overwrite out a (vs @ ws)"
  using assms by (intro nth_equalityI) (auto simp: nth_overwrite nth_append)

lemma overwrite_snoc:
  assumes "a + length vs < length out"
  shows "(overwrite out a vs)[a + length vs := v] = overwrite out a (vs @ [v])"
  using assms by (intro nth_equalityI) (auto simp: nth_overwrite nth_append nth_list_update)

lemma st_overwrite:
  assumes "0 \<le> base" "0 \<le> m" "m \<le> int n" "base + m \<le> int (length out)"
  shows "st out base n m f = overwrite out (nat base) (map (\<lambda>k. f (int k)) [0..<nat m])"
proof -
  let ?g = "\<lambda>i out. if int i < m then out[nat (base + int i) := f (int i)] else out"
  have m: "nat m \<le> n" using assms(3) by linarith
  have idle: "fold ?g [nat m..<n] xs = xs" for xs
    by (rule fold_invariant [where P = "\<lambda>ys. ys = xs" and Q = "\<lambda>i. nat m \<le> i"]) (auto simp: nat_le_iff)
  have first: "fold ?g [0..<j] out = overwrite out (nat base) (map (\<lambda>k. f (int k)) [0..<j])" if "j \<le> nat m" for j
    using that
  proof (induction j)
    case (Suc j)
    have j: "int j < m" "nat (base + int j) = nat base + length (map (\<lambda>k. f (int k)) [0..<j])"
      using Suc.prems assms(1) by (simp_all add: nat_add_distrib)
    have "nat base + length (map (\<lambda>k. f (int k)) [0..<j]) < length out" using Suc.prems assms(1,2,4) by simp
    from overwrite_snoc [OF this] Suc j show ?case by (simp del: length_map)
  qed simp
  have "[0..<n] = [0..<nat m] @ [nat m..<n]" using m by (metis le_add_diff_inverse upt_add_eq_append zero_le)
  then show ?thesis unfolding st_def using first [of "nat m"] idle by simp
qed

text \<open>Writing blocks side by side, in any order, gives their concatenation.\<close>

definition block_start :: "'a list list \<Rightarrow> nat \<Rightarrow> nat" where
  "block_start bs k = sum_list (map length (take k bs))"

lemma block_start_0 [simp]: "block_start bs 0 = 0"
  by (simp add: block_start_def)

lemma block_start_Suc: "k < length bs \<Longrightarrow> block_start bs (Suc k) = block_start bs k + length (bs ! k)"
  by (simp add: block_start_def take_Suc_conv_app_nth)

lemma block_start_mono: "j \<le> k \<Longrightarrow> block_start bs j \<le> block_start bs k"
  using take_add [of j "k - j" bs] by (simp add: block_start_def)

lemma block_start_all: "block_start bs (length bs) = length (concat bs)"
  by (simp add: block_start_def length_concat)

lemma block_end_le: "k < length bs \<Longrightarrow> block_start bs k + length (bs ! k) \<le> length (concat bs)"
  using block_start_mono [of "Suc k" "length bs" bs] by (simp add: block_start_Suc block_start_all)

lemma block_unique:
  assumes "block_start bs j \<le> i" "i < block_start bs (Suc j)" "block_start bs k \<le> i" "i < block_start bs (Suc k)"
  shows "j = k"
proof (rule ccontr)
  assume "j \<noteq> k"
  then have "block_start bs (Suc j) \<le> block_start bs k \<or> block_start bs (Suc k) \<le> block_start bs j"
    using block_start_mono [of "Suc j" k bs] block_start_mono [of "Suc k" j bs] by linarith
  then show False using assms by linarith
qed

lemma block_exists: "i < length (concat bs) \<Longrightarrow> \<exists>k < length bs. block_start bs k \<le> i \<and> i < block_start bs (Suc k)"
proof -
  assume i: "i < length (concat bs)"
  have "i < block_start bs n \<Longrightarrow> n \<le> length bs \<Longrightarrow> \<exists>k < n. block_start bs k \<le> i \<and> i < block_start bs (Suc k)" for n
  proof (induction n)
    case (Suc n)
    show ?case
    proof (cases "i < block_start bs n")
      case True
      then show ?thesis using Suc.IH Suc.prems(2) less_Suc_eq by force
    next
      case False
      then show ?thesis using Suc.prems(1) by (intro exI [of _ n]) simp
    qed
  qed simp
  from this [of "length bs"] i show ?thesis by (simp add: block_start_all)
qed

lemma nth_concat_block:
  "k < length bs \<Longrightarrow> j < length (bs ! k) \<Longrightarrow> concat bs ! (block_start bs k + j) = bs ! k ! j"
proof (induction bs arbitrary: k)
  case (Cons b bs)
  then show ?case by (cases k) (auto simp: block_start_def nth_append)
qed simp

lemma fold_overwrite_length:
  "set ord \<subseteq> {..<length bs} \<Longrightarrow> length out = length (concat bs) \<Longrightarrow>
   length (fold (\<lambda>k out. overwrite out (block_start bs k) (bs ! k)) ord out) = length out"
proof (induction ord arbitrary: out)
  case (Cons k ord)
  then show ?case using Cons.IH [of "overwrite out (block_start bs k) (bs ! k)"] block_end_le [of k bs] by simp
qed simp

lemma fold_overwrite_nth:
  assumes "distinct ord" "set ord \<subseteq> {..<length bs}" "length out = length (concat bs)" "i < length (concat bs)"
    and j: "j < length bs" "block_start bs j \<le> i" "i < block_start bs (Suc j)"
  shows "fold (\<lambda>k out. overwrite out (block_start bs k) (bs ! k)) ord out ! i =
     (if j \<in> set ord then bs ! j ! (i - block_start bs j) else out ! i)"
  using assms(1-3)
proof (induction ord arbitrary: out)
  case (Cons k ord)
  let ?out = "overwrite out (block_start bs k) (bs ! k)"
  have k: "k < length bs" "block_start bs k + length (bs ! k) \<le> length out"
    using Cons.prems block_end_le [of k bs] by auto
  have "?out ! i = (if j = k then bs ! j ! (i - block_start bs j) else out ! i)"
    using nth_overwrite [OF k(2), of i] block_unique [OF j(2,3), of k] j Cons.prems(3) assms(4) k(1)
    by (auto simp: block_start_Suc)
  moreover have "length ?out = length out" using k(2) by simp
  ultimately show ?case using Cons.IH [of ?out] Cons.prems by auto
qed simp

lemma fold_overwrite:
  assumes "distinct ord" "set ord = {..<length bs}" "length out = length (concat bs)"
  shows "fold (\<lambda>k out. overwrite out (block_start bs k) (bs ! k)) ord out = concat bs"
proof -
  let ?r = "fold (\<lambda>k out. overwrite out (block_start bs k) (bs ! k)) ord out"
  have len: "length ?r = length (concat bs)" using fold_overwrite_length [of ord bs out] assms(2,3) by simp
  show ?thesis
  proof (rule nth_equalityI [OF len])
    fix i assume "i < length ?r"
    then have i: "i < length (concat bs)" using len by simp
    obtain j where j: "j < length bs" "block_start bs j \<le> i" "i < block_start bs (Suc j)" using block_exists [OF i] by blast
    have "?r ! i = bs ! j ! (i - block_start bs j)"
      using fold_overwrite_nth [OF assms(1) _ assms(3) i j] assms(2) j(1) by auto
    also have "\<dots> = concat bs ! i" using nth_concat_block [of j bs "i - block_start bs j"] j by (simp add: block_start_Suc)
    finally show "?r ! i = concat bs ! i" .
  qed
qed

section \<open>The slots of one request\<close>

lemma cdiv_eq: "0 < p \<Longrightarrow> cdiv a p = a div p + (if a mod p = 0 then 0 else 1)"
proof -
  assume p: "0 < p"
  have "a + p - 1 = (a div p) * p + (a mod p + p - 1)" by (simp add: algebra_simps)
  then have "cdiv a p = a div p + (a mod p + p - 1) div p"
    unfolding cdiv_def using p by (metis div_mult_self3 less_irrefl)
  moreover have "(a mod p + p - 1) div p = (if a mod p = 0 then 0 else 1)"
  proof (cases "a mod p = 0")
    case False
    then have "0 \<le> a mod p - 1" "a mod p - 1 < p" using p pos_mod_sign [of p a] pos_mod_bound [of p a] by linarith+
    then have "(a mod p - 1 + p) div p = 1" using p by (metis add.commute add.right_neutral div_add_self1 div_pos_pos_trivial less_irrefl)
    then show ?thesis using False by (simp add: algebra_simps)
  qed (use p in simp)
  ultimately show ?thesis by simp
qed

lemma cdiv_bounds:
  assumes "0 < p"
  shows "a \<le> cdiv a p * p" "cdiv a p * p < a + p"
proof -
  have e: "a div p * p + a mod p = a" by (rule div_mult_mod_eq)
  have c: "cdiv a p * p = a div p * p + (if a mod p = 0 then 0 else p)"
    using assms by (simp add: cdiv_eq distrib_right)
  have "a \<le> cdiv a p * p \<and> cdiv a p * p < a + p"
  proof (cases "a mod p = 0")
    case True
    then have "cdiv a p * p = a div p * p" using c by simp
    then show ?thesis using e True assms by linarith
  next
    case False
    then have "cdiv a p * p = a div p * p + p" using c by simp
    then show ?thesis using e False pos_mod_sign [OF assms, of a] pos_mod_bound [OF assms, of a] by linarith
  qed
  then show "a \<le> cdiv a p * p" "cdiv a p * p < a + p" by blast+
qed

lemma cdiv_mono: "0 < p \<Longrightarrow> a \<le> b \<Longrightarrow> cdiv a p \<le> cdiv b p"
  by (simp add: cdiv_def zdiv_mono1)

text \<open>The sizes of the three parts.\<close>

lemma parts_done:
  assumes "0 < p" "pre \<le> seq" "pre + (min seq (cdiv pre p * p) - pre) = seq"
  shows "cdiv seq p = cdiv pre p"
proof -
  have "seq \<le> cdiv pre p * p" using assms(3) by linarith
  then have "cdiv seq p * p < cdiv pre p * p + p" using cdiv_bounds(2) [OF assms(1), of seq] by linarith
  then have "cdiv seq p < cdiv pre p + 1" using assms(1) by (metis distrib_left mult.commute mult.right_neutral mult_less_cancel_right_pos)
  then show ?thesis using cdiv_mono [OF assms(1,2)] by linarith
qed

lemma parts_left:
  assumes "0 < p" "cdiv pre p * p < seq"
  obtains q :: nat where "seq div p * p - cdiv pre p * p = int q * p"
    "seq - cdiv pre p * p = int q * p + seq mod p"
    "cdiv seq p - cdiv pre p = int q + (if seq mod p = 0 then 0 else 1)"
proof -
  have "cdiv pre p * p div p \<le> seq div p" using assms by (intro zdiv_mono1) simp_all
  then have "cdiv pre p \<le> seq div p" using assms(1) by simp
  then obtain q where q: "seq div p - cdiv pre p = int q" by (metis diff_ge_0_iff_ge nonneg_int_cases)
  then have e: "seq div p * p - cdiv pre p * p = int q * p" by (metis left_diff_distrib)
  have "seq = seq div p * p + seq mod p" by simp
  then show ?thesis using that [of q] e q cdiv_eq [OF assms(1), of seq] by linarith
qed

definition request_slots :: "nat \<Rightarrow> int \<Rightarrow> int \<Rightarrow> int \<Rightarrow> int list \<Rightarrow> slot list" where
  "request_slots psz pre seq last_loc pgs =
     (let p = int psz; n1 = min seq (cdiv pre p * p) - pre
      in map (\<lambda>k. last_loc + 1 + int k) [0..<nat n1] @
         take (nat (seq - pre - n1)) (pages_slots psz (take (nat (cdiv seq p - cdiv pre p)) pgs)))"

lemma nth_pages_slots:
  "k < length ps * psz \<Longrightarrow> pages_slots psz ps ! k = ps ! (k div psz) * int psz + int (k mod psz)"
proof (induction ps arbitrary: k)
  case (Cons q ps)
  have pos: "0 < psz" using Cons.prems by (cases psz) auto
  show ?case
  proof (cases "k < psz")
    case True
    then show ?thesis by (simp add: pages_slots_def page_slots_def nth_append)
  next
    case False
    then have "pages_slots psz (q # ps) ! k = pages_slots psz ps ! (k - psz)" by (simp add: pages_slots_def nth_append)
    also have "\<dots> = ps ! ((k - psz) div psz) * int psz + int ((k - psz) mod psz)"
      by (rule Cons.IH) (use Cons.prems False in simp)
    also have "\<dots> = (q # ps) ! (k div psz) * int psz + int (k mod psz)"
      using False pos by (simp add: le_div_geq le_mod_geq)
    finally show ?thesis .
  qed
qed simp

lemma map_pages_slots:
  assumes "m \<le> length ps * psz"
  shows "map (\<lambda>k. ps ! (k div psz) * int psz + int (k mod psz)) [0..<m] = take m (pages_slots psz ps)"
  using assms by (intro nth_equalityI) (simp_all add: nth_pages_slots)

lemma length_request_slots:
  assumes "0 < psz" "pre \<le> seq" "nat (cdiv seq (int psz) - cdiv pre (int psz)) \<le> length pgs"
  shows "length (request_slots psz pre seq last_loc pgs) = nat (seq - pre)"
proof -
  let ?p = "int psz" and ?n1 = "min seq (cdiv pre (int psz) * int psz) - pre"
  have p: "0 < ?p" using assms(1) by simp
  have n1: "0 \<le> ?n1" using cdiv_bounds(1) [OF p, of pre] assms(2) by linarith
  have "nat (seq - pre - ?n1) \<le> nat (cdiv seq ?p - cdiv pre ?p) * psz"
  proof (cases "seq \<le> cdiv pre ?p * ?p")
    case False
    then obtain q where "seq - cdiv pre ?p * ?p = int q * ?p + seq mod ?p"
      "cdiv seq ?p - cdiv pre ?p = int q + (if seq mod ?p = 0 then 0 else 1)"
      using parts_left [OF p, of pre seq] by (metis not_le)
    moreover have "nat (int q * ?p + seq mod ?p) \<le> (q + (if seq mod ?p = 0 then 0 else 1)) * psz"
      using pos_mod_bound [OF p, of seq] by (auto simp: nat_le_iff algebra_simps)
    ultimately show ?thesis using False by (auto simp: nat_add_distrib)
  qed simp
  then have "length (request_slots psz pre seq last_loc pgs) = nat ?n1 + nat (seq - pre - ?n1)"
    using assms(3) by (simp add: request_slots_def Let_def min_def)
  then show ?thesis using n1 assms(2) by (simp add: nat_add_distrib [symmetric])
qed

lemma request_slots_done:
  assumes "0 < psz" "pre + (min seq (cdiv pre (int psz) * int psz) - pre) = seq"
  shows "request_slots psz pre seq last_loc pgs =
    map (\<lambda>k. last_loc + 1 + int k) [0..<nat (min seq (cdiv pre (int psz) * int psz) - pre)]"
  using assms by (simp add: request_slots_def Let_def)

lemma request_slots_split:
  assumes "0 < psz" "cdiv pre (int psz) * int psz < seq"
    and q: "seq - cdiv pre (int psz) * int psz = int q * int psz + seq mod int psz"
      "cdiv seq (int psz) - cdiv pre (int psz) = int q + (if seq mod int psz = 0 then 0 else 1)"
    and len: "nat (cdiv seq (int psz) - cdiv pre (int psz)) \<le> length pgs"
  shows "request_slots psz pre seq last_loc pgs =
    map (\<lambda>k. last_loc + 1 + int k) [0..<nat (cdiv pre (int psz) * int psz - pre)] @ pages_slots psz (take q pgs) @
    map (\<lambda>k. pgs ! q * int psz + int k) [0..<nat (seq mod int psz)]"
proof -
  let ?p = "int psz"
  have p: "0 < ?p" using assms(1) by simp
  have n1: "min seq (cdiv pre ?p * ?p) = cdiv pre ?p * ?p" using assms(2) by simp
  have m: "0 \<le> seq mod ?p" "seq mod ?p < ?p" using p by simp_all
  have r: "nat (seq - cdiv pre ?p * ?p) = q * psz + nat (seq mod ?p)"
    using q(1) m(1) by (simp add: nat_add_distrib nat_mult_distrib)
  have "take (q * psz + nat (seq mod ?p)) (pages_slots psz (take (nat (cdiv seq ?p - cdiv pre ?p)) pgs)) =
      pages_slots psz (take q pgs) @ map (\<lambda>k. pgs ! q * ?p + int k) [0..<nat (seq mod ?p)]"
  proof (cases "seq mod ?p = 0")
    case True
    then show ?thesis using q(2) len by simp
  next
    case False
    then have np: "nat (cdiv seq ?p - cdiv pre ?p) = Suc q" using q(2) by simp
    then have ql: "q < length pgs" using len by simp
    have "pages_slots psz (take (Suc q) pgs) = pages_slots psz (take q pgs) @ page_slots psz (pgs ! q)"
      using ql by (simp add: take_Suc_conv_app_nth pages_slots_def)
    moreover have "take (nat (seq mod ?p)) (page_slots psz (pgs ! q)) = map (\<lambda>k. pgs ! q * ?p + int k) [0..<nat (seq mod ?p)]"
      using m by (simp add: page_slots_def take_map)
    ultimately show ?thesis using np ql by simp
  qed
  then show ?thesis using r n1 by (simp add: request_slots_def Let_def)
qed

section \<open>The blocks of a launch\<close>

definition page_counts :: "nat \<Rightarrow> int list \<Rightarrow> int list \<Rightarrow> int list" where
  "page_counts psz prefix_lens seq_lens = map2 (\<lambda>s q. cdiv s (int psz) - cdiv q (int psz)) seq_lens prefix_lens"

definition extend_args :: "nat \<Rightarrow> int list \<Rightarrow> int list \<Rightarrow> int list \<Rightarrow> int list \<Rightarrow> bool" where
  "extend_args psz prefix_lens seq_lens last_loc free_pgs \<longleftrightarrow>
     0 < psz \<and> length seq_lens = length prefix_lens \<and> length last_loc = length prefix_lens \<and>
     (\<forall>i < length prefix_lens. prefix_lens ! i \<le> seq_lens ! i) \<and>
     sum_list (page_counts psz prefix_lens seq_lens) \<le> int (length free_pgs)"

definition blocks :: "nat \<Rightarrow> int list \<Rightarrow> int list \<Rightarrow> int list \<Rightarrow> int list \<Rightarrow> slot list list" where
  "blocks psz prefix_lens seq_lens last_loc free_pgs =
     map (\<lambda>i. request_slots psz (prefix_lens ! i) (seq_lens ! i) (last_loc ! i)
               (drop (nat (sum_list (take i (page_counts psz prefix_lens seq_lens)))) free_pgs)) [0..<length prefix_lens]"

lemma sum_take_Suc: "i < length xs \<Longrightarrow> sum_list (take (Suc i) xs) = sum_list (take i xs) + (xs ! i :: int)"
  by (simp add: take_Suc_conv_app_nth)

lemma sum_take_nonneg: "\<forall>x \<in> set xs. 0 \<le> x \<Longrightarrow> 0 \<le> sum_list (take i (xs :: int list))"
  by (intro sum_list_nonneg) (auto dest: in_set_takeD)

lemma sum_take_le: "\<forall>x \<in> set xs. 0 \<le> x \<Longrightarrow> sum_list (take i xs) \<le> sum_list (xs :: int list)"
proof -
  assume nn: "\<forall>x \<in> set xs. 0 \<le> x"
  have "sum_list xs = sum_list (take i xs) + sum_list (drop i xs)" by (metis append_take_drop_id sum_list_append)
  moreover have "0 \<le> sum_list (drop i xs)" using nn by (intro sum_list_nonneg) (auto dest: in_set_dropD)
  ultimately show ?thesis by linarith
qed

lemma page_counts_nonneg:
  assumes "extend_args psz prefix_lens seq_lens last_loc free_pgs"
  shows "\<forall>x \<in> set (page_counts psz prefix_lens seq_lens). 0 \<le> x"
  using assms cdiv_mono [of "int psz"] by (auto simp: page_counts_def extend_args_def set_zip)

lemma page_range:
  assumes ok: "extend_args psz prefix_lens seq_lens last_loc free_pgs" and i: "i < length prefix_lens"
  defines "c \<equiv> page_counts psz prefix_lens seq_lens"
  shows "length c = length prefix_lens" "c ! i = cdiv (seq_lens ! i) (int psz) - cdiv (prefix_lens ! i) (int psz)"
    "0 \<le> sum_list (take i c)" "0 \<le> c ! i" "sum_list (take i c) + c ! i \<le> int (length free_pgs)"
    "nat (c ! i) \<le> length (drop (nat (sum_list (take i c))) free_pgs)"
proof -
  note nn = page_counts_nonneg [OF ok]
  show l: "length c = length prefix_lens" and ci: "c ! i = cdiv (seq_lens ! i) (int psz) - cdiv (prefix_lens ! i) (int psz)"
    using ok i by (simp_all add: c_def page_counts_def extend_args_def)
  show s: "0 \<le> sum_list (take i c)" using sum_take_nonneg [OF nn] by (simp add: c_def)
  show "0 \<le> c ! i" using nn i l by (simp add: c_def)
  have "sum_list (take (Suc i) c) \<le> sum_list c" using sum_take_le [OF nn] by (simp add: c_def)
  then show e: "sum_list (take i c) + c ! i \<le> int (length free_pgs)"
    using sum_take_Suc [of i c] i l ok by (simp add: extend_args_def c_def)
  then show "nat (c ! i) \<le> length (drop (nat (sum_list (take i c))) free_pgs)" using s by simp
qed

lemma blocks_fields:
  assumes ok: "extend_args psz prefix_lens seq_lens last_loc free_pgs"
  defines "bs \<equiv> blocks psz prefix_lens seq_lens last_loc free_pgs" and "ext \<equiv> map2 (-) seq_lens prefix_lens"
  shows "length bs = length prefix_lens"
    "i < length prefix_lens \<Longrightarrow> length (bs ! i) = nat (seq_lens ! i - prefix_lens ! i)"
    "i \<le> length prefix_lens \<Longrightarrow> int (block_start bs i) = sum_list (take i ext)"
proof -
  show l: "length bs = length prefix_lens" by (simp add: bs_def blocks_def)
  show b: "length (bs ! i) = nat (seq_lens ! i - prefix_lens ! i)" if "i < length prefix_lens" for i
    using page_range [OF ok that] ok that
    by (simp add: bs_def blocks_def extend_args_def length_request_slots)
  show "int (block_start bs i) = sum_list (take i ext)" if "i \<le> length prefix_lens" for i
    using that
  proof (induction i)
    case (Suc i)
    then have "int (block_start bs (Suc i)) = sum_list (take i ext) + (seq_lens ! i - prefix_lens ! i)"
      using block_start_Suc [of i bs] l b [of i] ok by (simp add: extend_args_def)
    then show ?case using sum_take_Suc [of i ext] Suc.prems ok by (simp add: ext_def extend_args_def)
  qed simp
qed

lemma masked_sum:
  assumes "pid < length xs" "length ys = length xs" "length xs \<le> n" "\<forall>k. f (u k) (v k) = (0 :: int)"
  shows "sum_list (map2 f (map (\<lambda>k. if k \<le> pid then ld (u k) xs (int k) else u k) [0..<n])
      (map (\<lambda>k. if k \<le> pid then ld (v k) ys (int k) else v k) [0..<n])) = sum_list (take (Suc pid) (map2 f xs ys))"
proof -
  let ?g = "\<lambda>k. f (if k \<le> pid then ld (u k) xs (int k) else u k) (if k \<le> pid then ld (v k) ys (int k) else v k)"
  have "[0..<n] = [0..<Suc pid] @ [Suc pid..<n]"
    using assms(1,3) upt_add_eq_append [of 0 "Suc pid" "n - Suc pid"] by simp
  then have "sum_list (map ?g [0..<n]) = sum_list (map ?g [0..<Suc pid]) + sum_list (map ?g [Suc pid..<n])" by simp
  also have "map ?g [Suc pid..<n] = map (\<lambda>k. 0) [Suc pid..<n]" using assms(4) by (intro map_cong) auto
  also have "map ?g [0..<Suc pid] = take (Suc pid) (map2 f xs ys)"
    using assms(1,2) by (intro nth_equalityI) (auto simp: ld_def nth_append less_Suc_eq)
  finally show ?thesis by (simp add: map2_map_map)
qed

section \<open>Each program writes its block\<close>

lemma full_pages_map:
  assumes "0 < psz" "0 \<le> start" "q \<le> length (drop (nat start) free_pgs)"
  shows "map (\<lambda>k. ld (u k) free_pgs (start + int k div int psz) * int psz + int k mod int psz) [0..<q * psz] =
    pages_slots psz (take q (drop (nat start) free_pgs))"
proof -
  let ?D = "drop (nat start) free_pgs"
  have "ld (u k) free_pgs (start + int k div int psz) * int psz + int k mod int psz =
      take q ?D ! (k div psz) * int psz + int (k mod psz)" if "k < q * psz" for k
  proof -
    have k: "k div psz < q" using that assms(1) by (simp add: div_less_iff_less_mult)
    have e: "start + int k div int psz = int (nat start + k div psz)" using assms(2) by (simp add: zdiv_int)
    have "nat start + k div psz < length free_pgs" using k assms(3) by simp
    then have "ld (u k) free_pgs (start + int k div int psz) = ?D ! (k div psz)"
      unfolding e ld_def using assms(3) k by (simp add: nth_drop del: of_nat_add)
    then show ?thesis using k by (simp add: zmod_int)
  qed
  then have "map (\<lambda>k. ld (u k) free_pgs (start + int k div int psz) * int psz + int k mod int psz) [0..<q * psz] =
      map (\<lambda>k. take q ?D ! (k div psz) * int psz + int (k mod psz)) [0..<q * psz]" by (intro map_cong) simp_all
  also have "\<dots> = pages_slots psz (take q ?D)"
    using map_pages_slots [of "q * psz" "take q ?D" psz] assms(3) by simp
  finally show ?thesis .
qed

lemma extend_parts_block:
  assumes psz: "0 < psz" and le: "pre \<le> seq" and mt: "seq - pre \<le> int max_tokens"
    and room: "b + nat (seq - pre) \<le> length out" and start: "0 \<le> start"
    and len: "nat (cdiv seq (int psz) - cdiv pre (int psz)) \<le> length (drop (nat start) free_pgs)"
  shows "extend_parts u free_pgs psz max_tokens seq pre last_loc (int b) start out =
    overwrite out b (request_slots psz pre seq last_loc (drop (nat start) free_pgs))"
proof -
  let ?p = "int psz" and ?D = "drop (nat start) free_pgs"
  let ?n1 = "min seq (cdiv pre (int psz) * int psz) - pre"
  have p: "0 < ?p" using psz by simp
  have n1: "0 \<le> ?n1" "?n1 \<le> ?p" "?n1 \<le> seq - pre" using cdiv_bounds [OF p, of pre] le by linarith+
  let ?P1 = "map (\<lambda>k. last_loc + 1 + int k) [0..<nat ?n1]"
  have "int b + ?n1 \<le> int (length out)" using room n1(3) le by linarith
  then have out1: "st out (int b) psz ?n1 (\<lambda>k. last_loc + 1 + k) = overwrite out b ?P1"
    using st_overwrite [of "int b" ?n1 psz out "\<lambda>k. last_loc + 1 + k"] n1 by simp
  show ?thesis
  proof (cases "pre + ?n1 = seq")
    case True
    then show ?thesis
      using out1 request_slots_done [OF psz True] by (simp only: extend_parts_def Let_def simp_thms if_True)
  next
    case False
    then have A: "cdiv pre ?p * ?p < seq" by linarith
    obtain q where q: "seq div ?p * ?p - cdiv pre ?p * ?p = int q * ?p" "seq - cdiv pre ?p * ?p = int q * ?p + seq mod ?p"
      "cdiv seq ?p - cdiv pre ?p = int q + (if seq mod ?p = 0 then 0 else 1)" by (rule parts_left [OF p A])
    have n1e: "?n1 = cdiv pre ?p * ?p - pre" using A by simp
    let ?P2 = "pages_slots psz (take q ?D)" and ?P3 = "map (\<lambda>k. ?D ! q * ?p + int k) [0..<nat (seq mod ?p)]"
    have rs: "request_slots psz pre seq last_loc ?D = ?P1 @ ?P2 @ ?P3"
      using request_slots_split [OF psz A q(2,3) len] n1e by simp
    have ql: "q \<le> length ?D" using q(3) len by (simp split: if_splits)
    have m: "0 \<le> seq mod ?p" "seq mod ?p < ?p" using p by simp_all
    have tot: "b + nat ?n1 + q * psz + nat (seq mod ?p) = b + nat (seq - pre)"
    proof -
      have "int (b + nat ?n1 + q * psz + nat (seq mod ?p)) = int (b + nat (seq - pre))" using n1(1) n1e q(2) m(1) le by simp
      then show ?thesis by (rule of_nat_eq_iff [THEN iffD1])
    qed
    have sum: "?n1 + int q * ?p + seq mod ?p = seq - pre" using n1e q(2) by linarith
    have room': "int b + (?n1 + int q * ?p + seq mod ?p) \<le> int (length out)" unfolding sum using room le by linarith
    have out2: "st (overwrite out b ?P1) (int b + ?n1) max_tokens (int q * ?p)
        (\<lambda>k. ld (u 5 (nat k)) free_pgs (start + k div ?p) * ?p + k mod ?p) = overwrite out b (?P1 @ ?P2)"
    proof -
      have "int q * ?p \<le> int max_tokens" using q(2) m(1) mt n1(1) n1e by linarith
      then have "st (overwrite out b ?P1) (int b + ?n1) max_tokens (int q * ?p)
          (\<lambda>k. ld (u 5 (nat k)) free_pgs (start + k div ?p) * ?p + k mod ?p) = overwrite (overwrite out b ?P1) (b + length ?P1) ?P2"
        using st_overwrite [of "int b + ?n1" "int q * ?p" max_tokens "overwrite out b ?P1"
            "\<lambda>k. ld (u 5 (nat k)) free_pgs (start + k div ?p) * ?p + k mod ?p"]
          full_pages_map [OF psz start ql, of "u 5"] n1(1) tot room room' m(1) by (simp add: nat_add_distrib nat_mult_distrib)
      also have "\<dots> = overwrite out b (?P1 @ ?P2)" using tot room ql by (intro overwrite_append) simp
      finally show ?thesis .
    qed
    have parts: "extend_parts u free_pgs psz max_tokens seq pre last_loc (int b) start out =
        (if pre + ?n1 + int q * ?p = seq then overwrite out b (?P1 @ ?P2)
         else st (overwrite out b (?P1 @ ?P2)) (int b + ?n1 + int q * ?p) psz (seq - seq div ?p * ?p)
                (\<lambda>k. ld (u 6 0) free_pgs (start + (cdiv seq ?p - cdiv pre ?p) - 1) * ?p + k))"
      using False by (simp only: extend_parts_def Let_def out1 q(1) out2 if_False)
    show ?thesis
    proof (cases "seq mod ?p = 0")
      case True
      then have "pre + ?n1 + int q * ?p = seq" using sum by linarith
      then show ?thesis using parts rs True by (simp only: if_True) simp
    next
      case last: False
      then have ne: "pre + ?n1 + int q * ?p \<noteq> seq" using sum by linarith
      have n3: "seq - seq div ?p * ?p = seq mod ?p" by (rule minus_div_mult_eq_mod)
      have ql': "Suc q \<le> length ?D" using q(3) len last by simp
      then have "start + int q < int (length free_pgs)" using start by simp
      then have pg: "ld (u 6 0) free_pgs (start + (cdiv seq ?p - cdiv pre ?p) - 1) = ?D ! q"
        using start last q(3) ql' by (simp add: ld_def nat_add_distrib)
      have l: "b + length (?P1 @ ?P2) = b + nat ?n1 + q * psz" using ql by simp
      have "st (overwrite out b (?P1 @ ?P2)) (int b + ?n1 + int q * ?p) psz (seq mod ?p) (\<lambda>k. ?D ! q * ?p + k) =
          overwrite (overwrite out b (?P1 @ ?P2)) (b + length (?P1 @ ?P2)) ?P3"
        using st_overwrite [of "int b + ?n1 + int q * ?p" "seq mod ?p" psz "overwrite out b (?P1 @ ?P2)"
            "\<lambda>k. ?D ! q * ?p + k"] n1(1) m room' ql tot room unfolding l by (simp add: nat_add_distrib nat_mult_distrib)
      also have "\<dots> = overwrite out b (?P1 @ ?P2 @ ?P3)"
        using overwrite_append [of b "?P1 @ ?P2" ?P3 out] tot room ql by simp
      finally show ?thesis using parts rs ne by (simp only: if_False n3 pg)
    qed
  qed
qed

lemma kernel_writes_block:
  assumes ok: "extend_args psz prefix_lens seq_lens last_loc free_pgs" and i: "pid < length prefix_lens"
    and bu: "length prefix_lens \<le> bs_upper" and mt: "seq_lens ! pid - prefix_lens ! pid \<le> int max_tokens"
    and agree: "lanes_agree u" and out: "length out = length (concat (blocks psz prefix_lens seq_lens last_loc free_pgs))"
  shows "alloc_extend_kernel u prefix_lens seq_lens last_loc free_pgs bs_upper psz max_tokens pid out =
    overwrite out (block_start (blocks psz prefix_lens seq_lens last_loc free_pgs) pid)
      (blocks psz prefix_lens seq_lens last_loc free_pgs ! pid)"
proof -
  let ?bs = "blocks psz prefix_lens seq_lens last_loc free_pgs" and ?p = "int psz"
  let ?s = "seq_lens ! pid" and ?q = "prefix_lens ! pid" and ?c = "page_counts psz prefix_lens seq_lens"
  let ?start = "sum_list (take pid ?c)" and ?b = "block_start ?bs pid"
  have a: "0 < psz" "length seq_lens = length prefix_lens" "length last_loc = length prefix_lens" "?q \<le> ?s"
    using ok i by (simp_all add: extend_args_def)
  note r = page_range [OF ok i] and bf = blocks_fields [OF ok]
  have lds: "ld v seq_lens (int pid) = ?s" "ld v prefix_lens (int pid) = ?q" "ld v last_loc (int pid) = last_loc ! pid" for v
    using i a by (simp_all add: ld_def)
  have osl: "sum_list (map2 (-) (map (\<lambda>k. if k \<le> pid then ld (u pid 0 k) seq_lens (int k) else u pid 0 k) [0..<bs_upper])
      (map (\<lambda>k. if k \<le> pid then ld (u pid 1 k) prefix_lens (int k) else u pid 1 k) [0..<bs_upper])) - (?s - ?q) = int ?b"
    by (subst masked_sum) (use bf(3) [of pid] sum_take_Suc [of pid "map2 (-) seq_lens prefix_lens"] i bu a agree in \<open>simp_all add: lanes_agree_def\<close>)
  have nps: "sum_list (map2 (\<lambda>s q. cdiv s ?p - cdiv q ?p) (map (\<lambda>k. if k \<le> pid then ld (u pid 0 k) seq_lens (int k) else u pid 0 k) [0..<bs_upper])
      (map (\<lambda>k. if k \<le> pid then ld (u pid 1 k) prefix_lens (int k) else u pid 1 k) [0..<bs_upper])) - (cdiv ?s ?p - cdiv ?q ?p) = ?start"
    by (subst masked_sum) (use sum_take_Suc [of pid ?c] i bu a r(1,2) agree in \<open>simp_all add: page_counts_def lanes_agree_def\<close>)
  have "?b + nat (?s - ?q) \<le> length out" using block_end_le [of pid ?bs] bf(1,2) i out by simp
  moreover have "?bs ! pid = request_slots psz ?q ?s (last_loc ! pid) (drop (nat ?start) free_pgs)"
    using i by (simp add: blocks_def)
  ultimately show ?thesis
    unfolding alloc_extend_kernel_def Let_def lds osl nps
    using extend_parts_block [OF a(1,4) mt _ r(3), of ?b out free_pgs "u pid" "last_loc ! pid"] r(2,6) by simp
qed

lemma assign_slice_overwrite:
  assumes "0 \<le> a" "b = a + int (length vals)" "b \<le> int (length out)"
  shows "assign_slice out a b vals = Inr (overwrite out (nat a) vals)"
proof -
  have n: "length (py_slice out a b) = length vals"
    using assms by (simp add: py_slice_def py_clip_def nat_add_distrib)
  have "(if length vals = 1 then replicate (length vals) (hd vals) else vals) = vals"
    by (cases vals) auto
  then show ?thesis
    unfolding assign_slice_def n Let_def using assms by (simp add: overwrite_def py_clip_def)
qed

lemma assign_next:
  assumes "x = int (b + length vs)" "y = x + int (length ws)" "b + length vs + length ws \<le> length out"
  shows "assign_slice (overwrite out b vs) x y ws = Inr (overwrite out b (vs @ ws))"
proof -
  have "assign_slice (overwrite out b vs) x y ws = Inr (overwrite (overwrite out b vs) (nat x) ws)"
    by (rule assign_slice_overwrite) (use assms in simp_all)
  then show ?thesis using overwrite_append [OF assms(3)] assms(1) by (simp del: of_nat_add)
qed

lemma naive_writes_block:
  assumes ok: "extend_args psz prefix_lens seq_lens last_loc free_pgs" and i: "i < length prefix_lens"
    and out: "length out = length (concat (blocks psz prefix_lens seq_lens last_loc free_pgs))"
  shows "naive_request prefix_lens seq_lens last_loc free_pgs psz i out =
    Inr (overwrite out (block_start (blocks psz prefix_lens seq_lens last_loc free_pgs) i)
      (blocks psz prefix_lens seq_lens last_loc free_pgs ! i))"
proof -
  let ?bs = "blocks psz prefix_lens seq_lens last_loc free_pgs" and ?p = "int psz"
  let ?s = "seq_lens ! i" and ?q = "prefix_lens ! i" and ?c = "page_counts psz prefix_lens seq_lens"
  let ?start = "sum_list (take i ?c)" and ?b = "block_start ?bs i"
  let ?D = "drop (nat ?start) free_pgs" and ?n1 = "min ?s (cdiv ?q ?p * ?p) - ?q"
  let ?P1 = "map (\<lambda>k. last_loc ! i + 1 + int k) [0..<nat ?n1]"
  have a: "0 < psz" "length seq_lens = length prefix_lens" "length last_loc = length prefix_lens" "?q \<le> ?s"
    using ok i by (simp_all add: extend_args_def)
  have p: "0 < ?p" using a(1) by simp
  note r = page_range [OF ok i] and bf = blocks_fields [OF ok]
  have ends: "sum_list (take (Suc i) (map2 (-) seq_lens prefix_lens)) = int ?b + (?s - ?q)"
    "map2 (-) seq_lens prefix_lens ! i = ?s - ?q"
    "sum_list (take (Suc i) (map2 (\<lambda>s q. cdiv s ?p - cdiv q ?p) seq_lens prefix_lens)) = ?start + ?c ! i"
    "map2 (\<lambda>s q. cdiv s ?p - cdiv q ?p) seq_lens prefix_lens ! i = ?c ! i"
    "map2 (\<lambda>s q. s div ?p - cdiv q ?p) seq_lens prefix_lens ! i = ?s div ?p - cdiv ?q ?p"
    using bf(3) [of i] sum_take_Suc [of i "map2 (-) seq_lens prefix_lens"] sum_take_Suc [of i ?c] i a r(1)
    by (simp_all add: page_counts_def)
  have room: "?b + nat (?s - ?q) \<le> length out" using block_end_le [of i ?bs] bf(1,2) i out by simp
  have blk: "?bs ! i = request_slots psz ?q ?s (last_loc ! i) ?D" using i by (simp add: blocks_def)
  have n1: "0 \<le> ?n1" "?n1 \<le> ?s - ?q" using cdiv_bounds [OF p, of ?q] a(4) by linarith+
  have "?n1 \<noteq> 0 \<Longrightarrow> assign_slice out (int ?b) (int ?b + ?n1) ?P1 = Inr (overwrite out ?b ?P1)"
    using assign_slice_overwrite [of "int ?b" "int ?b + ?n1" ?P1 out] n1 room by simp
  then have out1: "(if ?n1 \<noteq> 0 then assign_slice out (int ?b) (int ?b + ?n1) ?P1 else Inr out) = Inr (overwrite out ?b ?P1)"
    by simp
  show ?thesis
  proof (cases "?q + ?n1 = ?s")
    case True
    have "int ?b + (?s - ?q) - (?s - ?q) = int ?b" by simp
    then show ?thesis unfolding naive_request_def Let_def ends
      using out1 True blk request_slots_done [OF a(1) True] by (simp only: bind_result.simps if_True simp_thms)
  next
    case False
    then have A: "cdiv ?q ?p * ?p < ?s" by linarith
    obtain q where q: "?s div ?p * ?p - cdiv ?q ?p * ?p = int q * ?p" "?s - cdiv ?q ?p * ?p = int q * ?p + ?s mod ?p"
      "cdiv ?s ?p - cdiv ?q ?p = int q + (if ?s mod ?p = 0 then 0 else 1)" by (rule parts_left [OF p A])
    have n1e: "?n1 = cdiv ?q ?p * ?p - ?q" using A by simp
    have full: "?s div ?p - cdiv ?q ?p = int q" using q(1) p by (simp add: left_diff_distrib [symmetric])
    let ?P2 = "pages_slots psz (take q ?D)" and ?P3 = "map (\<lambda>k. ?D ! q * ?p + int k) [0..<nat (?s mod ?p)]"
    have ci: "?c ! i = int q + (if ?s mod ?p = 0 then 0 else 1)" using r(2) q(3) by simp
    have blk': "?bs ! i = ?P1 @ ?P2 @ ?P3"
      using request_slots_split [OF a(1) A q(2,3)] r(2,6) n1e blk by simp
    have ql: "q \<le> length ?D" using ci r(6) by (simp split: if_splits)
    have m: "0 \<le> ?s mod ?p" "?s mod ?p < ?p" using p by simp_all
    have sum: "?n1 + int q * ?p + ?s mod ?p = ?s - ?q" using n1e q(2) by linarith
    have room': "int ?b + (?n1 + int q * ?p + ?s mod ?p) \<le> int (length out)" unfolding sum using room a(4) by linarith
    have l2: "length ?P2 = q * psz" using ql by simp
    have sl: "py_slice free_pgs ?start (?start + ?c ! i - (?c ! i - int q)) = take q ?D"
      using r(3) by (simp add: py_slice_def py_clip_def slice_def nat_add_distrib)
    have l: "int (length ?P1) = ?n1" "int (length ?P2) = int q * ?p" "int (length ?P3) = ?s mod ?p"
      using n1(1) m(1) by (simp, simp only: l2 of_nat_mult, simp)
    have "int (?b + length (?P1 @ ?P2) + length ?P3) \<le> int (length out)"
      using room' unfolding length_append of_nat_add l by linarith
    then have fits: "?b + length (?P1 @ ?P2) + length ?P3 \<le> length out" by (rule of_nat_le_iff [THEN iffD1])
    have "assign_slice (overwrite out ?b ?P1) (int ?b + ?n1) (int ?b + ?n1 + int q * ?p) ?P2 = Inr (overwrite out ?b (?P1 @ ?P2))"
    proof (rule assign_next)
      show "int ?b + ?n1 = int (?b + length ?P1)" "int ?b + ?n1 + int q * ?p = int ?b + ?n1 + int (length ?P2)"
        unfolding of_nat_add l by (rule refl)+
      show "?b + length ?P1 + length ?P2 \<le> length out" using fits unfolding length_append by linarith
    qed
    then have out2: "(if int q * ?p \<noteq> 0 then assign_slice (overwrite out ?b ?P1) (int ?b + ?n1) (int ?b + ?n1 + int q * ?p) ?P2
        else Inr (overwrite out ?b ?P1)) = Inr (overwrite out ?b (?P1 @ ?P2))"
      using a(1) by (cases "q = 0") simp_all
    have b0: "int ?b + (?s - ?q) - (?s - ?q) = int ?b" "?start + ?c ! i - ?c ! i = ?start" by simp_all
    have eq: "naive_request prefix_lens seq_lens last_loc free_pgs psz i out =
        (if ?q + ?n1 + int q * ?p = ?s then Inr (overwrite out ?b (?P1 @ ?P2))
         else if ?s mod ?p \<noteq> 0 then bind_result (py_item free_pgs (?start + ?c ! i - 1)) (\<lambda>page.
                assign_slice (overwrite out ?b (?P1 @ ?P2)) (int ?b + (?s - ?q) - ?s mod ?p) (int ?b + (?s - ?q))
                  (map (\<lambda>k. page * ?p + int k) [0..<nat (?s mod ?p)]))
         else Inr (overwrite out ?b (?P1 @ ?P2)))"
      using False by (simp only: naive_request_def Let_def ends b0 out1 bind_result.simps if_False full sl out2 minus_div_mult_eq_mod)
    show ?thesis
    proof (cases "?s mod ?p = 0")
      case True
      then show ?thesis using eq blk' sum by simp
    next
      case last: False
      then have ne: "?q + ?n1 + int q * ?p \<noteq> ?s" using sum by linarith
      have ql': "q < length ?D" using ci r(6) last by simp
      have pg: "py_item free_pgs (?start + ?c ! i - 1) = Inr (?D ! q)"
        using r(3) ci last ql' by (simp add: py_item_def nat_add_distrib Let_def)
      have "assign_slice (overwrite out ?b (?P1 @ ?P2)) (int ?b + (?s - ?q) - ?s mod ?p) (int ?b + (?s - ?q)) ?P3 =
          Inr (overwrite out ?b ((?P1 @ ?P2) @ ?P3))"
      proof (rule assign_next [OF _ _ fits])
        show "int ?b + (?s - ?q) - ?s mod ?p = int (?b + length (?P1 @ ?P2))"
          "int ?b + (?s - ?q) = int ?b + (?s - ?q) - ?s mod ?p + int (length ?P3)"
          unfolding length_append of_nat_add l using sum by linarith+
      qed
      then show ?thesis using eq ne last pg blk' by (simp only: if_False if_True bind_result.simps simp_thms append_assoc)
    qed
  qed
qed

section \<open>Any order of the programs gives the sequential result\<close>

definition program_order :: "nat \<Rightarrow> nat list \<Rightarrow> bool" where
  "program_order n order \<longleftrightarrow> distinct order \<and> set order = {..<n}"

lemma fold_blocks:
  assumes step: "\<And>k out. k < length bs \<Longrightarrow> length out = length (concat bs) \<Longrightarrow> f k out = overwrite out (block_start bs k) (bs ! k)"
    and "set order \<subseteq> {..<length bs}" "length out = length (concat bs)"
  shows "fold f order out = fold (\<lambda>k out. overwrite out (block_start bs k) (bs ! k)) order out"
  using assms(2,3)
proof (induction order arbitrary: out)
  case (Cons k order)
  then show ?case
    using step [of k out] Cons.IH [of "overwrite out (block_start bs k) (bs ! k)"] block_end_le [of k bs] by simp
qed simp

lemma fold_result_blocks:
  assumes step: "\<And>k out. k < length bs \<Longrightarrow> length out = length (concat bs) \<Longrightarrow> f k out = Inr (overwrite out (block_start bs k) (bs ! k))"
    and "set order \<subseteq> {..<length bs}" "length out = length (concat bs)"
  shows "fold_result f order out = Inr (fold (\<lambda>k out. overwrite out (block_start bs k) (bs ! k)) order out)"
  using assms(2,3)
proof (induction order arbitrary: out)
  case (Cons k order)
  then show ?case
    using step [of k out] Cons.IH [of "overwrite out (block_start bs k) (bs ! k)"] block_end_le [of k bs] by simp
qed simp

lemma kernel_launch:
  assumes ok: "extend_args psz prefix_lens seq_lens last_loc free_pgs" and ord: "program_order (length prefix_lens) order"
    and bu: "length prefix_lens \<le> bs_upper" and mt: "\<forall>i < length prefix_lens. seq_lens ! i - prefix_lens ! i \<le> int max_tokens"
    and agree: "lanes_agree u" and out: "length out = length (concat (blocks psz prefix_lens seq_lens last_loc free_pgs))"
  shows "fold (alloc_extend_kernel u prefix_lens seq_lens last_loc free_pgs bs_upper psz max_tokens) order out =
    concat (blocks psz prefix_lens seq_lens last_loc free_pgs)"
proof -
  let ?bs = "blocks psz prefix_lens seq_lens last_loc free_pgs"
  have l: "length ?bs = length prefix_lens" by (rule blocks_fields(1) [OF ok])
  have "fold (alloc_extend_kernel u prefix_lens seq_lens last_loc free_pgs bs_upper psz max_tokens) order out =
      fold (\<lambda>k out. overwrite out (block_start ?bs k) (?bs ! k)) order out"
    by (rule fold_blocks) (use kernel_writes_block [OF ok _ bu _ agree] mt ord out l in \<open>simp_all add: program_order_def\<close>)
  then show ?thesis using fold_overwrite [of order ?bs out] ord out l by (simp add: program_order_def)
qed

lemma naive_result:
  assumes ok: "extend_args psz prefix_lens seq_lens last_loc free_pgs"
    and out: "length out = length (concat (blocks psz prefix_lens seq_lens last_loc free_pgs))"
  shows "alloc_extend_naive prefix_lens seq_lens last_loc free_pgs psz out =
    Inr (concat (blocks psz prefix_lens seq_lens last_loc free_pgs))"
proof -
  let ?bs = "blocks psz prefix_lens seq_lens last_loc free_pgs"
  have l: "length ?bs = length prefix_lens" by (rule blocks_fields(1) [OF ok])
  have "alloc_extend_naive prefix_lens seq_lens last_loc free_pgs psz out =
      Inr (fold (\<lambda>k out. overwrite out (block_start ?bs k) (?bs ! k)) [0..<length prefix_lens] out)"
    unfolding alloc_extend_naive_def
    by (rule fold_result_blocks) (use naive_writes_block [OF ok] out l in \<open>simp_all add: lessThan_atLeast0\<close>)
  then show ?thesis using fold_overwrite [of "[0..<length prefix_lens]" ?bs out] out l by (simp add: lessThan_atLeast0)
qed

text \<open>The number of tokens a launch has to place.\<close>

lemma blocks_total:
  assumes "extend_args psz prefix_lens seq_lens last_loc free_pgs"
  shows "int (length (concat (blocks psz prefix_lens seq_lens last_loc free_pgs))) = sum_list (map2 (-) seq_lens prefix_lens)"
  using blocks_fields(1,3) [OF assms] block_start_all [of "blocks psz prefix_lens seq_lens last_loc free_pgs"]
    assms order_refl [of "length prefix_lens"]
  by (metis extend_args_def length_map length_zip min.idem take_all_iff)

text \<open>C28. The extend kernel computes the sequential allocation.  For well-formed lengths and enough free pages, the
  programs of the kernel, run in any order and whatever the masked-out lanes hold, as long as its two masked loads of lengths
  hold the same there, fill the output with the same slots as the sequential routine: each request's old partial page is continued, and its further tokens lie on consecutive
  slots of the next free pages.\<close>

theorem extend_kernel_equals_naive:
  assumes "extend_args psz prefix_lens seq_lens last_loc free_pgs" "program_order (length prefix_lens) order"
    and "length prefix_lens \<le> bs_upper" "\<forall>i < length prefix_lens. seq_lens ! i - prefix_lens ! i \<le> int max_tokens"
    and "lanes_agree u" "int (length out) = sum_list (map2 (-) seq_lens prefix_lens)"
  shows "alloc_extend_naive prefix_lens seq_lens last_loc free_pgs psz out =
     Inr (fold (alloc_extend_kernel u prefix_lens seq_lens last_loc free_pgs bs_upper psz max_tokens) order out) \<and>
     alloc_extend_naive prefix_lens seq_lens last_loc free_pgs psz out =
     Inr (concat (map (\<lambda>i. request_slots psz (prefix_lens ! i) (seq_lens ! i) (last_loc ! i)
        (drop (nat (sum_list (take i (page_counts psz prefix_lens seq_lens)))) free_pgs)) [0..<length prefix_lens]))"
proof -
  have out: "length out = length (concat (blocks psz prefix_lens seq_lens last_loc free_pgs))"
    using assms(6) blocks_total [OF assms(1)] by simp
  show ?thesis
    using kernel_launch [OF assms(1-5) out] naive_result [OF assms(1) out] by (simp add: blocks_def)
qed

theorem extend_kernel_equals_naive_witness:
  "lanes_agree (\<lambda>pid l k. if l < 2 then 5 * int k else -1) \<and> extend_args 4 [3, 0] [9, 6] [22, -1] [7, 8, 9, 10] \<and> program_order 2 [1, 0] \<and>
   fold (alloc_extend_kernel (\<lambda>pid l k. if l < 2 then 5 * int k else -1) [3, 0] [9, 6] [22, -1] [7, 8, 9, 10] 2 4 16) [1, 0] (replicate 12 0) =
     [23, 28, 29, 30, 31, 32, 36, 37, 38, 39, 40, 41] \<and>
   alloc_extend_naive [3, 0] [9, 6] [22, -1] [7, 8, 9, 10] 4 (replicate 12 0) =
     Inr [23, 28, 29, 30, 31, 32, 36, 37, 38, 39, 40, 41]"
proof -
  have c: "sum_list (page_counts 4 [3, 0] [9, 6]) = 4" by code_simp
  have a: "extend_args 4 [3, 0] [9, 6] [22, -1] [7, 8, 9, 10]"
    by (simp add: extend_args_def c less_Suc_eq)
  have o: "program_order (length [3, 0 :: int]) [1, 0]" by (auto simp: program_order_def)
  have u: "lanes_agree (\<lambda>pid l k. if l < 2 then 5 * int k else -1)" by (simp add: lanes_agree_def)
  have k: "fold (alloc_extend_kernel (\<lambda>pid l k. if l < 2 then 5 * int k else -1) [3, 0] [9, 6] [22, -1] [7, 8, 9, 10] 2 4 16) [1, 0] (replicate 12 0) =
     [23, 28, 29, 30, 31, 32, 36, 37, 38, 39, 40, 41]" by code_simp
  have "alloc_extend_naive [3, 0] [9, 6] [22, -1] [7, 8, 9, 10] 4 (replicate 12 0) =
     Inr (fold (alloc_extend_kernel (\<lambda>pid l k. if l < 2 then 5 * int k else -1) [3, 0] [9, 6] [22, -1] [7, 8, 9, 10] 2 4 16) [1, 0] (replicate 12 0))"
    by (rule conjunct1 [OF extend_kernel_equals_naive [OF a o _ _ u]]) (simp_all add: less_Suc_eq)
  then show ?thesis using a o k u by (simp add: numeral_2_eq_2)
qed

end
