(* ===== verification/Paged_Alloc.thy ===== *)
theory Paged_Alloc
  imports Paged_Kernels
begin

text \<open>What the two paged allocation methods of \<open>allocator.py\<close> promise: \<open>alloc_extend\<close> for a prefill
  batch and \<open>alloc_decode\<close> for a decode batch.  A token at position \<open>j\<close> of a request sits at offset
  \<open>j mod page_size\<close> of the page that holds the positions \<open>j div page_size\<close>; the page that was open before the call is
  filled first, every other page is taken off the free list, and no slot is given out twice.\<close>

section \<open>Powers of two\<close>

lemma less_bit_length: "n < 2 ^ bit_length n"
proof (induction n rule: bit_length.induct)
  case (1 n)
  then show ?case by (cases "n = 0") (auto simp: bit_length.simps [of n])
qed

lemma next_power_of_2_ge: "n \<le> next_power_of_2 n"
  using less_bit_length [of "n - 1"] by (cases n) (simp_all add: next_power_of_2_def Suc_le_eq)

section \<open>The slot of a token\<close>

definition token_slot :: "nat \<Rightarrow> int \<Rightarrow> int \<Rightarrow> int list \<Rightarrow> int \<Rightarrow> slot" where
  "token_slot psz pre last_loc pgs j =
     (let p = int psz
      in (if j div p < cdiv pre p then last_loc div p else pgs ! nat (j div p - cdiv pre p)) * p + j mod p)"

lemma same_page_succ:
  assumes p: "0 < (p :: int)" and "(l + 1) mod p = pre mod p" "pre mod p \<noteq> 0"
  shows "l div p = (l + 1) div p" "l + 1 = l div p * p + pre mod p"
proof -
  have "l = (l + 1) div p * p + (pre mod p - 1)" using div_mult_mod_eq [of "l + 1" p] assms(2) by linarith
  moreover have "0 \<le> pre mod p - 1" "pre mod p - 1 < p"
    using assms(3) pos_mod_sign [OF p, of pre] pos_mod_bound [OF p, of pre] by linarith+
  ultimately show e: "l div p = (l + 1) div p" using p by (metis div_mult_self3 div_pos_pos_trivial add_0_right less_irrefl)
  show "l + 1 = l div p * p + pre mod p" using div_mult_mod_eq [of "l + 1" p] unfolding assms(2) e by simp
qed

lemma open_page:
  assumes p: "0 < (p :: int)" and j: "pre \<le> j" "j < cdiv pre p * p"
  shows "pre mod p \<noteq> 0" "j div p = pre div p" "j mod p = pre mod p + (j - pre)" "j div p < cdiv pre p"
proof -
  show m: "pre mod p \<noteq> 0"
  proof
    assume "pre mod p = 0"
    then have "cdiv pre p * p = pre" using cdiv_eq [OF p, of pre] by (metis add.right_neutral mod_div_mult_eq add_0)
    then show False using j by linarith
  qed
  then have c: "cdiv pre p = pre div p + 1" using cdiv_eq [OF p, of pre] by simp
  have e: "pre = pre div p * p + pre mod p" by simp
  have "j < pre div p * p + p" using j(2) c by (simp add: distrib_right)
  moreover have "pre div p * p \<le> j" using e j(1) p pos_mod_sign [OF p, of pre] by linarith
  ultimately have "0 \<le> j - pre div p * p" "j - pre div p * p < p" by simp_all
  then have "((j - pre div p * p) + pre div p * p) div p = pre div p" using p by (subst div_mult_self1) simp_all
  then show d: "j div p = pre div p" by simp
  then show "j div p < cdiv pre p" using c by simp
  show "j mod p = pre mod p + (j - pre)" by (simp add: minus_div_mult_eq_mod [symmetric] d)
qed

lemma request_slots_tokens:
  assumes psz: "0 < psz" and pre: "pre \<le> seq" and al: "(last_loc + 1) mod int psz = pre mod int psz"
    and len: "nat (cdiv seq (int psz) - cdiv pre (int psz)) \<le> length pgs"
  shows "request_slots psz pre seq last_loc pgs = map (token_slot psz pre last_loc pgs) [pre..seq - 1]"
proof (rule nth_equalityI)
  let ?p = "int psz" and ?c = "cdiv pre (int psz)" and ?s = "cdiv seq (int psz)"
  let ?n1 = "min seq (?c * ?p) - pre"
  have p: "0 < ?p" using psz by simp
  note b = cdiv_bounds [OF p, of pre] cdiv_bounds [OF p, of seq]
  show "length (request_slots psz pre seq last_loc pgs) = length (map (token_slot psz pre last_loc pgs) [pre..seq - 1])"
    using length_request_slots [OF psz pre len] by simp
  fix i assume "i < length (request_slots psz pre seq last_loc pgs)"
  then have i: "int i < seq - pre" using length_request_slots [OF psz pre len] by simp
  have r: "map (token_slot psz pre last_loc pgs) [pre..seq - 1] ! i = token_slot psz pre last_loc pgs (pre + int i)"
    using i by (simp add: nth_upto)
  show "request_slots psz pre seq last_loc pgs ! i = map (token_slot psz pre last_loc pgs) [pre..seq - 1] ! i"
  proof (cases "int i < ?n1")
    case True
    then have o: "pre + int i < ?c * ?p" by linarith
    note op = open_page [OF p _ o, simplified]
    have "request_slots psz pre seq last_loc pgs ! i = last_loc + 1 + int i"
      using True by (simp add: request_slots_def Let_def nth_append zless_nat_eq_int_zless)
    then show ?thesis
      unfolding r token_slot_def Let_def using op same_page_succ(2) [OF p al op(1)] by simp
  next
    case False
    then have c: "?c * ?p \<le> pre + int i" "?n1 = ?c * ?p - pre" using i by linarith+
    let ?k = "nat (pre + int i - ?c * ?p)"
    have ik: "i - nat ?n1 = ?k" "\<not> i < nat ?n1" using c b(1) False by simp_all
    have sc: "?c \<le> ?s" by (rule cdiv_mono [OF p pre])
    have kl: "?k < nat (?s - ?c) * psz"
    proof -
      have "int ?k < (?s - ?c) * ?p" using i c b(3) by (simp add: left_diff_distrib)
      also have "\<dots> = int (nat (?s - ?c) * psz)" using sc by simp
      finally show ?thesis by (simp only: of_nat_less_iff)
    qed
    have "request_slots psz pre seq last_loc pgs ! i = pages_slots psz (take (nat (?s - ?c)) pgs) ! ?k"
      using ik i c by (simp add: request_slots_def Let_def nth_append)
    also have "\<dots> = take (nat (?s - ?c)) pgs ! (?k div psz) * ?p + int (?k mod psz)"
      by (rule nth_pages_slots) (use kl len in simp)
    also have "\<dots> = pgs ! (?k div psz) * ?p + int (?k mod psz)"
      using kl by (simp add: less_mult_imp_div_less)
    finally have v: "request_slots psz pre seq last_loc pgs ! i = pgs ! (?k div psz) * ?p + int (?k mod psz)" .
    obtain k where k: "k = ?k" by simp
    then have e: "pre + int i = int k + ?c * ?p" using c by simp
    have d: "(pre + int i) div ?p = int (k div psz) + ?c" and m: "(pre + int i) mod ?p = int (k mod psz)"
      unfolding e using p by (simp_all add: zdiv_int zmod_int)
    show ?thesis unfolding r v token_slot_def Let_def d m k [symmetric] by simp
  qed
qed

section \<open>No slot is given out twice\<close>

definition open_pages :: "nat \<Rightarrow> int list \<Rightarrow> int list \<Rightarrow> int list" where
  "open_pages psz prefix_lens last_loc =
     map (\<lambda>(q, l). l div int psz) (filter (\<lambda>(q, l). q mod int psz \<noteq> 0) (zip prefix_lens last_loc))"

lemma mset_subset_distinct: "distinct xs \<Longrightarrow> set xs \<subseteq> set ys \<Longrightarrow> mset xs \<subseteq># mset ys"
  by (metis mset_set_set mset_subset_eqI count_mset_set(1,3) finite_set count_greater_eq_one_iff set_mset_mset subset_iff
      le_0_eq nat_le_linear)

lemma distinct_mset_subset:
  assumes "mset xs \<subseteq># mset ys" "distinct ys"
  shows "distinct xs"
proof -
  obtain zs where "mset ys = mset (xs @ zs)" using assms(1) by (metis ex_mset mset_append mset_subset_eq_exists_conv)
  then show ?thesis using assms(2) by (metis distinct_append mset_eq_imp_distinct_iff)
qed

lemma mset_take_subset: "mset (take n xs) \<subseteq># mset xs"
  by (metis append_take_drop_id mset_append mset_subset_eq_add_left)

lemma request_slots_mset:
  assumes psz: "0 < psz" and al: "(last_loc + 1) mod int psz = pre mod int psz"
  shows "mset (request_slots psz pre seq last_loc pgs) \<subseteq>#
    mset (pages_slots psz (if pre mod int psz \<noteq> 0 then [last_loc div int psz] else [])) +
    mset (pages_slots psz (take (nat (cdiv seq (int psz) - cdiv pre (int psz))) pgs))"
proof -
  let ?p = "int psz" and ?n1 = "min seq (cdiv pre (int psz) * int psz) - pre"
  let ?one = "map (\<lambda>k. last_loc + 1 + int k) [0..<nat ?n1]"
  have p: "0 < ?p" using psz by simp
  have "x div ?p = last_loc div ?p \<and> pre mod ?p \<noteq> 0" if x: "x \<in> set ?one" for x
  proof -
    obtain k where "x = last_loc + 1 + int k" "k < nat ?n1" using x by auto
    then have k: "x = last_loc + 1 + int k" "int k < ?n1" by (simp_all only: zless_nat_eq_int_zless)
    then have o: "pre + int k < cdiv pre ?p * ?p" by linarith
    note op = open_page [OF p _ o, simplified]
    have "x = last_loc div ?p * ?p + (pre + int k) mod ?p"
      using same_page_succ(2) [OF p al op(1)] op(3) k(1) by simp
    then show ?thesis using p op(1) by (metis mod_div_trivial add.right_neutral div_mult_self3 less_irrefl)
  qed
  then have "set ?one \<subseteq> set (pages_slots psz (if pre mod ?p \<noteq> 0 then [last_loc div ?p] else []))"
    unfolding subset_iff in_pages_slots [OF psz] by (simp del: set_map)
  moreover have "distinct ?one" by (simp add: distinct_map inj_on_def)
  ultimately have "mset ?one \<subseteq># mset (pages_slots psz (if pre mod ?p \<noteq> 0 then [last_loc div ?p] else []))"
    by (intro mset_subset_distinct)
  then show ?thesis
    unfolding request_slots_def Let_def mset_append by (intro subset_mset.add_mono mset_take_subset)
qed

lemma slices:
  assumes "m \<le> length c" "\<forall>x \<in> set c. 0 \<le> x" "sum_list c \<le> int (length xs)"
  shows "concat (map (\<lambda>i. take (nat (c ! i)) (drop (nat (sum_list (take i c))) xs)) [0..<m]) = take (nat (sum_list (take m c))) xs"
  using assms(1)
proof (induction m)
  case (Suc m)
  have "0 \<le> c ! m" using Suc.prems assms(2) by simp
  then have "nat (sum_list (take (Suc m) c)) = nat (sum_list (take m c)) + nat (c ! m)"
    using sum_take_Suc [of m c] sum_take_nonneg [OF assms(2)] Suc.prems by (simp add: nat_add_distrib)
  then show ?case using Suc by (simp add: take_add)
qed simp

lemma concat_if: "concat (map (\<lambda>i. if P i then [f i] else []) xs) = map f (filter P xs)"
  by (induction xs) simp_all

lemma blocks_mset:
  assumes ok: "extend_args psz prefix_lens seq_lens last_loc free_pgs"
    and al: "\<forall>i < length prefix_lens. (last_loc ! i + 1) mod int psz = prefix_lens ! i mod int psz"
  shows "mset (concat (blocks psz prefix_lens seq_lens last_loc free_pgs)) \<subseteq>#
    mset (pages_slots psz (open_pages psz prefix_lens last_loc)) +
    mset (pages_slots psz (take (nat (sum_list (page_counts psz prefix_lens seq_lens))) free_pgs))"
proof -
  let ?c = "page_counts psz prefix_lens seq_lens" and ?n = "length prefix_lens"
  let ?b = "\<lambda>i. request_slots psz (prefix_lens ! i) (seq_lens ! i) (last_loc ! i) (drop (nat (sum_list (take i ?c))) free_pgs)"
  let ?o = "\<lambda>i. if prefix_lens ! i mod int psz \<noteq> 0 then [last_loc ! i div int psz] else []"
  let ?g = "\<lambda>i. take (nat (?c ! i)) (drop (nat (sum_list (take i ?c))) free_pgs)"
  have l: "length ?c = ?n" "length last_loc = ?n" "0 < psz"
    using ok by (simp_all add: extend_args_def page_counts_def)
  have step: "mset (concat (map ?b [0..<m])) \<subseteq>#
      mset (pages_slots psz (concat (map ?o [0..<m]))) + mset (pages_slots psz (concat (map ?g [0..<m])))" if "m \<le> ?n" for m
    using that
  proof (induction m)
    case (Suc m)
    then have m: "m < ?n" by simp
    have "mset (?b m) \<subseteq># mset (pages_slots psz (?o m)) + mset (pages_slots psz (?g m))"
      using request_slots_mset [OF l(3), of "last_loc ! m" "prefix_lens ! m" "seq_lens ! m"] al m page_range(2) [OF ok m] by simp
    from subset_mset.add_mono [OF Suc.IH this] m show ?case by (simp add: ac_simps)
  qed simp
  have "concat (map ?g [0..<?n]) = take (nat (sum_list ?c)) free_pgs"
    using slices [of ?n ?c free_pgs] l(1) page_counts_nonneg [OF ok] ok by (simp add: extend_args_def)
  moreover have "concat (map ?o [0..<?n]) = open_pages psz prefix_lens last_loc"
  proof -
    have z: "zip prefix_lens last_loc = map (\<lambda>i. (prefix_lens ! i, last_loc ! i)) [0..<?n]"
      by (rule nth_equalityI) (use l in simp_all)
    show ?thesis unfolding open_pages_def z filter_map map_map
      using concat_if [of "\<lambda>i. prefix_lens ! i mod int psz \<noteq> 0" "\<lambda>i. last_loc ! i div int psz" "[0..<?n]"] by (simp add: o_def)
  qed
  ultimately show ?thesis using step [of ?n] by (simp add: blocks_def)
qed

section \<open>The methods\<close>

text \<open>What a call that places the tokens \<open>prefix_lens ! i \<le> j < seq_lens ! i\<close> of each request promises: the token
  slots lie page by page, the new pages leave the allocator, and nothing else changes hands.\<close>

definition paged_lends ::
  "allocator \<Rightarrow> int list \<Rightarrow> int list \<Rightarrow> int list \<Rightarrow> slot list \<Rightarrow> allocator \<Rightarrow> bool" where
  "paged_lends a prefix_lens seq_lens last_loc out a' \<longleftrightarrow>
     (\<exists>pgs. int (length pgs) = get_num_new_pages seq_lens (page_size a) prefix_lens \<and>
        out = concat (map (\<lambda>i. map (token_slot (page_size a) (prefix_lens ! i) (last_loc ! i)
                (drop (nat (get_num_new_pages (take i seq_lens) (page_size a) (take i prefix_lens))) pgs))
                [prefix_lens ! i..seq_lens ! i - 1]) [0..<length prefix_lens]) \<and>
        distinct out \<and> avail_slots a = mset (pages_slots (page_size a) pgs) + avail_slots a' \<and>
        pending_slots a' = pending_slots a \<and> allocator_ok a')"

text \<open>The requests continue pages of their own: the next slot has the offset of the next position, and the open pages
  are distinct and not held by the allocator.\<close>

definition extend_requests_ok :: "allocator \<Rightarrow> int list \<Rightarrow> int list \<Rightarrow> int list \<Rightarrow> bool" where
  "extend_requests_ok a prefix_lens seq_lens last_loc \<longleftrightarrow>
     length seq_lens = length prefix_lens \<and> length last_loc = length prefix_lens \<and>
     (\<forall>i < length prefix_lens. prefix_lens ! i \<le> seq_lens ! i \<and>
        (last_loc ! i + 1) mod int (page_size a) = prefix_lens ! i mod int (page_size a)) \<and>
     distinct (open_pages (page_size a) prefix_lens last_loc) \<and>
     set (open_pages (page_size a) prefix_lens last_loc) \<inter> set (held_pages a) = {}"

lemma page_counts_take:
  "sum_list (take i (page_counts psz prefix_lens seq_lens)) = get_num_new_pages (take i seq_lens) psz (take i prefix_lens)"
  by (simp add: page_counts_def get_num_new_pages_def take_map take_zip)

lemma page_counts_sum: "sum_list (page_counts psz prefix_lens seq_lens) = get_num_new_pages seq_lens psz prefix_lens"
  by (simp add: page_counts_def get_num_new_pages_def)

lemma pages_slots_disjoint:
  "0 < psz \<Longrightarrow> distinct ps \<Longrightarrow> distinct qs \<Longrightarrow> set ps \<inter> set qs = {} \<Longrightarrow> distinct (pages_slots psz ps @ pages_slots psz qs)"
  using distinct_pages_slots [of psz "ps @ qs"] by simp

lemma blocks_take:
  assumes ok: "extend_args psz prefix_lens seq_lens last_loc free_pgs"
    and al: "\<forall>i < length prefix_lens. (last_loc ! i + 1) mod int psz = prefix_lens ! i mod int psz"
  defines "c \<equiv> page_counts psz prefix_lens seq_lens"
  shows "concat (blocks psz prefix_lens seq_lens last_loc free_pgs) =
    concat (map (\<lambda>i. map (token_slot psz (prefix_lens ! i) (last_loc ! i) (drop (nat (sum_list (take i c))) (take (nat (sum_list c)) free_pgs)))
      [prefix_lens ! i..seq_lens ! i - 1]) [0..<length prefix_lens])"
proof -
  have "request_slots psz (prefix_lens ! i) (seq_lens ! i) (last_loc ! i) (drop (nat (sum_list (take i c))) free_pgs) =
      map (token_slot psz (prefix_lens ! i) (last_loc ! i) (drop (nat (sum_list (take i c))) (take (nat (sum_list c)) free_pgs)))
        [prefix_lens ! i..seq_lens ! i - 1]" if i: "i < length prefix_lens" for i
  proof -
    note r = page_range [OF ok i, folded c_def]
    have le: "nat (sum_list (take i c)) + nat (c ! i) \<le> nat (sum_list c)"
      using sum_take_le [OF page_counts_nonneg [OF ok], of "Suc i"] sum_take_Suc [of i c] i r(1,3,4)
      by (simp add: c_def nat_add_distrib [symmetric])
    then have "take (nat (c ! i)) (drop (nat (sum_list (take i c))) free_pgs) =
        take (nat (c ! i)) (drop (nat (sum_list (take i c))) (take (nat (sum_list c)) free_pgs))"
      by (simp add: drop_take min_def)
    then have "request_slots psz (prefix_lens ! i) (seq_lens ! i) (last_loc ! i) (drop (nat (sum_list (take i c))) free_pgs) =
        request_slots psz (prefix_lens ! i) (seq_lens ! i) (last_loc ! i) (drop (nat (sum_list (take i c))) (take (nat (sum_list c)) free_pgs))"
      using r(2) by (simp add: request_slots_def Let_def)
    also have "\<dots> = map (token_slot psz (prefix_lens ! i) (last_loc ! i) (drop (nat (sum_list (take i c))) (take (nat (sum_list c)) free_pgs)))
        [prefix_lens ! i..seq_lens ! i - 1]"
    proof (rule request_slots_tokens)
      show "nat (cdiv (seq_lens ! i) (int psz) - cdiv (prefix_lens ! i) (int psz)) \<le>
          length (drop (nat (sum_list (take i c))) (take (nat (sum_list c)) free_pgs))"
        using r(2,6) le by (simp only: length_drop length_take) linarith
    qed (use ok al i in \<open>simp_all add: extend_args_def\<close>)
    finally show ?thesis .
  qed
  then show ?thesis unfolding blocks_def c_def [symmetric] by (intro arg_cong [of _ _ concat] map_cong) simp_all
qed

lemma lend_pages:
  assumes a: "allocator_ok a" and req: "extend_requests_ok a prefix_lens seq_lens last_loc"
    and n: "get_num_new_pages seq_lens (page_size a) prefix_lens \<le> int (length (free_pages a))"
  shows "extend_args (page_size a) prefix_lens seq_lens last_loc (free_pages a)"
    "paged_lends a prefix_lens seq_lens last_loc (concat (blocks (page_size a) prefix_lens seq_lens last_loc (free_pages a)))
       (a\<lparr>free_pages := drop_int (free_pages a) (get_num_new_pages seq_lens (page_size a) prefix_lens)\<rparr>)"
proof -
  let ?k = "get_num_new_pages seq_lens (page_size a) prefix_lens" and ?psz = "page_size a"
  have psz: "0 < ?psz" using a by (simp add: allocator_ok_def)
  show ea: "extend_args ?psz prefix_lens seq_lens last_loc (free_pages a)"
    using psz req n by (simp add: extend_args_def extend_requests_ok_def page_counts_sum)
  have k0: "0 \<le> ?k" using sum_take_nonneg [OF page_counts_nonneg [OF ea], of "length prefix_lens"] ea
    by (simp add: page_counts_take extend_args_def)
  have kl: "nat ?k \<le> length (free_pages a)" using n by simp
  have d: "drop_int (free_pages a) ?k = drop (nat ?k) (free_pages a)" using k0 kl by (simp add: drop_int_def py_clip_def)
  have al: "\<forall>i < length prefix_lens. (last_loc ! i + 1) mod int ?psz = prefix_lens ! i mod int ?psz"
    using req by (simp add: extend_requests_ok_def)
  note tp = take_pages [OF a kl]
  have held: "distinct (held_pages a)" "set (take (nat ?k) (free_pages a)) \<subseteq> set (held_pages a)"
    using a by (auto simp: allocator_ok_def held_pages_def dest: in_set_takeD)
  have dk: "distinct (take (nat ?k) (free_pages a))" using held(1) by (simp add: held_pages_def)
  have "distinct (pages_slots ?psz (open_pages ?psz prefix_lens last_loc) @ pages_slots ?psz (take (nat ?k) (free_pages a)))"
    by (rule pages_slots_disjoint [OF psz _ dk]) (use req held(2) in \<open>auto simp: extend_requests_ok_def\<close>)
  then have dist: "distinct (concat (blocks ?psz prefix_lens seq_lens last_loc (free_pages a)))"
    using blocks_mset [OF ea al] distinct_mset_subset by (metis mset_append page_counts_sum)
  show "paged_lends a prefix_lens seq_lens last_loc (concat (blocks ?psz prefix_lens seq_lens last_loc (free_pages a)))
       (a\<lparr>free_pages := drop_int (free_pages a) ?k\<rparr>)"
    unfolding paged_lends_def d
    using tp dist blocks_take [OF ea al] k0 kl
    by (intro exI [of _ "take (nat ?k) (free_pages a)"]) (simp add: page_counts_take page_counts_sum)
qed

text \<open>The free list is merged early enough: a call needs at most one page per request beyond those its tokens fill.\<close>

lemma page_counts_bound:
  assumes "0 < psz" "length seq_lens = length prefix_lens"
  shows "get_num_new_pages seq_lens psz prefix_lens * int psz \<le>
    sum_list (map2 (-) seq_lens prefix_lens) + int (length prefix_lens) * int psz"
  using assms(2)
proof (induction seq_lens prefix_lens rule: list_induct2)
  case (Cons s ss q qs)
  have "(cdiv s (int psz) - cdiv q (int psz)) * int psz \<le> s - q + int psz"
    using cdiv_bounds [of "int psz" s] cdiv_bounds [of "int psz" q] assms(1) by (simp add: left_diff_distrib)
  then show ?case using Cons.IH by (simp add: get_num_new_pages_def distrib_right)
qed (simp add: get_num_new_pages_def)

lemma new_pages_le:
  assumes "0 < psz" "length seq_lens = length prefix_lens" "sum_list (map2 (-) seq_lens prefix_lens) = int n"
  shows "get_num_new_pages seq_lens psz prefix_lens \<le> int (n div psz + length prefix_lens)"
proof -
  let ?k = "get_num_new_pages seq_lens psz prefix_lens"
  have "?k = ?k * int psz div int psz" using assms(1) by simp
  also have "\<dots> \<le> (int n + int (length prefix_lens) * int psz) div int psz"
    using page_counts_bound [OF assms(1,2)] assms by (intro zdiv_mono1) simp_all
  also have "\<dots> = int n div int psz + int (length prefix_lens)" using assms(1) by simp
  finally show ?thesis by (simp add: zdiv_int)
qed

lemma presort_has:
  assumes "allocator_ok a" "k \<le> int (length (free_pages a) + length (release_pages a))" "k \<le> int n"
  shows "k \<le> int (length (free_pages (presort a n)))"
  using assms by (auto simp: presort_def merge_and_sort_free_def allocator_ok_def)

lemma extend_requests_presort:
  "extend_requests_ok (presort a n) = extend_requests_ok a"
  using mset_eq_setD [OF presort_held [of a n]] by (simp add: fun_eq_iff extend_requests_ok_def)

lemma paged_lends_presort:
  "paged_lends (presort a n) prefix_lens seq_lens last_loc out a' \<Longrightarrow> paged_lends a prefix_lens seq_lens last_loc out a'"
  by (simp add: paged_lends_def presort_avail presort_pending)

lemma paged_lends_distinct: "paged_lends a prefix_lens seq_lens last_loc out a' \<Longrightarrow> length (torch_unique out) = length out"
  unfolding paged_lends_def by (metis mset_eq_length mset_torch_unique)

lemma member_le_sum_list_int: "(\<And>x. x \<in> set xs \<Longrightarrow> 0 \<le> x) \<Longrightarrow> i < length xs \<Longrightarrow> xs ! i \<le> (sum_list xs :: int)"
  using sum_list_nonneg [of "take i xs"] sum_list_nonneg [of "drop (Suc i) xs"] id_take_nth_drop [of i xs]
  by (metis add.commute add_increasing in_set_dropD in_set_takeD le_add_same_cancel1 sum_list.Cons sum_list_append)

lemma extend_le_total:
  assumes "length seq_lens = length prefix_lens" "\<forall>i < length prefix_lens. prefix_lens ! i \<le> (seq_lens ! i :: int)"
    and "i < length prefix_lens"
  shows "seq_lens ! i - prefix_lens ! i \<le> sum_list (map2 (-) seq_lens prefix_lens)"
proof -
  have "map2 (-) seq_lens prefix_lens ! i \<le> sum_list (map2 (-) seq_lens prefix_lens)"
    by (rule member_le_sum_list_int) (use assms in \<open>auto simp: set_zip in_set_conv_nth\<close>)
  then show ?thesis using assms by simp
qed

text \<open>C26. Allocation for a prefill batch.  When the allocator has the pages, \<open>alloc_extend\<close> returns, whichever of
  the two routines it uses and in debug mode too (for the kernel, the two masked loads of lengths hold the same in masked-out lanes): every token sits at its offset of the page of its position, the
  slots are distinct, exactly the new pages leave the allocator, and its invariant is kept.\<close>

theorem alloc_extend_lends:
  assumes a: "allocator_ok a" and req: "extend_requests_ok a prefix_lens seq_lens last_loc"
    and n: "sum_list (map2 (-) seq_lens prefix_lens) = int n"
    and enough: "get_num_new_pages seq_lens (page_size a) prefix_lens \<le> int (length (free_pages a) + length (release_pages a))"
    and ord: "program_order (length prefix_lens) order" and agree: "n < numel \<longrightarrow> lanes_agree u"
  shows "\<exists>out a'. alloc_extend numel u order a prefix_lens seq_lens last_loc n = Inr (Some out, a') \<and>
    paged_lends a prefix_lens seq_lens last_loc out a'"
proof -
  define a1 where "a1 = a\<lparr>seen_max_num_extend_tokens := max (seen_max_num_extend_tokens a) (min numel (next_power_of_2 n))\<rparr>"
  define a2 where "a2 = presort a1 (n div page_size a + length prefix_lens + 1)"
  have psz: "0 < page_size a" using a by (simp add: allocator_ok_def)
  have f: "page_size a1 = page_size a" "free_pages a1 = free_pages a" "release_pages a1 = release_pages a"
    "held_pages a1 = held_pages a" "need_sort a1 = need_sort a" "avail_slots a1 = avail_slots a" "pending_slots a1 = pending_slots a"
    by (simp_all add: a1_def held_pages_def pages_of_def avail_slots_def pending_slots_def)
  have a1: "allocator_ok a1" by (rule allocator_ok_cong [OF a]) (use a in \<open>simp_all add: f, simp_all add: a1_def allocator_ok_def\<close>)
  have req2: "extend_requests_ok a2 prefix_lens seq_lens last_loc"
    using req unfolding a2_def extend_requests_presort by (simp add: extend_requests_ok_def f)
  have lens: "length seq_lens = length prefix_lens" "length last_loc = length prefix_lens"
    "\<forall>i < length prefix_lens. prefix_lens ! i \<le> seq_lens ! i" using req by (simp_all add: extend_requests_ok_def)
  have k: "get_num_new_pages seq_lens (page_size a2) prefix_lens \<le> int (length (free_pages a2))"
    unfolding a2_def presort_fields f(1)
    by (rule presort_has [OF a1]) (use enough new_pages_le [OF psz lens(1) n] in \<open>simp_all add: f\<close>)
  note lp = lend_pages [OF presort_ok [OF a1, of "n div page_size a + length prefix_lens + 1", folded a2_def] req2 k]
  let ?out = "concat (blocks (page_size a2) prefix_lens seq_lens last_loc (free_pages a2))"
  have p2: "page_size a2 = page_size a" by (simp add: a2_def f)
  have len: "length (map (u 0 7) [0..<n]) = length ?out" using blocks_total [OF lp(1)] n by simp
  have mt: "\<forall>i < length prefix_lens. seq_lens ! i - prefix_lens ! i \<le> int (seen_max_num_extend_tokens a2)" if "n < numel"
    using extend_le_total [OF lens(1,3)] n that next_power_of_2_ge [of n] by (fastforce simp: a2_def a1_def presort_def merge_and_sort_free_def)
  have run: "(if n < numel
      then Inr (fold (alloc_extend_kernel u prefix_lens seq_lens last_loc (free_pages a2) (next_power_of_2 (length prefix_lens))
             (page_size a2) (seen_max_num_extend_tokens a2)) order (map (u 0 7) [0..<n]))
      else alloc_extend_naive prefix_lens seq_lens last_loc (free_pages a2) (page_size a2) (map (u 0 7) [0..<n])) = Inr ?out"
    using kernel_launch [OF lp(1) ord next_power_of_2_ge mt _ len] naive_result [OF lp(1) len] agree by simp
  have al: "list_all2 (\<lambda>l q. (l + 1) mod int (page_size a) = q mod int (page_size a)) last_loc prefix_lens"
    using req by (simp add: list_all2_conv_all_nth extend_requests_ok_def)
  have "alloc_extend numel u order a prefix_lens seq_lens last_loc n =
      Inr (Some ?out, a2\<lparr>free_pages := drop_int (free_pages a2) (get_num_new_pages seq_lens (page_size a2) prefix_lens)\<rparr>)"
    unfolding alloc_extend_def Let_def a1_def [symmetric]
    unfolding presort_def [of a1 "n div page_size a + length prefix_lens + 1", symmetric] a2_def [symmetric]
    unfolding run [unfolded p2] using al k paged_lends_distinct [OF lp(2)] by (simp add: p2)
  moreover have "paged_lends a1 prefix_lens seq_lens last_loc ?out
      (a2\<lparr>free_pages := drop_int (free_pages a2) (get_num_new_pages seq_lens (page_size a2) prefix_lens)\<rparr>)"
    using lp(2) unfolding a2_def by (rule paged_lends_presort)
  ultimately show ?thesis by (simp add: paged_lends_def f)
qed

theorem alloc_extend_lends_witness:
  "\<exists>out a'. alloc_extend 100 (\<lambda>pid l k. int k) [1, 0] ((paged_init 40 4 True True)\<lparr>free_pages := [7, 8], release_pages := [10, 9]\<rparr>)
       [3, 0] [9, 6] [22, -1] 12 = Inr (Some out, a') \<and>
     paged_lends ((paged_init 40 4 True True)\<lparr>free_pages := [7, 8], release_pages := [10, 9]\<rparr>) [3, 0] [9, 6] [22, -1] out a'"
proof (rule alloc_extend_lends)
  let ?a = "(paged_init 40 4 True True)\<lparr>free_pages := [7, 8], release_pages := [10, 9]\<rparr>"
  show "allocator_ok ?a"
    by (simp add: allocator_ok_def held_pages_def num_pages_def paged_init_def init_base_def paged_clear_def)
  show "extend_requests_ok ?a [3, 0] [9, 6] [22, -1]"
    by (simp add: extend_requests_ok_def open_pages_def held_pages_def paged_init_def init_base_def paged_clear_def less_Suc_eq)
  show "get_num_new_pages [9, 6] (page_size ?a) [3, 0] \<le> int (length (free_pages ?a) + length (release_pages ?a))"
    by code_simp
  show "program_order (length [3, 0 :: int]) [1, 0]" by (auto simp: program_order_def)
  show "12 < 100 \<longrightarrow> lanes_agree (\<lambda>pid l k. int k)" by (simp add: lanes_agree_def)
qed simp

section \<open>Decode batches\<close>

lemma decode_slots:
  assumes "0 < psz" "nat (cdiv s (int psz) - cdiv (s - 1) (int psz)) \<le> length pgs"
  shows "request_slots psz (s - 1) s last_loc pgs =
    [if cdiv s (int psz) - cdiv (s - 1) (int psz) = 0 then last_loc + 1 else pgs ! 0 * int psz]"
proof -
  let ?p = "int psz"
  have p: "0 < ?p" using assms(1) by simp
  note b = cdiv_bounds [OF p, of "s - 1"] cdiv_bounds [OF p, of s]
  show ?thesis
  proof (cases "cdiv s ?p = cdiv (s - 1) ?p")
    case True
    then have "s \<le> cdiv (s - 1) ?p * ?p" using b(3) by simp
    then show ?thesis using True by (simp add: request_slots_def Let_def)
  next
    case False
    have m: "cdiv (s - 1) ?p \<le> cdiv s ?p" by (rule cdiv_mono [OF p]) simp
    then have m1: "(cdiv (s - 1) ?p + 1) * ?p \<le> cdiv s ?p * ?p" using False p by (intro mult_right_mono) simp_all
    then have c: "cdiv (s - 1) ?p * ?p = s - 1" using b by (simp add: distrib_right)
    obtain k where k: "nat (cdiv s ?p - cdiv (s - 1) ?p) = Suc k" using m False by (cases "nat (cdiv s ?p - cdiv (s - 1) ?p)") auto
    then obtain q qs where q: "pgs = q # qs" using assms(2) by (cases pgs) auto
    have "take (Suc 0) (pages_slots psz (q # take k qs)) = [q * ?p]"
      using assms(1) by (simp add: pages_slots_def page_slots_def take_map upt_conv_Cons)
    then show ?thesis using False c k q by (simp add: request_slots_def Let_def)
  qed
qed

lemma map2_upt: "map2 f [0..<n] (map g [0..<n]) = map (\<lambda>k. f k (g k)) [0..<n]"
  by (rule nth_equalityI) simp_all

lemma decode_writes_block:
  assumes ok: "extend_args psz (map (\<lambda>s. s - 1) seq_lens) seq_lens last_loc free_pgs" and i: "pid < length seq_lens"
    and bu: "length seq_lens \<le> bs_upper" and out: "length out = length (concat (blocks psz (map (\<lambda>s. s - 1) seq_lens) seq_lens last_loc free_pgs))"
  defines "bs \<equiv> blocks psz (map (\<lambda>s. s - 1) seq_lens) seq_lens last_loc free_pgs"
  shows "alloc_decode_kernel u seq_lens last_loc free_pgs bs_upper psz pid out = overwrite out (block_start bs pid) (bs ! pid)"
proof -
  let ?p = "int psz" and ?q = "map (\<lambda>s. s - 1) seq_lens" and ?s = "seq_lens ! pid"
  let ?c = "page_counts psz ?q seq_lens"
  have a: "0 < psz" "length last_loc = length seq_lens" using ok by (simp_all add: extend_args_def)
  have i': "pid < length ?q" using i by simp
  note r = page_range [OF ok i'] and bf = blocks_fields [OF ok]
  have lds: "ld v seq_lens (int pid) = ?s" "ld v last_loc (int pid) = last_loc ! pid" for v using i a by (simp_all add: ld_def)
  have pre: "map2 (\<lambda>k s. if k \<le> pid then s - 1 else s) [0..<bs_upper] (map (\<lambda>k. if k \<le> pid then ld (u pid 0 k) seq_lens (int k) else u pid 0 k) [0..<bs_upper]) =
      map (\<lambda>k. if k \<le> pid then ld (u pid 0 k) ?q (int k) else u pid 0 k) [0..<bs_upper]"
    unfolding map2_upt using i by (intro map_cong) (auto simp: ld_def)
  have nps: "sum_list (map2 (\<lambda>s q. cdiv s ?p - cdiv q ?p) (map (\<lambda>k. if k \<le> pid then ld (u pid 0 k) seq_lens (int k) else u pid 0 k) [0..<bs_upper])
      (map (\<lambda>k. if k \<le> pid then ld (u pid 0 k) ?q (int k) else u pid 0 k) [0..<bs_upper])) - (cdiv ?s ?p - cdiv (?s - 1) ?p) = sum_list (take pid ?c)"
    by (subst masked_sum) (use sum_take_Suc [of pid ?c] i bu a r(1,2) in \<open>simp_all add: page_counts_def\<close>)
  have one: "map2 (-) seq_lens ?q = replicate (length seq_lens) 1" by (rule nth_equalityI) simp_all
  have st: "block_start bs pid = pid" using bf(3) [of pid] i unfolding bs_def one by (simp add: sum_list_replicate)
  have pl: "pid < length out" using block_end_le [of pid bs] bf(1,2) i out st unfolding bs_def [symmetric] by simp
  have b: "bs ! pid = [if cdiv ?s ?p - cdiv (?s - 1) ?p = 0 then last_loc ! pid + 1
      else drop (nat (sum_list (take pid ?c))) free_pgs ! 0 * ?p]"
    using i decode_slots [OF a(1), of ?s] r(2,6) by (simp add: bs_def blocks_def)
  have f: "drop (nat (sum_list (take pid ?c))) free_pgs ! 0 = ld (u pid 5 0) free_pgs (sum_list (take pid ?c))"
    if "cdiv ?s ?p - cdiv (?s - 1) ?p \<noteq> 0"
    using that r(2,3,4,5) i by (simp add: ld_def)
  show ?thesis
    unfolding alloc_decode_kernel_def Let_def lds pre nps st b
    using f pl by (simp add: overwrite_def upd_conv_take_nth_drop)
qed

lemma decode_counts:
  assumes "1 < psz"
  shows "get_num_new_pages_decode seq_lens psz = get_num_new_pages seq_lens psz (map (\<lambda>s. s - 1) seq_lens)"
proof (induction seq_lens)
  case (Cons s ss)
  let ?p = "int psz"
  have p: "0 < ?p" "1 < ?p" using assms by simp_all
  have e: "(s - 1) mod ?p = (s mod ?p - 1) mod ?p" by (simp add: mod_diff_left_eq)
  have m: "(s - 1) mod ?p = (if s mod ?p = 0 then ?p - 1 else s mod ?p - 1)"
  proof (cases "s mod ?p = 0")
    case False
    then have "(s mod ?p - 1) mod ?p = s mod ?p - 1"
      using pos_mod_sign [OF p(1), of s] pos_mod_bound [OF p(1), of s] by (intro mod_pos_pos_trivial) linarith+
    then show ?thesis using False e by simp
  qed (use e p in \<open>simp add: zmod_minus1\<close>)
  have "(s - 1) div ?p * ?p = s - 1 - (s - 1) mod ?p" "s div ?p * ?p = s - s mod ?p"
    by (simp_all add: minus_mod_eq_div_mult)
  then have "(s - 1) div ?p * ?p = (s div ?p - (if s mod ?p = 0 then 1 else 0)) * ?p"
    unfolding left_diff_distrib using m by (cases "s mod ?p = 0") simp_all
  then have d: "(s - 1) div ?p = s div ?p - (if s mod ?p = 0 then 1 else 0)"
    using p(1) by (simp only: mult_cancel_right) auto
  have "cdiv s ?p - cdiv (s - 1) ?p = (if s mod ?p = 1 then 1 else 0)"
    using p m d by (simp add: cdiv_eq)
  then show ?case using Cons.IH by (simp add: get_num_new_pages_decode_def get_num_new_pages_def)
qed (simp_all add: get_num_new_pages_decode_def get_num_new_pages_def)

text \<open>C27. Allocation for a decode batch.  With pages of more than one token, \<open>alloc_decode\<close> gives each request the
  slot after its last one, or the first slot of a new page when that one was full; it behaves like an extension by one
  token, so it keeps the promise of \<open>alloc_extend\<close>.\<close>

theorem alloc_decode_lends:
  assumes a: "allocator_ok a" "1 < page_size a" and req: "extend_requests_ok a (map (\<lambda>s. s - 1) seq_lens) seq_lens last_loc"
    and enough: "get_num_new_pages_decode seq_lens (page_size a) \<le> int (length (free_pages a) + length (release_pages a))"
    and ord: "program_order (length seq_lens) order"
  shows "\<exists>out a'. alloc_decode u order a seq_lens last_loc = Inr (Some out, a') \<and> length out = length seq_lens \<and>
    paged_lends a (map (\<lambda>s. s - 1) seq_lens) seq_lens last_loc out a'"
proof -
  let ?q = "map (\<lambda>s. s - 1) seq_lens"
  define a1 where "a1 = presort a (length seq_lens)"
  have p1: "page_size a1 = page_size a" "debug_mode a1 = debug_mode a" by (simp_all add: a1_def)
  have req1: "extend_requests_ok a1 ?q seq_lens last_loc" using req by (simp add: a1_def extend_requests_presort)
  have cnt: "get_num_new_pages seq_lens (page_size a) ?q = get_num_new_pages_decode seq_lens (page_size a)"
    using decode_counts [OF a(2)] by simp
  have k: "get_num_new_pages seq_lens (page_size a1) ?q \<le> int (length (free_pages a1))"
    unfolding p1 cnt unfolding a1_def
    by (rule presort_has [OF a(1) enough]) (simp add: get_num_new_pages_decode_def)
  note lp = lend_pages [OF presort_ok [OF a(1), of "length seq_lens", folded a1_def] req1 k]
  let ?bs = "blocks (page_size a1) ?q seq_lens last_loc (free_pages a1)"
  have l: "length ?bs = length seq_lens" using blocks_fields(1) [OF lp(1)] by simp
  have one: "map2 (-) seq_lens ?q = replicate (length seq_lens) 1" by (rule nth_equalityI) simp_all
  have len: "length (concat ?bs) = length seq_lens" using blocks_total [OF lp(1)] unfolding one by (simp add: sum_list_replicate)
  have "fold (alloc_decode_kernel u seq_lens last_loc (free_pages a1) (next_power_of_2 (length seq_lens)) (page_size a1)) order
        (map (u 0 7) [0..<length seq_lens]) = fold (\<lambda>k out. overwrite out (block_start ?bs k) (?bs ! k)) order (map (u 0 7) [0..<length seq_lens])"
    by (rule fold_blocks) (use decode_writes_block [OF lp(1) _ next_power_of_2_ge] ord l len in \<open>simp_all add: program_order_def\<close>)
  also have "\<dots> = concat ?bs"
    using fold_overwrite [of order ?bs "map (u 0 7) [0..<length seq_lens]"] ord l len by (simp add: program_order_def)
  finally have run: "fold (alloc_decode_kernel u seq_lens last_loc (free_pages a1) (next_power_of_2 (length seq_lens)) (page_size a1)) order
        (map (u 0 7) [0..<length seq_lens]) = concat ?bs" .
  have al: "list_all2 (\<lambda>l s. (l + 2) mod int (page_size a) = s mod int (page_size a)) last_loc seq_lens"
  proof -
    have "(l + 2) mod p = s mod p" if "(l + 1) mod p = (s - 1) mod p" for l s p :: int
      using mod_add_cong [OF that refl [of "1 mod p"]] by (simp add: add.assoc)
    then show ?thesis using req by (simp add: list_all2_conv_all_nth extend_requests_ok_def)
  qed
  have "alloc_decode u order a seq_lens last_loc =
      Inr (Some (concat ?bs), a1\<lparr>free_pages := drop_int (free_pages a1) (get_num_new_pages seq_lens (page_size a1) ?q)\<rparr>)"
    unfolding alloc_decode_def Let_def presort_def [of a "length seq_lens", symmetric] a1_def [symmetric] p1(1) [symmetric] run
    using al k paged_lends_distinct [OF lp(2)] cnt by (simp add: p1)
  moreover have "paged_lends a ?q seq_lens last_loc (concat ?bs)
      (a1\<lparr>free_pages := drop_int (free_pages a1) (get_num_new_pages seq_lens (page_size a1) ?q)\<rparr>)"
    using lp(2) unfolding a1_def by (rule paged_lends_presort)
  ultimately show ?thesis using len by blast
qed

theorem alloc_decode_lends_witness:
  "\<exists>out a'. alloc_decode (\<lambda>pid l k. int l - int k) [1, 0] ((paged_init 40 4 True True)\<lparr>free_pages := [], release_pages := [10, 9]\<rparr>)
       [7, 9] [21, 15] = Inr (Some out, a') \<and> length out = length [7, 9 :: int] \<and>
     paged_lends ((paged_init 40 4 True True)\<lparr>free_pages := [], release_pages := [10, 9]\<rparr>) (map (\<lambda>s. s - 1) [7, 9]) [7, 9] [21, 15] out a'"
proof (rule alloc_decode_lends)
  let ?a = "(paged_init 40 4 True True)\<lparr>free_pages := [], release_pages := [10, 9]\<rparr>"
  show "allocator_ok ?a"
    by (simp add: allocator_ok_def held_pages_def num_pages_def paged_init_def init_base_def paged_clear_def)
  show "1 < page_size ?a" by (simp add: paged_init_def init_base_def paged_clear_def)
  show "extend_requests_ok ?a (map (\<lambda>s. s - 1) [7, 9]) [7, 9] [21, 15]"
    by (simp add: extend_requests_ok_def open_pages_def held_pages_def paged_init_def init_base_def paged_clear_def less_Suc_eq)
  show "get_num_new_pages_decode [7, 9] (page_size ?a) \<le> int (length (free_pages ?a) + length (release_pages ?a))"
    by code_simp
  show "program_order (length [7, 9 :: int]) [1, 0]" by (auto simp: program_order_def)
qed

end
