(* ===== verification/Schedule_Batch.thy ===== *)
theory Schedule_Batch
  imports Batch Paged_Alloc Input_Logprobs "HOL-Library.Product_Lexorder"
begin

text \<open>
  The operations of \<open>ScheduleBatch\<close> (\<open>managers/schedule_batch.py\<close>) and the allocation of KV slots
  for a batch (\<open>mem_cache/common.py\<close>), for text generation without speculation and with the cache
  that shares no prefixes.  A batch is a struct of arrays over its list of requests; the requests
  themselves, the request-to-token table and the allocator are shared and live in \<open>mem\<close>.
\<close>

record mem =
  m_store :: store
  m_pool :: req_to_token_pool
  m_alloc :: allocator

text \<open>How kernels run: what masked-out lanes of a load hold, the order of the programs of a launch, the bound
  on the size of a tensor, and whether the attention backend supports Triton.\<close>

record launch =
  l_numel :: nat
  l_junk :: lanes
  l_order :: "nat \<Rightarrow> nat list"
  l_triton :: bool

section \<open>Allocation\<close>

definition alloc_token_slots :: "allocator \<Rightarrow> nat \<Rightarrow> (slot list \<times> allocator) result" where
  "alloc_token_slots a n =
     bind_result (alloc a n) (\<lambda>(out, a'). case out of None \<Rightarrow> Inl RuntimeError | Some xs \<Rightarrow> Inr (xs, a'))"

definition alloc_paged_token_slots_extend ::
  "launch \<Rightarrow> allocator \<Rightarrow> int list \<Rightarrow> int list \<Rightarrow> int list \<Rightarrow> nat \<Rightarrow> (slot list \<times> allocator) result" where
  "alloc_paged_token_slots_extend L a prefix_lens seq_lens last_loc n =
     bind_result (alloc_extend (l_numel L) (l_junk L) (l_order L (length prefix_lens)) a prefix_lens seq_lens last_loc n)
       (\<lambda>(out, a'). case out of None \<Rightarrow> Inl RuntimeError | Some xs \<Rightarrow> Inr (xs, a'))"

definition alloc_paged_token_slots_decode ::
  "launch \<Rightarrow> allocator \<Rightarrow> int list \<Rightarrow> int list \<Rightarrow> (slot list \<times> allocator) result" where
  "alloc_paged_token_slots_decode L a seq_lens last_loc =
     bind_result (alloc_decode (l_junk L) (l_order L (length seq_lens)) a seq_lens last_loc)
       (\<lambda>(out, a'). case out of None \<Rightarrow> Inl RuntimeError | Some xs \<Rightarrow> Inr (xs, a'))"

subsection \<open>Writing the request-to-token table\<close>

text \<open>\<open>req_to_token[row, a:b] = vs\<close>: the slice is cut at the width of the table, a single value is
  spread over it, and any other difference in length raises.\<close>

definition rt_assign :: "req_to_token_pool \<Rightarrow> nat \<Rightarrow> nat \<Rightarrow> nat \<Rightarrow> slot list \<Rightarrow> req_to_token_pool result" where
  "rt_assign p row a b vs =
     (let n = min b (max_context_len p) - a;
          ws = (if length vs = 1 then replicate n (hd vs) else vs)
      in if \<not> row < rt_size p then Inl IndexError
         else if n \<noteq> length ws then Inl RuntimeError else Inr (rt_write p row a ws))"

fun write_rows ::
  "nat list \<Rightarrow> nat list \<Rightarrow> nat list \<Rightarrow> nat list \<Rightarrow> slot list list \<Rightarrow> slot list \<Rightarrow> req_to_token_pool \<Rightarrow>
   req_to_token_pool result" where
  "write_rows (row # rows) (pre # pres) (seq # seqs) (ext # exts) (t # ts) locs p =
     bind_result (rt_assign p row 0 pre t) (\<lambda>p1.
     bind_result (rt_assign p1 row pre seq (take ext locs)) (\<lambda>p2.
       write_rows rows pres seqs exts ts (drop ext locs) p2))"
| "write_rows _ _ _ _ _ _ p = Inr p"

text \<open>The Triton kernel that writes the rows; one block of \<open>512\<close> offsets per iteration.\<close>

definition store_block :: "nat \<Rightarrow> nat \<Rightarrow> nat \<Rightarrow> (nat \<Rightarrow> slot) \<Rightarrow> nat \<Rightarrow> req_to_token_pool \<Rightarrow> req_to_token_pool" where
  "store_block row base n value i p =
     p\<lparr>req_to_token := (\<lambda>row' j.
        if row' = row \<and> base \<le> j \<and> 512 * i \<le> j - base \<and> j - base < 512 * i + 512 \<and> j - base < n then value (j - base)
        else req_to_token p row' j)\<rparr>"

definition write_req_to_token_pool_triton ::
  "lanes \<Rightarrow> nat list \<Rightarrow> slot list list \<Rightarrow> nat list \<Rightarrow> nat list \<Rightarrow> nat list \<Rightarrow> slot list \<Rightarrow> nat \<Rightarrow>
   req_to_token_pool \<Rightarrow> req_to_token_pool" where
  "write_req_to_token_pool_triton u rows prefixes pre_lens seq_lens extend_lens locs pid p =
     (let row = rows ! pid; pre = pre_lens ! pid; seq = seq_lens ! pid; t = prefixes ! pid;
          cumsum_start = sum_list (take pid extend_lens);
          p1 = fold (store_block row 0 pre (\<lambda>k. ld (u pid 0 k) t (int k))) [0..<(pre + 511) div 512] p
      in fold (store_block row pre (seq - pre) (\<lambda>k. ld (u pid 1 k) locs (int (cumsum_start + k)))) [0..<(seq - pre + 511) div 512] p1)"

definition write_cache_indices ::
  "launch \<Rightarrow> slot list \<Rightarrow> nat list \<Rightarrow> nat list \<Rightarrow> nat list \<Rightarrow> nat list \<Rightarrow> slot list list \<Rightarrow> req_to_token_pool \<Rightarrow>
   req_to_token_pool result" where
  "write_cache_indices L locs rows pre_lens seq_lens extend_lens prefixes p =
     (if l_triton L
      then Inr (fold (write_req_to_token_pool_triton (l_junk L) rows prefixes pre_lens seq_lens extend_lens locs)
                  (l_order L (length rows)) p)
      else write_rows rows pre_lens seq_lens extend_lens prefixes locs p)"

subsection \<open>Slots for a batch\<close>

text \<open>\<open>req_to_token[rows, cols]\<close> and \<open>req_to_token[rows, cols] = vs\<close>, cell by cell.\<close>

definition rt_gather :: "req_to_token_pool \<Rightarrow> nat list \<Rightarrow> int list \<Rightarrow> slot list result" where
  "rt_gather p rows cols = map_result (\<lambda>(row, j). rt_cell p (Some row) j) (zip rows cols)"

fun rt_scatter :: "nat list \<Rightarrow> int list \<Rightarrow> slot list \<Rightarrow> req_to_token_pool \<Rightarrow> req_to_token_pool result" where
  "rt_scatter (row # rows) (j # cols) (v # vs) p =
     bind_result (rt_cell p (Some row) j) (\<lambda>_.
       rt_scatter rows cols vs (rt_write p row (nat (if j < 0 then j + int (max_context_len p) else j)) [v]))"
| "rt_scatter _ _ _ p = Inr p"

definition alloc_for_extend ::
  "launch \<Rightarrow> schedule_batch \<Rightarrow> mem \<Rightarrow> (slot list \<times> nat option list \<times> mem) result" where
  "alloc_for_extend L b M =
     (let prefix_tensors = map (\<lambda>x. prefix_indices (m_store M x)) (b_reqs b);
          seq_lens = (case b_seq_lens b of None \<Rightarrow> [] | Some ls \<Rightarrow> ls)
      in bind_result (alloc_req_slots (m_pool M) (m_store M) (b_reqs b)) (\<lambda>(rows, p, h).
         bind_result
           (if page_size (m_alloc M) = 1 then alloc_token_slots (m_alloc M) (b_extend_num_tokens b)
            else alloc_paged_token_slots_extend L (m_alloc M) (b_prefix_lens b) seq_lens
                   (map (\<lambda>t. if 0 < length t then last t else -1) prefix_tensors) (b_extend_num_tokens b)) (\<lambda>(locs, a).
         bind_result (write_cache_indices L locs (map the rows) (map nat (b_prefix_lens b)) (map nat seq_lens)
                        (map nat (b_extend_lens b)) prefix_tensors p) (\<lambda>p'.
           Inr (locs, rows, \<lparr>m_store = h, m_pool = p', m_alloc = a\<rparr>)))))"

definition alloc_for_decode :: "launch \<Rightarrow> nat \<Rightarrow> schedule_batch \<Rightarrow> mem \<Rightarrow> (slot list \<times> mem) result" where
  "alloc_for_decode L token_per_req b M =
     (case (b_seq_lens b, b_req_pool_indices b) of
        (Some seq_lens, Some rows) \<Rightarrow>
          bind_result
            (if page_size (m_alloc M) = 1 then alloc_token_slots (m_alloc M) (length seq_lens * token_per_req)
             else bind_result (rt_gather (m_pool M) rows (map (\<lambda>n. n - 1) seq_lens)) (\<lambda>last_loc.
                    alloc_paged_token_slots_decode L (m_alloc M) (map (\<lambda>n. n + int token_per_req) seq_lens) last_loc)) (\<lambda>(locs, a).
          bind_result (if length locs \<noteq> length seq_lens \<and> length locs \<noteq> 1 then Inl RuntimeError
                       else rt_scatter rows seq_lens (if length locs = 1 then replicate (length seq_lens) (hd locs) else locs) (m_pool M)) (\<lambda>p.
            Inr (locs, M\<lparr>m_pool := p, m_alloc := a\<rparr>)))
      | _ \<Rightarrow> Inl AttributeError)"

section \<open>Building a batch\<close>

definition batch_size :: "schedule_batch \<Rightarrow> nat" where
  "batch_size b = length (b_reqs b)"

definition is_empty :: "schedule_batch \<Rightarrow> bool" where
  "is_empty b = (length (b_reqs b) = 0)"

definition init_new :: "store \<Rightarrow> ref list \<Rightarrow> bool \<Rightarrow> ref option \<Rightarrow> schedule_batch" where
  "init_new h reqs overlap chunked =
     (new_batch reqs False)\<lparr>b_enable_overlap := overlap, b_return_logprob := list_ex (\<lambda>x. return_logprob (h x)) reqs,
        b_has_stream := list_ex (\<lambda>x. stream (h x)) reqs, b_has_grammar := list_ex (\<lambda>x. grammar (h x) \<noteq> None) reqs,
        b_is_prefill_only := list_all (\<lambda>x. is_prefill_only (h x)) reqs, b_chunked_req := chunked\<rparr>"

text \<open>The prompt tokens whose log-probabilities a request's next chunk yields, padded to the length the
  logits processor expects.\<close>

definition input_logprob_token_ids :: "req \<Rightarrow> token list" where
  "input_logprob_token_ids r =
     (let start0 = int (length (prefix_indices r)); stop = int (length (fill_ids r));
          logprob_start = (if logprob_start_len r = -1 then int (length (origin_input_ids r)) - 1 else logprob_start_len r);
          start = (if start0 < logprob_start then logprob_start else start0);
          ids = py_slice (origin_input_ids r) (start + 1) (stop + 1)
      in ids @ replicate (nat (extend_input_len r - extend_logprob_start_len r - int (length ids))) 0)"

text \<open>What the loop over the requests does to one of them; \<open>row\<close> is its row of the table.\<close>

definition extend_req :: "nat option \<Rightarrow> req \<Rightarrow> req result" where
  "extend_req row r =
     (let seq_len = int (length (fill_ids r)); pre_len = int (length (prefix_indices r));
          r1 = r\<lparr>req_pool_idx := row\<rparr>
      in if seq_len - pre_len \<noteq> extend_input_len r then Inl AssertionError
         else Inr (r1\<lparr>extend_batch_idx := extend_batch_idx r + 1, kv_committed_len := seq_len, kv_allocated_len := seq_len,
                      already_computed := (if retracted_stain r then already_computed r else seq_len),
                      is_retracted := False\<rparr>))"

fun extend_reqs :: "ref list \<Rightarrow> nat option list \<Rightarrow> store \<Rightarrow> store result" where
  "extend_reqs (x # xs) (row # rows) h = bind_result (extend_req row (h x)) (\<lambda>r. extend_reqs xs rows (h(x := r)))"
| "extend_reqs _ _ h = Inr h"

definition prepare_for_extend ::
  "launch \<Rightarrow> bool \<Rightarrow> int \<Rightarrow> schedule_batch \<Rightarrow> mem \<Rightarrow> (schedule_batch \<times> mem) result" where
  "prepare_for_extend L enable_deterministic vocab b M =
     (let rs = map (m_store M) (b_reqs b);
          input_ids = map (\<lambda>r. drop (length (prefix_indices r)) (fill_ids r)) rs;
          seq_lens = map (\<lambda>r. int (length (fill_ids r))) rs;
          b1 = b\<lparr>b_forward_mode := Some EXTEND, b_prefix_lens := map (\<lambda>r. int (length (prefix_indices r))) rs,
                 b_extend_lens := map extend_input_len rs, b_seq_lens := Some seq_lens, b_seq_lens_cpu := Some seq_lens,
                 b_extend_num_tokens := length (concat input_ids)\<rparr>
      in bind_result (alloc_for_extend L b1 M) (\<lambda>(locs, rows, M1).
         bind_result (extend_reqs (b_reqs b) rows (m_store M1)) (\<lambda>h.
           (let rs' = map h (b_reqs b); lp = b_return_logprob b
            in Inr (b1\<lparr>b_input_ids := Some (concat input_ids), b_req_pool_indices := Some (map the rows),
                       b_orig_seq_lens := Some (map (\<lambda>r. int (max (length (fill_ids r)) (length (origin_input_ids r)))) rs),
                       b_out_cache_loc := Some locs, b_seq_lens_sum := sum_list seq_lens,
                       b_top_logprobs_nums := (if lp then Some (map top_logprobs_num rs') else b_top_logprobs_nums b),
                       b_token_ids_logprobs := (if lp then Some (map token_ids_logprob rs') else b_token_ids_logprobs b),
                       b_extend_logprob_start_lens := map extend_logprob_start_len rs',
                       b_extend_input_logprob_token_ids :=
                         (if lp then Some (map (\<lambda>t. min (max t 0) (vocab - 1)) (concat (map input_logprob_token_ids rs'))) else None),
                       b_sampling_info := Some (from_schedule_batch enable_deterministic rs')\<rparr>,
                    M1\<lparr>m_store := h\<rparr>)))))"

section \<open>Dropping and joining requests\<close>

text \<open>\<open>xs[keep]\<close> for a list of indices; an absent tensor cannot be indexed.\<close>

definition select :: "'a list \<Rightarrow> nat list \<Rightarrow> 'a list result" where
  "select xs keep = (if list_all (\<lambda>i. i < length xs) keep then Inr (map ((!) xs) keep) else Inl IndexError)"

definition select_tensor :: "'a list option \<Rightarrow> nat list \<Rightarrow> 'a list option result" where
  "select_tensor t keep =
     (case t of None \<Rightarrow> Inl TypeError | Some xs \<Rightarrow> bind_result (select xs keep) (\<lambda>ys. Inr (Some ys)))"

definition select_optional :: "'a list option \<Rightarrow> nat list \<Rightarrow> 'a list option result" where
  "select_optional t keep =
     (case t of None \<Rightarrow> Inr None | Some xs \<Rightarrow> bind_result (select xs keep) (\<lambda>ys. Inr (Some ys)))"

definition filter_sampling :: "nat list \<Rightarrow> sampling_batch_info \<Rightarrow> sampling_batch_info result" where
  "filter_sampling keep si =
     bind_result (select (temperatures si) keep) (\<lambda>ts.
     bind_result (select (top_ps si) keep) (\<lambda>ps.
     bind_result (select (top_ks si) keep) (\<lambda>ks.
     bind_result (select (min_ps si) keep) (\<lambda>ms.
     bind_result (select_optional (si_sampling_seed si) keep) (\<lambda>seeds.
     bind_result (select_optional (deterministic_indices si) keep) (\<lambda>ds.
     bind_result (select_optional (si_logit_bias si) keep) (\<lambda>bias.
       Inr (si\<lparr>temperatures := ts, top_ps := ps, top_ks := ks, min_ps := ms, si_sampling_seed := seeds,
              deterministic_indices := ds, si_logit_bias := bias,
              is_any_deterministic := (case ds of None \<Rightarrow> is_any_deterministic si
                                       | Some xs \<Rightarrow> list_ex (\<lambda>x. 0 < x) xs)\<rparr>))))))))"

definition cat_optional :: "'a list option \<Rightarrow> 'a list option \<Rightarrow> 'a list option" where
  "cat_optional a b = (case (a, b) of (Some xs, Some ys) \<Rightarrow> Some (xs @ ys) | _ \<Rightarrow> a)"

definition merge_bias_tensor :: "'a list option \<Rightarrow> 'a list option \<Rightarrow> nat \<Rightarrow> nat \<Rightarrow> 'a \<Rightarrow> 'a list option" where
  "merge_bias_tensor lhs rhs bs1 bs2 dflt =
     (if lhs = None \<and> rhs = None then None
      else Some ((case lhs of None \<Rightarrow> replicate bs1 dflt | Some xs \<Rightarrow> xs) @ (case rhs of None \<Rightarrow> replicate bs2 dflt | Some ys \<Rightarrow> ys)))"

definition merge_sampling :: "sampling_batch_info \<Rightarrow> sampling_batch_info \<Rightarrow> sampling_batch_info" where
  "merge_sampling s t =
     s\<lparr>si_logit_bias := merge_bias_tensor (si_logit_bias s) (si_logit_bias t) (length (temperatures s)) (length (temperatures t)) (\<lambda>_. 0),
       temperatures := temperatures s @ temperatures t, top_ps := top_ps s @ top_ps t, top_ks := top_ks s @ top_ks t,
       min_ps := min_ps s @ min_ps t, si_sampling_seed := cat_optional (si_sampling_seed s) (si_sampling_seed t),
       deterministic_indices := cat_optional (deterministic_indices s) (deterministic_indices t),
       is_any_deterministic := is_any_deterministic s \<or> is_any_deterministic t,
       is_all_greedy := is_all_greedy s \<and> is_all_greedy t,
       need_top_p_sampling := need_top_p_sampling s \<or> need_top_p_sampling t,
       need_top_k_sampling := need_top_k_sampling s \<or> need_top_k_sampling t,
       need_min_p_sampling := need_min_p_sampling s \<or> need_min_p_sampling t\<rparr>"

definition kept_indices :: "store \<Rightarrow> ref list \<Rightarrow> ref list \<Rightarrow> nat list" where
  "kept_indices h reqs exclude =
     filter (\<lambda>i. \<not> finished (h (reqs ! i)) \<and> reqs ! i \<notin> set exclude) [0..<length reqs]"

definition filter_batch ::
  "store \<Rightarrow> ref list \<Rightarrow> nat list option \<Rightarrow> schedule_batch \<Rightarrow> schedule_batch result" where
  "filter_batch h exclude keep_indices b =
     (let keep = (case keep_indices of None \<Rightarrow> kept_indices h (b_reqs b) exclude | Some ks \<Rightarrow> ks)
      in if length keep = 0 then Inr (b\<lparr>b_reqs := []\<rparr>)
         else if length keep = length (b_reqs b) then Inr b
         else
           bind_result (select (b_reqs b) keep) (\<lambda>reqs.
           bind_result (select_tensor (b_req_pool_indices b) keep) (\<lambda>rows.
           bind_result (select_tensor (b_seq_lens b) keep) (\<lambda>lens.
           bind_result (select_tensor (b_seq_lens_cpu b) keep) (\<lambda>lens_cpu.
           bind_result (select_tensor (b_orig_seq_lens b) keep) (\<lambda>orig.
           bind_result (select_optional (b_output_ids b) keep) (\<lambda>outs.
             (let lp = list_ex (\<lambda>x. return_logprob (h x)) reqs
              in bind_result (if lp then select_tensor (b_top_logprobs_nums b) keep else Inr None) (\<lambda>tops.
                 bind_result (if lp then select_tensor (b_token_ids_logprobs b) keep else Inr None) (\<lambda>tids.
                 bind_result (case b_sampling_info b of None \<Rightarrow> Inl AttributeError | Some si \<Rightarrow> filter_sampling keep si) (\<lambda>si.
                   Inr (b\<lparr>b_reqs := reqs, b_req_pool_indices := rows, b_seq_lens := lens, b_seq_lens_cpu := lens_cpu,
                          b_orig_seq_lens := orig, b_out_cache_loc := None,
                          b_seq_lens_sum := sum_list (case lens of None \<Rightarrow> [] | Some ls \<Rightarrow> ls), b_output_ids := outs,
                          b_return_logprob := lp, b_top_logprobs_nums := tops, b_token_ids_logprobs := tids,
                          b_has_stream := list_ex (\<lambda>x. stream (h x)) reqs,
                          b_has_grammar := list_ex (\<lambda>x. grammar (h x) \<noteq> None) reqs,
                          b_sampling_info := Some si\<rparr>))))))))))))"

definition cat_tensors :: "'a list option \<Rightarrow> 'a list option \<Rightarrow> 'a list option result" where
  "cat_tensors a b = (case (a, b) of (Some xs, Some ys) \<Rightarrow> Inr (Some (xs @ ys)) | _ \<Rightarrow> Inl TypeError)"

text \<open>How the per-request log-probability arguments of two batches are joined.\<close>

definition join_lists :: "'a \<Rightarrow> bool \<Rightarrow> bool \<Rightarrow> nat \<Rightarrow> nat \<Rightarrow> 'a list option \<Rightarrow> 'a list option \<Rightarrow> 'a list option result" where
  "join_lists dflt lp lp' n n' a b =
     (if lp \<and> lp' then (case (a, b) of (Some xs, Some ys) \<Rightarrow> Inr (Some (xs @ ys)) | (None, _) \<Rightarrow> Inl AttributeError | _ \<Rightarrow> Inl TypeError)
      else if lp then (case a of Some xs \<Rightarrow> Inr (Some (xs @ replicate n' dflt)) | None \<Rightarrow> Inl AttributeError)
      else if lp' then (case b of Some ys \<Rightarrow> Inr (Some (replicate n dflt @ ys)) | None \<Rightarrow> Inl TypeError)
      else Inr a)"

definition merge_batch :: "schedule_batch \<Rightarrow> schedule_batch \<Rightarrow> schedule_batch result" where
  "merge_batch b c =
     (case (b_sampling_info b, b_sampling_info c) of
        (Some s, Some t) \<Rightarrow>
          bind_result (cat_tensors (b_req_pool_indices b) (b_req_pool_indices c)) (\<lambda>rows.
          bind_result (cat_tensors (b_seq_lens b) (b_seq_lens c)) (\<lambda>lens.
          bind_result (cat_tensors (b_seq_lens_cpu b) (b_seq_lens_cpu c)) (\<lambda>lens_cpu.
          bind_result (cat_tensors (b_orig_seq_lens b) (b_orig_seq_lens c)) (\<lambda>orig.
          bind_result (if b_output_ids b = None then Inr None else cat_tensors (b_output_ids b) (b_output_ids c)) (\<lambda>outs.
          bind_result (join_lists 0 (b_return_logprob b) (b_return_logprob c) (length (b_reqs b)) (length (b_reqs c))
                         (b_top_logprobs_nums b) (b_top_logprobs_nums c)) (\<lambda>tops.
          bind_result (join_lists None (b_return_logprob b) (b_return_logprob c) (length (b_reqs b)) (length (b_reqs c))
                         (b_token_ids_logprobs b) (b_token_ids_logprobs c)) (\<lambda>tids.
            Inr (b\<lparr>b_reqs := b_reqs b @ b_reqs c, b_req_pool_indices := rows, b_seq_lens := lens, b_seq_lens_cpu := lens_cpu,
                   b_orig_seq_lens := orig, b_out_cache_loc := None, b_seq_lens_sum := b_seq_lens_sum b + b_seq_lens_sum c,
                   b_output_ids := outs, b_top_logprobs_nums := tops, b_token_ids_logprobs := tids,
                   b_return_logprob := b_return_logprob b \<or> b_return_logprob c,
                   b_has_stream := b_has_stream b \<or> b_has_stream c, b_has_grammar := b_has_grammar b \<or> b_has_grammar c,
                   b_sampling_info := Some (merge_sampling s t)\<rparr>))))))))
      | _ \<Rightarrow> Inl AttributeError)"

section \<open>Decode batches\<close>

definition decode_req :: "req \<Rightarrow> req" where
  "decode_req r = r\<lparr>decode_batch_idx := decode_batch_idx r + 1, kv_committed_len := kv_committed_len r + 1,
                     kv_allocated_len := kv_allocated_len r + 1\<rparr>"

definition prepare_for_decode :: "launch \<Rightarrow> schedule_batch \<Rightarrow> mem \<Rightarrow> (schedule_batch \<times> mem) result" where
  "prepare_for_decode L b M =
     (let b1 = b\<lparr>b_forward_mode := Some DECODE, b_input_ids := b_output_ids b, b_output_ids := None\<rparr>;
          up = map_option (map (\<lambda>n. n + 1))
      in bind_result (alloc_for_decode L 1 b1 M) (\<lambda>(locs, M1).
           if b_seq_lens_cpu b = None \<or> b_orig_seq_lens b = None then Inl AttributeError
           else Inr (b1\<lparr>b_out_cache_loc := Some locs, b_seq_lens := up (b_seq_lens b), b_seq_lens_cpu := up (b_seq_lens_cpu b),
                        b_orig_seq_lens := up (b_orig_seq_lens b), b_seq_lens_sum := b_seq_lens_sum b + int (length (b_reqs b))\<rparr>,
                     M1\<lparr>m_store := fold (\<lambda>x h. h(x := decode_req (h x))) (b_reqs b) (m_store M1)\<rparr>)))"

definition mix_with_running :: "schedule_batch \<Rightarrow> schedule_batch \<Rightarrow> mem \<Rightarrow> (schedule_batch \<times> mem) result" where
  "mix_with_running b c M =
     (let h = fold (\<lambda>x h. h(x := set_extend_input_len 1 ((h x)\<lparr>fill_ids := origin_input_ids (h x) @ output_ids (h x)\<rparr>)))
                (b_reqs c) (m_store M);
          delta = (if b_enable_overlap b then 0 else -1);
          n = length (b_reqs c)
      in bind_result (cat_tensors (b_input_ids b) (b_input_ids c)) (\<lambda>ids.
         bind_result (cat_tensors (b_out_cache_loc b) (b_out_cache_loc c)) (\<lambda>locs.
         bind_result (merge_batch (b\<lparr>b_forward_mode := Some MIXED\<rparr>) c) (\<lambda>b1.
           Inr (b1\<lparr>b_input_ids := ids, b_out_cache_loc := locs,
                   b_prefix_lens := b_prefix_lens b @
                     map (\<lambda>x. int (length (origin_input_ids (h x))) + int (length (output_ids (h x))) + delta) (b_reqs c),
                   b_extend_lens := b_extend_lens b @ replicate n 1, b_extend_num_tokens := b_extend_num_tokens b + n,
                   b_extend_logprob_start_lens := b_extend_logprob_start_lens b @ replicate n 0,
                   b_is_prefill_only := False\<rparr>,
                M\<lparr>m_store := h\<rparr>)))))"

section \<open>Retraction\<close>

definition new_tokens_required_next_decode :: "store \<Rightarrow> allocator \<Rightarrow> ref list \<Rightarrow> nat" where
  "new_tokens_required_next_decode h a requests =
     length (filter (\<lambda>x. kv_committed_len (h x) mod int (page_size a) = 0) requests) * page_size a"

definition check_decode_mem :: "mem \<Rightarrow> ref list \<Rightarrow> bool" where
  "check_decode_mem M requests =
     (new_tokens_required_next_decode (m_store M) (m_alloc M) requests \<le> available_size (m_alloc M))"

definition retract_req :: "ref \<Rightarrow> mem \<Rightarrow> mem result" where
  "retract_req x M =
     bind_result (release_kv_cache False (m_pool M) (m_alloc M) (m_store M x)) (\<lambda>(p, a, r).
       Inr \<lparr>m_store = (m_store M)(x := reset_for_retract r), m_pool = p, m_alloc = a\<rparr>)"

definition retract_all :: "schedule_batch \<Rightarrow> mem \<Rightarrow> (ref list \<times> schedule_batch \<times> mem) result" where
  "retract_all b M =
     bind_result (fold_result retract_req (b_reqs b) M) (\<lambda>M1.
     bind_result (filter_batch (m_store M1) (b_reqs b) None b) (\<lambda>b1. Inr (b_reqs b, b1, M1)))"

text \<open>The candidates, the one to go first at the head: the request with the fewest output tokens, and
  among those the one with the longest prompt.\<close>

definition retract_order :: "store \<Rightarrow> ref list \<Rightarrow> nat list" where
  "retract_order h reqs =
     rev (sort_key (\<lambda>i. (- int (length (output_ids (h (reqs ! i)))), int (length (origin_input_ids (h (reqs ! i))))))
            [0..<length reqs])"

fun retract_loop :: "ref list \<Rightarrow> bool \<Rightarrow> nat list \<Rightarrow> ref list \<Rightarrow> mem \<Rightarrow> (nat list \<times> ref list \<times> mem) result" where
  "retract_loop reqs first [] retracted M = (if first then Inl IndexError else Inr ([], retracted, M))"
| "retract_loop reqs first [i] retracted M = Inr ([i], retracted, M)"
| "retract_loop reqs first (i # j # is) retracted M =
     (if first \<or> \<not> check_decode_mem M (map ((!) reqs) (rev (i # j # is)))
      then bind_result (retract_req (reqs ! i) M) (retract_loop reqs False (j # is) (retracted @ [reqs ! i]))
      else Inr (i # j # is, retracted, M))"

definition retract_decode ::
  "nat \<Rightarrow> schedule_batch \<Rightarrow> mem \<Rightarrow> (ref list \<times> real \<times> schedule_batch \<times> mem) result" where
  "retract_decode retract_decode_steps b M =
     bind_result (retract_loop (b_reqs b) True (retract_order (m_store M) (b_reqs b)) [] M) (\<lambda>(left, retracted, M1).
       (let keep = rev left
        in if length keep \<le> 1 \<and> \<not> check_decode_mem M1 (map ((!) (b_reqs b)) keep) then Inl ValueError
           else bind_result (filter_batch (m_store M1) [] (Some keep) b) (\<lambda>b1.
             (let rs = map (m_store M1) (b_reqs b1);
                  total_decoded = sum_list (map (\<lambda>r. int (length (output_ids r))) rs)
              in bind_result (map_result (\<lambda>r. case max_new_tokens (sampling_params r) of None \<Rightarrow> Inl TypeError | Some n \<Rightarrow> Inr n) rs)
                   (\<lambda>ns. if sum_list ns + 1 = 0 then Inl ZeroDivisionError
                         else Inr (retracted,
                                   min 1 (real_of_int (total_decoded + int (retract_decode_steps * length rs)) / real_of_int (sum_list ns + 1)),
                                   b1, M1))))))"

end
