(* ===== verification/Batch_Refinement.thy ===== *)
theory Batch_Refinement
  imports Schedule_Batch
begin

text \<open>
  A batch as a struct of arrays represents the list of its requests: entry \<open>i\<close> of every tensor
  belongs to request \<open>i\<close>.  \<open>filter_batch\<close> and \<open>merge_batch\<close>, which edit the arrays one by one,
  implement filtering and appending of that list.
\<close>

section \<open>The sampling tensors\<close>

text \<open>The per-request tensors are exact; the flags that only speed up sampling are kept on the safe
  side when requests leave.\<close>

definition sampling_rep :: "bool \<Rightarrow> sampling_batch_info \<Rightarrow> sampling_params list \<Rightarrow> bool" where
  "sampling_rep ed si ps \<longleftrightarrow>
     temperatures si = map temperature ps \<and> top_ps si = map top_p ps \<and> top_ks si = map top_k ps \<and>
     min_ps si = map min_p ps \<and> deterministic_indices si = Some (map (\<lambda>p. of_bool (sp_is_deterministic p)) ps) \<and>
     is_any_deterministic si = list_ex sp_is_deterministic ps \<and>
     si_sampling_seed si = (if ed then Some (map (\<lambda>p. case sampling_seed p of Some s \<Rightarrow> s | None \<Rightarrow> 42) ps) else None) \<and>
     (is_all_greedy si \<longrightarrow> list_all (\<lambda>p. top_k p \<le> 1) ps) \<and>
     (list_ex (\<lambda>p. top_p p \<noteq> 1) ps \<longrightarrow> need_top_p_sampling si) \<and>
     (list_ex (\<lambda>p. top_k p \<noteq> TOP_K_ALL) ps \<longrightarrow> need_top_k_sampling si) \<and>
     (list_ex (\<lambda>p. 0 < min_p p) ps \<longrightarrow> need_min_p_sampling si) \<and>
     (case si_logit_bias si of None \<Rightarrow> list_all (\<lambda>p. logit_bias p = None) ps | Some rows \<Rightarrow> rows = map bias_row ps)"

lemma unbiased_rows: "list_all (\<lambda>p. logit_bias p = None) ps \<Longrightarrow> map bias_row ps = replicate (length ps) (\<lambda>_. 0)"
  by (induction ps) (simp_all add: bias_row_def)

lemma from_schedule_batch_rep: "sampling_rep ed (from_schedule_batch ed rs) (map sampling_params rs)"
  by (auto simp: sampling_rep_def from_schedule_batch_def Let_def list_ex_iff list_all_iff)

lemma merge_sampling_rep:
  "sampling_rep ed s ps \<Longrightarrow> sampling_rep ed t qs \<Longrightarrow> sampling_rep ed (merge_sampling s t) (ps @ qs)"
  by (auto simp: sampling_rep_def merge_sampling_def cat_optional_def merge_bias_tensor_def unbiased_rows split: option.splits)

lemma select_map: "\<forall>i \<in> set keep. i < length xs \<Longrightarrow> select (map f xs) keep = Inr (map f (map ((!) xs) keep))"
  by (simp add: select_def list_all_iff)

lemma select_nth: "\<forall>i \<in> set keep. i < length xs \<Longrightarrow> select xs keep = Inr (map ((!) xs) keep)"
  by (simp add: select_def list_all_iff)

lemma list_ex_nth_subset: "\<forall>i \<in> set keep. i < length xs \<Longrightarrow> list_ex P (map ((!) xs) keep) \<Longrightarrow> list_ex P xs"
  by (auto simp: list_ex_iff)

lemma list_all_nth_subset: "\<forall>i \<in> set keep. i < length xs \<Longrightarrow> list_all P xs \<Longrightarrow> list_all P (map ((!) xs) keep)"
  by (auto simp: list_all_iff)

lemma filter_sampling_rep:
  assumes "sampling_rep ed si ps" and keep: "\<forall>i \<in> set keep. i < length ps"
  shows "\<exists>si'. filter_sampling keep si = Inr si' \<and> sampling_rep ed si' (map ((!) ps) keep)"
proof -
  define qs where "qs = map ((!) ps) keep"
  have ex: "list_ex P qs \<Longrightarrow> list_ex P ps" for P unfolding qs_def by (rule list_ex_nth_subset [OF keep])
  have all: "list_all P ps \<Longrightarrow> list_all P qs" for P unfolding qs_def by (rule list_all_nth_subset [OF keep])
  have det: "list_ex (\<lambda>x. 0 < x) (map (\<lambda>p. of_bool (sp_is_deterministic p) :: int) us) = list_ex sp_is_deterministic us" for us
    by (induction us) auto
  let ?seeds = "if ed then Some (map (\<lambda>p. case sampling_seed p of Some s \<Rightarrow> s | None \<Rightarrow> 42) qs) else None"
  let ?si' = "si\<lparr>temperatures := map temperature qs, top_ps := map top_p qs, top_ks := map top_k qs, min_ps := map min_p qs,
    si_sampling_seed := ?seeds, deterministic_indices := Some (map (\<lambda>p. of_bool (sp_is_deterministic p)) qs),
    is_any_deterministic := list_ex sp_is_deterministic qs, si_logit_bias := map_option (\<lambda>_. map bias_row qs) (si_logit_bias si)\<rparr>"
  have "select_optional (si_logit_bias si) keep = Inr (map_option (\<lambda>_. map bias_row qs) (si_logit_bias si))"
    using assms(1) by (auto simp: sampling_rep_def select_optional_def select_map [OF keep] qs_def split: option.splits)
  then have "filter_sampling keep si = Inr ?si'"
    using assms(1)
    by (cases ed) (simp_all add: sampling_rep_def filter_sampling_def select_map [OF keep] select_optional_def det qs_def o_def
        list_ex_iff image_iff)
  moreover have "sampling_rep ed ?si' qs"
    using assms(1) ex all unfolding sampling_rep_def by (simp split: option.splits)
  ultimately show ?thesis unfolding qs_def by blast
qed

section \<open>The batch\<close>

definition rep_logprobs :: "schedule_batch \<Rightarrow> req list \<Rightarrow> bool" where
  "rep_logprobs b rs \<longleftrightarrow>
     b_return_logprob b = list_ex return_logprob rs \<and>
     (b_return_logprob b \<longrightarrow>
        (\<exists>ts. b_top_logprobs_nums b = Some ts \<and> list_all2 (\<lambda>t r. return_logprob r \<longrightarrow> t = top_logprobs_num r) ts rs)) \<and>
     (b_return_logprob b \<longrightarrow>
        (\<exists>ts. b_token_ids_logprobs b = Some ts \<and> list_all2 (\<lambda>t r. return_logprob r \<longrightarrow> t = token_ids_logprob r) ts rs))"

definition rep_lens :: "schedule_batch \<Rightarrow> req list \<Rightarrow> bool" where
  "rep_lens b rs \<longleftrightarrow>
     b_req_pool_indices b = Some (map (\<lambda>r. the (req_pool_idx r)) rs) \<and> list_all (\<lambda>r. req_pool_idx r \<noteq> None) rs \<and>
     b_seq_lens b = Some (map kv_committed_len rs) \<and> b_seq_lens_cpu b = Some (map kv_committed_len rs) \<and>
     b_seq_lens_sum b = sum_list (map kv_committed_len rs) \<and>
     (\<exists>os. b_orig_seq_lens b = Some os \<and> length os = length rs) \<and>
     (\<forall>os. b_output_ids b = Some os \<longrightarrow> length os = length rs)"

definition represents :: "bool \<Rightarrow> store \<Rightarrow> schedule_batch \<Rightarrow> bool" where
  "represents ed h b \<longleftrightarrow>
     rep_lens b (map h (b_reqs b)) \<and> rep_logprobs b (map h (b_reqs b)) \<and>
     b_has_stream b = list_ex (\<lambda>x. stream (h x)) (b_reqs b) \<and>
     b_has_grammar b = list_ex (\<lambda>x. grammar (h x) \<noteq> None) (b_reqs b) \<and>
     (\<exists>si. b_sampling_info b = Some si \<and> sampling_rep ed si (map (\<lambda>x. sampling_params (h x)) (b_reqs b)))"

lemma join_lists_rep:
  assumes "lp = list_ex return_logprob rs" "lp' = list_ex return_logprob qs"
    and "lp \<longrightarrow> (\<exists>ts. a = Some ts \<and> list_all2 (\<lambda>t r. return_logprob r \<longrightarrow> t = f r) ts rs)"
    and "lp' \<longrightarrow> (\<exists>ts. b = Some ts \<and> list_all2 (\<lambda>t r. return_logprob r \<longrightarrow> t = f r) ts qs)"
  shows "\<exists>t. join_lists d lp lp' (length rs) (length qs) a b = Inr t \<and>
    (lp \<or> lp' \<longrightarrow> (\<exists>ts. t = Some ts \<and> list_all2 (\<lambda>t r. return_logprob r \<longrightarrow> t = f r) ts (rs @ qs)))"
proof -
  have pad: "list_all2 (\<lambda>t r. return_logprob r \<longrightarrow> t = f r) (replicate (length us) d) us" if "\<not> list_ex return_logprob us" for us
    using that by (induction us) auto
  show ?thesis
  proof (cases lp; cases lp')
    assume l: "lp" "lp'"
    then obtain ts us where "a = Some ts" "b = Some us" "list_all2 (\<lambda>t r. return_logprob r \<longrightarrow> t = f r) ts rs"
      "list_all2 (\<lambda>t r. return_logprob r \<longrightarrow> t = f r) us qs" using assms by blast
    then show ?thesis using l by (simp add: join_lists_def list_all2_appendI)
  next
    assume l: "lp" "\<not> lp'"
    then obtain ts where "a = Some ts" "list_all2 (\<lambda>t r. return_logprob r \<longrightarrow> t = f r) ts rs" using assms by blast
    then show ?thesis using l pad [of qs] assms(2) by (simp add: join_lists_def list_all2_appendI)
  next
    assume l: "\<not> lp" "lp'"
    then obtain us where "b = Some us" "list_all2 (\<lambda>t r. return_logprob r \<longrightarrow> t = f r) us qs" using assms by blast
    then show ?thesis using l pad [of rs] assms(1) by (simp add: join_lists_def list_all2_appendI)
  qed (simp add: join_lists_def)
qed

lemma merge_lens_rep:
  assumes b: "rep_lens b rs" and c: "rep_lens c qs" and outs: "b_output_ids b = None \<longleftrightarrow> b_output_ids c = None"
  shows "\<exists>rows lens orig outs.
    cat_tensors (b_req_pool_indices b) (b_req_pool_indices c) = Inr rows \<and> cat_tensors (b_seq_lens b) (b_seq_lens c) = Inr lens \<and>
    cat_tensors (b_seq_lens_cpu b) (b_seq_lens_cpu c) = Inr lens \<and> cat_tensors (b_orig_seq_lens b) (b_orig_seq_lens c) = Inr orig \<and>
    (if b_output_ids b = None then Inr None else cat_tensors (b_output_ids b) (b_output_ids c)) = Inr outs \<and>
    (\<forall>d. b_req_pool_indices d = rows \<longrightarrow> b_seq_lens d = lens \<longrightarrow> b_seq_lens_cpu d = lens \<longrightarrow> b_orig_seq_lens d = orig \<longrightarrow>
       b_output_ids d = outs \<longrightarrow> b_seq_lens_sum d = b_seq_lens_sum b + b_seq_lens_sum c \<longrightarrow> rep_lens d (rs @ qs))"
  using assms by (cases "b_output_ids b"; cases "b_output_ids c") (auto simp: rep_lens_def cat_tensors_def)

lemma merge_logprobs_rep:
  assumes "rep_logprobs b rs" "rep_logprobs c qs"
  shows "\<exists>tops tids.
    join_lists 0 (b_return_logprob b) (b_return_logprob c) (length rs) (length qs) (b_top_logprobs_nums b) (b_top_logprobs_nums c) = Inr tops \<and>
    join_lists None (b_return_logprob b) (b_return_logprob c) (length rs) (length qs) (b_token_ids_logprobs b) (b_token_ids_logprobs c) = Inr tids \<and>
    (\<forall>d. b_return_logprob d = (b_return_logprob b \<or> b_return_logprob c) \<longrightarrow> b_top_logprobs_nums d = tops \<longrightarrow>
       b_token_ids_logprobs d = tids \<longrightarrow> rep_logprobs d (rs @ qs))"
  using assms join_lists_rep [of "b_return_logprob b" rs "b_return_logprob c" qs "b_top_logprobs_nums b" top_logprobs_num
        "b_top_logprobs_nums c" 0]
    join_lists_rep [of "b_return_logprob b" rs "b_return_logprob c" qs "b_token_ids_logprobs b" token_ids_logprob
        "b_token_ids_logprobs c" None]
  unfolding rep_logprobs_def by fastforce

lemma merge_batch_arrays:
  assumes "merge_batch b c = Inr d"
  shows "b_orig_seq_lens d = Some (the (b_orig_seq_lens b) @ the (b_orig_seq_lens c))"
    "b_output_ids d = map_option (\<lambda>us. us @ the (b_output_ids c)) (b_output_ids b)"
  using assms by (auto simp: merge_batch_def cat_tensors_def split: option.splits if_splits)

text \<open>C23. Joining two batches.  When both batches represent their requests, \<open>merge_batch\<close> returns a
  batch that represents the requests of the first followed by those of the second, with the original lengths
  and the output tokens of the second appended to those of the first; the output
  tensors have to be both there or both absent.\<close>

theorem merge_batch_refines:
  assumes b: "represents ed h b" and c: "represents ed h c" and outs: "b_output_ids b = None \<longleftrightarrow> b_output_ids c = None"
  shows "\<exists>d. merge_batch b c = Inr d \<and> b_reqs d = b_reqs b @ b_reqs c \<and> represents ed h d \<and>
    b_orig_seq_lens d = Some (the (b_orig_seq_lens b) @ the (b_orig_seq_lens c)) \<and>
    b_output_ids d = map_option (\<lambda>us. us @ the (b_output_ids c)) (b_output_ids b)"
proof -
  let ?rs = "map h (b_reqs b)" and ?qs = "map h (b_reqs c)"
  obtain s t where s: "b_sampling_info b = Some s" "sampling_rep ed s (map (\<lambda>x. sampling_params (h x)) (b_reqs b))"
    and t: "b_sampling_info c = Some t" "sampling_rep ed t (map (\<lambda>x. sampling_params (h x)) (b_reqs c))"
    using b c unfolding represents_def by blast
  obtain rows lens orig outs' where l:
    "cat_tensors (b_req_pool_indices b) (b_req_pool_indices c) = Inr rows" "cat_tensors (b_seq_lens b) (b_seq_lens c) = Inr lens"
    "cat_tensors (b_seq_lens_cpu b) (b_seq_lens_cpu c) = Inr lens" "cat_tensors (b_orig_seq_lens b) (b_orig_seq_lens c) = Inr orig"
    "(if b_output_ids b = None then Inr None else cat_tensors (b_output_ids b) (b_output_ids c)) = Inr outs'"
    and l': "\<forall>d. b_req_pool_indices d = rows \<longrightarrow> b_seq_lens d = lens \<longrightarrow> b_seq_lens_cpu d = lens \<longrightarrow> b_orig_seq_lens d = orig \<longrightarrow>
       b_output_ids d = outs' \<longrightarrow> b_seq_lens_sum d = b_seq_lens_sum b + b_seq_lens_sum c \<longrightarrow> rep_lens d (?rs @ ?qs)"
    using merge_lens_rep [OF _ _ outs] b c unfolding represents_def by blast
  obtain tops tids where p:
    "join_lists 0 (b_return_logprob b) (b_return_logprob c) (length (b_reqs b)) (length (b_reqs c)) (b_top_logprobs_nums b) (b_top_logprobs_nums c) = Inr tops"
    "join_lists None (b_return_logprob b) (b_return_logprob c) (length (b_reqs b)) (length (b_reqs c)) (b_token_ids_logprobs b) (b_token_ids_logprobs c) = Inr tids"
    and p': "\<forall>d. b_return_logprob d = (b_return_logprob b \<or> b_return_logprob c) \<longrightarrow> b_top_logprobs_nums d = tops \<longrightarrow>
       b_token_ids_logprobs d = tids \<longrightarrow> rep_logprobs d (?rs @ ?qs)"
    using merge_logprobs_rep [of b ?rs c ?qs] b c unfolding represents_def length_map by blast
  let ?d = "b\<lparr>b_reqs := b_reqs b @ b_reqs c, b_req_pool_indices := rows, b_seq_lens := lens, b_seq_lens_cpu := lens,
     b_orig_seq_lens := orig, b_out_cache_loc := None, b_seq_lens_sum := b_seq_lens_sum b + b_seq_lens_sum c,
     b_output_ids := outs', b_top_logprobs_nums := tops, b_token_ids_logprobs := tids,
     b_return_logprob := b_return_logprob b \<or> b_return_logprob c,
     b_has_stream := b_has_stream b \<or> b_has_stream c, b_has_grammar := b_has_grammar b \<or> b_has_grammar c,
     b_sampling_info := Some (merge_sampling s t)\<rparr>"
  have run: "merge_batch b c = Inr ?d"
    by (simp only: merge_batch_def s t prod.case option.case l p bind_result.simps)
  moreover have "represents ed h ?d"
    using b c merge_sampling_rep [OF s(2) t(2)] l' p' unfolding represents_def by simp
  ultimately show ?thesis using merge_batch_arrays [OF run] by (intro exI [of _ ?d]) simp
qed

lemma kept_indices_reqs:
  "map ((!) reqs) (kept_indices h reqs exclude) = filter (\<lambda>x. \<not> finished (h x) \<and> x \<notin> set exclude) reqs"
proof -
  have "filter P (map ((!) reqs) [0..<length reqs]) = map ((!) reqs) (filter (\<lambda>i. P (reqs ! i)) [0..<length reqs])" for P
    by (simp add: filter_map o_def)
  then show ?thesis by (simp add: kept_indices_def map_nth)
qed

lemma select_lens_rep:
  assumes b: "rep_lens b rs" and keep: "\<forall>i \<in> set keep. i < length rs"
  shows "\<exists>rows lens orig outs.
    select_tensor (b_req_pool_indices b) keep = Inr rows \<and> select_tensor (b_seq_lens b) keep = Inr (Some lens) \<and>
    select_tensor (b_seq_lens_cpu b) keep = Inr (Some lens) \<and> select_tensor (b_orig_seq_lens b) keep = Inr orig \<and>
    select_optional (b_output_ids b) keep = Inr outs \<and>
    (\<forall>d. b_req_pool_indices d = rows \<longrightarrow> b_seq_lens d = Some lens \<longrightarrow> b_seq_lens_cpu d = Some lens \<longrightarrow> b_orig_seq_lens d = orig \<longrightarrow>
       b_output_ids d = outs \<longrightarrow> b_seq_lens_sum d = sum_list lens \<longrightarrow> rep_lens d (map ((!) rs) keep))"
proof -
  define qs where "qs = map ((!) rs) keep"
  obtain os where os: "b_orig_seq_lens b = Some os" "length os = length rs" using b by (auto simp: rep_lens_def)
  have sel: "select_tensor (Some (map f rs)) keep = Inr (Some (map f qs))" for f :: "req \<Rightarrow> int"
    by (simp only: select_tensor_def option.case select_map [OF keep] bind_result.simps qs_def)
  have sel': "select_tensor (Some (map f rs)) keep = Inr (Some (map f qs))" for f :: "req \<Rightarrow> nat"
    by (simp only: select_tensor_def option.case select_map [OF keep] bind_result.simps qs_def)
  have o: "select_tensor (b_orig_seq_lens b) keep = Inr (Some (map ((!) os) keep))"
    using os keep by (simp add: select_tensor_def select_nth)
  obtain outs where outs: "select_optional (b_output_ids b) keep = Inr outs" "\<forall>us. outs = Some us \<longrightarrow> length us = length qs"
    using b keep by (cases "b_output_ids b") (auto simp: rep_lens_def select_optional_def select_nth qs_def)
  have "list_all (\<lambda>r. req_pool_idx r \<noteq> None) qs"
    using b list_all_nth_subset [OF keep] by (simp add: rep_lens_def qs_def)
  then have fin: "\<forall>d. b_req_pool_indices d = Some (map (\<lambda>r. the (req_pool_idx r)) qs) \<longrightarrow> b_seq_lens d = Some (map kv_committed_len qs) \<longrightarrow>
      b_seq_lens_cpu d = Some (map kv_committed_len qs) \<longrightarrow> b_orig_seq_lens d = Some (map ((!) os) keep) \<longrightarrow> b_output_ids d = outs \<longrightarrow>
      b_seq_lens_sum d = sum_list (map kv_committed_len qs) \<longrightarrow> rep_lens d qs"
    using outs(2) by (simp add: rep_lens_def qs_def)
  have ts: "b_req_pool_indices b = Some (map (\<lambda>r. the (req_pool_idx r)) rs)" "b_seq_lens b = Some (map kv_committed_len rs)"
    "b_seq_lens_cpu b = Some (map kv_committed_len rs)" using b by (simp_all add: rep_lens_def)
  show ?thesis
    unfolding ts sel sel' o outs(1) qs_def [symmetric] using fin by blast
qed

lemma select_list_all2:
  assumes "list_all2 P ts rs" "\<forall>i \<in> set keep. i < length rs"
  shows "list_all2 P (map ((!) ts) keep) (map ((!) rs) keep)"
  using assms by (auto simp: list_all2_conv_all_nth)

lemma select_logprobs_rep:
  assumes b: "rep_logprobs b rs" and keep: "\<forall>i \<in> set keep. i < length rs"
  defines "lp \<equiv> list_ex return_logprob (map ((!) rs) keep)"
  shows "\<exists>tops tids. (if lp then select_tensor (b_top_logprobs_nums b) keep else Inr None) = Inr tops \<and>
    (if lp then select_tensor (b_token_ids_logprobs b) keep else Inr None) = Inr tids \<and>
    (\<forall>d. b_return_logprob d = lp \<longrightarrow> b_top_logprobs_nums d = tops \<longrightarrow> b_token_ids_logprobs d = tids \<longrightarrow>
       rep_logprobs d (map ((!) rs) keep))"
proof (cases lp)
  case True
  then have "b_return_logprob b" using b list_ex_nth_subset [OF keep] unfolding lp_def rep_logprobs_def by blast
  then obtain ts us where t: "b_top_logprobs_nums b = Some ts" "list_all2 (\<lambda>t r. return_logprob r \<longrightarrow> t = top_logprobs_num r) ts rs"
    and u: "b_token_ids_logprobs b = Some us" "list_all2 (\<lambda>t r. return_logprob r \<longrightarrow> t = token_ids_logprob r) us rs"
    using b unfolding rep_logprobs_def by blast
  have l: "length ts = length rs" "length us = length rs" using t(2) u(2) by (auto dest: list_all2_lengthD)
  have "select_tensor (b_top_logprobs_nums b) keep = Inr (Some (map ((!) ts) keep))"
    "select_tensor (b_token_ids_logprobs b) keep = Inr (Some (map ((!) us) keep))"
    using t(1) u(1) l keep by (simp_all add: select_tensor_def select_nth)
  moreover have "rep_logprobs d (map ((!) rs) keep)" if "b_return_logprob d = lp" "b_top_logprobs_nums d = Some (map ((!) ts) keep)"
      "b_token_ids_logprobs d = Some (map ((!) us) keep)" for d
    using that select_list_all2 [OF t(2) keep] select_list_all2 [OF u(2) keep] unfolding rep_logprobs_def lp_def by simp
  ultimately show ?thesis using True by simp
next
  case False
  then show ?thesis unfolding rep_logprobs_def lp_def by simp
qed

lemma filter_batch_keep:
  assumes b: "represents ed h b" and keep: "\<forall>i \<in> set keep. i < length (b_reqs b)"
    and n: "0 < length keep" "length keep \<noteq> length (b_reqs b)"
    and k: "keep = (case ks of None \<Rightarrow> kept_indices h (b_reqs b) exclude | Some ks \<Rightarrow> ks)"
  shows "\<exists>d. filter_batch h exclude ks b = Inr d \<and> b_reqs d = map ((!) (b_reqs b)) keep \<and> represents ed h d"
proof -
  let ?rs = "map h (b_reqs b)" and ?reqs = "map ((!) (b_reqs b)) keep"
  have keep': "\<forall>i \<in> set keep. i < length ?rs" using keep by simp
  have mq: "map ((!) ?rs) keep = map h ?reqs" using keep by simp
  obtain rows lens orig outs where l:
    "select_tensor (b_req_pool_indices b) keep = Inr rows" "select_tensor (b_seq_lens b) keep = Inr (Some lens)"
    "select_tensor (b_seq_lens_cpu b) keep = Inr (Some lens)" "select_tensor (b_orig_seq_lens b) keep = Inr orig"
    "select_optional (b_output_ids b) keep = Inr outs"
    and l': "\<forall>d. b_req_pool_indices d = rows \<longrightarrow> b_seq_lens d = Some lens \<longrightarrow> b_seq_lens_cpu d = Some lens \<longrightarrow> b_orig_seq_lens d = orig \<longrightarrow>
       b_output_ids d = outs \<longrightarrow> b_seq_lens_sum d = sum_list lens \<longrightarrow> rep_lens d (map h ?reqs)"
    using select_lens_rep [OF _ keep', of b] b unfolding represents_def mq by blast
  let ?lp = "list_ex (\<lambda>x. return_logprob (h x)) ?reqs"
  have lp: "list_ex return_logprob (map h ?reqs) = ?lp" by (simp add: list_ex_iff)
  obtain tops tids where p: "(if ?lp then select_tensor (b_top_logprobs_nums b) keep else Inr None) = Inr tops"
    "(if ?lp then select_tensor (b_token_ids_logprobs b) keep else Inr None) = Inr tids"
    and p': "\<forall>d. b_return_logprob d = ?lp \<longrightarrow> b_top_logprobs_nums d = tops \<longrightarrow> b_token_ids_logprobs d = tids \<longrightarrow> rep_logprobs d (map h ?reqs)"
    using select_logprobs_rep [OF _ keep', of b] b unfolding represents_def mq lp by blast
  obtain si where si: "b_sampling_info b = Some si" "sampling_rep ed si (map (\<lambda>x. sampling_params (h x)) (b_reqs b))"
    using b unfolding represents_def by blast
  have keep'': "\<forall>i \<in> set keep. i < length (map (\<lambda>x. sampling_params (h x)) (b_reqs b))" using keep by simp
  obtain si' where si': "filter_sampling keep si = Inr si'" "sampling_rep ed si' (map ((!) (map (\<lambda>x. sampling_params (h x)) (b_reqs b))) keep)"
    using filter_sampling_rep [OF si(2) keep''] by blast
  have ms: "map ((!) (map (\<lambda>x. sampling_params (h x)) (b_reqs b))) keep = map (\<lambda>x. sampling_params (h x)) ?reqs"
    using keep by simp
  have r: "select (b_reqs b) keep = Inr ?reqs" by (rule select_nth [OF keep])
  let ?d = "b\<lparr>b_reqs := ?reqs, b_req_pool_indices := rows, b_seq_lens := Some lens, b_seq_lens_cpu := Some lens,
      b_orig_seq_lens := orig, b_out_cache_loc := None, b_seq_lens_sum := sum_list lens, b_output_ids := outs,
      b_return_logprob := ?lp, b_top_logprobs_nums := tops, b_token_ids_logprobs := tids,
      b_has_stream := list_ex (\<lambda>x. stream (h x)) ?reqs, b_has_grammar := list_ex (\<lambda>x. grammar (h x) \<noteq> None) ?reqs,
      b_sampling_info := Some si'\<rparr>"
  have n': "(length keep = 0) = False" "(length keep = length (b_reqs b)) = False" using n by simp_all
  have "filter_batch h exclude ks b = Inr ?d"
    unfolding filter_batch_def Let_def k [symmetric]
    by (simp only: n' if_False r l p si si' bind_result.simps option.case)
  moreover have "represents ed h ?d"
    using l' p' si'(2) unfolding represents_def ms by simp
  ultimately show ?thesis by fastforce
qed

lemma filter_batch_kept:
  assumes b: "represents ed h b"
  shows "\<exists>d. filter_batch h exclude None b = Inr d \<and>
    b_reqs d = filter (\<lambda>x. \<not> finished (h x) \<and> x \<notin> set exclude) (b_reqs b) \<and> (b_reqs d \<noteq> [] \<longrightarrow> represents ed h d)"
proof -
  let ?keep = "kept_indices h (b_reqs b) exclude" and ?P = "\<lambda>x. \<not> finished (h x) \<and> x \<notin> set exclude"
  note kr = kept_indices_reqs [of "b_reqs b" h exclude]
  have len: "length ?keep = length (filter ?P (b_reqs b))" using arg_cong [OF kr, of length] by simp
  consider "length ?keep = 0" | "length ?keep = length (b_reqs b)" "length ?keep \<noteq> 0" | "0 < length ?keep" "length ?keep \<noteq> length (b_reqs b)" by blast
  then show ?thesis
  proof cases
    case 1
    then have "filter ?P (b_reqs b) = []" using len by simp
    then show ?thesis using 1 by (simp add: filter_batch_def)
  next
    case 2
    then have "filter ?P (b_reqs b) = b_reqs b" using len by (metis filter_True filter_id_conv length_filter_less less_irrefl)
    moreover have "filter_batch h exclude None b = Inr b"
      unfolding filter_batch_def Let_def option.case using 2 by (simp only: if_False if_True refl simp_thms)
    ultimately show ?thesis using b by simp
  next
    case 3
    have "\<forall>i \<in> set ?keep. i < length (b_reqs b)" by (simp add: kept_indices_def)
    from filter_batch_keep [OF b this 3, where ks = None and exclude = exclude] show ?thesis by (auto simp: kr)
  qed
qed

text \<open>The entries of the remaining requests stay with them.\<close>

lemma zip_kept:
  assumes "length us = length reqs"
  shows "zip (filter (\<lambda>x. \<not> finished (h x) \<and> x \<notin> set exclude) reqs) (map ((!) us) (kept_indices h reqs exclude)) =
    filter (\<lambda>(x, u). \<not> finished (h x) \<and> x \<notin> set exclude) (zip reqs us)"
proof -
  let ?P = "\<lambda>x. \<not> finished (h x) \<and> x \<notin> set exclude"
  have "zip reqs us = map (\<lambda>i. (reqs ! i, us ! i)) [0..<length reqs]"
    using assms by (intro nth_equalityI) simp_all
  then have "filter (\<lambda>(x, u). ?P x) (zip reqs us) = map (\<lambda>i. (reqs ! i, us ! i)) (kept_indices h reqs exclude)"
    by (simp add: kept_indices_def filter_map o_def)
  then show ?thesis unfolding kept_indices_reqs [symmetric] by (simp add: zip_map_map zip_same_conv_map)
qed

lemma filter_batch_arrays:
  assumes run: "filter_batch h exclude None b = Inr d" and b: "represents ed h b" and ne: "b_reqs d \<noteq> []"
  defines "P \<equiv> \<lambda>(x, u). \<not> finished (h x) \<and> x \<notin> set exclude"
  shows "zip (b_reqs d) (the (b_orig_seq_lens d)) = filter P (zip (b_reqs b) (the (b_orig_seq_lens b)))"
    "\<forall>us. b_output_ids b = Some us \<longrightarrow> (\<exists>vs. b_output_ids d = Some vs \<and> zip (b_reqs d) vs = filter P (zip (b_reqs b) us))"
proof -
  let ?keep = "kept_indices h (b_reqs b) exclude"
  have lens: "\<exists>os. b_orig_seq_lens b = Some os \<and> length os = length (b_reqs b)"
    "\<forall>us. b_output_ids b = Some us \<longrightarrow> length us = length (b_reqs b)"
    using b by (auto simp: represents_def rep_lens_def)
  have k: "\<forall>i \<in> set ?keep. i < length (b_reqs b)" by (simp add: kept_indices_def)
  have "zip (b_reqs d) (the (b_orig_seq_lens d)) = filter P (zip (b_reqs b) (the (b_orig_seq_lens b))) \<and>
    (\<forall>us. b_output_ids b = Some us \<longrightarrow> (\<exists>vs. b_output_ids d = Some vs \<and> zip (b_reqs d) vs = filter P (zip (b_reqs b) us)))"
  proof (cases "length ?keep = length (b_reqs b)")
    case True
    then have "length (filter (\<lambda>x. \<not> finished (h x) \<and> x \<notin> set exclude) (b_reqs b)) = length (b_reqs b)"
      using arg_cong [OF kept_indices_reqs, of length "b_reqs b" h exclude] by simp
    then have "\<forall>x \<in> set (b_reqs b). \<not> finished (h x) \<and> x \<notin> set exclude"
      by (metis (mono_tags, lifting) length_filter_less less_irrefl)
    then have "filter P (zip (b_reqs b) us) = zip (b_reqs b) us" for us :: "int list"
      by (auto simp: filter_id_conv P_def dest: set_zip_leftD)
    moreover have "d = b" using run True ne by (auto simp: filter_batch_def Let_def split: if_splits)
    ultimately show ?thesis unfolding P_def by (auto simp: P_def)
  next
    case False
    have nz: "length ?keep \<noteq> 0" using run ne by (auto simp: filter_batch_def Let_def)
    have sel: "select (b_reqs b) ?keep = Inr (b_reqs d)" "select_tensor (b_orig_seq_lens b) ?keep = Inr (b_orig_seq_lens d)"
      "select_optional (b_output_ids b) ?keep = Inr (b_output_ids d)"
      using run False nz by (auto simp: filter_batch_def Let_def)
    have r: "b_reqs d = filter (\<lambda>x. \<not> finished (h x) \<and> x \<notin> set exclude) (b_reqs b)"
      using sel(1) select_nth [OF k] kept_indices_reqs [of "b_reqs b" h exclude] by simp
    obtain os where os: "b_orig_seq_lens b = Some os" "length os = length (b_reqs b)" using lens(1) by blast
    then have "b_orig_seq_lens d = Some (map ((!) os) ?keep)" using sel(2) k by (simp add: select_tensor_def select_nth)
    moreover have "b_output_ids d = Some (map ((!) us) ?keep)" if "b_output_ids b = Some us" for us
      using sel(3) that lens(2) k by (simp add: select_optional_def select_nth)
    ultimately show ?thesis using os lens(2) unfolding r P_def by (simp add: zip_kept)
  qed
  then show "zip (b_reqs d) (the (b_orig_seq_lens d)) = filter P (zip (b_reqs b) (the (b_orig_seq_lens b)))"
    "\<forall>us. b_output_ids b = Some us \<longrightarrow> (\<exists>vs. b_output_ids d = Some vs \<and> zip (b_reqs d) vs = filter P (zip (b_reqs b) us))" by blast+
qed

text \<open>C24. Dropping requests.  On a batch that represents its requests \<open>filter_batch\<close> never raises:
  it keeps, in order, the requests that are neither finished nor excluded, and unless none is left
  the result represents them, and every remaining request keeps its original length and its output token.\<close>

theorem filter_batch_refines:
  assumes b: "represents ed h b"
  shows "\<exists>d. filter_batch h exclude None b = Inr d \<and>
    b_reqs d = filter (\<lambda>x. \<not> finished (h x) \<and> x \<notin> set exclude) (b_reqs b) \<and>
    (b_reqs d \<noteq> [] \<longrightarrow> represents ed h d \<and>
       zip (b_reqs d) (the (b_orig_seq_lens d)) =
         filter (\<lambda>(x, u). \<not> finished (h x) \<and> x \<notin> set exclude) (zip (b_reqs b) (the (b_orig_seq_lens b))) \<and>
       (\<forall>us. b_output_ids b = Some us \<longrightarrow> (\<exists>vs. b_output_ids d = Some vs \<and>
          zip (b_reqs d) vs = filter (\<lambda>(x, u). \<not> finished (h x) \<and> x \<notin> set exclude) (zip (b_reqs b) us))))"
  using filter_batch_kept [OF b, of exclude] filter_batch_arrays [OF _ b, of exclude] by blast

section \<open>A concrete batch\<close>

definition example_batch :: "ref list \<Rightarrow> store \<Rightarrow> schedule_batch" where
  "example_batch refs h =
     (init_new h refs False None)\<lparr>b_req_pool_indices := Some (map (\<lambda>x. the (req_pool_idx (h x))) refs),
        b_seq_lens := Some (map (\<lambda>x. kv_committed_len (h x)) refs), b_seq_lens_cpu := Some (map (\<lambda>x. kv_committed_len (h x)) refs),
        b_orig_seq_lens := Some (map (\<lambda>x. kv_committed_len (h x)) refs),
        b_seq_lens_sum := sum_list (map (\<lambda>x. kv_committed_len (h x)) refs),
        b_top_logprobs_nums := Some (map (\<lambda>x. top_logprobs_num (h x)) refs),
        b_token_ids_logprobs := Some (map (\<lambda>x. token_ids_logprob (h x)) refs),
        b_sampling_info := Some (from_schedule_batch False (map h refs))\<rparr>"

lemma example_batch_represents:
  assumes "list_all (\<lambda>x. req_pool_idx (h x) \<noteq> None) refs"
  shows "represents False h (example_batch refs h)"
proof -
  have e: "b_reqs (example_batch refs h) = refs" by (simp add: example_batch_def init_new_def new_batch_def)
  have ex: "list_ex return_logprob (map h refs) = list_ex (\<lambda>x. return_logprob (h x)) refs" by (simp add: list_ex_iff)
  have all: "list_all (\<lambda>r. req_pool_idx r \<noteq> None) (map h refs)" using assms by (simp add: list_all_iff)
  have "rep_lens (example_batch refs h) (map h refs)"
    using all by (simp add: rep_lens_def example_batch_def init_new_def new_batch_def o_def)
  moreover have "rep_logprobs (example_batch refs h) (map h refs)"
    unfolding rep_logprobs_def ex
    by (simp add: example_batch_def init_new_def new_batch_def list_all2_conv_all_nth)
  moreover have "sampling_rep False (from_schedule_batch False (map h refs)) (map (\<lambda>x. sampling_params (h x)) refs)"
    using from_schedule_batch_rep [of False "map h refs"] by (simp add: o_def)
  ultimately show ?thesis
    unfolding represents_def e by (simp add: example_batch_def init_new_def new_batch_def)
qed

definition two_reqs :: store where
  "two_reqs = (\<lambda>x. example_req\<lparr>req_pool_idx := Some x, kv_committed_len := 4,
     finished_reason := (if x = 1 then Some (FINISH_LENGTH 3) else None)\<rparr>)"

theorem merge_batch_refines_witness:
  "\<exists>d. merge_batch (example_batch [0] two_reqs) (example_batch [1, 2] two_reqs) = Inr d \<and>
     b_reqs d = [0, 1, 2] \<and> represents False two_reqs d \<and> b_orig_seq_lens d = Some [4, 4, 4]"
proof -
  have "represents False two_reqs (example_batch [0] two_reqs)" "represents False two_reqs (example_batch [1, 2] two_reqs)"
    by (rule example_batch_represents, simp add: two_reqs_def)+
  from merge_batch_refines [OF this] show ?thesis by (fastforce simp: example_batch_def init_new_def new_batch_def two_reqs_def)
qed

theorem filter_batch_refines_witness:
  "represents False two_reqs (example_batch [0, 1, 2] two_reqs) \<and>
   filter (\<lambda>x. \<not> finished (two_reqs x) \<and> x \<notin> set [2]) (b_reqs (example_batch [0, 1, 2] two_reqs)) = [0] \<and>
   (\<exists>d. filter_batch two_reqs [2] None (example_batch [0, 1, 2] two_reqs) = Inr d \<and> b_reqs d = [0] \<and> represents False two_reqs d)"
proof -
  have r: "represents False two_reqs (example_batch [0, 1, 2] two_reqs)"
    by (rule example_batch_represents) (simp add: two_reqs_def)
  have f: "filter (\<lambda>x. \<not> finished (two_reqs x) \<and> x \<notin> set [2]) (b_reqs (example_batch [0, 1, 2] two_reqs)) = [0]"
    by (simp add: two_reqs_def example_batch_def init_new_def new_batch_def finished_def example_req_def init_req_def)
  show ?thesis using r f filter_batch_refines [OF r, of "[2]"] by fastforce
qed

end
