(* ===== verification/KV_Ownership.thy ===== *)
theory KV_Ownership
  imports Batch_Refinement
begin

text \<open>
  Who owns which KV slot.  With an allocator of single slots, every slot is at any time either
  free, waiting in an open free group, or in the table row of exactly one live request, and every
  row of the table is either free or belongs to exactly one live request.  The operations that
  move slots (preparing a prefill or decode batch, releasing and retracting a request, handing
  back the slots of rolled-back tokens) keep this balance, so no slot leaks and none is lent or
  returned twice.
\<close>

section \<open>The invariant\<close>

definition row_of :: "mem \<Rightarrow> ref \<Rightarrow> nat" where
  "row_of M x = the (req_pool_idx (m_store M x))"

definition owned :: "mem \<Rightarrow> ref \<Rightarrow> slot list" where
  "owned M x = rt_slice (m_pool M) (row_of M x) 0 (nat (kv_allocated_len (m_store M x)))"

text \<open>\<open>T\<close> holds the slots and \<open>R\<close> the rows that are balanced; what other owners hold (the dummy requests of
  the verification pool) is in neither.\<close>

definition slots_balanced :: "slot multiset \<Rightarrow> ref list \<Rightarrow> mem \<Rightarrow> bool" where
  "slots_balanced T live M \<longleftrightarrow>
     allocator_ok (m_alloc M) \<and> page_size (m_alloc M) = 1 \<and>
     (\<forall>s. count T s \<le> 1) \<and> (\<forall>s \<in># T. 1 \<le> s \<and> s \<le> int (num_pages (m_alloc M))) \<and>
     avail_slots (m_alloc M) + pending_slots (m_alloc M) + mset (concat (map (owned M) live)) = T"

definition rows_balanced :: "nat multiset \<Rightarrow> ref list \<Rightarrow> mem \<Rightarrow> bool" where
  "rows_balanced R live M \<longleftrightarrow>
     (\<forall>i. count R i \<le> 1) \<and> (\<forall>i \<in># R. i < rt_size (m_pool M)) \<and>
     mset (free_slots (m_pool M)) + mset (map (row_of M) live) = R"

definition lens_ok :: "mem \<Rightarrow> ref \<Rightarrow> bool" where
  "lens_ok M x \<longleftrightarrow>
     req_pool_idx (m_store M x) \<noteq> None \<and> 0 \<le> kv_allocated_len (m_store M x) \<and>
     kv_allocated_len (m_store M x) \<le> int (max_context_len (m_pool M)) \<and>
     kv_committed_len (m_store M x) = kv_allocated_len (m_store M x) \<and>
     \<not> kv_committed_freed (m_store M x) \<and> \<not> kv_overallocated_freed (m_store M x)"

definition kv_inv :: "slot multiset \<Rightarrow> nat multiset \<Rightarrow> ref list \<Rightarrow> mem \<Rightarrow> bool" where
  "kv_inv T R live M \<longleftrightarrow>
     distinct live \<and> slots_balanced T live M \<and> rows_balanced R live M \<and> (\<forall>x \<in> set live. lens_ok M x)"

section \<open>Consequences\<close>

lemma mset_concat_remove1:
  "x \<in> set xs \<Longrightarrow> mset (concat (map f xs)) = mset (f x) + mset (concat (map f (remove1 x xs)))"
  by (induction xs) auto

lemma count_le_1_distinct: "\<forall>s. count (mset xs) s \<le> 1 \<Longrightarrow> distinct xs"
  by (metis count_mset_0_iff distinct_count_atmost_1 le_antisym less_one linorder_not_le)

lemma count_le_1_mono: "\<forall>s. count (A + B) s \<le> (1 :: nat) \<Longrightarrow> \<forall>s. count B s \<le> 1"
  by (metis count_union le_add2 le_trans)

lemma rows_distinct:
  assumes "rows_balanced R live M"
  shows "distinct (map (row_of M) live)" "\<forall>x \<in> set live. row_of M x < rt_size (m_pool M)"
proof -
  have "\<forall>i. count (mset (free_slots (m_pool M)) + mset (map (row_of M) live)) i \<le> 1"
    using assms unfolding rows_balanced_def by simp
  then show "distinct (map (row_of M) live)" by (intro count_le_1_distinct count_le_1_mono)
  have "set (map (row_of M) live) \<subseteq> set_mset R" using assms unfolding rows_balanced_def by auto
  then show "\<forall>x \<in> set live. row_of M x < rt_size (m_pool M)" using assms unfolding rows_balanced_def by auto
qed

lemma whole_units_1:
  assumes "page_size a = 1" "distinct xs" "\<forall>x \<in> set xs. 1 \<le> x \<and> x \<le> int (num_pages a)"
  shows "whole_units a xs"
  using assms by (simp add: whole_units_def pages_of_def mset_torch_unique)

lemma balanced_slots:
  assumes b: "slots_balanced T live M" and s: "mset xs \<subseteq># mset (concat (map (owned M) live))"
  shows "distinct xs" "whole_units (m_alloc M) xs" "set xs \<inter> set_mset (avail_slots (m_alloc M) + pending_slots (m_alloc M)) = {}"
    "\<forall>x \<in> set xs. x \<noteq> 0"
proof -
  let ?O = "mset (concat (map (owned M) live))" and ?A = "avail_slots (m_alloc M) + pending_slots (m_alloc M)"
  have T: "?A + ?O = T" "\<forall>s. count T s \<le> 1" "\<forall>s \<in># T. 1 \<le> s \<and> s \<le> int (num_pages (m_alloc M))" "page_size (m_alloc M) = 1"
    using b by (simp_all add: slots_balanced_def)
  have "\<forall>s. count ?O s \<le> 1" by (rule count_le_1_mono [of ?A]) (use T(1,2) in simp)
  then have "\<forall>s. count (mset xs) s \<le> 1" using s by (meson le_trans mset_subset_eq_count)
  then show d: "distinct xs" by (rule count_le_1_distinct)
  have sub: "set xs \<subseteq> set_mset ?O" using s by (metis set_mset_mono set_mset_mset)
  then have inT: "set xs \<subseteq> set_mset T" using T(1) by (metis le_sup_iff order_trans set_mset_union sup_ge2)
  then show "whole_units (m_alloc M) xs" using T d by (intro whole_units_1) auto
  show "\<forall>x \<in> set xs. x \<noteq> 0" using inT T(3) by fastforce
  show "set xs \<inter> set_mset ?A = {}"
  proof (rule ccontr)
    assume "set xs \<inter> set_mset ?A \<noteq> {}"
    then obtain s where "s \<in># ?A" "s \<in># ?O" using sub by blast
    then have "1 \<le> count ?A s" "1 \<le> count ?O s" by (simp_all only: count_greater_eq_one_iff)
    then have "2 \<le> count (?A + ?O) s" unfolding count_union [of ?A ?O] by linarith
    then show False using T(1,2) by (metis Suc_n_not_le_n numeral_2_eq_2 One_nat_def order_trans)
  qed
qed

lemma avail_empty_free_nil: "allocator_ok a \<Longrightarrow> free a [] = Inr a' \<Longrightarrow> avail_slots a' + pending_slots a' = avail_slots a + pending_slots a"
  using kv.free_whole [of a "[]"] by auto

text \<open>A step that moves slots and rows between the free lists and the live requests.\<close>

lemma slots_balanced_move:
  assumes "slots_balanced T live M" "allocator_ok (m_alloc N)" "page_size (m_alloc N) = 1" "num_pages (m_alloc N) = num_pages (m_alloc M)"
    and "avail_slots (m_alloc N) + pending_slots (m_alloc N) + G = avail_slots (m_alloc M) + pending_slots (m_alloc M) + F"
    and "mset (concat (map (owned N) live')) + F = mset (concat (map (owned M) live)) + G"
  shows "slots_balanced T live' N"
proof -
  have move: "A' + B' = A + B" if "A' + G = A + F" "B' + F = B + G" for A A' B B' :: "slot multiset"
  proof -
    have "(A' + G) + (B' + F) = (A + F) + (B + G)" using that by simp
    then have "(A' + B') + (F + G) = (A + B) + (F + G)" by (simp add: ac_simps)
    then show ?thesis by (simp only: add_right_cancel)
  qed
  have "avail_slots (m_alloc N) + pending_slots (m_alloc N) + mset (concat (map (owned N) live')) =
      avail_slots (m_alloc M) + pending_slots (m_alloc M) + mset (concat (map (owned M) live))"
    by (rule move [OF assms(5,6)])
  then show ?thesis using assms(1-4) unfolding slots_balanced_def by simp
qed

section \<open>Releasing a request\<close>

lemma rt_slice_full:
  "nat n \<le> max_context_len p \<Longrightarrow> 0 \<le> n \<Longrightarrow> rt_slice p i 0 (py_bound (max_context_len p) n) = rt_slice p i 0 (nat n)"
  by (simp add: rt_slice_def py_bound_def min_def)

lemma free_balanced:
  assumes b: "slots_balanced T live M" and s: "mset xs \<subseteq># mset (concat (map (owned M) live))"
  shows "\<exists>a'. free (m_alloc M) xs = Inr a' \<and> allocator_ok a' \<and> page_size a' = 1 \<and> num_pages a' = num_pages (m_alloc M) \<and>
    avail_slots a' + pending_slots a' = avail_slots (m_alloc M) + pending_slots (m_alloc M) + mset xs"
proof -
  note bs = balanced_slots [OF b s]
  have ok: "allocator_ok (m_alloc M)" "page_size (m_alloc M) = 1" using b by (simp_all add: slots_balanced_def)
  obtain a' where a': "free (m_alloc M) xs = Inr a'" "allocator_ok a'" "page_size a' = page_size (m_alloc M)"
    "avail_slots a' + pending_slots a' = avail_slots (m_alloc M) + pending_slots (m_alloc M) + mset xs"
    using kv.free_whole [OF ok(1) bs(2,3)] by blast
  then show ?thesis using ok(2) free_frame [OF a'(1)] by (simp add: num_pages_def)
qed

lemma owned_cong:
  "m_pool N = m_pool M \<Longrightarrow> m_store N x = m_store M x \<Longrightarrow> owned N x = owned M x"
  "m_store N x = m_store M x \<Longrightarrow> row_of N x = row_of M x"
  by (simp_all add: owned_def row_of_def)

lemma release_keeps:
  assumes inv: "kv_inv T R live M" and x: "x \<in> set live"
  shows "\<exists>p' a' r'. release_kv_cache False (m_pool M) (m_alloc M) (m_store M x) = Inr (p', a', r') \<and> req_pool_idx r' = None \<and>
    (\<forall>r. kv_inv T R (remove1 x live) \<lparr>m_store = (m_store M)(x := r), m_pool = p', m_alloc = a'\<rparr>)"
proof -
  let ?r = "m_store M x" and ?n = "kv_allocated_len (m_store M x)"
  have l: "lens_ok M x" using inv x by (simp add: kv_inv_def)
  then obtain i where i: "req_pool_idx ?r = Some i" by (auto simp: lens_ok_def)
  have b: "slots_balanced T live M" and d: "distinct live" using inv by (simp_all add: kv_inv_def)
  have ps: "page_size (m_alloc M) = 1" using b by (simp add: slots_balanced_def)
  have rx: "row_of M x = i" using i by (simp add: row_of_def)
  have o: "rt_slice (m_pool M) i 0 (py_bound (max_context_len (m_pool M)) ?n) = owned M x"
    using l i rt_slice_full [of ?n "m_pool M" i] by (simp add: lens_ok_def owned_def row_of_def nat_le_iff)
  have split: "mset (concat (map (owned M) live)) = mset (owned M x) + mset (concat (map (owned M) (remove1 x live)))"
    by (rule mset_concat_remove1 [OF x])
  then have sub: "mset (owned M x) \<subseteq># mset (concat (map (owned M) live))" by simp
  obtain a' where a': "free (m_alloc M) (owned M x) = Inr a'" "allocator_ok a'" "page_size a' = 1" "num_pages a' = num_pages (m_alloc M)"
    "avail_slots a' + pending_slots a' = avail_slots (m_alloc M) + pending_slots (m_alloc M) + mset (owned M x)"
    using free_balanced [OF b sub] by blast
  have nz: "list_all (\<lambda>s. s \<noteq> 0) (owned M x)" using balanced_slots(4) [OF b sub] by (simp add: list_all_iff)
  define p' where "p' = (m_pool M)\<lparr>free_slots := free_slots (m_pool M) @ [i]\<rparr>"
  have rel: "\<exists>r'. release_kv_cache False (m_pool M) (m_alloc M) ?r = Inr (p', a', r') \<and> req_pool_idx r' = None"
    using l i o a'(1) nz ps
    by (simp add: release_kv_cache_def chunk_cache_finished_req_def pop_committed_kv_cache_def pop_overallocated_kv_cache_def
        lens_ok_def rt_free_def p'_def Let_def)
  have "kv_inv T R (remove1 x live) \<lparr>m_store = (m_store M)(x := r), m_pool = p', m_alloc = a'\<rparr>" for r
  proof -
    define N where "N = \<lparr>m_store = (m_store M)(x := r), m_pool = p', m_alloc = a'\<rparr>"
    have same: "owned N y = owned M y" "row_of N y = row_of M y" "lens_ok N y = lens_ok M y" if "y \<in> set (remove1 x live)" for y
      using that d by (auto simp: N_def owned_def row_of_def p'_def rt_slice_def lens_ok_def)
    have own: "concat (map (owned N) (remove1 x live)) = concat (map (owned M) (remove1 x live))"
      by (intro arg_cong [of _ _ concat] map_cong) (simp_all only: same)
    have rows: "map (row_of N) (remove1 x live) = map (row_of M) (remove1 x live)" by (intro map_cong) (simp_all only: same)
    have "slots_balanced T (remove1 x live) N"
      by (rule slots_balanced_move [OF b, of N "{#}" "mset (owned M x)"]) (use a' own split in \<open>simp_all add: N_def\<close>)
    moreover have "rows_balanced R (remove1 x live) N"
    proof -
      have "mset (map (row_of M) live) = {#i#} + mset (map (row_of M) (remove1 x live))"
        using mset_concat_remove1 [OF x, of "\<lambda>y. [row_of M y]"] rx by simp
      then show ?thesis using inv unfolding kv_inv_def rows_balanced_def rows by (simp add: N_def p'_def)
    qed
    moreover have "\<forall>y \<in> set (remove1 x live). lens_ok N y" using same(3) inv d by (auto simp: kv_inv_def)
    ultimately show ?thesis using d unfolding N_def by (simp add: kv_inv_def)
  qed
  with rel show ?thesis by blast
qed

section \<open>Handing back the last slots of a request\<close>

lemma rt_slice_split:
  "a \<le> b \<Longrightarrow> b \<le> c \<Longrightarrow> c \<le> max_context_len p \<Longrightarrow> rt_slice p i a c = rt_slice p i a b @ rt_slice p i b c"
proof -
  assume "a \<le> b" "b \<le> c" "c \<le> max_context_len p"
  moreover from this have "[a..<c] = [a..<b] @ [b..<c]" by (metis le_Suc_ex upt_add_eq_append)
  ultimately show ?thesis by (simp add: rt_slice_def)
qed

lemma truncate_keeps:
  assumes inv: "kv_inv T R live M" and x: "x \<in> set live" and n: "0 \<le> n" "n \<le> kv_allocated_len (m_store M x)"
    and r: "kv_allocated_len r = kv_allocated_len (m_store M x) - n" "kv_committed_len r = kv_committed_len (m_store M x) - n"
      "req_pool_idx r = req_pool_idx (m_store M x)" "\<not> kv_committed_freed r" "\<not> kv_overallocated_freed r"
  defines "gone \<equiv> rt_slice (m_pool M) (row_of M x) (nat (kv_allocated_len (m_store M x) - n)) (nat (kv_allocated_len (m_store M x)))"
  shows "list_all (\<lambda>s. s \<noteq> 0) gone" "length gone = nat n"
    "\<exists>a'. free (m_alloc M) gone = Inr a' \<and> kv_inv T R live (M\<lparr>m_store := (m_store M)(x := r), m_alloc := a'\<rparr>)"
    "n = 0 \<longrightarrow> kv_inv T R live (M\<lparr>m_store := (m_store M)(x := r)\<rparr>)"
proof -
  let ?k = "kv_allocated_len (m_store M x)"
  have l: "lens_ok M x" and b: "slots_balanced T live M" and d: "distinct live" using inv x by (simp_all add: kv_inv_def)
  have kl: "nat ?k \<le> max_context_len (m_pool M)" "0 \<le> ?k" using l by (simp_all add: lens_ok_def nat_le_iff)
  define rest where "rest = rt_slice (m_pool M) (row_of M x) 0 (nat (?k - n))"
  have o: "owned M x = rest @ gone"
    unfolding owned_def gone_def rest_def by (rule rt_slice_split) (use n kl in simp_all)
  have len: "length gone = nat ?k - nat (?k - n)" using kl by (simp add: gone_def rt_slice_def)
  then show "length gone = nat n" using n by (simp add: nat_diff_distrib)
  have split: "mset (concat (map (owned M) live)) = mset (owned M x) + mset (concat (map (owned M) (remove1 x live)))"
    by (rule mset_concat_remove1 [OF x])
  then have sub: "mset gone \<subseteq># mset (concat (map (owned M) live))" using o by simp
  show nz: "list_all (\<lambda>s. s \<noteq> 0) gone" using balanced_slots(4) [OF b sub] by (simp add: list_all_iff)
  have after: "kv_inv T R live (M\<lparr>m_store := (m_store M)(x := r), m_alloc := a'\<rparr>)"
    if a': "allocator_ok a'" "page_size a' = 1" "num_pages a' = num_pages (m_alloc M)"
      "avail_slots a' + pending_slots a' = avail_slots (m_alloc M) + pending_slots (m_alloc M) + mset gone" for a'
  proof -
    define N where "N = M\<lparr>m_store := (m_store M)(x := r), m_alloc := a'\<rparr>"
    have row: "row_of N y = row_of M y" for y using r(3) by (simp add: N_def row_of_def)
    have same: "owned N y = owned M y" if "y \<noteq> x" for y using that by (simp add: N_def owned_def row_of_def)
    have ox: "owned N x = rest" using r row by (simp add: N_def owned_def rest_def)
    have "mset (concat (map (owned N) live)) = mset (owned N x) + mset (concat (map (owned N) (remove1 x live)))"
      by (rule mset_concat_remove1 [OF x])
    also have "concat (map (owned N) (remove1 x live)) = concat (map (owned M) (remove1 x live))"
      using d by (intro arg_cong [of _ _ concat] map_cong) (auto simp: same)
    finally have eq: "mset (concat (map (owned N) live)) + mset gone = mset (concat (map (owned M) live))"
      using split o ox by simp
    have f: "m_alloc N = a'" "m_pool N = m_pool M" by (simp_all add: N_def)
    have "slots_balanced T live N"
      by (rule slots_balanced_move [OF b, of N "{#}" "mset gone"]) (use a' eq in \<open>simp_all add: f\<close>)
    moreover have "rows_balanced R live N" using inv row unfolding kv_inv_def rows_balanced_def f by (simp cong: map_cong)
    moreover have "\<forall>y \<in> set live. lens_ok N y"
      using inv r l n unfolding kv_inv_def lens_ok_def N_def by auto
    ultimately show ?thesis using d unfolding N_def by (simp add: kv_inv_def)
  qed
  show "\<exists>a'. free (m_alloc M) gone = Inr a' \<and> kv_inv T R live (M\<lparr>m_store := (m_store M)(x := r), m_alloc := a'\<rparr>)"
    using free_balanced [OF b sub] after by blast
  show "n = 0 \<longrightarrow> kv_inv T R live (M\<lparr>m_store := (m_store M)(x := r)\<rparr>)"
    using after [of "m_alloc M"] b \<open>length gone = nat n\<close> by (auto simp: slots_balanced_def)
qed

section \<open>A decode batch\<close>

lemma rt_scatter_spec:
  assumes "length cols = length rows" "length vs = length rows" "distinct rows"
    and "\<forall>i < length rows. rows ! i < rt_size p \<and> 0 \<le> cols ! i \<and> cols ! i < int (max_context_len p)"
  shows "\<exists>p'. rt_scatter rows cols vs p = Inr p' \<and> rt_size p' = rt_size p \<and> max_context_len p' = max_context_len p \<and>
    free_slots p' = free_slots p \<and>
    (\<forall>row j. row \<notin> set rows \<longrightarrow> req_to_token p' row j = req_to_token p row j) \<and>
    (\<forall>i < length rows. \<forall>j. req_to_token p' (rows ! i) j = (if int j = cols ! i then vs ! i else req_to_token p (rows ! i) j))"
  using assms
proof (induction rows cols vs p rule: rt_scatter.induct)
  case (1 row rows c cols v vs p)
  have c: "row < rt_size p" "0 \<le> c" "c < int (max_context_len p)" using "1.prems"(4) by auto
  let ?p1 = "rt_write p row (nat c) [v]"
  have cell: "rt_cell p (Some row) c = Inr (req_to_token p row (nat c))" using c by (simp add: rt_cell_def)
  have "\<forall>i < length rows. rows ! i < rt_size ?p1 \<and> 0 \<le> cols ! i \<and> cols ! i < int (max_context_len ?p1)"
    using "1.prems"(4) by (auto simp: rt_write_def)
  then obtain p' where p': "rt_scatter rows cols vs ?p1 = Inr p'" "rt_size p' = rt_size ?p1" "max_context_len p' = max_context_len ?p1"
    "free_slots p' = free_slots ?p1" "\<forall>r j. r \<notin> set rows \<longrightarrow> req_to_token p' r j = req_to_token ?p1 r j"
    "\<forall>i < length rows. \<forall>j. req_to_token p' (rows ! i) j = (if int j = cols ! i then vs ! i else req_to_token ?p1 (rows ! i) j)"
    using "1.IH" "1.prems"(1-3) c cell by auto
  have run: "rt_scatter (row # rows) (c # cols) (v # vs) p = Inr p'" using p'(1) cell c by simp
  have rn: "row \<notin> set rows" using "1.prems"(3) by simp
  have w: "req_to_token ?p1 r j = (if r = row \<and> int j = c then v else req_to_token p r j)" for r j
    using c by (auto simp: rt_write_def)
  have "\<forall>i < length (row # rows). \<forall>j. req_to_token p' ((row # rows) ! i) j =
      (if int j = (c # cols) ! i then (v # vs) ! i else req_to_token p ((row # rows) ! i) j)"
  proof (intro allI impI)
    fix i j assume i: "i < length (row # rows)"
    show "req_to_token p' ((row # rows) ! i) j = (if int j = (c # cols) ! i then (v # vs) ! i else req_to_token p ((row # rows) ! i) j)"
    proof (cases i)
      case 0
      then show ?thesis using p'(5) rn w by simp
    next
      case (Suc k)
      then have k: "k < length rows" using i by simp
      then have "rows ! k \<noteq> row" using rn by (metis nth_mem)
      then show ?thesis using Suc p'(6) k w by simp
    qed
  qed
  moreover have "\<forall>r j. r \<notin> set (row # rows) \<longrightarrow> req_to_token p' r j = req_to_token p r j" using p'(5) w by simp
  ultimately show ?case using run p'(2-4) by (simp add: rt_write_def)
qed simp_all

lemma fold_upd:
  "distinct xs \<Longrightarrow> fold (\<lambda>x h. h(x := f (h x))) xs h = (\<lambda>y. if y \<in> set xs then f (h y) else h y)"
  by (induction xs arbitrary: h) (auto simp: fun_eq_iff)

lemma alloc_frame: "alloc a n = Inr (r, a') \<Longrightarrow> page_size a' = page_size a \<and> num_pages a' = num_pages a"
  by (auto simp: alloc_def token_alloc_def paged_alloc_def merge_and_sort_free_def num_pages_def Let_def split: if_splits)

lemma alloc_token_slots_ok:
  assumes "allocator_ok a" "page_size a = 1" "n \<le> available_size a"
  shows "\<exists>xs a'. alloc_token_slots a n = Inr (xs, a') \<and> length xs = n \<and> allocator_ok a' \<and> page_size a' = 1 \<and>
    num_pages a' = num_pages a \<and> avail_slots a' + pending_slots a' + mset xs = avail_slots a + pending_slots a"
proof -
  obtain xs a' where x: "alloc a n = Inr (Some xs, a')" "length xs = n" "avail_slots a = mset xs + avail_slots a'"
    "pending_slots a' = pending_slots a" "allocator_ok a'"
    using kv.alloc_Some [OF assms(1), of n] assms(2,3) by (auto simp: size_avail)
  have run: "alloc_token_slots a n = Inr (xs, a')" using x(1) by (simp add: alloc_token_slots_def)
  have "avail_slots a' + pending_slots a' + mset xs = avail_slots a + pending_slots a"
    unfolding x(3,4) by (simp only: ac_simps)
  then show ?thesis unfolding run using x(2,5) alloc_frame [OF x(1)] assms(2) by (intro exI [of _ xs] exI [of _ a']) simp
qed

lemma available_free: "alloc_token_slots a n = Inr (xs, a') \<Longrightarrow> \<exists>r. alloc a n = Inr (r, a')"
  by (auto simp: alloc_token_slots_def split: option.splits)

text \<open>Giving the requests of a batch further slots.\<close>

lemma lists_grow:
  assumes d: "distinct xs" "set xs \<subseteq> set live" "distinct live"
    and same: "\<forall>y \<in> set live - set xs. F y = B y"
    and grow: "\<forall>i < length xs. F (xs ! i) = B (xs ! i) @ cs ! i" and len: "length cs = length xs"
  shows "mset (concat (map F live)) = mset (concat (map B live)) + mset (concat cs)"
proof -
  define v where "v y = (THE i. i < length xs \<and> xs ! i = y)" for y
  have v: "v (xs ! i) = i" if "i < length xs" for i
    unfolding v_def using that d(1) by (intro the_equality) (auto simp: nth_eq_iff_index_eq)
  let ?f = "\<lambda>y. if y \<in> set xs then [cs ! v y] else []"
  have "F y = B y @ concat (?f y)" if "y \<in> set live" for y
  proof (cases "y \<in> set xs")
    case True
    then obtain i where "i < length xs" "y = xs ! i" by (auto simp: in_set_conv_nth)
    then show ?thesis using grow v True by simp
  qed (use that same in simp)
  then have "mset (concat (map F live)) = mset (concat (map (\<lambda>y. B y @ concat (?f y)) live))"
    by (intro arg_cong [of _ _ "\<lambda>l. mset (concat l)"] map_cong) simp_all
  also have "\<dots> = mset (concat (map B live)) + mset (concat (concat (map ?f live)))"
    by (induction live) (simp_all add: ac_simps)
  also have "concat (map ?f live) = map (\<lambda>y. cs ! v y) (filter (\<lambda>y. y \<in> set xs) live)" by (rule concat_if)
  also have "mset (concat \<dots>) = mset (concat (map (\<lambda>y. cs ! v y) xs))"
  proof -
    have "set (filter (\<lambda>y. y \<in> set xs) live) = set xs" "distinct (filter (\<lambda>y. y \<in> set xs) live)" using d by auto
    then have "mset (filter (\<lambda>y. y \<in> set xs) live) = mset xs"
      using set_eq_iff_mset_eq_distinct [of "filter (\<lambda>y. y \<in> set xs) live" xs] d(1) by simp
    then show ?thesis by (simp only: mset_concat map_map o_def mset_map flip: sum_mset_sum_list)
  qed
  also have "map (\<lambda>y. cs ! v y) xs = cs" by (rule nth_equalityI) (use len v in simp_all)
  finally show ?thesis .
qed

lemma prepare_for_decode_keeps:
  assumes inv: "kv_inv T R live M" and xs: "distinct (b_reqs b)" "set (b_reqs b) \<subseteq> set live"
    and rep: "rep_lens b (map (m_store M) (b_reqs b))"
    and room: "\<forall>x \<in> set (b_reqs b). kv_allocated_len (m_store M x) < int (max_context_len (m_pool M))"
    and memory: "check_decode_mem M (b_reqs b)"
  shows "\<exists>b' M'. prepare_for_decode L b M = Inr (b', M') \<and> kv_inv T R live M' \<and> b_reqs b' = b_reqs b \<and>
    b_input_ids b' = b_output_ids b \<and> b_output_ids b' = None \<and> rep_lens b' (map (m_store M') (b_reqs b)) \<and>
    m_store M' = (\<lambda>y. if y \<in> set (b_reqs b) then decode_req (m_store M y) else m_store M y) \<and>
    b_out_cache_loc b' = Some (map (\<lambda>x. last (owned M' x)) (b_reqs b))"
proof -
  let ?xs = "b_reqs b" and ?a = "m_alloc M" and ?p = "m_pool M"
  let ?rows = "map (row_of M) ?xs" and ?lens = "map (\<lambda>x. kv_committed_len (m_store M x)) ?xs"
  have b: "slots_balanced T live M" and lens: "\<forall>x \<in> set ?xs. lens_ok M x" using inv xs by (auto simp: kv_inv_def)
  have ok: "allocator_ok ?a" "page_size ?a = 1" using b by (simp_all add: slots_balanced_def)
  have ts: "b_req_pool_indices b = Some ?rows" "b_seq_lens b = Some ?lens" "b_seq_lens_cpu b = Some ?lens" "b_seq_lens_sum b = sum_list ?lens"
    using rep by (simp_all add: rep_lens_def row_of_def o_def)
  obtain os where os: "b_orig_seq_lens b = Some os" "length os = length ?xs" using rep by (auto simp: rep_lens_def)
  have "length ?xs \<le> available_size ?a"
    using memory ok(2) by (simp add: check_decode_mem_def new_tokens_required_next_decode_def)
  then obtain vs a' where vs: "alloc_token_slots ?a (length ?xs) = Inr (vs, a')" "length vs = length ?xs" "allocator_ok a'" "page_size a' = 1"
    "num_pages a' = num_pages ?a" "avail_slots a' + pending_slots a' + mset vs = avail_slots ?a + pending_slots ?a"
    using alloc_token_slots_ok [OF ok, of "length ?xs"] by blast
  have rb: "rows_balanced R live M" using inv by (simp add: kv_inv_def)
  have "distinct ?rows" using rows_distinct(1) [OF rb] xs by (auto simp: distinct_map intro: inj_on_subset)
  moreover have cols: "\<forall>i < length ?rows. ?rows ! i < rt_size ?p \<and> 0 \<le> ?lens ! i \<and> ?lens ! i < int (max_context_len ?p)"
  proof (intro allI impI)
    fix i assume "i < length ?rows"
    then have i: "i < length ?xs" "?xs ! i \<in> set ?xs" "?xs ! i \<in> set live" using xs(2) by auto
    then show "?rows ! i < rt_size ?p \<and> 0 \<le> ?lens ! i \<and> ?lens ! i < int (max_context_len ?p)"
      using rows_distinct(2) [OF rb] lens room by (simp add: lens_ok_def)
  qed
  ultimately obtain p' where p': "rt_scatter ?rows ?lens vs ?p = Inr p'" "rt_size p' = rt_size ?p" "max_context_len p' = max_context_len ?p"
    "free_slots p' = free_slots ?p" "\<forall>row j. row \<notin> set ?rows \<longrightarrow> req_to_token p' row j = req_to_token ?p row j"
    "\<forall>i < length ?rows. \<forall>j. req_to_token p' (?rows ! i) j = (if int j = ?lens ! i then vs ! i else req_to_token ?p (?rows ! i) j)"
    using rt_scatter_spec [of ?lens ?rows vs ?p] vs(2) by auto
  have spread: "(if length vs = 1 then replicate (length ?lens) (hd vs) else vs) = vs"
    using vs(2) by (cases vs) auto
  define N where "N = M\<lparr>m_pool := p', m_alloc := a', m_store := fold (\<lambda>x h. h(x := decode_req (h x))) ?xs (m_store M)\<rparr>"
  let ?b' = "b\<lparr>b_forward_mode := Some DECODE, b_input_ids := b_output_ids b, b_output_ids := None, b_out_cache_loc := Some vs,
    b_seq_lens := Some (map (\<lambda>n. n + 1) ?lens), b_seq_lens_cpu := Some (map (\<lambda>n. n + 1) ?lens), b_orig_seq_lens := Some (map (\<lambda>n. n + 1) os),
    b_seq_lens_sum := b_seq_lens_sum b + int (length ?xs)\<rparr>"
  have run: "prepare_for_decode L b M = Inr (?b', N)"
    using ts os vs(1,2) p'(1) spread ok(2)
    by (simp add: prepare_for_decode_def alloc_for_decode_def N_def)
  have h: "m_store N = (\<lambda>y. if y \<in> set ?xs then decode_req (m_store M y) else m_store M y)"
    by (simp add: N_def fold_upd [OF xs(1)])
  have f: "m_pool N = p'" "m_alloc N = a'" by (simp_all add: N_def)
  have row: "row_of N y = row_of M y" for y by (simp add: row_of_def h decode_req_def)
  have same: "\<forall>y \<in> set live - set ?xs. owned N y = owned M y"
  proof
    fix y assume y: "y \<in> set live - set ?xs"
    then have "row_of M y \<notin> set ?rows"
      using rows_distinct(1) [OF rb] xs(2) by (auto simp: distinct_map dest: inj_onD)
    then show "owned N y = owned M y" using y p'(3,5) by (simp add: owned_def row rt_slice_def f h)
  qed
  have grow: "\<forall>i < length ?xs. owned N (?xs ! i) = owned M (?xs ! i) @ [vs ! i]"
  proof (intro allI impI)
    fix i assume i: "i < length ?xs"
    let ?x = "?xs ! i" and ?k = "kv_allocated_len (m_store M (?xs ! i))"
    have x: "?x \<in> set ?xs" using i by simp
    have l: "lens_ok M ?x" "?k < int (max_context_len ?p)" using lens room x by auto
    then have k: "0 \<le> ?k" "kv_committed_len (m_store M ?x) = ?k" by (simp_all add: lens_ok_def)
    have "nat (?k + 1) = Suc (nat ?k)" "Suc (nat ?k) \<le> max_context_len ?p" using k(1) l(2) by linarith+
    moreover have "req_to_token p' (row_of M ?x) j = (if int j = ?k then vs ! i else req_to_token ?p (row_of M ?x) j)" for j
      using p'(6) i k(2) by simp
    moreover have "int j \<noteq> ?k" if "j \<in> set [0..<nat ?k]" for j using that by auto
    ultimately show "owned N ?x = owned M ?x @ [vs ! i]"
      using x p'(3) k(1) by (simp add: owned_def row h f decode_req_def rt_slice_def)
  qed
  have "slots_balanced T live N"
  proof (rule slots_balanced_move [OF b, of N "mset vs" "{#}"])
    show "mset (concat (map (owned N) live)) + {#} = mset (concat (map (owned M) live)) + mset vs"
      using lists_grow [OF xs _ same, of "map (\<lambda>v. [v]) vs"] grow vs(2) inv by (simp add: kv_inv_def)
  qed (use vs in \<open>simp_all add: f\<close>)
  moreover have "rows_balanced R live N" using rb p'(2,4) row unfolding rows_balanced_def f by (simp cong: map_cong)
  moreover have "\<forall>y \<in> set live. lens_ok N y"
    using inv room p'(3) unfolding kv_inv_def lens_ok_def f h decode_req_def by auto
  ultimately have "kv_inv T R live N" using inv by (simp add: kv_inv_def)
  moreover have "rep_lens ?b' (map (m_store N) ?xs)"
  proof -
    have m: "map (m_store N) ?xs = map (\<lambda>x. decode_req (m_store M x)) ?xs" by (simp add: h)
    have "sum_list (map kv_committed_len (map (\<lambda>x. decode_req (m_store M x)) ?xs)) = sum_list ?lens + int (length ?xs)"
      by (simp add: decode_req_def o_def sum_list_addf sum_list_triv)
    then show ?thesis
      unfolding m using rep ts os by (simp add: rep_lens_def decode_req_def o_def list_all_iff row_of_def)
  qed
  moreover have "vs = map (\<lambda>x. last (owned N x)) ?xs" by (rule nth_equalityI) (use vs(2) grow in simp_all)
  ultimately show ?thesis unfolding run using h by (intro exI [of _ ?b'] exI [of _ N]) simp
qed

end
