(* ===== verification/Table_Writes.thy ===== *)
theory Table_Writes
  imports Schedule_Batch
begin

text \<open>
  \<open>write_cache_indices\<close> (\<open>mem_cache/common.py\<close>) puts the cached prefix and the new slots of every
  request of a prefill batch into its row of the request-to-token table, either by a Triton kernel
  with one program per request or by a sequential loop.  Both write the same table.
\<close>

section \<open>What the rows hold afterwards\<close>

definition row_values :: "slot list list \<Rightarrow> nat list \<Rightarrow> slot list \<Rightarrow> nat \<Rightarrow> slot list" where
  "row_values prefixes exts locs i =
     prefixes ! i @ slice locs (sum_list (take i exts)) (sum_list (take i exts) + exts ! i)"

definition rows_written :: "nat list \<Rightarrow> (nat \<Rightarrow> slot list) \<Rightarrow> nat set \<Rightarrow> req_to_token_pool \<Rightarrow> req_to_token_pool" where
  "rows_written rows vals K p =
     p\<lparr>req_to_token := (\<lambda>row j.
        if \<exists>k \<in> K. k < length rows \<and> rows ! k = row \<and> j < length (vals k)
        then vals (THE k. k < length rows \<and> rows ! k = row) ! j else req_to_token p row j)\<rparr>"

lemma the_row:
  "distinct rows \<Longrightarrow> k < length rows \<Longrightarrow> (THE i. i < length rows \<and> rows ! i = rows ! k) = k"
  by (rule the_equality) (auto simp: nth_eq_iff_index_eq)

lemma rows_written_empty [simp]: "rows_written rows vals {} p = p"
  by (simp add: rows_written_def)

lemma rows_written_cell:
  assumes "distinct rows" "k < length rows" "k \<in> K"
  shows "req_to_token (rows_written rows vals K p) (rows ! k) j = (if j < length (vals k) then vals k ! j else req_to_token p (rows ! k) j)"
proof -
  have "(\<exists>i \<in> K. i < length rows \<and> rows ! i = rows ! k \<and> j < length (vals i)) = (j < length (vals k))"
    using assms by (auto simp: nth_eq_iff_index_eq)
  then show ?thesis by (simp add: rows_written_def the_row [OF assms(1,2)])
qed

lemma rows_written_other:
  assumes "\<forall>k \<in> K. k < length rows \<longrightarrow> rows ! k \<noteq> row"
  shows "req_to_token (rows_written rows vals K p) row j = req_to_token p row j"
  using assms by (auto simp: rows_written_def)

lemma rows_written_insert:
  assumes "distinct rows" "k < length rows" "k \<notin> K"
  shows "rt_write (rows_written rows vals K p) (rows ! k) 0 (vals k) = rows_written rows vals (insert k K) p"
proof -
  have "req_to_token (rt_write (rows_written rows vals K p) (rows ! k) 0 (vals k)) row j =
      req_to_token (rows_written rows vals (insert k K) p) row j" for row j
  proof (cases "row = rows ! k")
    case True
    have "\<forall>i \<in> K. i < length rows \<longrightarrow> rows ! i \<noteq> rows ! k" using assms by (auto simp: nth_eq_iff_index_eq)
    then show ?thesis using True rows_written_cell [OF assms(1,2), of "insert k K"] by (simp add: rt_write_def rows_written_other)
  next
    case False
    then have "(\<exists>i \<in> insert k K. i < length rows \<and> rows ! i = row \<and> j < length (vals i)) =
        (\<exists>i \<in> K. i < length rows \<and> rows ! i = row \<and> j < length (vals i))" by auto
    then show ?thesis using False by (simp add: rt_write_def rows_written_def)
  qed
  then show ?thesis by (simp add: rt_write_def rows_written_def fun_eq_iff)
qed

section \<open>The kernel\<close>

lemma store_blocks:
  "fold (store_block row base n value) [0..<m] p =
   p\<lparr>req_to_token := (\<lambda>row' j. if row' = row \<and> base \<le> j \<and> j - base < n \<and> j - base < 512 * m then value (j - base)
                              else req_to_token p row' j)\<rparr>"
proof (induction m)
  case (Suc m)
  then show ?case by (auto simp: store_block_def fun_eq_iff)
qed simp

lemma store_all_blocks:
  assumes "length vs = n" "\<forall>k < n. value k = vs ! k"
  shows "fold (store_block row base n value) [0..<(n + 511) div 512] p = rt_write p row base vs"
proof -
  have "n \<le> 512 * ((n + 511) div 512)" by linarith
  then have "(\<lambda>row' j. if row' = row \<and> base \<le> j \<and> j - base < n \<and> j - base < 512 * ((n + 511) div 512) then value (j - base)
      else req_to_token p row' j) =
    (\<lambda>row' j. if row' = row \<and> base \<le> j \<and> j < base + length vs then vs ! (j - base) else req_to_token p row' j)"
    using assms by (intro ext) auto
  then show ?thesis unfolding store_blocks rt_write_def by simp
qed

lemma rt_write_append:
  "rt_write (rt_write p row 0 vs) row (length vs) ws = rt_write p row 0 (vs @ ws)"
  by (auto simp: rt_write_def fun_eq_iff nth_append)

definition write_args :: "nat list \<Rightarrow> nat list \<Rightarrow> nat list \<Rightarrow> nat list \<Rightarrow> slot list list \<Rightarrow> slot list \<Rightarrow> req_to_token_pool \<Rightarrow> bool" where
  "write_args rows pres seqs exts prefixes locs p \<longleftrightarrow>
     distinct rows \<and> length pres = length rows \<and> length seqs = length rows \<and> length exts = length rows \<and>
     length prefixes = length rows \<and> sum_list exts = length locs \<and>
     (\<forall>i < length rows. rows ! i < rt_size p \<and> length (prefixes ! i) = pres ! i \<and> pres ! i + exts ! i = seqs ! i \<and>
        seqs ! i \<le> max_context_len p)"

lemma sum_take_nat: "i < length xs \<Longrightarrow> sum_list (take i xs) + xs ! i \<le> sum_list (xs :: nat list)"
  using id_take_nth_drop [of i xs] by (metis add.assoc le_add1 sum_list.Cons sum_list_append)

lemma triton_program:
  assumes ok: "write_args rows pres seqs exts prefixes locs p0" and i: "pid < length rows"
  shows "write_req_to_token_pool_triton u rows prefixes pres seqs exts locs pid p =
    rt_write p (rows ! pid) 0 (row_values prefixes exts locs pid)"
proof -
  let ?t = "prefixes ! pid" and ?s = "sum_list (take pid exts)" and ?e = "exts ! pid"
  have a: "length ?t = pres ! pid" "seqs ! pid - pres ! pid = ?e" using ok i by (auto simp: write_args_def)
  have le: "?s + ?e \<le> length locs" using sum_take_nat [of pid exts] ok i by (simp add: write_args_def)
  have one: "fold (store_block (rows ! pid) 0 (pres ! pid) (\<lambda>k. ld (u pid 0 k) ?t (int k))) [0..<(pres ! pid + 511) div 512] p =
      rt_write p (rows ! pid) 0 ?t"
    by (rule store_all_blocks) (use a in \<open>simp_all add: ld_def\<close>)
  have two: "fold (store_block (rows ! pid) (pres ! pid) ?e (\<lambda>k. ld (u pid 1 k) locs (int (?s + k)))) [0..<(?e + 511) div 512] q =
      rt_write q (rows ! pid) (pres ! pid) (slice locs ?s (?s + ?e))" for q
    by (rule store_all_blocks) (use le in \<open>simp_all add: ld_def nat_int_add\<close>)
  show ?thesis
    unfolding write_req_to_token_pool_triton_def Let_def a(2) one two row_values_def
    unfolding a(1) [symmetric] rt_write_append ..
qed

lemma triton_rows:
  assumes ok: "write_args rows pres seqs exts prefixes locs p" and ord: "distinct order" "set order \<subseteq> {..<length rows}"
    and "K \<inter> set order = {}"
  shows "fold (write_req_to_token_pool_triton u rows prefixes pres seqs exts locs) order (rows_written rows (row_values prefixes exts locs) K p) =
    rows_written rows (row_values prefixes exts locs) (K \<union> set order) p"
  using ord assms(4)
proof (induction order arbitrary: K)
  case (Cons k order)
  have k: "k < length rows" "k \<notin> K" using Cons.prems by auto
  have d: "distinct rows" using ok by (simp add: write_args_def)
  have "fold (write_req_to_token_pool_triton u rows prefixes pres seqs exts locs) order
      (rows_written rows (row_values prefixes exts locs) (insert k K) p) =
      rows_written rows (row_values prefixes exts locs) (insert k K \<union> set order) p"
    by (rule Cons.IH) (use Cons.prems in auto)
  then show ?case using triton_program [OF ok k(1)] rows_written_insert [OF d k] by simp
qed simp

section \<open>The sequential loop\<close>

lemma rt_assign_ok:
  assumes "row < rt_size p" "b \<le> max_context_len p" "length vs = b - a"
  shows "rt_assign p row a b vs = Inr (rt_write p row a vs)"
proof -
  have "(if length vs = 1 then replicate (min b (max_context_len p) - a) (hd vs) else vs) = vs"
    using assms by (cases vs) auto
  then show ?thesis unfolding rt_assign_def Let_def using assms by simp
qed

lemma rt_write_fields [simp]:
  "rt_size (rt_write p row a vs) = rt_size p" "max_context_len (rt_write p row a vs) = max_context_len p"
  "free_slots (rt_write p row a vs) = free_slots p"
  by (simp_all add: rt_write_def)

lemma rows_written_fields [simp]:
  "rt_size (rows_written rows vals K p) = rt_size p" "max_context_len (rows_written rows vals K p) = max_context_len p"
  "free_slots (rows_written rows vals K p) = free_slots p"
  by (simp_all add: rows_written_def)

lemma write_rows_from:
  assumes ok: "write_args rows pres seqs exts prefixes locs p" and "m \<le> length rows"
  shows "write_rows (drop m rows) (drop m pres) (drop m seqs) (drop m exts) (drop m prefixes) (drop (sum_list (take m exts)) locs)
      (rows_written rows (row_values prefixes exts locs) {..<m} p) =
    Inr (rows_written rows (row_values prefixes exts locs) {..<length rows} p)"
  using assms(2)
proof (induction m rule: inc_induct)
  case base
  then show ?case by simp
next
  case (step m)
  let ?q = "rows_written rows (row_values prefixes exts locs) {..<m} p"
  have m: "m < length rows" using step.hyps by simp
  have a: "distinct rows" "length pres = length rows" "length seqs = length rows" "length exts = length rows" "length prefixes = length rows"
    "rows ! m < rt_size p" "length (prefixes ! m) = pres ! m" "seqs ! m - pres ! m = exts ! m" "pres ! m \<le> seqs ! m" "seqs ! m \<le> max_context_len p"
    "sum_list exts = length locs"
    using ok m by (auto simp: write_args_def)
  have le: "sum_list (take m exts) + exts ! m \<le> length locs" using sum_take_nat [of m exts] a m by simp
  have heads: "drop m rows = rows ! m # drop (Suc m) rows" "drop m pres = pres ! m # drop (Suc m) pres" "drop m seqs = seqs ! m # drop (Suc m) seqs"
    "drop m exts = exts ! m # drop (Suc m) exts" "drop m prefixes = prefixes ! m # drop (Suc m) prefixes"
    using m a by (simp_all add: Cons_nth_drop_Suc)
  have one: "rt_assign ?q (rows ! m) 0 (pres ! m) (prefixes ! m) = Inr (rt_write ?q (rows ! m) 0 (prefixes ! m))"
    by (rule rt_assign_ok) (use a in simp_all)
  have two: "rt_assign (rt_write ?q (rows ! m) 0 (prefixes ! m)) (rows ! m) (pres ! m) (seqs ! m) (take (exts ! m) (drop (sum_list (take m exts)) locs)) =
      Inr (rt_write (rt_write ?q (rows ! m) 0 (prefixes ! m)) (rows ! m) (pres ! m) (take (exts ! m) (drop (sum_list (take m exts)) locs)))"
    by (rule rt_assign_ok) (use a le in simp_all)
  have w: "rt_write (rt_write ?q (rows ! m) 0 (prefixes ! m)) (rows ! m) (pres ! m) (take (exts ! m) (drop (sum_list (take m exts)) locs)) =
      rows_written rows (row_values prefixes exts locs) {..<Suc m} p"
    using rows_written_insert [OF a(1) m, of "{..<m}" "row_values prefixes exts locs" p] rt_write_append [of ?q "rows ! m" "prefixes ! m"] a(7)
    by (simp add: row_values_def slice_def lessThan_Suc)
  have e: "drop (exts ! m) (drop (sum_list (take m exts)) locs) = drop (sum_list (take (Suc m) exts)) locs"
    using m a by (simp add: take_Suc_conv_app_nth add.commute)
  show ?case unfolding heads write_rows.simps one bind_result.simps two w e by (rule step.IH)
qed

lemma write_cache_indices_spec:
  assumes ok: "write_args rows pres seqs exts prefixes locs p" and ord: "program_order (length rows) (l_order L (length rows))"
  shows "write_cache_indices L locs rows pres seqs exts prefixes p =
    Inr (rows_written rows (row_values prefixes exts locs) {..<length rows} p)"
  using triton_rows [OF ok, of "l_order L (length rows)" "{}" "l_junk L"] write_rows_from [OF ok, of 0] ord
  by (auto simp: write_cache_indices_def program_order_def)

text \<open>C25. The Triton kernel that fills the request-to-token table, with its programs run in any order and
  whatever masked loads return, writes the same table as the sequential loop, which does not raise.\<close>

theorem table_kernel_equals_loop:
  assumes "write_args rows pres seqs exts prefixes locs p" "program_order (length rows) order"
  shows "write_rows rows pres seqs exts prefixes locs p =
    Inr (fold (write_req_to_token_pool_triton u rows prefixes pres seqs exts locs) order p)"
  using triton_rows [OF assms(1), of order "{}" u] write_rows_from [OF assms(1), of 0] assms(2)
  by (simp add: program_order_def)

theorem table_kernel_equals_loop_witness:
  "write_args [1, 0] [2, 0] [3, 2] [1, 2] [[5, 6], []] [7, 8, 9] (rt_init 2 4) \<and>
   write_rows [1, 0] [2, 0] [3, 2] [1, 2] [[5, 6], []] [7, 8, 9] (rt_init 2 4) =
     Inr (fold (write_req_to_token_pool_triton (\<lambda>pid l k. int k - int l) [1, 0] [[5, 6], []] [2, 0] [3, 2] [1, 2] [7, 8, 9]) [1, 0] (rt_init 2 4))"
proof -
  have a: "write_args [1, 0] [2, 0] [3, 2] [1, 2] [[5, 6], []] [7, 8, 9] (rt_init 2 4)"
    by (simp add: write_args_def rt_init_def less_Suc_eq)
  have "program_order (length [1, 0 :: nat]) [1, 0]" by (auto simp: program_order_def)
  from table_kernel_equals_loop [OF a this] a show ?thesis by blast
qed

end
