(* ===== verification/KV_Extend.thy ===== *)
theory KV_Extend
  imports KV_Ownership Table_Writes
begin

text \<open>
  Preparing a prefill batch keeps the balance of slots and rows: new requests get a row each, every
  request gets the slots its next chunk needs, a request whose prefill goes on keeps the slots it
  has, and the batch represents its requests.
\<close>

section \<open>Rows for the requests\<close>

lemma assign_rows_spec:
  assumes "distinct xs" "length sel = length (filter (\<lambda>x. req_pool_idx (h x) = None) xs)"
  shows "\<exists>h'. assign_rows h xs sel = Inr h' \<and>
    (\<forall>y. y \<notin> set (filter (\<lambda>x. req_pool_idx (h x) = None) xs) \<longrightarrow> h' y = h y) \<and>
    (\<forall>i < length sel. h' (filter (\<lambda>x. req_pool_idx (h x) = None) xs ! i) =
       (h (filter (\<lambda>x. req_pool_idx (h x) = None) xs ! i))\<lparr>req_pool_idx := Some (sel ! i)\<rparr>)"
  using assms
proof (induction xs arbitrary: h sel)
  case (Cons x xs)
  show ?case
  proof (cases "req_pool_idx (h x) = None")
    case True
    then obtain s ss where sel: "sel = s # ss" using Cons.prems by (cases sel) auto
    define h1 where "h1 = h(x := (h x)\<lparr>req_pool_idx := Some s\<rparr>)"
    have d: "distinct xs" "x \<notin> set xs" using Cons.prems by auto
    have f: "filter (\<lambda>y. req_pool_idx (h1 y) = None) xs = filter (\<lambda>y. req_pool_idx (h y) = None) xs"
      using d by (intro filter_cong) (auto simp: h1_def)
    have l: "length ss = length (filter (\<lambda>y. req_pool_idx (h1 y) = None) xs)" using Cons.prems True sel f by simp
    obtain h' where h': "assign_rows h1 xs ss = Inr h'" "\<forall>y. y \<notin> set (filter (\<lambda>y. req_pool_idx (h y) = None) xs) \<longrightarrow> h' y = h1 y"
      "\<forall>i < length ss. h' (filter (\<lambda>y. req_pool_idx (h y) = None) xs ! i) = (h1 (filter (\<lambda>y. req_pool_idx (h y) = None) xs ! i))\<lparr>req_pool_idx := Some (ss ! i)\<rparr>"
      using Cons.IH [OF d(1) l] unfolding f by blast
    have nx: "x \<notin> set (filter (\<lambda>y. req_pool_idx (h y) = None) xs)" using Cons.prems by simp
    have len: "length ss = length (filter (\<lambda>y. req_pool_idx (h y) = None) xs)" using Cons.prems True sel by simp
    have "\<forall>i < length sel. h' ((x # filter (\<lambda>y. req_pool_idx (h y) = None) xs) ! i) =
        (h ((x # filter (\<lambda>y. req_pool_idx (h y) = None) xs) ! i))\<lparr>req_pool_idx := Some (sel ! i)\<rparr>"
    proof (intro allI impI)
      fix i assume i: "i < length sel"
      show "h' ((x # filter (\<lambda>y. req_pool_idx (h y) = None) xs) ! i) =
        (h ((x # filter (\<lambda>y. req_pool_idx (h y) = None) xs) ! i))\<lparr>req_pool_idx := Some (sel ! i)\<rparr>"
      proof (cases i)
        case 0
        then show ?thesis using h'(2) nx sel by (simp add: h1_def)
      next
        case (Suc k)
        then have k: "k < length ss" using i sel by simp
        then have "filter (\<lambda>y. req_pool_idx (h y) = None) xs ! k \<noteq> x" using nx len by (metis nth_mem)
        then show ?thesis using Suc h'(3) k sel by (simp add: h1_def)
      qed
    qed
    moreover have "\<forall>y. y \<notin> set (x # filter (\<lambda>y. req_pool_idx (h y) = None) xs) \<longrightarrow> h' y = h y" using h'(2) by (simp add: h1_def)
    ultimately show ?thesis using True sel h'(1) unfolding h1_def by (intro exI [of _ h']) simp
  next
    case False
    then show ?thesis using Cons by auto
  qed
qed simp

lemma alloc_req_slots_ok:
  assumes d: "distinct xs" and old: "length (filter (\<lambda>x. req_pool_idx (h x) \<noteq> None) xs) \<le> 1"
    and ch: "\<forall>x \<in> set xs. req_pool_idx (h x) \<noteq> None \<longrightarrow> 0 < is_chunked (h x) \<or> 0 < kv_committed_len (h x)"
    and rows: "length (filter (\<lambda>x. req_pool_idx (h x) = None) xs) \<le> length (free_slots p)"
  defines "new \<equiv> filter (\<lambda>x. req_pool_idx (h x) = None) xs"
  shows "\<exists>h'. alloc_req_slots p h xs = Inr (map (\<lambda>x. req_pool_idx (h' x)) xs, p\<lparr>free_slots := drop (length new) (free_slots p)\<rparr>, h') \<and>
    (\<forall>y. y \<notin> set new \<longrightarrow> h' y = h y) \<and>
    (\<forall>i < length new. h' (new ! i) = (h (new ! i))\<lparr>req_pool_idx := Some (free_slots p ! i)\<rparr>)"
proof -
  let ?old = "filter (\<lambda>x. req_pool_idx (h x) \<noteq> None) xs"
  have n: "length xs - length ?old = length new"
    using sum_length_filter_compl [of "\<lambda>x. req_pool_idx (h x) = None" xs] unfolding new_def by linarith
  obtain h' where h': "assign_rows h xs (take (length new) (free_slots p)) = Inr h'" "\<forall>y. y \<notin> set new \<longrightarrow> h' y = h y"
    "\<forall>i < length new. h' (new ! i) = (h (new ! i))\<lparr>req_pool_idx := Some (take (length new) (free_slots p) ! i)\<rparr>"
    using assign_rows_spec [OF d, of "take (length new) (free_slots p)" h] rows unfolding new_def by auto
  have "list_all (\<lambda>x. 0 < is_chunked (h x) \<or> 0 < kv_committed_len (h x)) ?old" using ch by (simp add: list_all_iff)
  then show ?thesis
    using h' old rows n unfolding alloc_req_slots_def rt_alloc_def Let_def
    by (intro exI [of _ h']) (simp add: new_def)
qed

section \<open>The requests of the batch\<close>

definition extended :: "nat option \<Rightarrow> req \<Rightarrow> req" where
  "extended row r = r\<lparr>req_pool_idx := row, extend_batch_idx := extend_batch_idx r + 1, kv_committed_len := int (length (fill_ids r)),
     kv_allocated_len := int (length (fill_ids r)),
     already_computed := (if retracted_stain r then already_computed r else int (length (fill_ids r))), is_retracted := False\<rparr>"

lemma extend_reqs_spec:
  assumes "distinct xs" "\<forall>x \<in> set xs. extend_input_len (h x) = int (length (fill_ids (h x))) - int (length (prefix_indices (h x)))"
  shows "extend_reqs xs (map f xs) h = Inr (\<lambda>y. if y \<in> set xs then extended (f y) (h y) else h y)"
  using assms
proof (induction xs arbitrary: h)
  case (Cons x xs)
  have "extend_req (f x) (h x) = Inr (extended (f x) (h x))" using Cons.prems by (simp add: extend_req_def extended_def Let_def)
  moreover have "extend_reqs xs (map f xs) (h(x := extended (f x) (h x))) =
      Inr (\<lambda>y. if y \<in> set xs then extended (f y) ((h(x := extended (f x) (h x))) y) else (h(x := extended (f x) (h x))) y)"
    by (rule Cons.IH) (use Cons.prems in auto)
  moreover have "(\<lambda>y. if y \<in> set xs then extended (f y) ((h(x := extended (f x) (h x))) y) else (h(x := extended (f x) (h x))) y) =
      (\<lambda>y. if y \<in> set (x # xs) then extended (f y) (h y) else h y)"
    using Cons.prems(1) by (auto simp: fun_eq_iff)
  ultimately show ?case by simp
qed (simp add: fun_eq_iff)

definition extend_ok :: "ref list \<Rightarrow> mem \<Rightarrow> ref \<Rightarrow> bool" where
  "extend_ok live M x \<longleftrightarrow>
     (let r = m_store M x
      in length (prefix_indices r) \<le> length (fill_ids r) \<and> length (fill_ids r) \<le> max_context_len (m_pool M) \<and>
         extend_input_len r = int (length (fill_ids r)) - int (length (prefix_indices r)) \<and>
         \<not> kv_committed_freed r \<and> \<not> kv_overallocated_freed r \<and>
         (if x \<in> set live then prefix_indices r = owned M x \<and> (0 < is_chunked r \<or> 0 < kv_committed_len r)
          else req_pool_idx r = None \<and> prefix_indices r = []))"

lemma extend_rows:
  assumes inv: "kv_inv T R live M" and d: "distinct xs" and ok: "\<forall>x \<in> set xs. extend_ok live M x"
    and one: "length (filter (\<lambda>x. x \<in> set live) xs) \<le> 1"
    and rows: "length (filter (\<lambda>x. x \<notin> set live) xs) \<le> length (free_slots (m_pool M))"
  defines "new \<equiv> filter (\<lambda>x. x \<notin> set live) xs"
  shows "\<exists>f. alloc_req_slots (m_pool M) (m_store M) xs =
      Inr (map f xs, (m_pool M)\<lparr>free_slots := drop (length new) (free_slots (m_pool M))\<rparr>, \<lambda>x. (m_store M x)\<lparr>req_pool_idx := f x\<rparr>) \<and>
    (\<forall>y. y \<notin> set new \<longrightarrow> f y = req_pool_idx (m_store M y)) \<and> (\<forall>y \<in> set live \<union> set xs. f y \<noteq> None) \<and>
    mset (drop (length new) (free_slots (m_pool M))) + mset (map (\<lambda>y. the (f y)) (live @ new)) = R"
proof -
  let ?h = "m_store M" and ?free = "free_slots (m_pool M)"
  have row: "(req_pool_idx (?h x) = None) = (x \<notin> set live)" if "x \<in> set xs" for x
    using that ok inv by (auto simp: extend_ok_def kv_inv_def lens_ok_def Let_def)
  have nw: "filter (\<lambda>x. req_pool_idx (?h x) = None) xs = new" unfolding new_def by (intro filter_cong) (simp_all add: row)
  have od: "filter (\<lambda>x. req_pool_idx (?h x) \<noteq> None) xs = filter (\<lambda>x. x \<in> set live) xs" by (intro filter_cong) (simp_all add: row)
  have ch: "\<forall>x \<in> set xs. req_pool_idx (?h x) \<noteq> None \<longrightarrow> 0 < is_chunked (?h x) \<or> 0 < kv_committed_len (?h x)"
    using ok row by (auto simp: extend_ok_def Let_def)
  obtain h' where h': "alloc_req_slots (m_pool M) ?h xs = Inr (map (\<lambda>x. req_pool_idx (h' x)) xs, (m_pool M)\<lparr>free_slots := drop (length new) ?free\<rparr>, h')"
    "\<forall>y. y \<notin> set new \<longrightarrow> h' y = ?h y" "\<forall>i < length new. h' (new ! i) = (?h (new ! i))\<lparr>req_pool_idx := Some (?free ! i)\<rparr>"
    using alloc_req_slots_ok [OF d, of ?h "m_pool M", unfolded nw od] one ch rows unfolding new_def by blast
  define f where "f x = req_pool_idx (h' x)" for x
  have new_nth: "\<exists>i < length new. y = new ! i" if "y \<in> set new" for y using that by (metis in_set_conv_nth)
  have eq: "h' = (\<lambda>x. (?h x)\<lparr>req_pool_idx := f x\<rparr>)"
  proof
    fix y show "h' y = (?h y)\<lparr>req_pool_idx := f y\<rparr>"
      using h'(2,3) new_nth [of y] by (cases "y \<in> set new") (auto simp: f_def)
  qed
  have keep: "\<forall>y. y \<notin> set new \<longrightarrow> f y = req_pool_idx (?h y)" using h'(2) by (simp add: f_def)
  have fnew: "map (\<lambda>y. the (f y)) new = take (length new) ?free"
    by (rule nth_equalityI) (use h'(3) rows in \<open>simp_all add: f_def new_def\<close>)
  have "\<forall>y \<in> set live. y \<notin> set new" by (simp add: new_def)
  then have flive: "map (\<lambda>y. the (f y)) live = map (row_of M) live" using keep by (simp add: row_of_def)
  have "f y \<noteq> None" if "y \<in> set live \<union> set xs" for y
  proof (cases "y \<in> set new")
    case True
    then obtain i where "i < length new" "y = new ! i" using new_nth by blast
    then show ?thesis using h'(3) by (simp add: f_def)
  next
    case False
    then have "y \<in> set live" using that by (auto simp: new_def)
    then show ?thesis using keep False inv by (auto simp: kv_inv_def lens_ok_def)
  qed
  moreover have "mset (drop (length new) ?free) + mset (map (\<lambda>y. the (f y)) (live @ new)) = R"
  proof -
    have "mset ?free = mset (take (length new) ?free) + mset (drop (length new) ?free)" by (metis append_take_drop_id mset_append)
    then show ?thesis using inv unfolding map_append flive fnew kv_inv_def rows_balanced_def by (simp add: ac_simps)
  qed
  ultimately show ?thesis using h'(1) keep unfolding eq by (intro exI [of _ f]) simp
qed

lemma slices_concat:
  "sum_list exts \<le> length locs \<Longrightarrow> m \<le> length exts \<Longrightarrow>
   concat (map (\<lambda>i. slice locs (sum_list (take i exts)) (sum_list (take i exts) + exts ! i)) [0..<m]) = take (sum_list (take m exts)) locs"
proof (induction m)
  case (Suc m)
  then show ?case by (simp add: take_Suc_conv_app_nth slice_def take_add)
qed simp

lemma extend_represents:
  assumes b: "b = init_new h xs overlap chunked" and h2: "\<forall>x \<in> set xs. h2 x = extended (f x) (h x)" and f: "\<forall>x \<in> set xs. f x \<noteq> None"
    and len: "length os = length xs"
    and b': "b' = b\<lparr>b_forward_mode := fm, b_prefix_lens := pl, b_extend_lens := el, b_extend_num_tokens := en, b_input_ids := ids,
      b_seq_lens := Some (map (\<lambda>x. int (length (fill_ids (h x)))) xs), b_seq_lens_cpu := Some (map (\<lambda>x. int (length (fill_ids (h x)))) xs),
      b_req_pool_indices := Some (map the (map f xs)), b_orig_seq_lens := Some os, b_out_cache_loc := ol,
      b_seq_lens_sum := sum_list (map (\<lambda>x. int (length (fill_ids (h x)))) xs),
      b_top_logprobs_nums := (if b_return_logprob b then Some (map top_logprobs_num (map h2 xs)) else b_top_logprobs_nums b),
      b_token_ids_logprobs := (if b_return_logprob b then Some (map token_ids_logprob (map h2 xs)) else b_token_ids_logprobs b),
      b_extend_logprob_start_lens := ls, b_extend_input_logprob_token_ids := li,
      b_sampling_info := Some (from_schedule_batch ed (map h2 xs))\<rparr>"
  shows "represents ed h2 b'" "b_reqs b' = xs"
proof -
  show r: "b_reqs b' = xs" by (simp add: b' b init_new_def new_batch_def)
  have fl: "list_ex P (map h2 xs) = list_ex (\<lambda>x. P (h x)) xs" if "\<And>r row. P (extended row r) = P r" for P
    using that h2 by (auto simp: list_ex_iff)
  have m: "map (g \<circ> h2) xs = map (\<lambda>x. g (extended (f x) (h x))) xs" for g :: "req \<Rightarrow> 'z" using h2 by simp
  have sums: "(\<Sum>x\<leftarrow>xs. int (length (fill_ids (h x)))) = (\<Sum>x\<leftarrow>xs. kv_committed_len (h2 x))"
    using h2 by (intro arg_cong [where f = sum_list] map_cong) (simp_all add: extended_def)
  have "rep_lens b' (map h2 xs)"
    using h2 f len sums by (simp add: rep_lens_def b' b init_new_def new_batch_def extended_def list_all_iff o_def)
  moreover have "rep_logprobs b' (map h2 xs)"
    using fl [of return_logprob] by (auto simp: rep_logprobs_def b' b init_new_def new_batch_def extended_def list_all2_conv_all_nth)
  moreover have "list_ex (\<lambda>x. stream (h2 x)) xs = list_ex (\<lambda>x. stream (h x)) xs"
      "list_ex (\<lambda>x. grammar (h2 x) \<noteq> None) xs = list_ex (\<lambda>x. grammar (h x) \<noteq> None) xs"
    using h2 by (auto simp: list_ex_iff extended_def)
  moreover have "sampling_rep ed (from_schedule_batch ed (map h2 xs)) (map (\<lambda>x. sampling_params (h2 x)) xs)"
    using from_schedule_batch_rep [of ed "map h2 xs"] by (simp add: o_def)
  ultimately show "represents ed h2 b'"
    unfolding represents_def r by (simp add: b' b init_new_def new_batch_def)
qed

section \<open>The balance\<close>

definition ext_lens :: "store \<Rightarrow> ref list \<Rightarrow> nat list" where
  "ext_lens h xs = map (\<lambda>x. length (fill_ids (h x)) - length (prefix_indices (h x))) xs"

text \<open>The memory after the rows \<open>f\<close> and the slots \<open>locs\<close> have been handed out.\<close>

definition extended_mem :: "mem \<Rightarrow> ref list \<Rightarrow> (ref \<Rightarrow> nat option) \<Rightarrow> nat \<Rightarrow> slot list \<Rightarrow> allocator \<Rightarrow> mem" where
  "extended_mem M xs f k locs a =
     \<lparr>m_store = (\<lambda>y. if y \<in> set xs then extended (f y) (m_store M y) else (m_store M y)\<lparr>req_pool_idx := f y\<rparr>),
      m_pool = rows_written (map (\<lambda>y. the (f y)) xs)
        (row_values (map (\<lambda>x. prefix_indices (m_store M x)) xs) (ext_lens (m_store M) xs) locs) {..<length xs}
        ((m_pool M)\<lparr>free_slots := drop k (free_slots (m_pool M))\<rparr>),
      m_alloc = a\<rparr>"

lemma row_values_length:
  assumes "i < length xs" "length locs = sum_list (ext_lens h xs)" "length (prefix_indices (h (xs ! i))) \<le> length (fill_ids (h (xs ! i)))"
  shows "length (row_values (map (\<lambda>x. prefix_indices (h x)) xs) (ext_lens h xs) locs i) = length (fill_ids (h (xs ! i)))"
proof -
  have "sum_list (take i (ext_lens h xs)) + ext_lens h xs ! i \<le> length locs"
    using sum_take_nat [of i "ext_lens h xs"] assms(1,2) by (simp add: ext_lens_def)
  moreover have "ext_lens h xs ! i = length (fill_ids (h (xs ! i))) - length (prefix_indices (h (xs ! i)))"
    using assms(1) by (simp add: ext_lens_def)
  ultimately show ?thesis using assms(1,3) by (simp add: row_values_def slice_def)
qed

lemma extended_owned:
  assumes rd: "distinct (map (\<lambda>y. the (f y)) xs)" and len: "length locs = sum_list (ext_lens (m_store M) xs)"
    and i: "i < length xs" and ok: "length (prefix_indices (m_store M (xs ! i))) \<le> length (fill_ids (m_store M (xs ! i)))"
    "length (fill_ids (m_store M (xs ! i))) \<le> max_context_len (m_pool M)"
  shows "owned (extended_mem M xs f k locs a) (xs ! i) = prefix_indices (m_store M (xs ! i)) @
    slice locs (sum_list (take i (ext_lens (m_store M) xs))) (sum_list (take i (ext_lens (m_store M) xs)) + ext_lens (m_store M) xs ! i)"
proof -
  let ?vals = "row_values (map (\<lambda>x. prefix_indices (m_store M x)) xs) (ext_lens (m_store M) xs) locs"
  have l: "length (?vals i) = length (fill_ids (m_store M (xs ! i)))" by (rule row_values_length [OF i len ok(1)])
  have "req_to_token (m_pool (extended_mem M xs f k locs a)) (the (f (xs ! i))) j = ?vals i ! j" if "j < length (?vals i)" for j
    using rows_written_cell [OF rd, of i "{..<length xs}"] i that by (simp add: extended_mem_def)
  then have "owned (extended_mem M xs f k locs a) (xs ! i) = ?vals i"
    unfolding owned_def row_of_def rt_slice_def using i l ok(2) by (intro nth_equalityI) (simp_all add: extended_mem_def extended_def)
  then show ?thesis using i by (simp add: row_values_def)
qed

lemma extend_keeps_inv:
  assumes inv: "kv_inv T R live M" and d: "distinct xs" and ok: "\<forall>x \<in> set xs. extend_ok live M x"
    and keep: "\<forall>y. y \<notin> set new \<longrightarrow> f y = req_pool_idx (m_store M y)" and some: "\<forall>y \<in> set live \<union> set xs. f y \<noteq> None"
    and rows: "mset (drop k (free_slots (m_pool M))) + mset (map (\<lambda>y. the (f y)) (live @ new)) = R"
    and new: "new = filter (\<lambda>x. x \<notin> set live) xs"
    and len: "length locs = sum_list (ext_lens (m_store M) xs)"
    and a: "allocator_ok a" "page_size a = 1" "num_pages a = num_pages (m_alloc M)"
      "avail_slots a + pending_slots a + mset locs = avail_slots (m_alloc M) + pending_slots (m_alloc M)"
  shows "kv_inv T R (live @ new) (extended_mem M xs f k locs a)"
    and "distinct (map (\<lambda>y. the (f y)) xs)" and "\<forall>x \<in> set xs. the (f x) < rt_size (m_pool M)"
proof -
  let ?N = "extended_mem M xs f k locs a" and ?e = "ext_lens (m_store M) xs"
  have xs: "set xs \<subseteq> set (live @ new)" by (auto simp: new)
  have R: "\<forall>i. count R i \<le> 1" "\<forall>i \<in># R. i < rt_size (m_pool M)" using inv by (auto simp: kv_inv_def rows_balanced_def)
  have "\<forall>i. count (mset (drop k (free_slots (m_pool M))) + mset (map (\<lambda>y. the (f y)) (live @ new))) i \<le> 1"
    unfolding rows by (rule R(1))
  then have dl: "distinct (map (\<lambda>y. the (f y)) (live @ new))" by (intro count_le_1_distinct count_le_1_mono)
  then have inj: "inj_on (\<lambda>y. the (f y)) (set (live @ new))" by (simp only: distinct_map)
  show rd: "distinct (map (\<lambda>y. the (f y)) xs)" using d inj_on_subset [OF inj xs] by (simp only: distinct_map)
  have "the (f x) \<in># R" if "x \<in> set (live @ new)" for x using that unfolding rows [symmetric] by auto
  then show rt: "\<forall>x \<in> set xs. the (f x) < rt_size (m_pool M)" using R(2) xs by blast
  have ld: "distinct (live @ new)" using inv d unfolding kv_inv_def new by auto
  have rw: "row_of ?N y = the (f y)" for y by (simp add: row_of_def extended_mem_def extended_def)
  have rw': "row_of ?N = (\<lambda>y. the (f y))" by (simp add: rw fun_eq_iff)
  have "free_slots (m_pool ?N) = drop k (free_slots (m_pool M))" "rt_size (m_pool ?N) = rt_size (m_pool M)"
    by (simp_all add: extended_mem_def)
  then have "rows_balanced R (live @ new) ?N" using R rows unfolding rows_balanced_def rw' by simp
  moreover have "lens_ok ?N x" if "x \<in> set (live @ new)" for x
  proof (cases "x \<in> set xs")
    case True
    then have "extend_ok live M x" "f x \<noteq> None" using ok some by simp_all
    then show ?thesis using True by (simp add: lens_ok_def extended_mem_def extended_def extend_ok_def Let_def)
  next
    case False
    then have x: "x \<in> set live" using that by (auto simp: new)
    then have "lens_ok M x" "f x \<noteq> None" using inv some by (simp_all add: kv_inv_def)
    then show ?thesis using False by (simp add: lens_ok_def extended_mem_def)
  qed
  moreover have "slots_balanced T (live @ new) ?N"
  proof (rule slots_balanced_move)
    show "slots_balanced T live M" using inv by (simp add: kv_inv_def)
    let ?B = "\<lambda>y. if y \<in> set live then owned M y else []"
    let ?cs = "map (\<lambda>i. slice locs (sum_list (take i ?e)) (sum_list (take i ?e) + ?e ! i)) [0..<length xs]"
    have same: "owned ?N y = ?B y" if "y \<in> set (live @ new) - set xs" for y
    proof -
      have y: "y \<in> set live" "y \<notin> set xs" using that by (auto simp: new)
      then have "y \<notin> set new" by (simp add: new)
      then have fy: "f y = req_pool_idx (m_store M y)" using keep by simp
      have "the (f (xs ! i)) \<noteq> the (f y)" if i: "i < length xs" for i
      proof
        assume e: "the (f (xs ! i)) = the (f y)"
        have "xs ! i = y" by (rule inj_onD [OF inj e]) (use subsetD [OF xs nth_mem [OF i]] y(1) in simp_all)
        then show False using y(2) i by auto
      qed
      then show ?thesis using y fy
        by (simp add: owned_def row_of_def rt_slice_def extended_mem_def rows_written_other)
    qed
    have grow: "owned ?N (xs ! i) = ?B (xs ! i) @ ?cs ! i" if i: "i < length xs" for i
    proof -
      have o: "extend_ok live M (xs ! i)" using ok i by simp
      then have "length (prefix_indices (m_store M (xs ! i))) \<le> length (fill_ids (m_store M (xs ! i)))"
        "length (fill_ids (m_store M (xs ! i))) \<le> max_context_len (m_pool M)" "prefix_indices (m_store M (xs ! i)) = ?B (xs ! i)"
        unfolding extend_ok_def Let_def by (blast, blast, auto split: if_splits)
      then show ?thesis using extended_owned [OF rd len i, of k a] i by simp
    qed
    have "concat ?cs = locs" using slices_concat [of ?e locs "length xs"] len by (simp add: ext_lens_def)
    moreover have "concat (map ?B (live @ new)) = concat (map (owned M) live)"
      by (simp add: new concat_eq_Nil_conv cong: map_cong)
    moreover have "mset (concat (map (owned ?N) (live @ new))) = mset (concat (map ?B (live @ new))) + mset (concat ?cs)"
      by (rule lists_grow [OF d xs ld]) (use same grow in simp_all)
    ultimately show "mset (concat (map (owned ?N) (live @ new))) + {#} = mset (concat (map (owned M) live)) + mset locs" by simp
    show "avail_slots (m_alloc ?N) + pending_slots (m_alloc ?N) + mset locs = avail_slots (m_alloc M) + pending_slots (m_alloc M) + {#}"
      using a(4) by (simp add: extended_mem_def)
  qed (use a in \<open>simp_all add: extended_mem_def\<close>)
  ultimately show "kv_inv T R (live @ new) ?N" using ld by (simp add: kv_inv_def)
qed

lemma alloc_for_extend_run:
  assumes inv: "kv_inv T R live M" and d: "distinct xs" and ok: "\<forall>x \<in> set xs. extend_ok live M x"
    and one: "length (filter (\<lambda>x. x \<in> set live) xs) \<le> 1"
    and rows: "length (filter (\<lambda>x. x \<notin> set live) xs) \<le> length (free_slots (m_pool M))"
    and mem: "sum_list (ext_lens (m_store M) xs) \<le> available_size (m_alloc M)"
    and ord: "program_order (length xs) (l_order L (length xs))"
    and b: "b_reqs b = xs" "b_prefix_lens b = map (\<lambda>x. int (length (prefix_indices (m_store M x)))) xs"
      "b_extend_lens b = map (\<lambda>x. extend_input_len (m_store M x)) xs"
      "b_seq_lens b = Some (map (\<lambda>x. int (length (fill_ids (m_store M x)))) xs)"
      "b_extend_num_tokens b = sum_list (ext_lens (m_store M) xs)"
  shows "\<exists>f k locs a. alloc_for_extend L b M = Inr (locs, map f xs, (extended_mem M xs f k locs a)\<lparr>m_store := (\<lambda>x. (m_store M x)\<lparr>req_pool_idx := f x\<rparr>)\<rparr>) \<and>
    kv_inv T R (live @ filter (\<lambda>x. x \<notin> set live) xs) (extended_mem M xs f k locs a) \<and> (\<forall>x \<in> set xs. f x \<noteq> None) \<and>
    (\<forall>x. x \<notin> set xs \<longrightarrow> f x = req_pool_idx (m_store M x)) \<and> length locs = sum_list (ext_lens (m_store M) xs)"
proof -
  let ?h = "m_store M" and ?p = "m_pool M" and ?new = "filter (\<lambda>x. x \<notin> set live) xs" and ?e = "ext_lens (m_store M) xs"
  obtain f where f: "alloc_req_slots ?p ?h xs = Inr (map f xs, ?p\<lparr>free_slots := drop (length ?new) (free_slots ?p)\<rparr>, \<lambda>x. (?h x)\<lparr>req_pool_idx := f x\<rparr>)"
    "\<forall>y. y \<notin> set ?new \<longrightarrow> f y = req_pool_idx (?h y)" "\<forall>y \<in> set live \<union> set xs. f y \<noteq> None"
    "mset (drop (length ?new) (free_slots ?p)) + mset (map (\<lambda>y. the (f y)) (live @ ?new)) = R"
    using extend_rows [OF inv d ok one rows] by blast
  have al: "allocator_ok (m_alloc M)" "page_size (m_alloc M) = 1" using inv by (simp_all add: kv_inv_def slots_balanced_def)
  obtain locs a where a: "alloc_token_slots (m_alloc M) (sum_list ?e) = Inr (locs, a)" "length locs = sum_list ?e" "allocator_ok a" "page_size a = 1"
    "num_pages a = num_pages (m_alloc M)" "avail_slots a + pending_slots a + mset locs = avail_slots (m_alloc M) + pending_slots (m_alloc M)"
    using alloc_token_slots_ok [OF al mem] by blast
  note keeps = extend_keeps_inv [OF inv d ok f(2-4) refl a(2-6)]
  let ?rws = "map (\<lambda>y. the (f y)) xs" and ?pre = "map (\<lambda>x. prefix_indices (?h x)) xs"
  have o: "length (prefix_indices (?h x)) \<le> length (fill_ids (?h x))" "length (fill_ids (?h x)) \<le> max_context_len ?p"
    "nat (extend_input_len (?h x)) = length (fill_ids (?h x)) - length (prefix_indices (?h x))" if "x \<in> set xs" for x
    using ok that by (simp_all add: extend_ok_def Let_def nat_minus_as_int)
  have e: "map nat (b_extend_lens b) = ?e" using o(3) by (simp add: b ext_lens_def)
  let ?p1 = "?p\<lparr>free_slots := drop (length ?new) (free_slots ?p)\<rparr>"
  have "write_args ?rws (map nat (b_prefix_lens b)) (map nat (map (\<lambda>x. int (length (fill_ids (?h x)))) xs)) ?e ?pre locs ?p1"
    using keeps(2,3) o(1,2) a(2) by (simp add: write_args_def b ext_lens_def)
  then have w: "write_cache_indices L locs ?rws (map nat (b_prefix_lens b)) (map nat (map (\<lambda>x. int (length (fill_ids (?h x)))) xs)) ?e ?pre ?p1 =
      Inr (rows_written ?rws (row_values ?pre ?e locs) {..<length xs} ?p1)"
    using write_cache_indices_spec [of ?rws] ord by simp
  have "map the (map f xs) = ?rws" by simp
  then have "alloc_for_extend L b M = Inr (locs, map f xs, (extended_mem M xs f (length ?new) locs a)\<lparr>m_store := (\<lambda>x. (?h x)\<lparr>req_pool_idx := f x\<rparr>)\<rparr>)"
    unfolding alloc_for_extend_def e Let_def b(1,4,5) option.case f(1) al(2) bind_result.simps prod.case a(1) simp_thms if_True
    using w by (simp add: extended_mem_def o_def)
  moreover have "\<forall>x. x \<notin> set xs \<longrightarrow> f x = req_pool_idx (?h x)" using f(2) by simp
  ultimately show ?thesis using keeps(1) f(3) a(2) by (intro exI [of _ f] exI [of _ "length ?new"] exI [of _ locs] exI [of _ a]) simp
qed

lemma prepare_for_extend_keeps:
  assumes inv: "kv_inv T R live M" and d: "distinct xs" and ok: "\<forall>x \<in> set xs. extend_ok live M x"
    and one: "length (filter (\<lambda>x. x \<in> set live) xs) \<le> 1"
    and rows: "length (filter (\<lambda>x. x \<notin> set live) xs) \<le> length (free_slots (m_pool M))"
    and mem: "sum_list (ext_lens (m_store M) xs) \<le> available_size (m_alloc M)"
    and ord: "program_order (length xs) (l_order L (length xs))"
  shows "\<exists>b' M'. prepare_for_extend L ed vocab (init_new (m_store M) xs overlap chunked) M = Inr (b', M') \<and>
    kv_inv T R (live @ filter (\<lambda>x. x \<notin> set live) xs) M' \<and> represents ed (m_store M') b' \<and> b_reqs b' = xs \<and>
    b_input_ids b' = Some (concat (map (\<lambda>x. drop (length (prefix_indices (m_store M x))) (fill_ids (m_store M x))) xs)) \<and>
    (\<forall>y. y \<notin> set xs \<longrightarrow> m_store M' y = m_store M y) \<and>
    (\<forall>x \<in> set xs. m_store M' x = extended (req_pool_idx (m_store M' x)) (m_store M x))"
proof -
  let ?h = "m_store M" and ?b = "init_new (m_store M) xs overlap chunked"
  let ?ids = "map (\<lambda>r. drop (length (prefix_indices r)) (fill_ids r)) (map ?h xs)"
  let ?sl = "map (\<lambda>x. int (length (fill_ids (?h x)))) xs"
  let ?b1 = "?b\<lparr>b_forward_mode := Some EXTEND, b_prefix_lens := map (\<lambda>r. int (length (prefix_indices r))) (map ?h xs),
    b_extend_lens := map extend_input_len (map ?h xs), b_seq_lens := Some ?sl, b_seq_lens_cpu := Some ?sl, b_extend_num_tokens := length (concat ?ids)\<rparr>"
  have bx: "b_reqs ?b = xs" by (simp add: init_new_def new_batch_def)
  have n: "length (concat ?ids) = sum_list (ext_lens ?h xs)" by (simp add: length_concat ext_lens_def o_def)
  have sl: "map (\<lambda>r. int (length (fill_ids r))) (map ?h xs) = ?sl" by simp
  obtain f k locs a where run: "alloc_for_extend L ?b1 M = Inr (locs, map f xs, (extended_mem M xs f k locs a)\<lparr>m_store := (\<lambda>x. (?h x)\<lparr>req_pool_idx := f x\<rparr>)\<rparr>)"
    and N: "kv_inv T R (live @ filter (\<lambda>x. x \<notin> set live) xs) (extended_mem M xs f k locs a)" and f: "\<forall>x \<in> set xs. f x \<noteq> None"
      "\<forall>x. x \<notin> set xs \<longrightarrow> f x = req_pool_idx (?h x)"
    using alloc_for_extend_run [OF inv d ok one rows mem ord, of ?b1] n bx by (simp add: o_def) blast
  define h2 where "h2 = (\<lambda>y. if y \<in> set xs then extended (f y) (?h y) else (?h y)\<lparr>req_pool_idx := f y\<rparr>)"
  have "extend_reqs xs (map f xs) (\<lambda>x. (?h x)\<lparr>req_pool_idx := f x\<rparr>) =
      Inr (\<lambda>y. if y \<in> set xs then extended (f y) ((?h y)\<lparr>req_pool_idx := f y\<rparr>) else (?h y)\<lparr>req_pool_idx := f y\<rparr>)"
    by (rule extend_reqs_spec [OF d]) (use ok in \<open>simp add: extend_ok_def Let_def\<close>)
  also have "(\<lambda>y. if y \<in> set xs then extended (f y) ((?h y)\<lparr>req_pool_idx := f y\<rparr>) else (?h y)\<lparr>req_pool_idx := f y\<rparr>) = h2"
    by (simp add: h2_def fun_eq_iff extended_def)
  finally have er: "extend_reqs xs (map f xs) (\<lambda>x. (?h x)\<lparr>req_pool_idx := f x\<rparr>) = Inr h2" .
  have st: "m_store (extended_mem M xs f k locs a) = h2" by (simp add: extended_mem_def h2_def)
  then have mm: "(extended_mem M xs f k locs a)\<lparr>m_store := h2\<rparr> = extended_mem M xs f k locs a" by (metis mem.surjective mem.update_convs(1) mem.select_convs(1))
  have h2: "\<forall>x \<in> set xs. h2 x = extended (f x) (?h x)" "\<forall>y. y \<notin> set xs \<longrightarrow> h2 y = ?h y" using f(2) by (simp_all add: h2_def)
  define b' where "b' = ?b1\<lparr>b_input_ids := Some (concat ?ids), b_req_pool_indices := Some (map the (map f xs)),
    b_orig_seq_lens := Some (map (\<lambda>r. int (max (length (fill_ids r)) (length (origin_input_ids r)))) (map ?h xs)),
    b_out_cache_loc := Some locs, b_seq_lens_sum := sum_list ?sl,
    b_top_logprobs_nums := (if b_return_logprob ?b then Some (map top_logprobs_num (map h2 xs)) else b_top_logprobs_nums ?b),
    b_token_ids_logprobs := (if b_return_logprob ?b then Some (map token_ids_logprob (map h2 xs)) else b_token_ids_logprobs ?b),
    b_extend_logprob_start_lens := map extend_logprob_start_len (map h2 xs),
    b_extend_input_logprob_token_ids := (if b_return_logprob ?b
      then Some (map (\<lambda>t. min (max t 0) (vocab - 1)) (concat (map input_logprob_token_ids (map h2 xs)))) else None),
    b_sampling_info := Some (from_schedule_batch ed (map h2 xs))\<rparr>"
  have "prepare_for_extend L ed vocab ?b M = Inr (b', extended_mem M xs f k locs a)"
    unfolding prepare_for_extend_def Let_def bx sl run bind_result.simps prod.case b'_def
    using er mm by simp
  moreover have "represents ed h2 b'" "b_reqs b' = xs"
    by (rule extend_represents [where b' = b' and fm = "Some EXTEND" and pl = "map (\<lambda>r. int (length (prefix_indices r))) (map ?h xs)"
          and el = "map extend_input_len (map ?h xs)" and en = "length (concat ?ids)" and ids = "Some (concat ?ids)"
          and os = "map (\<lambda>r. int (max (length (fill_ids r)) (length (origin_input_ids r)))) (map ?h xs)" and ol = "Some locs"
          and ls = "map extend_logprob_start_len (map h2 xs)" and overlap = overlap and chunked = chunked
          and li = "b_extend_input_logprob_token_ids b'", OF refl h2(1) f(1)], simp,
        rule schedule_batch.equality; simp add: b'_def o_def)+
  moreover have "b_input_ids b' = Some (concat ?ids)" by (simp add: b'_def)
  moreover have "h2 x = extended (req_pool_idx (h2 x)) (?h x)" if "x \<in> set xs" for x using that h2(1) by (simp add: extended_def)
  ultimately show ?thesis using N h2(2) st by (intro exI [of _ b'] exI [of _ "extended_mem M xs f k locs a"]) (simp add: o_def)
qed

end
