(* ===== verification/KV_Conservation.thy ===== *)
theory KV_Conservation
  imports KV_Extend Serving
begin

text \<open>
  Conservation of KV memory over the processing of batch results: every slot of the pool is free,
  waiting in the allocator's free group, or owned by exactly one request that holds a row of the
  request-to-token table, and the same for the rows.  The processing of a decode batch, with
  verification, rollback and release, keeps this, and so does the processing of a prefill batch.
\<close>

section \<open>The balance of the scheduler\<close>

definition mem_of :: "sched \<Rightarrow> mem" where
  "mem_of S = \<lparr>m_store = sc_store S, m_pool = s_pool (sc_sys S), m_alloc = s_alloc (sc_sys S)\<rparr>"

text \<open>The requests that hold a row of the table.\<close>

definition holders :: "store \<Rightarrow> ref list \<Rightarrow> ref list" where
  "holders h refs = filter (\<lambda>x. req_pool_idx (h x) \<noteq> None) refs"

text \<open>The allocator is collecting what is freed (\<open>g\<close> is false) or not.\<close>

definition kv_balanced :: "bool \<Rightarrow> slot multiset \<Rightarrow> nat multiset \<Rightarrow> ref list \<Rightarrow> sched \<Rightarrow> bool" where
  "kv_balanced g T R refs S \<longleftrightarrow> distinct refs \<and> is_not_in_free_group (s_alloc (sc_sys S)) = g \<and> kv_inv T R (holders (sc_store S) refs) (mem_of S)"

definition kv_same :: "req \<Rightarrow> req \<Rightarrow> bool" where
  "kv_same r r' \<longleftrightarrow>
     req_pool_idx r' = req_pool_idx r \<and> kv_committed_len r' = kv_committed_len r \<and> kv_allocated_len r' = kv_allocated_len r \<and>
     kv_committed_freed r' = kv_committed_freed r \<and> kv_overallocated_freed r' = kv_overallocated_freed r"

lemma kv_same_refl [simp, intro]: "kv_same r r"
  by (simp add: kv_same_def)

lemma kv_same_trans [trans]: "kv_same r r' \<Longrightarrow> kv_same r' r'' \<Longrightarrow> kv_same r r''"
  by (simp add: kv_same_def)

lemma kv_inv_cong:
  assumes inv: "kv_inv T R live M" and same: "\<forall>x \<in> set live. kv_same (m_store M x) (m_store N x)"
    and p: "m_pool N = m_pool M" and a: "m_alloc N = m_alloc M"
  shows "kv_inv T R live N"
proof -
  have row: "row_of N x = row_of M x" if "x \<in> set live" for x using same that by (simp add: row_of_def kv_same_def)
  have own: "owned N x = owned M x" if "x \<in> set live" for x
    using same that row [OF that] by (simp add: owned_def p kv_same_def)
  have "map (owned N) live = map (owned M) live" "map (row_of N) live = map (row_of M) live"
    by (intro map_cong refl own row; assumption)+
  then have "slots_balanced T live N = slots_balanced T live M" "rows_balanced R live N = rows_balanced R live M"
    by (simp_all only: slots_balanced_def rows_balanced_def p a)
  moreover have "lens_ok N x = lens_ok M x" if "x \<in> set live" for x
    using same that unfolding lens_ok_def p kv_same_def by simp
  ultimately show ?thesis using inv by (simp add: kv_inv_def)
qed

lemma kv_balanced_cong:
  assumes inv: "kv_balanced g T R refs S" and same: "\<forall>x \<in> set refs. kv_same (sc_store S x) (sc_store S' x)"
    and p: "s_pool (sc_sys S') = s_pool (sc_sys S)" "s_alloc (sc_sys S') = s_alloc (sc_sys S)"
  shows "kv_balanced g T R refs S'"
proof -
  have "holders (sc_store S') refs = holders (sc_store S) refs"
    unfolding holders_def using same by (intro filter_cong) (simp_all add: kv_same_def)
  moreover have "kv_inv T R (holders (sc_store S) refs) (mem_of S')"
    by (rule kv_inv_cong [where M = "mem_of S"]) (use inv same p in \<open>simp_all add: kv_balanced_def mem_of_def holders_def\<close>)
  ultimately show ?thesis using inv p(2) by (simp add: kv_balanced_def)
qed

section \<open>Single steps\<close>

lemma holders_remove:
  assumes "distinct refs" "req_pool_idx r = None"
  shows "holders (h(x := r)) refs = remove1 x (holders h refs)"
proof -
  have "remove1 x (holders h refs) = filter (\<lambda>y. x \<noteq> y) (holders h refs)"
    using assms(1) by (simp add: distinct_remove1_removeAll removeAll_filter_not_eq holders_def)
  then show ?thesis using assms(2) by (auto simp: holders_def intro!: filter_cong)
qed

lemma release_kv_cache_group:
  assumes "release_kv_cache spec p a r = Inr (p', a', r')"
  shows "is_not_in_free_group a' = is_not_in_free_group a"
proof -
  have f: "is_not_in_free_group b = is_not_in_free_group a" if "free a xs = Inr b" for a b xs using free_frame [OF that] by simp
  obtain a1 r1 where c: "chunk_cache_finished_req p a r = Inr (a1, r1)"
    using assms by (auto simp: release_kv_cache_def split: option.splits)
  have "is_not_in_free_group a1 = is_not_in_free_group a"
    using c by (auto simp: chunk_cache_finished_req_def Let_def split: option.splits if_splits dest: f)
  moreover have "is_not_in_free_group a' = is_not_in_free_group a1"
    using assms c by (auto simp: release_kv_cache_def Let_def rt_free_def split: option.splits if_splits dest: f)
  ultimately show ?thesis by simp
qed

lemma kv_balanced_release:
  assumes inv: "kv_balanced g T R refs S" and x: "x \<in> set refs" and run: "release_req x S = Inr S'"
  shows "kv_balanced g T R refs S'"
proof -
  let ?live = "holders (sc_store S) refs" and ?M = "mem_of S"
  have d: "distinct refs" and k: "kv_inv T R ?live ?M" using inv by (simp_all add: kv_balanced_def)
  obtain p a r where rel: "release_kv_cache False (s_pool (sc_sys S)) (s_alloc (sc_sys S)) (sc_store S x) = Inr (p, a, r)"
    and S': "S' = put_req x (r\<lparr>completed := True\<rparr>) (S\<lparr>sc_sys := (sc_sys S)\<lparr>s_pool := p, s_alloc := a\<rparr>\<rparr>)"
    using run by (auto simp: release_req_def)
  have "req_pool_idx (sc_store S x) \<noteq> None" using rel by (auto simp: release_kv_cache_def split: option.splits)
  then have "x \<in> set ?live" using x by (simp add: holders_def)
  from release_keeps [OF k this] rel have n: "req_pool_idx r = None"
    and inv': "\<forall>r. kv_inv T R (remove1 x ?live) \<lparr>m_store = (sc_store S)(x := r), m_pool = p, m_alloc = a\<rparr>"
    by (auto simp: mem_of_def)
  have "holders (sc_store S') refs = remove1 x ?live" using holders_remove [OF d, of "r\<lparr>completed := True\<rparr>"] n by (simp add: S')
  moreover have "mem_of S' = \<lparr>m_store = (sc_store S)(x := r\<lparr>completed := True\<rparr>), m_pool = p, m_alloc = a\<rparr>"
    by (simp add: mem_of_def S')
  moreover have "is_not_in_free_group (s_alloc (sc_sys S')) = g"
    using release_kv_cache_group [OF rel] inv by (simp add: S' kv_balanced_def)
  ultimately show ?thesis using d inv' by (simp add: kv_balanced_def)
qed

lemma finish_step_kv: "finish_step r r' \<Longrightarrow> kv_same r r'"
  by (auto simp: finish_step_def kv_same_def)

lemma append_output_logprobs_kv:
  assumes "append_output_logprobs lg i t r = Inr r'"
  shows "kv_same r r'"
  using assms
  by (auto simp: append_output_logprobs_def append_token_logprob_def append_top_logprobs_def append_token_ids_logprobs_def kv_same_def
      Let_def split: option.splits if_splits)

lemma update_where_kv:
  assumes "\<And>r. kv_same r (f r)"
  shows "kv_same (h x) (update_where P f xs h x)"
proof (induction xs arbitrary: h)
  case (Cons y ys)
  have "kv_same (h x) ((if P (h y) then h(y := f (h y)) else h) x)" using assms by auto
  with Cons.IH [of "if P (h y) then h(y := f (h y)) else h"] show ?case
    by (auto simp: update_where_def intro: kv_same_trans)
qed (simp add: update_where_def)

lemma abort_request_kv:
  "kv_same (sc_store S x) (sc_store (abort_request b i S) x)"
  "s_pool (sc_sys (abort_request b i S)) = s_pool (sc_sys S)" "s_alloc (sc_sys (abort_request b i S)) = s_alloc (sc_sys S)"
proof -
  have "kv_same r (set_finish_with_abort m r)" "kv_same r (r\<lparr>to_finish := f\<rparr>)" for r m f
    by (simp_all add: set_finish_with_abort_def kv_same_def)
  then show "kv_same (sc_store S x) (sc_store (abort_request b i S) x)"
    unfolding abort_request_def Let_def by (simp, intro kv_same_trans [OF update_where_kv update_where_kv])
qed (simp_all add: abort_request_def Let_def)

lemma accept_grammar_kv:
  assumes "accept_grammar E y t S = Inr S'"
  shows "kv_same (sc_store S x) (sc_store S' x)" "s_pool (sc_sys S') = s_pool (sc_sys S)" "s_alloc (sc_sys S') = s_alloc (sc_sys S)"
proof -
  have g: "kv_same r (r'\<lparr>grammar := z\<rparr>) = kv_same r r'" for r r' z by (simp add: kv_same_def)
  have "kv_same (sc_store S x) (sc_store S' x) \<and> s_pool (sc_sys S') = s_pool (sc_sys S) \<and> s_alloc (sc_sys S') = s_alloc (sc_sys S)"
    using accept_grammar_cases [OF assms] abort_request_kv [where S = S]
    by (cases "x = y") (auto simp: g)
  then show "kv_same (sc_store S x) (sc_store S' x)" "s_pool (sc_sys S') = s_pool (sc_sys S)" "s_alloc (sc_sys S') = s_alloc (sc_sys S)"
    by blast+
qed

section \<open>The decode loop\<close>

lemma kv_balanced_put:
  assumes "kv_balanced g T R refs S" "kv_same (sc_store S x) r"
  shows "kv_balanced g T R refs (put_req x r S)"
  by (rule kv_balanced_cong [OF assms(1)]) (use assms(2) in auto)

lemma process_decode_req_kv:
  assumes run: "process_decode_req C E rl lg i y t S = Inr S'" and inv: "kv_balanced g T R refs S" and y: "y \<in> set refs"
  shows "kv_balanced g T R refs S'" "x \<noteq> y \<or> verified_later C (sc_store S y) \<Longrightarrow> kv_same (sc_store S x) (sc_store S' x)"
proof -
  let ?r = "sc_store S y" and ?later = "verified_later C (sc_store S y)"
  let ?r1 = "?r\<lparr>output_ids := output_ids ?r @ [t]\<rparr>"
  have "kv_balanced g T R refs S' \<and> (x \<noteq> y \<or> ?later \<longrightarrow> kv_same (sc_store S x) (sc_store S' x))"
  proof (cases "enable_overlap C \<and> (finished ?r \<or> is_retracted ?r)")
    case True
    then show ?thesis using run inv by (simp add: process_decode_req_def Let_def)
  next
    case False
    obtain r2 r3 S1 S2 where s:
      "(if ?later \<and> return_logprob ?r \<and> rl then append_output_logprobs lg i t ?r1 else Inr ?r1) = Inr r2"
      "check_finished E 1 r2 = Inr r3"
      "(if finished r3 \<and> \<not> ?later then release_req y (put_req y r3 S) else Inr (put_req y r3 S)) = Inr S1"
      "(if return_logprob ?r \<and> \<not> ?later
        then (if rl then bind_result (append_output_logprobs lg i t (sc_store S1 y)) (\<lambda>r4. Inr (put_req y r4 S1))
              else Inl UnboundLocalError)
        else Inr S1) = Inr S2"
      "accept_grammar E y t S2 = Inr S'"
      using run False by (auto simp: process_decode_req_def Let_def simp del: bind_result.simps)
    have "kv_same ?r ?r1" by (simp add: kv_same_def)
    also have "kv_same ?r1 r2" using s(1) append_output_logprobs_kv by (auto split: if_splits)
    also have "kv_same r2 r3" by (rule finish_step_kv [OF check_finished_step [OF s(2)]])
    finally have r3: "kv_same ?r r3" .
    have b3: "kv_balanced g T R refs (put_req y r3 S)" by (rule kv_balanced_put [OF inv r3])
    then have b1: "kv_balanced g T R refs S1" using s(3) kv_balanced_release [OF b3 y] by (auto split: if_splits)
    have h1: "x \<noteq> y \<or> ?later \<longrightarrow> kv_same (sc_store S x) (sc_store S1 x)"
      using s(3) r3 release_req_spec(1) [of y "put_req y r3 S" S1] by (cases "x = y") (auto split: if_splits)
    have b2: "kv_balanced g T R refs S2" "x \<noteq> y \<or> ?later \<longrightarrow> kv_same (sc_store S1 x) (sc_store S2 x)"
      using s(4) b1 kv_balanced_put [OF b1 append_output_logprobs_kv] by (auto split: if_splits)
    have "kv_balanced g T R refs S'"
      by (rule kv_balanced_cong [OF b2(1)]) (use accept_grammar_kv [OF s(5)] in auto)
    then show ?thesis using h1 b2(2) accept_grammar_kv(1) [OF s(5), of x] by (auto intro: kv_same_trans)
  qed
  then show "kv_balanced g T R refs S'" "x \<noteq> y \<or> ?later \<Longrightarrow> kv_same (sc_store S x) (sc_store S' x)" by blast+
qed

lemma process_decode_loop_kv:
  assumes "process_decode_loop C E rl lg i zs S = Inr S'" "kv_balanced g T R refs S" "set (map fst zs) \<subseteq> set refs"
  shows "kv_balanced g T R refs S' \<and>
    (\<forall>x. x \<notin> set (map fst zs) \<or> verified_later C (sc_store S x) \<longrightarrow> kv_same (sc_store S x) (sc_store S' x))"
  using assms
proof (induction zs arbitrary: S i)
  case (Cons z zs)
  obtain y t where z: "z = (y, t)" by fastforce
  obtain S1 where p1: "process_decode_req C E rl lg i y t S = Inr S1"
    and p2: "process_decode_loop C E rl lg (Suc i) zs S1 = Inr S'" using Cons.prems(1) by (auto simp: z)
  have y: "y \<in> set refs" using Cons.prems(3) by (simp add: z)
  note b1 = process_decode_req_kv [OF p1 Cons.prems(2) y]
  have ih: "kv_balanced g T R refs S'"
    "\<And>x. x \<notin> set (map fst zs) \<or> verified_later C (sc_store S1 x) \<Longrightarrow> kv_same (sc_store S1 x) (sc_store S' x)"
    using Cons.IH [OF p2 b1(1)] Cons.prems(3) by auto
  have "kv_same (sc_store S x) (sc_store S' x)" if "x \<notin> set (map fst (z # zs)) \<or> verified_later C (sc_store S x)" for x
  proof -
    have "verified_later C (sc_store S1 x) = verified_later C (sc_store S x)"
      using process_decode_req_identity [OF p1, of x] by (simp add: identity_def verified_later_def)
    then show ?thesis using b1(2) [of x] ih(2) [of x] that by (auto simp: z intro: kv_same_trans)
  qed
  then show ?case using ih(1) by blast
qed simp

section \<open>Verification, rollback and release\<close>

text \<open>A request whose KV length is the length of its sequence without the last token, before and after a rollback
  of \<open>n\<close> tokens.\<close>

definition kv_ahead :: "int \<Rightarrow> req \<Rightarrow> bool" where
  "kv_ahead n r \<longleftrightarrow> output_ids r \<noteq> [] \<and> kv_allocated_len r = int (seqlen r) - 1 + n"

lemma holders_put [simp]:
  "req_pool_idx r = req_pool_idx (h x) \<Longrightarrow> holders (h(x := r)) refs = holders h refs"
  unfolding holders_def by (intro filter_cong) auto

lemma free_rolled_back_req_kv:
  assumes inv: "kv_balanced g T R refs S" and x: "x \<in> set refs" "req_pool_idx (sc_store S x) \<noteq> None"
    and n: "0 < n" "kv_ahead n (sc_store S x)"
  shows "\<exists>S'. free_rolled_back_req x n S = Inr S' \<and> kv_balanced g T R refs S' \<and> kv_ahead 0 (sc_store S' x) \<and>
    req_pool_idx (sc_store S' x) = req_pool_idx (sc_store S x) \<and> (\<forall>y. y \<noteq> x \<longrightarrow> sc_store S' y = sc_store S y)"
proof -
  let ?r = "sc_store S x" and ?M = "mem_of S" and ?live = "holders (sc_store S) refs"
  let ?r' = "?r\<lparr>kv_committed_len := kv_committed_len ?r - n, kv_allocated_len := kv_allocated_len ?r - n,
    decode_batch_idx := decode_batch_idx ?r - n\<rparr>"
  have k: "kv_inv T R ?live ?M" using inv by (simp add: kv_balanced_def)
  have xl: "x \<in> set ?live" using x by (simp add: holders_def)
  obtain row where row: "req_pool_idx ?r = Some row" using x(2) by blast
  have l: "lens_ok ?M x" using k xl by (simp add: kv_inv_def)
  have M: "m_store ?M = sc_store S" "m_pool ?M = s_pool (sc_sys S)" "m_alloc ?M = s_alloc (sc_sys S)" by (simp_all add: mem_of_def)
  have len: "kv_allocated_len ?r - n = int (length (origin_input_ids ?r) + (length (output_ids ?r) - 1))"
    using n(2) by (cases "output_ids ?r") (simp_all add: kv_ahead_def seqlen_def)
  let ?start = "length (origin_input_ids ?r) + (length (output_ids ?r) - 1)"
  have nk: "0 \<le> n" "n \<le> kv_allocated_len (m_store ?M x)" using n(1) len M by simp_all
  let ?gone = "rt_slice (m_pool ?M) (row_of ?M x) (nat (kv_allocated_len (m_store ?M x) - n)) (nat (kv_allocated_len (m_store ?M x)))"
  have idx: "nat (kv_allocated_len (m_store ?M x) - n) = ?start" "nat (kv_allocated_len (m_store ?M x)) = ?start + nat n"
    using len n(1) M by simp_all
  have g: "?gone = rt_slice (s_pool (sc_sys S)) row ?start (?start + nat n)"
    unfolding idx by (simp add: M row_of_def row)
  have r': "kv_allocated_len ?r' = kv_allocated_len (m_store ?M x) - n" "kv_committed_len ?r' = kv_committed_len (m_store ?M x) - n"
    "req_pool_idx ?r' = req_pool_idx (m_store ?M x)" "\<not> kv_committed_freed ?r'" "\<not> kv_overallocated_freed ?r'"
    using l M by (simp_all add: lens_ok_def)
  note tk = truncate_keeps [OF k xl nk r', unfolded g]
  obtain a' where a': "free (m_alloc ?M) (rt_slice (s_pool (sc_sys S)) row ?start (?start + nat n)) = Inr a'"
    "kv_inv T R ?live (?M\<lparr>m_store := (m_store ?M)(x := ?r'), m_alloc := a'\<rparr>)" using tk(3) by blast
  have v: "filter (\<lambda>s. s \<noteq> 0) (rt_slice (s_pool (sc_sys S)) row ?start (?start + nat n)) = rt_slice (s_pool (sc_sys S)) row ?start (?start + nat n)"
    using tk(1) by (simp add: filter_id_conv list_all_iff)
  have ne: "rt_slice (s_pool (sc_sys S)) row ?start (?start + nat n) \<noteq> []"
  proof
    assume "rt_slice (s_pool (sc_sys S)) row ?start (?start + nat n) = []"
    with tk(2) have "nat n = 0" by (simp only: list.size)
    then show False using n(1) by simp
  qed
  let ?S' = "put_req x ?r' (set_alloc a' S)"
  have run: "free_rolled_back_req x n S = Inr ?S'"
    using a'(1) ne v row by (simp add: free_rolled_back_req_def Let_def M)
  have "mem_of ?S' = ?M\<lparr>m_store := (m_store ?M)(x := ?r'), m_alloc := a'\<rparr>" by (simp add: mem_of_def put_req_def set_alloc_def)
  moreover have "holders (sc_store ?S') refs = ?live" by simp
  moreover have "is_not_in_free_group (s_alloc (sc_sys ?S')) = g"
    using free_frame [OF a'(1)] inv by (simp add: M kv_balanced_def put_req_def set_alloc_def)
  ultimately have "kv_balanced g T R refs ?S'" using inv a'(2) unfolding kv_balanced_def by simp
  moreover have "kv_ahead 0 (sc_store ?S' x)" using n(2) by (simp add: kv_ahead_def seqlen_def)
  ultimately show ?thesis using run by (intro exI [of _ ?S']) simp
qed

lemma free_rolled_back_kv:
  assumes "kv_balanced g T R refs S" "distinct (map fst res)"
    and "\<forall>(x, n) \<in> set res. x \<in> set refs \<and> req_pool_idx (sc_store S x) \<noteq> None \<and> 0 < n \<and> kv_ahead n (sc_store S x)"
  shows "\<exists>S'. free_rolled_back res S = Inr S' \<and> kv_balanced g T R refs S' \<and>
    (\<forall>x \<in> set (map fst res). kv_ahead 0 (sc_store S' x) \<and> req_pool_idx (sc_store S' x) = req_pool_idx (sc_store S x)) \<and>
    (\<forall>y. y \<notin> set (map fst res) \<longrightarrow> sc_store S' y = sc_store S y)"
  using assms
proof (induction res arbitrary: S)
  case (Cons z res)
  obtain x n where z: "z = (x, n)" by fastforce
  obtain S1 where S1: "free_rolled_back_req x n S = Inr S1" "kv_balanced g T R refs S1" "kv_ahead 0 (sc_store S1 x)"
    "req_pool_idx (sc_store S1 x) = req_pool_idx (sc_store S x)" "\<forall>y. y \<noteq> x \<longrightarrow> sc_store S1 y = sc_store S y"
    using free_rolled_back_req_kv [OF Cons.prems(1), of x n] Cons.prems(3) by (auto simp: z)
  have nx: "x \<notin> set (map fst res)" using Cons.prems(2) by (simp add: z)
  have "\<forall>(y, m) \<in> set res. y \<in> set refs \<and> req_pool_idx (sc_store S1 y) \<noteq> None \<and> 0 < m \<and> kv_ahead m (sc_store S1 y)"
  proof (intro ballI)
    fix p assume p: "p \<in> set res"
    then have "fst p \<noteq> x" using nx by auto
    then show "case p of (y, m) \<Rightarrow> y \<in> set refs \<and> req_pool_idx (sc_store S1 y) \<noteq> None \<and> 0 < m \<and> kv_ahead m (sc_store S1 y)"
      using Cons.prems(3) p S1(5) by (cases p) (auto simp del: not_None_eq)
  qed
  then obtain S' where S': "free_rolled_back res S1 = Inr S'" "kv_balanced g T R refs S'"
    "\<forall>y \<in> set (map fst res). kv_ahead 0 (sc_store S' y) \<and> req_pool_idx (sc_store S' y) = req_pool_idx (sc_store S1 y)"
    "\<forall>y. y \<notin> set (map fst res) \<longrightarrow> sc_store S' y = sc_store S1 y"
    using Cons.IH [OF S1(2)] Cons.prems(2) by (auto simp: z)
  have "kv_ahead 0 (sc_store S' y) \<and> req_pool_idx (sc_store S' y) = req_pool_idx (sc_store S y)" if "y \<in> set (map fst (z # res))" for y
  proof (cases "y = x")
    case True
    then show ?thesis using S1(3,4) S'(4) nx by simp
  next
    case False
    then have "y \<in> set (map fst res)" using that by (simp add: z)
    from bspec [OF S'(3) this] show ?thesis using S1(5) False by simp
  qed
  then show ?case using S1 S' by (intro exI [of _ S']) (simp add: z)
qed simp

lemma cache_verified_kv:
  assumes "cache_verified E xs S = Inr S'" "kv_balanced g T R refs S" "set xs \<subseteq> set refs"
  shows "kv_balanced g T R refs S'"
  using assms
proof (induction xs arbitrary: S)
  case (Cons x xs)
  obtain S1 where S1: "cache_verified_req E x S = Inr S1" "cache_verified E xs S1 = Inr S'" using Cons.prems(1) by auto
  let ?r = "sc_store S x"
  have "kv_balanced g T R refs S1"
  proof (cases "is_retracted ?r \<or> \<not> is_deterministic ?r \<or> completed ?r")
    case True
    then show ?thesis using S1(1) Cons.prems(2) by (simp add: cache_verified_req_def)
  next
    case False
    then obtain r1 where r1: "check_finished E 1 ?r = Inr r1"
      "(if finished r1 then release_req x (put_req x r1 S) else Inr (put_req x r1 S)) = Inr S1"
      using S1(1) by (auto simp: cache_verified_req_def Let_def)
    have "kv_balanced g T R refs (put_req x r1 S)"
      by (rule kv_balanced_put [OF Cons.prems(2) finish_step_kv [OF check_finished_step [OF r1(1)]]])
    then show ?thesis using r1(2) kv_balanced_release [of g T R refs "put_req x r1 S" x S1] Cons.prems(3) by (auto split: if_splits)
  qed
  then show ?case using Cons.IH [OF S1(2)] Cons.prems(3) by simp
qed simp

text \<open>Streaming touches neither the KV counters nor the tokens.\<close>

lemma stream_req_kv:
  assumes "stream_req C E rl r = Inr (es, r')"
  shows "kv_same r r' \<and> output_ids r' = output_ids r \<and> origin_input_ids r' = origin_input_ids r"
proof -
  obtain b r1 where so: "should_output C E r = Inr (b, r1)" using assms by (auto simp: stream_req_def)
  have 1: "kv_same r r1 \<and> output_ids r1 = output_ids r \<and> origin_input_ids r1 = origin_input_ids r"
    using so by (auto simp: should_output_def kv_same_def split: if_splits)
  obtain out r2 where e: "stream_entry C r1 = (out, r2)" by fastforce
  obtain u v w z where "snd (init_incremental_detokenize (needs_verify C r1) r1) =
      r1\<lparr>read_offset := u, surr_offset := v, surr_and_decode_ids := w, cur_decode_ids_len := z\<rparr>"
    using detokenize_frame [of "needs_verify C r1" r1] by blast
  then have 2: "kv_same r1 r2 \<and> output_ids r2 = output_ids r1 \<and> origin_input_ids r2 = origin_input_ids r1"
    using e by (auto simp: stream_entry_def Let_def split_beta kv_same_def)
  show ?thesis
  proof (cases "b \<and> rl")
    case True
    then obtain out' where "stream_logprobs out r2 = Inr (out', r')" using assms so e by (auto simp: stream_req_def)
    then obtain l n where "r' = r2\<lparr>input_lp := l, send_output_token_logprobs_offset := n\<rparr>" by (rule stream_logprobs_frame)
    then show ?thesis using 1 2 by (simp add: kv_same_def)
  next
    case False
    then have "r' = r1 \<or> r' = r2" using assms so e by (auto simp: stream_req_def split: if_splits)
    then show ?thesis using 1 2 by (auto simp: kv_same_def)
  qed
qed

lemma stream_loop_kv:
  "stream_loop C E rl skip h xs = Inr (es, h') \<Longrightarrow>
   kv_same (h x) (h' x) \<and> output_ids (h' x) = output_ids (h x) \<and> origin_input_ids (h' x) = origin_input_ids (h x)"
proof (induction xs arbitrary: h es)
  case (Cons y ys)
  show ?case
  proof (cases "skip = Some y")
    case False
    then obtain es1 r es2 where s: "stream_req C E rl (h y) = Inr (es1, r)"
      and l: "stream_loop C E rl skip (h(y := r)) ys = Inr (es2, h')"
      using Cons.prems(1) by auto
    show ?thesis using Cons.IH [OF l] stream_req_kv [OF s] by (cases "x = y") (auto simp: kv_same_def)
  qed (use Cons in simp)
qed simp

lemma stream_output_kv:
  assumes "stream_output_generation C E rl skip idle xs S = Inr S'" "kv_balanced g T R refs S"
  shows "kv_balanced g T R refs S'" "kv_ahead n (sc_store S' x) = kv_ahead n (sc_store S x)"
    "s_alloc (sc_sys S') = s_alloc (sc_sys S)" "req_pool_idx (sc_store S' x) = req_pool_idx (sc_store S x)"
proof -
  obtain es h where l: "stream_loop C E rl skip (sc_store S) xs = Inr (es, h)" and S': "sc_store S' = h"
    "s_pool (sc_sys S') = s_pool (sc_sys S)" "s_alloc (sc_sys S') = s_alloc (sc_sys S)"
    using assms(1) by (auto simp: stream_output_generation_def set_store_def)
  note k = stream_loop_kv [OF l]
  show "kv_balanced g T R refs S'" by (rule kv_balanced_cong [OF assms(2)]) (use k S' in auto)
  show "kv_ahead n (sc_store S' x) = kv_ahead n (sc_store S x)"
    using k [of x] by (simp add: S' kv_ahead_def kv_same_def seqlen_def)
  show "s_alloc (sc_sys S') = s_alloc (sc_sys S)" by (rule S'(3))
  show "req_pool_idx (sc_store S' x) = req_pool_idx (sc_store S x)" using k [of x] by (simp add: S' kv_same_def)
qed

section \<open>The free group\<close>

lemma kv_inv_alloc:
  assumes inv: "kv_inv T R live M" and a: "allocator_ok a" "page_size a = 1" "num_pages a = num_pages (m_alloc M)"
    "avail_slots a + pending_slots a = avail_slots (m_alloc M) + pending_slots (m_alloc M)"
  shows "kv_inv T R live (M\<lparr>m_alloc := a\<rparr>)"
proof -
  have same: "owned (M\<lparr>m_alloc := a\<rparr>) = owned M" "row_of (M\<lparr>m_alloc := a\<rparr>) = row_of M" "lens_ok (M\<lparr>m_alloc := a\<rparr>) = lens_ok M"
    by (simp_all add: fun_eq_iff owned_def row_of_def lens_ok_def)
  show ?thesis using inv a by (simp add: kv_inv_def slots_balanced_def rows_balanced_def same)
qed

lemma kv_balanced_alloc:
  assumes inv: "kv_balanced g T R refs S" and a: "allocator_ok a" "page_size a = 1" "num_pages a = num_pages (s_alloc (sc_sys S))"
    "avail_slots a + pending_slots a = avail_slots (s_alloc (sc_sys S)) + pending_slots (s_alloc (sc_sys S))" "is_not_in_free_group a = g'"
  shows "kv_balanced g' T R refs (set_alloc a S)"
proof -
  have "mem_of (set_alloc a S) = (mem_of S)\<lparr>m_alloc := a\<rparr>" by (simp add: mem_of_def set_alloc_def)
  then show ?thesis
    using inv a kv_inv_alloc [of T R _ "mem_of S" a] by (simp add: kv_balanced_def mem_of_def set_alloc_def)
qed

lemma kv_balanced_allocator:
  assumes "kv_balanced g T R refs S"
  shows "allocator_ok (s_alloc (sc_sys S))" "page_size (s_alloc (sc_sys S)) = 1" "is_not_in_free_group (s_alloc (sc_sys S)) = g"
  using assms by (simp_all add: kv_balanced_def kv_inv_def slots_balanced_def mem_of_def)

lemma free_group_begin_kv:
  assumes inv: "kv_balanced True T R refs S"
  shows "kv_balanced False T R refs (set_alloc (free_group_begin (s_alloc (sc_sys S))) S)"
proof (rule kv_balanced_alloc [OF inv])
  note a = kv_balanced_allocator [OF inv]
  show "allocator_ok (free_group_begin (s_alloc (sc_sys S)))"
    using a by (simp add: allocator_ok_def free_group_begin_def held_pages_def pages_of_def torch_unique_def num_pages_def)
qed (use kv_balanced_allocator [OF inv] in \<open>simp_all add: free_group_begin_def num_pages_def avail_slots_def pending_slots_def\<close>)

lemma free_group_end_kv:
  assumes inv: "kv_balanced False T R refs S" and run: "free_group_end (s_alloc (sc_sys S)) = Inr a"
  shows "kv_balanced True T R refs (set_alloc a S)"
proof -
  let ?a = "s_alloc (sc_sys S)"
  let ?a1 = "?a\<lparr>is_not_in_free_group := True\<rparr>"
  note k = kv_balanced_allocator [OF inv]
  have av: "avail_slots ?a1 = avail_slots ?a" "pending_slots ?a1 = {#}" "num_pages ?a1 = num_pages ?a" "page_size ?a1 = 1"
    using k by (simp_all add: avail_slots_def pending_slots_def num_pages_def)
  have pe: "pending_slots ?a = mset (concat (free_group ?a))" using k by (simp add: pending_slots_def)
  have ok1: "allocator_ok ?a1" using k by (auto simp: allocator_ok_def held_pages_def num_pages_def)
  have wh: "whole_units ?a1 (concat (free_group ?a))"
    using k whole_units_cong [of ?a1 ?a] by (simp add: allocator_ok_def num_pages_def)
  have disj: "set (concat (free_group ?a)) \<inter> set_mset (avail_slots ?a1 + pending_slots ?a1) = {}"
  proof -
    have "x \<notin># avail_slots ?a" if "x \<in># pending_slots ?a" for x
    proof
      assume x: "x \<in># avail_slots ?a"
      from kv.avail_distinct [OF k(1) this] have "count (avail_slots ?a) x + count (pending_slots ?a) x = 1" by simp
      moreover have "0 < count (avail_slots ?a) x" "0 < count (pending_slots ?a) x" using x that by (simp_all only: count_greater_zero_iff)
      ultimately show False by linarith
    qed
    then show ?thesis using av pe by auto
  qed
  show ?thesis
  proof (cases "free_group ?a = []")
    case True
    then have "a = ?a1" using run by (simp add: free_group_end_def Let_def)
    then show ?thesis using kv_balanced_alloc [OF inv ok1] av pe True by simp
  next
    case False
    then have f: "free ?a1 (concat (free_group ?a)) = Inr a" using run by (simp add: free_group_end_def Let_def)
    then have a: "allocator_ok a" "page_size a = 1" "avail_slots a + pending_slots a = avail_slots ?a + pending_slots ?a"
      using kv.free_whole [OF ok1 wh disj] av pe by auto
    moreover have "num_pages a = num_pages ?a" "is_not_in_free_group a = True"
      using free_frame [OF f] k(2) by (simp_all add: num_pages_def)
    ultimately show ?thesis using kv_balanced_alloc [OF inv] by blast
  qed
qed

section \<open>Results of a decode batch\<close>

lemma verify_step_kv:
  assumes ok: "round_ok (sc_sys S) fp"
    and v: "sound_verifier ref fwd (s_pool (sc_sys S)) (window_size (s_worker (sc_sys S)))"
    and inv: "kv_balanced g T R refs S" and B: "set (b_reqs (s_batch (sc_sys S))) \<subseteq> set refs"
    and ahead: "\<forall>x \<in> set (b_reqs (s_batch (sc_sys S))). needs_verification (sc_store S x) \<longrightarrow> kv_ahead 0 (sc_store S x)"
    and run: "verify_step E ed fl fwd S = Some (Inr S')"
  shows "kv_balanced g T R refs S'"
    "\<forall>x \<in> set (b_reqs (s_batch (sc_sys S))). kv_ahead 0 (sc_store S x) \<longrightarrow> req_pool_idx (sc_store S' x) \<noteq> None \<longrightarrow>
       kv_ahead 0 (sc_store S' x)"
proof -
  let ?s = "sc_sys S" and ?h = "sc_store S"
  let ?B = "b_reqs (s_batch ?s)"
  from round_fixed [OF ok v, of ed fl] obtain U s' where
    c: "check_and_verify_deterministic_requests ed fl fwd ?s = Some (Inr (rolled_back ?h (s_store s') U, s'))"
    and U: "distinct U" "set U \<subseteq> {x \<in> set ?B. needs_verification (?h x)}"
    and p: "\<forall>x \<in> set U. pass_step ref (?h x) (s_store s' x)" and q: "\<forall>x. x \<notin> set U \<longrightarrow> s_store s' x = ?h x"
    and s': "s_pool s' = s_pool ?s" "s_alloc s' = s_alloc ?s" "b_reqs (s_batch s') = ?B"
    by (elim exE conjE) (rule that)
  let ?S0 = "S\<lparr>sc_sys := s'\<rparr>" and ?res = "rolled_back ?h (s_store s') U"
  obtain S1 where S1: "free_rolled_back ?res ?S0 = Inr S1" "cache_verified E ?B S1 = Inr S'"
    using run by (auto simp: verify_step_def c s')
  have same: "kv_same (?h x) (s_store s' x)" for x
    using p q by (cases "x \<in> set U") (auto simp: kv_same_def pass_step_def dest: pass_frame_fields)
  have b0: "kv_balanced g T R refs ?S0" by (rule kv_balanced_cong [OF inv]) (use same s' in simp_all)
  have diff: "kv_ahead (int (length (output_ids (?h x))) - int (length (output_ids (s_store s' x)))) (s_store s' x)" if x: "x \<in> set U" for x
  proof -
    have pass: "pass_step ref (?h x) (s_store s' x)" using p x by blast
    have "kv_ahead 0 (?h x)" using ahead U(2) x by auto
    moreover have "output_ids (s_store s' x) \<noteq> []" using pass by (auto simp: pass_step_def)
    moreover have "origin_input_ids (s_store s' x) = origin_input_ids (?h x)" using pass by (auto simp: pass_step_def dest: pass_frame_fields)
    ultimately show ?thesis using same [of x] by (simp add: kv_ahead_def kv_same_def seqlen_def)
  qed
  have row: "req_pool_idx (?h x) \<noteq> None" if "x \<in> set U" for x
    using ok U(2) that by (auto simp: round_ok_def fits_window_def replayable_def split: option.splits)
  have "distinct (map fst ?res)" using U(1) by (simp add: rolled_back_def filter_map o_def distinct_map inj_on_def)
  moreover have "\<forall>(x, n) \<in> set ?res. x \<in> set refs \<and> req_pool_idx (sc_store ?S0 x) \<noteq> None \<and> 0 < n \<and> kv_ahead n (sc_store ?S0 x)"
    using diff row same U(2) B by (auto simp: rolled_back_def kv_same_def)
  ultimately have f: "kv_balanced g T R refs S1"
    "\<forall>x \<in> set (map fst ?res). kv_ahead 0 (sc_store S1 x)" "\<forall>y. y \<notin> set (map fst ?res) \<longrightarrow> sc_store S1 y = s_store s' y"
    using free_rolled_back_kv [OF b0, of ?res] S1(1) by auto
  show "kv_balanced g T R refs S'" by (rule cache_verified_kv [OF S1(2) f(1) B])
  have a1: "kv_ahead 0 (sc_store S1 x)" if x: "kv_ahead 0 (?h x)" for x
  proof (cases "x \<in> set (map fst ?res)")
    case False
    then have e: "sc_store S1 x = s_store s' x" using f(3) by blast
    show ?thesis
    proof (cases "x \<in> set U")
      case True
      then have "length (output_ids (s_store s' x)) \<le> length (output_ids (?h x))" using p by (auto simp: pass_step_def)
      moreover have "\<not> 0 < int (length (output_ids (?h x))) - int (length (output_ids (s_store s' x)))"
        using False True by (force simp: rolled_back_def)
      ultimately show ?thesis using diff [OF True] e by simp
    qed (use q x e in simp)
  qed (use f(2) in blast)
  have d: "distinct ?B" using ok by (simp add: round_ok_def)
  show "\<forall>x \<in> set ?B. kv_ahead 0 (?h x) \<longrightarrow> req_pool_idx (sc_store S' x) \<noteq> None \<longrightarrow> kv_ahead 0 (sc_store S' x)"
  proof (intro ballI impI)
    fix x assume x: "x \<in> set ?B" "kv_ahead 0 (?h x)" "req_pool_idx (sc_store S' x) \<noteq> None"
    have "cached_step (sc_store S1 x) (sc_store S' x)" using cache_verified_spec [OF S1(2) d] x(1) by blast
    then consider "sc_store S' x = sc_store S1 x" | "finish_step (sc_store S1 x) (sc_store S' x)"
      using x(3) by (auto simp: cached_step_def released_def)
    then show "kv_ahead 0 (sc_store S' x)"
    proof cases
      case 2
      then show ?thesis
        using a1 [OF x(2)] finish_step_fields [OF 2] finish_step_kv [OF 2] by (auto simp: kv_ahead_def kv_same_def seqlen_def)
    qed (use a1 x in simp)
  qed
qed

lemma decode_result_kv:
  assumes ready: "decode_ready fp Q toks S" and llm: "enable_llm42 C"
    and v: "sound_verifier ref fwd (s_pool (sc_sys S)) (window_size (s_worker (sc_sys S)))"
    and inv: "kv_balanced True T R refs S" and B: "set (b_reqs (s_batch (sc_sys S))) \<subseteq> set refs"
    and ahead: "\<forall>x \<in> set (b_reqs (s_batch (sc_sys S))). is_deterministic (sc_store S x) \<longrightarrow> kv_ahead 1 (sc_store S x)"
    and run: "process_batch_result_decode C E ed fl fwd lg toks S = Some (Inr S')"
  shows "kv_balanced True T R refs S'"
    "\<forall>x \<in> set (b_reqs (s_batch (sc_sys S))). is_deterministic (sc_store S x) \<longrightarrow> req_pool_idx (sc_store S' x) \<noteq> None \<longrightarrow>
       kv_ahead 0 (sc_store S' x)"
proof -
  let ?b = "s_batch (sc_sys S)"
  let ?B = "b_reqs ?b"
  let ?S0 = "(set_alloc (free_group_begin (s_alloc (sc_sys S))) S)\<lparr>num_generated_tokens := num_generated_tokens S + length ?B\<rparr>"
  have S0: "sc_store ?S0 = sc_store S" "same_frame S ?S0" "grammar_queue ?S0 = grammar_queue S"
    by (simp_all add: set_alloc_def same_frame_def)
  have r: "distinct ?B" "length toks = length ?B" "set ?B \<inter> set (grammar_queue S) = {}"
    "\<forall>x \<in> set ?B. \<not> finished (sc_store S x) \<and> \<not> is_retracted (sc_store S x)"
    using ready unfolding decode_ready_def Let_def decodable_def by blast+
  have fst: "map fst (zip ?B toks) = ?B" using r(2) by simp
  obtain S1 S2 S3 a where loop: "process_decode_loop C E (b_return_logprob ?b) lg 0 (zip ?B toks) ?S0 = Inr S1"
    and S2: "verify_step E ed fl fwd S1 = Some (Inr S2)"
    and S3: "stream_output_generation C E (b_return_logprob ?b) None False ?B S2 = Inr S3"
    and a: "free_group_end (s_alloc (sc_sys S3)) = Inr a"
    and S': "S' = (set_alloc a S3)\<lparr>forward_ct_decode := (forward_ct_decode S3 + 1) mod 2 ^ 30\<rparr>"
    using run llm by (auto simp: process_batch_result_decode_def Let_def split: if_splits sum.splits option.splits)
  have b0: "kv_balanced False T R refs ?S0"
    by (rule kv_balanced_cong [OF free_group_begin_kv [OF inv]]) (simp_all add: set_alloc_def)
  have l1: "kv_balanced False T R refs S1"
    "\<forall>x. x \<notin> set ?B \<or> verified_later C (sc_store S x) \<longrightarrow> kv_same (sc_store S x) (sc_store S1 x)"
    using process_decode_loop_kv [OF loop b0] B unfolding fst S0 by simp_all
  have l: "same_frame ?S0 S1" "\<forall>x. identity (sc_store S1 x) = identity (sc_store S x)"
    "\<forall>x \<in> set ?B. is_deterministic (sc_store S x) \<longrightarrow> decode_step (sc_store S x) (sc_store S1 x)"
    using process_decode_loop_spec [OF loop llm] r(1,3,4) unfolding fst S0 by simp_all
  have fr: "same_frame S S1" by (rule same_frame_trans [OF S0(2) l(1)])
  have f1: "s_batch (sc_sys S1) = ?b" "s_worker (sc_sys S1) = s_worker (sc_sys S)"
    "rt_size (s_pool (sc_sys S1)) = rt_size (s_pool (sc_sys S))"
    "max_context_len (s_pool (sc_sys S1)) = max_context_len (s_pool (sc_sys S))" using fr by (simp_all add: same_frame_def)
  have ok: "round_ok (sc_sys S1) fp" by (rule decoded_round_ok [OF ready fr]) (use l(2,3) in auto)
  have v1: "sound_verifier ref fwd (s_pool (sc_sys S1)) (window_size (s_worker (sc_sys S1)))"
    using v sound_verifier_shape [OF f1(3,4)] f1(2) by simp
  have a1: "kv_ahead 0 (sc_store S1 x)" if x: "x \<in> set ?B" "is_deterministic (sc_store S x)" for x
  proof -
    have "kv_same (sc_store S x) (sc_store S1 x)" using l1(2) x llm by (simp add: verified_later_def)
    moreover have "decode_step (sc_store S x) (sc_store S1 x)" using l(3) x by blast
    ultimately show ?thesis using ahead x decode_step_fields [of "sc_store S x" "sc_store S1 x"]
      by (auto simp: kv_ahead_def kv_same_def seqlen_def)
  qed
  have det: "is_deterministic (sc_store S x)" if "needs_verification (sc_store S1 x)" for x
    using that l(2) by (simp add: needs_verification_def identity_def)
  have w: "kv_balanced False T R refs S2"
    "\<forall>x \<in> set ?B. kv_ahead 0 (sc_store S1 x) \<longrightarrow> req_pool_idx (sc_store S2 x) \<noteq> None \<longrightarrow> kv_ahead 0 (sc_store S2 x)"
    using verify_step_kv [OF ok v1 l1(1) _ _ S2] B a1 det unfolding f1(1) by auto
  have b3: "kv_balanced False T R refs S3" by (rule stream_output_kv(1) [OF S3 w(1)])
  have "kv_balanced True T R refs (set_alloc a S3)" by (rule free_group_end_kv [OF b3 a])
  then show "kv_balanced True T R refs S'"
    by (rule kv_balanced_cong) (simp_all add: S')
  show "\<forall>x \<in> set ?B. is_deterministic (sc_store S x) \<longrightarrow> req_pool_idx (sc_store S' x) \<noteq> None \<longrightarrow> kv_ahead 0 (sc_store S' x)"
  proof (intro ballI impI)
    fix x assume x: "x \<in> set ?B" "is_deterministic (sc_store S x)" "req_pool_idx (sc_store S' x) \<noteq> None"
    have e: "sc_store S' = sc_store S3" by (simp add: S' set_alloc_def)
    have r2: "req_pool_idx (sc_store S2 x) \<noteq> None" using x(3) e stream_output_kv(4) [OF S3 w(1)] by simp
    then have "kv_ahead 0 (sc_store S2 x)" using w(2) a1 x(1,2) by blast
    then show "kv_ahead 0 (sc_store S' x)" using e stream_output_kv(2) [OF S3 w(1)] by simp
  qed
qed

section \<open>Results of a prefill batch\<close>

lemma append_logprobs_kv:
  "append_token_logprob lg i t r = Inr r' \<Longrightarrow> kv_same r r'"
  "append_top_logprobs lg i r = Inr r' \<Longrightarrow> kv_same r r'"
  "append_token_ids_logprobs lg i r = Inr r' \<Longrightarrow> kv_same r r'"
  by (auto simp: append_token_logprob_def append_top_logprobs_def append_token_ids_logprobs_def kv_same_def Let_def
      split: option.splits if_splits)

lemma add_input_logprobs_kv:
  "add_input_logprob_return_values M i r lg pt n b = Inr r' \<Longrightarrow> kv_same r r'"
  by (drule add_input_logprobs_frame) (auto simp: kv_same_def)

lemma add_logprob_return_values_kv:
  assumes "add_logprob_return_values M i r pt t n lg = Inr r'"
  shows "kv_same r r'"
proof -
  obtain r1 r2 r3 where s:
    "(if next_token_logprobs lg \<noteq> None then append_token_logprob lg i t r else Inr r) = Inr r1"
    "(if 0 < n then add_input_logprob_return_values M i r1 lg pt n True
      else Inr (initialize_empty_logprob_containers r1)) = Inr r2"
    "append_top_logprobs lg i r2 = Inr r3"
    "(if next_token_token_ids_logprobs_val lg \<noteq> None then append_token_ids_logprobs lg i r3 else Inr r3) = Inr r'"
    using assms by (auto simp: add_logprob_return_values_def simp del: not_None_eq)
  have "kv_same r r1" using s(1) append_logprobs_kv(1) [of lg i t r r1] by (simp split: if_splits)
  also have "kv_same r1 r2"
    using s(2) add_input_logprobs_kv [of M i r1 lg pt n True r2]
    by (auto simp: initialize_empty_logprob_containers_def kv_same_def Let_def split: if_splits)
  also have "kv_same r2 r3" by (rule append_logprobs_kv(2) [OF s(3)])
  also have "kv_same r3 r'" using s(4) append_logprobs_kv(3) [of lg i r3 r'] by (simp split: if_splits)
  finally show ?thesis .
qed

lemma prefill_logprobs_kv: "prefill_logprobs C rl lg starts lens i t r pt = Inr (r', pt') \<Longrightarrow> kv_same r r'"
  by (cases "return_logprob r") (auto simp: prefill_logprobs_def Let_def dest: add_logprob_return_values_kv split: if_splits)

lemma chunk_logprobs_kv: "chunk_logprobs C rl lg starts lens i r pt = Inr (r', pt') \<Longrightarrow> kv_same r r'"
  by (cases "return_logprob r") (auto simp: chunk_logprobs_def Let_def dest: add_input_logprobs_kv split: if_splits)

lemma process_prefill_req_kv:
  assumes run: "process_prefill_req C E b lg starts lens i y t P = Inr P'"
    and inv: "kv_balanced g T R refs (pf_sched P)" and y: "y \<in> set refs"
  shows "kv_balanced g T R refs (pf_sched P')"
proof (cases "finished (sc_store (pf_sched P) y) \<or> is_retracted (sc_store (pf_sched P) y)")
  case True
  then show ?thesis using run inv by (simp add: process_prefill_req_def Let_def)
next
  case go: False
  let ?S = "pf_sched P" and ?r = "sc_store (pf_sched P) y"
  show ?thesis
  proof (cases "is_chunked ?r \<le> 0")
    case False
    then obtain r1 pt where c: "chunk_logprobs C (b_return_logprob b) lg starts lens i
        (?r\<lparr>is_chunked := is_chunked ?r - 1\<rparr>) (logprob_pt P) = Inr (r1, pt)"
      and P': "pf_sched P' = put_req y r1 ?S" using run go by (auto simp: process_prefill_req_def Let_def)
    from chunk_logprobs_kv [OF c] have "kv_same ?r r1" by (simp add: kv_same_def)
    then show ?thesis unfolding P' by (rule kv_balanced_put [OF inv])
  next
    case True
    let ?cache = "\<lambda>r3. if finished r3 then release_req y (put_req y r3 ?S)
        else if (case b_decoding_reqs b of None \<Rightarrow> True | Some ds \<Rightarrow> y \<notin> set ds)
        then bind_result (chunk_cache_unfinished_req (s_pool (sc_sys ?S)) r3) (\<lambda>r4. Inr (put_req y r4 ?S))
        else Inr (put_req y r3 ?S)"
    have eq: "process_prefill_req C E b lg starts lens i y t P = bind_result (check_finished E 1 (first_marked C ?r t)) (\<lambda>r3.
        bind_result (?cache r3) (\<lambda>S1.
        bind_result (prefill_logprobs C (b_return_logprob b) lg starts lens i t (sc_store S1 y) (logprob_pt P)) (\<lambda>(r5, pt).
        bind_result (accept_grammar E y t (put_req y r5 S1)) (\<lambda>S3. Inr (P\<lparr>pf_sched := S3, logprob_pt := pt\<rparr>)))))"
      using go True by (simp only: process_prefill_req_def first_marked_def Let_def if_False if_True)
    from run [unfolded eq] obtain r3 S1 r5 pt where s: "check_finished E 1 (first_marked C ?r t) = Inr r3"
      "?cache r3 = Inr S1"
      "prefill_logprobs C (b_return_logprob b) lg starts lens i t (sc_store S1 y) (logprob_pt P) = Inr (r5, pt)"
      "accept_grammar E y t (put_req y r5 S1) = Inr (pf_sched P')"
      by (auto simp del: if_split)
    have "kv_same ?r (first_marked C ?r t)" by (simp add: first_marked_def kv_same_def Let_def)
    also have "kv_same (first_marked C ?r t) r3" by (rule finish_step_kv [OF check_finished_step [OF s(1)]])
    finally have r3: "kv_same ?r r3" .
    have b3: "kv_balanced g T R refs (put_req y r3 ?S)" by (rule kv_balanced_put [OF inv r3])
    have u: "kv_balanced g T R refs (put_req y r4 ?S)" if "chunk_cache_unfinished_req (s_pool (sc_sys ?S)) r3 = Inr r4" for r4
    proof (rule kv_balanced_put [OF inv])
      show "kv_same ?r r4" using that r3 by (auto simp: chunk_cache_unfinished_req_def kv_same_def split: option.splits)
    qed
    have b1: "kv_balanced g T R refs S1" using s(2) kv_balanced_release [OF b3 y] b3 u by (auto split: if_splits)
    have "kv_balanced g T R refs (put_req y r5 S1)" by (rule kv_balanced_put [OF b1 prefill_logprobs_kv [OF s(3)]])
    then show ?thesis by (rule kv_balanced_cong) (use accept_grammar_kv [OF s(4)] in auto)
  qed
qed

lemma process_prefill_loop_kv:
  assumes "process_prefill_loop C E b lg starts lens i zs P = Inr P'" "kv_balanced g T R refs (pf_sched P)" "set (map fst zs) \<subseteq> set refs"
  shows "kv_balanced g T R refs (pf_sched P')"
  using assms
proof (induction zs arbitrary: P i)
  case (Cons z zs)
  obtain y t where z: "z = (y, t)" by fastforce
  obtain P1 where "process_prefill_req C E b lg starts lens i y t P = Inr P1"
    and "process_prefill_loop C E b lg starts lens (Suc i) zs P1 = Inr P'" using Cons.prems(1) by (auto simp: z)
  then show ?case using Cons.IH process_prefill_req_kv [of C E b lg starts lens i y t P P1] Cons.prems(2,3) by (simp add: z)
qed simp

lemma prefill_result_kv:
  assumes run: "process_batch_result_prefill C E lg starts lens toks S = Inr S'" and inv: "kv_balanced g T R refs S"
    and B: "set (b_reqs (s_batch (sc_sys S))) \<subseteq> set refs"
  shows "kv_balanced g T R refs S'"
proof -
  let ?b = "s_batch (sc_sys S)"
  obtain P where P: "process_prefill_loop C E ?b lg starts lens 0 (zip (b_reqs ?b) toks)
      \<lparr>pf_sched = S, skip_stream_req = None, logprob_pt = 0\<rparr> = Inr P"
    "stream_output_generation C E (b_return_logprob ?b) (skip_stream_req P) False (b_reqs ?b) (pf_sched P) = Inr S'"
    using run by (auto simp: process_batch_result_prefill_def Let_def)
  have "set (map fst (zip (b_reqs ?b) toks)) \<subseteq> set refs" using B by (auto dest: set_zip_leftD)
  then have "kv_balanced g T R refs (pf_sched P)" using process_prefill_loop_kv [OF P(1)] inv by simp
  then show ?thesis by (rule stream_output_kv(1) [OF P(2)])
qed

end
