(* ===== verification/KV_System.thy ===== *)
theory KV_System
  imports KV_Conservation
begin

text \<open>
  The life of KV memory in the scheduler: preparing prefill and decode batches, processing their
  results, and retracting requests, in any order.  Whatever happens, the slots and rows the scheduler
  started with are each free or held by exactly one request.
\<close>

definition with_mem :: "mem \<Rightarrow> schedule_batch \<Rightarrow> sched \<Rightarrow> sched" where
  "with_mem M b S = S\<lparr>sc_sys := (sc_sys S)\<lparr>s_store := m_store M, s_pool := m_pool M, s_alloc := m_alloc M, s_batch := b\<rparr>\<rparr>"

lemma with_mem_simps [simp]: "mem_of (with_mem M b S) = M" "sc_store (with_mem M b S) = m_store M"
  "s_alloc (sc_sys (with_mem M b S)) = m_alloc M"
  by (simp_all add: mem_of_def with_mem_def)

lemma mem_of_simps [simp]: "m_store (mem_of S) = sc_store S" "m_pool (mem_of S) = s_pool (sc_sys S)" "m_alloc (mem_of S) = s_alloc (sc_sys S)"
  by (simp_all add: mem_of_def)

section \<open>Batches and retraction on the balance\<close>

lemma kv_inv_perm:
  assumes "kv_inv T R live M" "mset live = mset live'"
  shows "kv_inv T R live' M"
proof -
  have "mset (concat (map (owned M) live)) = mset (concat (map (owned M) live'))"
    using assms(2) by (metis mset_map mset_concat sum_mset_sum_list)
  moreover have "mset (map (row_of M) live) = mset (map (row_of M) live')" using assms(2) by (metis mset_map)
  moreover have "set live = set live'" "distinct live = distinct live'"
    using assms(2) mset_eq_setD mset_eq_imp_distinct_iff by blast+
  ultimately show ?thesis using assms(1) unfolding kv_inv_def slots_balanced_def rows_balanced_def by simp
qed

lemma alloc_group: "alloc a n = Inr (r, a') \<Longrightarrow> is_not_in_free_group a' = is_not_in_free_group a"
  by (auto simp: alloc_def token_alloc_def paged_alloc_def merge_and_sort_free_def Let_def split: if_splits)

lemma alloc_token_slots_group: "alloc_token_slots a n = Inr (xs, a') \<Longrightarrow> is_not_in_free_group a' = is_not_in_free_group a"
  by (auto simp: alloc_token_slots_def split: option.splits dest: alloc_group)

lemma holders_extend:
  assumes d: "distinct refs" and xs: "distinct xs" "set xs \<subseteq> set refs"
    and some: "\<forall>x \<in> set xs. req_pool_idx (h' x) \<noteq> None" and other: "\<forall>y. y \<notin> set xs \<longrightarrow> h' y = h y"
  shows "mset (holders h refs @ filter (\<lambda>x. x \<notin> set (holders h refs)) xs) = mset (holders h' refs)"
proof (rule set_eq_iff_mset_eq_distinct [THEN iffD1])
  show "distinct (holders h refs @ filter (\<lambda>x. x \<notin> set (holders h refs)) xs)" "distinct (holders h' refs)"
    using d xs(1) by (auto simp: holders_def)
  show "set (holders h refs @ filter (\<lambda>x. x \<notin> set (holders h refs)) xs) = set (holders h' refs)"
    using xs(2) some other by (auto simp: holders_def)
qed

lemma kv_balanced_extend:
  assumes inv: "kv_balanced g T R refs S" and xs: "distinct xs" "set xs \<subseteq> set refs"
    and ok: "\<forall>x \<in> set xs. extend_ok (holders (sc_store S) refs) (mem_of S) x"
    and one: "length (filter (\<lambda>x. x \<in> set (holders (sc_store S) refs)) xs) \<le> 1"
    and rows: "length (filter (\<lambda>x. x \<notin> set (holders (sc_store S) refs)) xs) \<le> length (free_slots (s_pool (sc_sys S)))"
    and mem: "sum_list (ext_lens (sc_store S) xs) \<le> available_size (s_alloc (sc_sys S))"
    and ord: "program_order (length xs) (l_order L (length xs))"
    and run: "prepare_for_extend L ed vocab (init_new (sc_store S) xs overlap chunked) (mem_of S) = Inr (b, M)"
  shows "kv_balanced g T R refs (with_mem M b S)"
proof -
  let ?live = "holders (sc_store S) refs"
  have k: "kv_inv T R ?live (mem_of S)" "distinct refs" using inv by (simp_all add: kv_balanced_def)
  have e: "kv_inv T R (?live @ filter (\<lambda>x. x \<notin> set ?live) xs) M" "\<forall>y. y \<notin> set xs \<longrightarrow> m_store M y = sc_store S y"
    using prepare_for_extend_keeps [OF k(1) xs(1) ok one _ _ ord, of ed vocab overlap chunked] rows mem run by auto
  have "\<forall>x \<in> set xs. req_pool_idx (m_store M x) \<noteq> None"
    using e(1) by (auto simp: kv_inv_def lens_ok_def simp del: not_None_eq)
  then have "kv_inv T R (holders (m_store M) refs) M"
    using kv_inv_perm [OF e(1) holders_extend [OF k(2) xs _ e(2)]] by blast
  moreover have "is_not_in_free_group (m_alloc M) = g"
  proof -
    have g: "page_size (s_alloc (sc_sys S)) = 1" "is_not_in_free_group (s_alloc (sc_sys S)) = g" using kv_balanced_allocator [OF inv] by simp_all
    obtain b1 locs rs M1 where "alloc_for_extend L b1 (mem_of S) = Inr (locs, rs, M1)" "m_alloc M = m_alloc M1"
      using run by (auto simp: prepare_for_extend_def Let_def)
    then show ?thesis using g by (auto simp: alloc_for_extend_def Let_def dest: alloc_token_slots_group)
  qed
  ultimately show ?thesis using k(2) by (simp add: kv_balanced_def)
qed

lemma kv_balanced_decode:
  assumes inv: "kv_balanced g T R refs S" and B: "distinct (b_reqs b)" "set (b_reqs b) \<subseteq> set (holders (sc_store S) refs)"
    and rep: "rep_lens b (map (sc_store S) (b_reqs b))"
    and room: "\<forall>x \<in> set (b_reqs b). kv_allocated_len (sc_store S x) < int (max_context_len (s_pool (sc_sys S)))"
    and memory: "check_decode_mem (mem_of S) (b_reqs b)"
    and run: "prepare_for_decode L b (mem_of S) = Inr (b', M)"
  shows "kv_balanced g T R refs (with_mem M b' S)" "b_reqs b' = b_reqs b"
    "m_store M = (\<lambda>y. if y \<in> set (b_reqs b) then decode_req (sc_store S y) else sc_store S y)"
proof -
  let ?live = "holders (sc_store S) refs"
  have k: "kv_inv T R ?live (mem_of S)" "distinct refs" using inv by (simp_all add: kv_balanced_def)
  have e: "kv_inv T R ?live M" "b_reqs b' = b_reqs b"
    "m_store M = (\<lambda>y. if y \<in> set (b_reqs b) then decode_req (sc_store S y) else sc_store S y)"
    using prepare_for_decode_keeps [OF k(1) B _ _ memory, of L] rep room run by auto
  show "b_reqs b' = b_reqs b" "m_store M = (\<lambda>y. if y \<in> set (b_reqs b) then decode_req (sc_store S y) else sc_store S y)" by (rule e)+
  have "holders (m_store M) refs = ?live" unfolding holders_def e(3) by (intro filter_cong) (simp_all add: decode_req_def)
  moreover have "is_not_in_free_group (m_alloc M) = g"
  proof -
    have g: "page_size (s_alloc (sc_sys S)) = 1" "is_not_in_free_group (s_alloc (sc_sys S)) = g" using kv_balanced_allocator [OF inv] by simp_all
    obtain locs M1 b1 where "alloc_for_decode L 1 b1 (mem_of S) = Inr (locs, M1)" "m_alloc M = m_alloc M1"
      using run by (auto simp: prepare_for_decode_def Let_def split: option.splits if_splits)
    then show ?thesis using g by (auto simp: alloc_for_decode_def Let_def split: option.splits if_splits dest: alloc_token_slots_group)
  qed
  ultimately show "kv_balanced g T R refs (with_mem M b' S)" using k(2) e(1) by (simp add: kv_balanced_def)
qed

lemma kv_balanced_retract:
  assumes inv: "kv_balanced g T R refs S" and x: "x \<in> set refs" and run: "retract_req x (mem_of S) = Inr M"
  shows "kv_balanced g T R refs (with_mem M b S)"
proof -
  let ?live = "holders (sc_store S) refs"
  have k: "kv_inv T R ?live (mem_of S)" "distinct refs" using inv by (simp_all add: kv_balanced_def)
  obtain p a r where rel: "release_kv_cache False (s_pool (sc_sys S)) (s_alloc (sc_sys S)) (sc_store S x) = Inr (p, a, r)"
    and M: "M = \<lparr>m_store = (sc_store S)(x := reset_for_retract r), m_pool = p, m_alloc = a\<rparr>"
    using run by (auto simp: retract_req_def)
  have "req_pool_idx (sc_store S x) \<noteq> None" using rel by (auto simp: release_kv_cache_def split: option.splits)
  then have "x \<in> set ?live" using x by (simp add: holders_def)
  from release_keeps [OF k(1) this] rel have n: "req_pool_idx r = None"
    and i: "kv_inv T R (remove1 x ?live) M" by (auto simp: M)
  have "holders (m_store M) refs = remove1 x ?live"
    using holders_remove [OF k(2), of "reset_for_retract r"] n by (simp add: M reset_for_retract_def)
  moreover have "is_not_in_free_group (m_alloc M) = g"
    using release_kv_cache_group [OF rel] inv by (simp add: M kv_balanced_def)
  ultimately show ?thesis using k(2) i by (simp add: kv_balanced_def)
qed

section \<open>Executions\<close>

text \<open>One step.  The guards of the two preparations are what the scheduler has checked before: rows and slots for a
  prefill (\<open>get_new_batch_prefill\<close>, \<open>PrefillAdder\<close>), slots for a decode batch (\<open>check_decode_mem\<close>).  Results come back
  for the batch that was prepared.  \<open>bookkeeping\<close> is everything else the scheduler does to requests: it moves no slot
  and no row.\<close>

inductive kv_step :: "conf \<Rightarrow> env \<Rightarrow> verifier \<Rightarrow> ref list \<Rightarrow> sched \<Rightarrow> sched \<Rightarrow> bool" for C E fwd refs where
  prefill: "\<lbrakk>distinct xs; set xs \<subseteq> set refs; \<forall>x \<in> set xs. extend_ok (holders (sc_store S) refs) (mem_of S) x;
     length (filter (\<lambda>x. x \<in> set (holders (sc_store S) refs)) xs) \<le> 1;
     length (filter (\<lambda>x. x \<notin> set (holders (sc_store S) refs)) xs) \<le> length (free_slots (s_pool (sc_sys S)));
     sum_list (ext_lens (sc_store S) xs) \<le> available_size (s_alloc (sc_sys S));
     program_order (length xs) (l_order L (length xs));
     prepare_for_extend L ed vocab (init_new (sc_store S) xs overlap chunked) (mem_of S) = Inr (b, M)\<rbrakk> \<Longrightarrow>
   kv_step C E fwd refs S (with_mem M b S)"
| prefill_result: "\<lbrakk>set (b_reqs (s_batch (sc_sys S))) \<subseteq> set refs;
     process_batch_result_prefill C E lg starts lens toks S = Inr S'\<rbrakk> \<Longrightarrow> kv_step C E fwd refs S S'"
| decode: "\<lbrakk>distinct (b_reqs b); set (b_reqs b) \<subseteq> set (holders (sc_store S) refs);
     rep_lens b (map (sc_store S) (b_reqs b));
     \<forall>x \<in> set (b_reqs b). kv_allocated_len (sc_store S x) < int (max_context_len (s_pool (sc_sys S)));
     check_decode_mem (mem_of S) (b_reqs b); prepare_for_decode L b (mem_of S) = Inr (b', M)\<rbrakk> \<Longrightarrow>
   kv_step C E fwd refs S (with_mem M b' S)"
| decode_result: "\<lbrakk>decode_ready fp Q toks S; set (b_reqs (s_batch (sc_sys S))) \<subseteq> set refs;
     \<forall>x \<in> set (b_reqs (s_batch (sc_sys S))). is_deterministic (sc_store S x) \<longrightarrow> kv_ahead 1 (sc_store S x);
     process_batch_result_decode C E ed fl fwd lg toks S = Some (Inr S')\<rbrakk> \<Longrightarrow> kv_step C E fwd refs S S'"
| retract: "\<lbrakk>x \<in> set refs; retract_req x (mem_of S) = Inr M\<rbrakk> \<Longrightarrow> kv_step C E fwd refs S (with_mem M b S)"
| bookkeeping: "\<lbrakk>\<forall>x \<in> set refs. kv_same (sc_store S x) (sc_store S' x); s_pool (sc_sys S') = s_pool (sc_sys S);
     s_alloc (sc_sys S') = s_alloc (sc_sys S)\<rbrakk> \<Longrightarrow> kv_step C E fwd refs S S'"

text \<open>The start: no request holds a row yet.  The fixed pool of the verifier, if any, has already taken its
  share of the rows and slots.\<close>

definition kv_start :: "ref list \<Rightarrow> sched \<Rightarrow> bool" where
  "kv_start refs S \<longleftrightarrow>
     distinct refs \<and> list_all (\<lambda>x. req_pool_idx (sc_store S x) = None) refs \<and>
     allocator_ok (s_alloc (sc_sys S)) \<and> page_size (s_alloc (sc_sys S)) = 1 \<and> is_not_in_free_group (s_alloc (sc_sys S)) \<and>
     distinct (free_slots (s_pool (sc_sys S))) \<and> list_all (\<lambda>i. i < rt_size (s_pool (sc_sys S))) (free_slots (s_pool (sc_sys S)))"

lemma kv_start_balanced:
  assumes "kv_start refs S"
  shows "kv_balanced True (avail_slots (s_alloc (sc_sys S))) (mset (free_slots (s_pool (sc_sys S)))) refs S"
proof -
  let ?a = "s_alloc (sc_sys S)" and ?p = "s_pool (sc_sys S)"
  have ok: "allocator_ok ?a" "page_size ?a = 1" "is_not_in_free_group ?a" "distinct (free_slots ?p)"
    "\<forall>i \<in> set (free_slots ?p). i < rt_size ?p" "distinct refs" using assms by (auto simp: kv_start_def list_all_iff)
  have h: "holders (sc_store S) refs = []" using assms by (auto simp: kv_start_def holders_def list_all_iff filter_empty_conv)
  have av: "avail_slots ?a = mset (free_pages ?a @ release_pages ?a)" using ok(2) by (simp add: avail_slots_def)
  have d: "distinct (free_pages ?a @ release_pages ?a)" "\<forall>p \<in> set (free_pages ?a @ release_pages ?a). 1 \<le> p \<and> p \<le> int (num_pages ?a)"
    using ok(1,3) by (simp_all add: allocator_ok_def held_pages_def)
  have one: "count (mset xs) z \<le> 1" if "distinct xs" for xs :: "'z list" and z
    using that by (simp add: distinct_count_atmost_1)
  have "slots_balanced (avail_slots ?a) [] (mem_of S)"
    using ok(1-3) d(2) one [OF d(1)] unfolding slots_balanced_def by (simp add: av pending_slots_def)
  moreover have "rows_balanced (mset (free_slots ?p)) [] (mem_of S)"
    using ok(5) one [OF ok(4)] by (simp add: rows_balanced_def)
  ultimately show ?thesis using ok(3,6) by (simp add: kv_balanced_def kv_inv_def h)
qed

lemma kv_step_balanced:
  assumes "kv_step C E fwd refs S S'" "enable_llm42 C" "faithful_verifier ref fwd" "kv_balanced True T R refs S"
  shows "kv_balanced True T R refs S'"
  using assms
proof cases
  case (prefill xs L ed vocab overlap chunked b M)
  then show ?thesis using kv_balanced_extend [OF assms(4)] by blast
next
  case (prefill_result lg starts lens toks)
  then show ?thesis using prefill_result_kv [OF _ assms(4)] by blast
next
  case (decode b L b' M)
  then show ?thesis using kv_balanced_decode(1) [OF assms(4)] by blast
next
  case (decode_result fp Q toks ed fl lg)
  have "sound_verifier ref fwd (s_pool (sc_sys S)) (window_size (s_worker (sc_sys S)))"
    using assms(3) by (simp add: faithful_verifier_def)
  then show ?thesis using decode_result_kv(1) [OF decode_result(1) assms(2) _ assms(4) decode_result(2,3,4)] by blast
next
  case (retract x M b)
  then show ?thesis using kv_balanced_retract [OF assms(4)] by blast
next
  case bookkeeping
  then show ?thesis using kv_balanced_cong [OF assms(4)] by blast
qed

lemma kv_run_balanced:
  assumes "(kv_step C E fwd refs)\<^sup>*\<^sup>* S S'" "enable_llm42 C" "faithful_verifier ref fwd" "kv_balanced True T R refs S"
  shows "kv_balanced True T R refs S'"
  using assms(1,4) by (induction rule: rtranclp_induct) (auto intro: kv_step_balanced [OF _ assms(2,3)])

text \<open>What the balance says about slots and rows.\<close>

lemma kv_balanced_partition:
  assumes "kv_balanced True T R refs S"
  defines "live \<equiv> holders (sc_store S) refs"
  shows "avail_slots (s_alloc (sc_sys S)) + mset (concat (map (owned (mem_of S)) live)) = T"
    "mset (free_slots (s_pool (sc_sys S))) + mset (map (row_of (mem_of S)) live) = R"
    "distinct (concat (map (owned (mem_of S)) live))" "distinct (map (row_of (mem_of S)) live)"
    "x \<in> set live \<Longrightarrow> kv_committed_len (sc_store S x) = int (length (owned (mem_of S) x))"
proof -
  have k: "slots_balanced T live (mem_of S)" "rows_balanced R live (mem_of S)" "\<forall>x \<in> set live. lens_ok (mem_of S) x"
    and g: "is_not_in_free_group (s_alloc (sc_sys S))" using assms by (simp_all add: kv_balanced_def kv_inv_def)
  show T: "avail_slots (s_alloc (sc_sys S)) + mset (concat (map (owned (mem_of S)) live)) = T"
    using k(1) g by (simp add: slots_balanced_def pending_slots_def)
  show "mset (free_slots (s_pool (sc_sys S))) + mset (map (row_of (mem_of S)) live) = R"
    using k(2) by (simp add: rows_balanced_def)
  have "\<forall>s. count (avail_slots (s_alloc (sc_sys S)) + mset (concat (map (owned (mem_of S)) live))) s \<le> 1"
    unfolding T using k(1) by (simp add: slots_balanced_def)
  then show "distinct (concat (map (owned (mem_of S)) live))" by (intro count_le_1_distinct count_le_1_mono)
  show "distinct (map (row_of (mem_of S)) live)" by (rule rows_distinct(1) [OF k(2)])
  show "kv_committed_len (sc_store S x) = int (length (owned (mem_of S) x))" if "x \<in> set live"
    using k(3) that by (auto simp: lens_ok_def owned_def)
qed

section \<open>Properties\<close>

text \<open>A system that starts with two requests and nothing allocated.\<close>

definition kv_example :: sched where
  "kv_example = example_sched\<lparr>sc_sys := example_sys\<lparr>
     s_store := (\<lambda>_. example_req\<lparr>req_pool_idx := None, fill_ids := [11, 12, 13], extend_input_len := 3\<rparr>),
     s_pool := rt_init 4 16, s_alloc := token_init 12 False\<rparr>\<rparr>"

definition kv_launch :: launch where
  "kv_launch = \<lparr>l_numel = 1000, l_junk = (\<lambda>pid l k. 7), l_order = (\<lambda>n. rev [0..<n]), l_triton = True\<rparr>"

lemma kv_example_fields:
  "sc_store kv_example x = example_req\<lparr>req_pool_idx := None, fill_ids := [11, 12, 13], extend_input_len := 3\<rparr>"
  "s_pool (sc_sys kv_example) = rt_init 4 16" "s_alloc (sc_sys kv_example) = token_init 12 False"
  by (simp_all add: kv_example_def)

lemma kv_example_start: "kv_start [0, 1] kv_example"
  by (simp add: kv_start_def kv_example_fields token_init_ok) (simp add: token_init_def token_clear_def init_base_def rt_init_def list_all_iff)

lemma kv_example_holders: "holders (sc_store kv_example) refs = []"
  by (simp add: holders_def kv_example_fields)

lemma kv_example_prefill:
  "\<forall>x \<in> set [0, 1]. extend_ok (holders (sc_store kv_example) [0, 1]) (mem_of kv_example) x"
  "length (filter (\<lambda>x. x \<in> set (holders (sc_store kv_example) [0, 1])) [0, 1 :: ref]) \<le> 1"
  "length (filter (\<lambda>x. x \<notin> set (holders (sc_store kv_example) [0, 1])) [0, 1 :: ref]) \<le> length (free_slots (s_pool (sc_sys kv_example)))"
  "sum_list (ext_lens (sc_store kv_example) [0, 1]) \<le> available_size (s_alloc (sc_sys kv_example))"
  "program_order (length [0, 1 :: ref]) (l_order kv_launch (length [0, 1 :: ref]))"
  by (simp_all add: extend_ok_def kv_example_holders kv_example_fields rt_init_def ext_lens_def program_order_def kv_launch_def
      example_req_def init_req_def available_size_def token_init_def token_clear_def init_base_def mem_of_def lessThan_Suc)

lemma kv_example_run:
  "\<exists>b M. prepare_for_extend kv_launch True 32000 (init_new (sc_store kv_example) [0, 1] False None) (mem_of kv_example) = Inr (b, M) \<and>
     kv_step C E fwd [0, 1] kv_example (with_mem M b kv_example) \<and> holders (m_store M) [0, 1] = [0, 1] \<and>
     (\<exists>M2. retract_req 1 M = Inr M2 \<and> kv_step C E fwd [0, 1] (with_mem M b kv_example) (with_mem M2 b (with_mem M b kv_example)) \<and>
        holders (m_store M2) [0, 1] = [0])"
proof -
  let ?S = kv_example
  have inv: "kv_balanced True (avail_slots (s_alloc (sc_sys ?S))) (mset (free_slots (s_pool (sc_sys ?S)))) [0, 1] ?S"
    by (rule kv_start_balanced [OF kv_example_start])
  have k: "kv_inv (avail_slots (s_alloc (sc_sys ?S))) (mset (free_slots (s_pool (sc_sys ?S)))) (holders (sc_store ?S) [0, 1]) (mem_of ?S)"
    using inv by (simp only: kv_balanced_def)
  have d: "distinct [0, 1 :: ref]" by simp
  obtain b M where run: "prepare_for_extend kv_launch True 32000 (init_new (sc_store ?S) [0, 1] False None) (mem_of ?S) = Inr (b, M)"
    and inv2: "kv_inv (avail_slots (s_alloc (sc_sys ?S))) (mset (free_slots (s_pool (sc_sys ?S)))) [0, 1] M"
    using prepare_for_extend_keeps [OF k d kv_example_prefill(1,2) _ _ kv_example_prefill(5), of True 32000 False None]
      kv_example_prefill(3,4) by (auto simp: kv_example_holders)
  have st: "kv_step C E fwd [0, 1] ?S (with_mem M b ?S)"
    by (rule kv_step.prefill [OF d _ kv_example_prefill run]) simp
  have rows: "req_pool_idx (m_store M x) \<noteq> None" if "x \<in> {0, 1}" for x using inv2 that by (auto simp: kv_inv_def lens_ok_def)
  then have h1: "holders (m_store M) [0, 1] = [0, 1]" by (simp add: holders_def)
  obtain p a r where rel: "release_kv_cache False (m_pool M) (m_alloc M) (m_store M 1) = Inr (p, a, r)" "req_pool_idx r = None"
    using release_keeps [OF inv2, of 1] by auto
  let ?M2 = "\<lparr>m_store = (m_store M)(1 := reset_for_retract r), m_pool = p, m_alloc = a\<rparr>"
  have ret: "retract_req 1 M = Inr ?M2" using rel(1) by (simp add: retract_req_def)
  have "kv_step C E fwd [0, 1] (with_mem M b ?S) (with_mem ?M2 b (with_mem M b ?S))"
    by (rule kv_step.retract [of 1]) (use ret in simp_all)
  moreover have "holders (m_store ?M2) [0, 1] = [0]" using rows rel(2) by (simp add: holders_def reset_for_retract_def)
  ultimately show ?thesis using run st h1 ret by blast
qed

text \<open>C18. With an allocator of single slots (page size 1), LLM-42 enabled in fixed-size mode and a verifier that predicts a reference
  from the cached tokens and the window, in every execution with prefill and decode batches, their results, rollbacks, releases and
  retractions in any order, the slots and rows the scheduler started with are each free or held by
  exactly one request: none is leaked and none is shared.  The slots a request holds are as many as
  its KV length.\<close>

theorem kv_memory_conserved:
  assumes "kv_start refs S0" "(kv_step C E fwd refs)\<^sup>*\<^sup>* S0 S" "enable_llm42 C" "faithful_verifier ref fwd"
  defines "live \<equiv> holders (sc_store S) refs"
  shows "avail_slots (s_alloc (sc_sys S)) + mset (concat (map (owned (mem_of S)) live)) = avail_slots (s_alloc (sc_sys S0)) \<and>
    mset (free_slots (s_pool (sc_sys S))) + mset (map (row_of (mem_of S)) live) = mset (free_slots (s_pool (sc_sys S0))) \<and>
    distinct (concat (map (owned (mem_of S)) live)) \<and> distinct (map (row_of (mem_of S)) live) \<and>
    (\<forall>x \<in> set live. kv_committed_len (sc_store S x) = int (length (owned (mem_of S) x)))"
  using kv_balanced_partition [OF kv_run_balanced [OF assms(2-4) kv_start_balanced [OF assms(1)]]] unfolding live_def by blast

theorem kv_memory_conserved_witness:
  "kv_start [0, 1] kv_example \<and> faithful_verifier digit_ref digit_verifier \<and>
   (\<exists>S. (kv_step example_conf example_env digit_verifier [0, 1])\<^sup>*\<^sup>* kv_example S \<and> holders (sc_store S) [0, 1] = [0] \<and>
      avail_slots (s_alloc (sc_sys S)) + mset (owned (mem_of S) 0) = avail_slots (s_alloc (sc_sys kv_example)))"
proof -
  obtain b M M2 where
    1: "kv_step example_conf example_env digit_verifier [0, 1] kv_example (with_mem M b kv_example)"
    and 2: "kv_step example_conf example_env digit_verifier [0, 1] (with_mem M b kv_example) (with_mem M2 b (with_mem M b kv_example))"
    and h: "holders (m_store M2) [0, 1] = [0]"
    using kv_example_run [of example_conf example_env digit_verifier] by blast
  let ?S = "with_mem M2 b (with_mem M b kv_example)"
  have r: "(kv_step example_conf example_env digit_verifier [0, 1])\<^sup>*\<^sup>* kv_example ?S" 
    by (rule rtranclp.rtrancl_into_rtrancl [where r = "kv_step example_conf example_env digit_verifier [0, 1]", OF _ 2])
      (rule r_into_rtranclp [where r = "kv_step example_conf example_env digit_verifier [0, 1]", OF 1])
  have h': "holders (sc_store ?S) [0, 1] = [0]" using h by simp
  have "enable_llm42 example_conf" by (simp add: example_conf_def)
  note c = kv_memory_conserved [OF kv_example_start r this model_faithful, unfolded h', THEN conjunct1]
  have "avail_slots (s_alloc (sc_sys ?S)) + mset (owned (mem_of ?S) 0) = avail_slots (s_alloc (sc_sys kv_example))"
    using c by (simp only: list.map concat.simps append_Nil2)
  with kv_example_start model_faithful r h' show ?thesis by blast
qed

text \<open>C20. When the scheduler has counted rows and slots, preparing a prefill batch never raises: every new request
  gets a row, every request gets the slots of its next chunk after those it already has, the batch represents
  its requests and its input is their next chunks.  The kernel that fills the table may run its programs in any order.\<close>

theorem prefill_batch_prepared:
  assumes "kv_inv T R live M" "distinct xs" "\<forall>x \<in> set xs. extend_ok live M x"
    and "length (filter (\<lambda>x. x \<in> set live) xs) \<le> 1"
    and "length (filter (\<lambda>x. x \<notin> set live) xs) \<le> length (free_slots (m_pool M))"
    and "sum_list (ext_lens (m_store M) xs) \<le> available_size (m_alloc M)"
    and "program_order (length xs) (l_order L (length xs))"
  shows "\<exists>b' M'. prepare_for_extend L ed vocab (init_new (m_store M) xs overlap chunked) M = Inr (b', M') \<and>
    kv_inv T R (live @ filter (\<lambda>x. x \<notin> set live) xs) M' \<and> represents ed (m_store M') b' \<and> b_reqs b' = xs \<and>
    b_input_ids b' = Some (concat (map (\<lambda>x. drop (length (prefix_indices (m_store M x))) (fill_ids (m_store M x))) xs)) \<and>
    (\<forall>y. y \<notin> set xs \<longrightarrow> m_store M' y = m_store M y) \<and>
    (\<forall>x \<in> set xs. m_store M' x = extended (req_pool_idx (m_store M' x)) (m_store M x))"
  by (rule prepare_for_extend_keeps [OF assms])

theorem prefill_batch_prepared_witness:
  "\<exists>b' M'. prepare_for_extend kv_launch True 32000 (init_new (sc_store kv_example) [0, 1] False None) (mem_of kv_example) = Inr (b', M') \<and>
     kv_inv (avail_slots (token_init 12 False)) (mset [0, 1, 2, 3]) [0, 1] M' \<and> b_input_ids b' = Some [11, 12, 13, 11, 12, 13]"
proof -
  have "mset (free_slots (s_pool (sc_sys kv_example))) = mset [0, 1, 2, 3]" by (simp add: kv_example_fields rt_init_def upt_rec numeral_2_eq_2 numeral_3_eq_3)
  then have k: "kv_inv (avail_slots (token_init 12 False)) (mset [0, 1, 2, 3]) (holders (sc_store kv_example) [0, 1]) (mem_of kv_example)"
    using kv_start_balanced [OF kv_example_start] unfolding kv_balanced_def kv_example_fields(2,3) by metis
  have ids: "concat (map (\<lambda>x. drop (length (prefix_indices (sc_store kv_example x))) (fill_ids (sc_store kv_example x))) [0, 1]) = [11, 12, 13, 11, 12, 13]"
    by (simp add: kv_example_fields example_req_def init_req_def)
  have d: "distinct [0, 1 :: ref]" by simp
  show ?thesis
    using prefill_batch_prepared [OF k d kv_example_prefill(1,2), of kv_launch True 32000 False None] kv_example_prefill(3-5)
    unfolding mem_of_simps ids kv_example_holders by fastforce
qed

text \<open>A balance read off a concrete state.\<close>

lemma kv_balanced_compute:
  fixes S refs
  defines "live \<equiv> holders (sc_store S) refs" and "a \<equiv> s_alloc (sc_sys S)" and "p \<equiv> s_pool (sc_sys S)"
  assumes "distinct refs" "is_not_in_free_group a" "allocator_ok a" "page_size a = 1"
    and d: "distinct ((free_pages a @ release_pages a) @ concat (map (owned (mem_of S)) live))"
    and r: "list_all (\<lambda>s. 1 \<le> s \<and> s \<le> int (num_pages a)) ((free_pages a @ release_pages a) @ concat (map (owned (mem_of S)) live))"
    and "distinct (free_slots p @ map (row_of (mem_of S)) live)" "list_all (\<lambda>i. i < rt_size p) (free_slots p @ map (row_of (mem_of S)) live)"
    and "list_all (lens_ok (mem_of S)) live"
  shows "kv_balanced True (mset ((free_pages a @ release_pages a) @ concat (map (owned (mem_of S)) live)))
    (mset (free_slots p @ map (row_of (mem_of S)) live)) refs S"
proof -
  have one: "count (mset xs) z \<le> 1" if "distinct xs" for xs :: "'z list" and z using that by (simp add: distinct_count_atmost_1)
  have av: "avail_slots a = mset (free_pages a @ release_pages a)" "pending_slots a = {#}"
    using assms(5,7) by (simp_all add: avail_slots_def pending_slots_def)
  have m: "m_alloc (mem_of S) = a" "m_pool (mem_of S) = p" by (simp_all add: a_def p_def)
  have "slots_balanced (mset ((free_pages a @ release_pages a) @ concat (map (owned (mem_of S)) live))) live (mem_of S)"
    using one [OF d] r assms(6,7) unfolding slots_balanced_def m av by (auto simp: list_all_iff)
  moreover have "rows_balanced (mset (free_slots p @ map (row_of (mem_of S)) live)) live (mem_of S)"
    using one [OF assms(10)] assms(11) unfolding rows_balanced_def m by (auto simp: list_all_iff)
  moreover have "distinct live" using assms(4) by (simp add: live_def holders_def)
  ultimately show ?thesis
    using assms(4,5,12) unfolding kv_balanced_def kv_inv_def live_def [symmetric] a_def [symmetric] by (simp add: list_all_iff)
qed

definition kv_rollback :: sched where
  "kv_rollback = example_sched\<lparr>sc_sys := example_sys\<lparr>s_store :=
     (\<lambda>_. (s_store example_sys 0)\<lparr>kv_committed_len := 7, kv_allocated_len := 7\<rparr>)\<rparr>\<rparr>"

definition kv_rollback_slots :: "slot list" where
  "kv_rollback_slots = (free_pages (s_alloc example_sys) @ release_pages (s_alloc example_sys)) @
     concat (map (owned (mem_of kv_rollback)) (holders (sc_store kv_rollback) [0]))"

definition kv_rollback_rows :: "nat list" where
  "kv_rollback_rows = free_slots (s_pool example_sys) @ map (row_of (mem_of kv_rollback)) (holders (sc_store kv_rollback) [0])"

lemma kv_rollback_balanced: "kv_balanced True (mset kv_rollback_slots) (mset kv_rollback_rows) [0] kv_rollback"
proof -
  have sys: "s_alloc (sc_sys kv_rollback) = s_alloc example_sys" "s_pool (sc_sys kv_rollback) = s_pool example_sys"
    by (simp_all add: kv_rollback_def)
  show ?thesis
    by (rule kv_balanced_compute [of "[0]" kv_rollback, unfolded sys kv_rollback_slots_def [symmetric] kv_rollback_rows_def [symmetric]];
        code_simp)
qed

lemma kv_rollback_ready: "decode_ready (the (fixed_pool_of (s_worker example_sys))) {0} [t] kv_rollback"
proof -
  let ?r = "(s_store example_sys 0)\<lparr>kv_committed_len := 7, kv_allocated_len := 7\<rparr>"
  have c: "s_worker (sc_sys kv_rollback) = s_worker example_sys" "s_batch (sc_sys kv_rollback) = s_batch example_sys"
    "s_pool (sc_sys kv_rollback) = s_pool example_sys" "grammar_queue kv_rollback = []" "sc_store kv_rollback x = ?r" for x
    by (simp_all add: kv_rollback_def example_sched_def)
  have b: "b_reqs (s_batch example_sys) = [0]" by code_simp
  have "decodable (s_pool example_sys) (window_size (s_worker example_sys)) (s_store example_sys 0)"
    "fixed_mode (s_worker example_sys) (the (fixed_pool_of (s_worker example_sys)))" "batch_ok (s_batch example_sys)"
    "0 < fp_fixed_size (the (fixed_pool_of (s_worker example_sys)))"
    using example_sched_ready [of t] by (simp_all add: decode_ready_def example_sched_def Let_def b)
  moreover from this(1) have "decodable (s_pool example_sys) (window_size (s_worker example_sys)) ?r"
    by (simp add: decodable_def finished_def has_room_def seqlen_def)
  ultimately show ?thesis by (simp add: decode_ready_def c b)
qed

text \<open>C19. With an allocator of single slots (page size 1), LLM-42 in fixed-size mode and a verifier that predicts a reference from the
  cached tokens and the window, processing decode results, with verification, rollback and release, conserves KV memory: exactly the slots of
  the discarded tokens and of the released requests go back to the allocator.  The KV length of every
  deterministic request that goes on is again one behind its sequence.\<close>

theorem decode_results_conserve_kv:
  assumes "decode_ready fp Q toks S" "enable_llm42 C"
    and "sound_verifier ref fwd (s_pool (sc_sys S)) (window_size (s_worker (sc_sys S)))"
    and "kv_balanced True T R refs S" "set (b_reqs (s_batch (sc_sys S))) \<subseteq> set refs"
    and "\<forall>x \<in> set (b_reqs (s_batch (sc_sys S))). is_deterministic (sc_store S x) \<longrightarrow> kv_ahead 1 (sc_store S x)"
    and "process_batch_result_decode C E ed fl fwd lg toks S = Some (Inr S')"
  shows "kv_balanced True T R refs S' \<and>
    (\<forall>x \<in> set (b_reqs (s_batch (sc_sys S))). is_deterministic (sc_store S x) \<longrightarrow> req_pool_idx (sc_store S' x) \<noteq> None \<longrightarrow>
       kv_ahead 0 (sc_store S' x))"
  using decode_result_kv [OF assms] by blast

theorem decode_results_conserve_kv_witness:
  "kv_balanced True (mset kv_rollback_slots) (mset kv_rollback_rows) [0] kv_rollback \<and>
   (\<exists>S'. process_batch_result_decode example_conf example_env True id digit_verifier example_logits [11] kv_rollback = Some (Inr S') \<and>
      kv_balanced True (mset kv_rollback_slots) (mset kv_rollback_rows) [0] S' \<and>
      kv_allocated_len (sc_store kv_rollback 0) = 7 \<and> kv_allocated_len (sc_store S' 0) = 5)"
proof -
  let ?res = "process_batch_result_decode example_conf example_env True id digit_verifier example_logits [11] kv_rollback"
  have "(case ?res of Some (Inr S') \<Rightarrow> kv_allocated_len (sc_store S' 0) = 5 | _ \<Rightarrow> False)" by code_simp
  then obtain S' where S': "?res = Some (Inr S')" "kv_allocated_len (sc_store S' 0) = 5" by (auto split: option.splits sum.splits)
  have c: "b_reqs (s_batch (sc_sys kv_rollback)) = [0]" "enable_llm42 example_conf" "kv_ahead 1 (sc_store kv_rollback 0)"
    "kv_allocated_len (sc_store kv_rollback 0) = 7" by code_simp+
  have B: "set (b_reqs (s_batch (sc_sys kv_rollback))) \<subseteq> set [0]" by (simp add: c(1))
  have A: "\<forall>x \<in> set (b_reqs (s_batch (sc_sys kv_rollback))). is_deterministic (sc_store kv_rollback x) \<longrightarrow> kv_ahead 1 (sc_store kv_rollback x)"
    using c(3) by (simp add: c(1))
  from decode_results_conserve_kv [OF kv_rollback_ready c(2) model_sound kv_rollback_balanced B A S'(1)]
  show ?thesis using kv_rollback_balanced S' c(4) by blast
qed

end
