(* ===== verification/Retraction.thy ===== *)
theory Retraction
  imports KV_System
begin


text \<open>
  \<open>ScheduleBatch.retract_decode\<close>: when a decode batch has not enough memory, requests are sent back to the
  waiting queue until it has.  The loop ends, what is left has the memory for its next step, and the
  balance of slots and rows is kept.
\<close>

lemma retract_req_keeps:
  assumes "kv_inv T R live M" "x \<in> set live"
  shows "\<exists>M1. retract_req x M = Inr M1 \<and> kv_inv T R (remove1 x live) M1 \<and> (\<forall>y. y \<noteq> x \<longrightarrow> m_store M1 y = m_store M y)"
proof -
  obtain p a r where "release_kv_cache False (m_pool M) (m_alloc M) (m_store M x) = Inr (p, a, r)"
    "\<forall>r. kv_inv T R (remove1 x live) \<lparr>m_store = (m_store M)(x := r), m_pool = p, m_alloc = a\<rparr>"
    using release_keeps [OF assms] by blast
  then show ?thesis by (auto simp: retract_req_def)
qed

lemma retract_loop_spec:
  assumes "kv_inv T R live M" "distinct (map ((!) reqs) is)" "\<forall>i \<in> set is. reqs ! i \<in> set live" "is \<noteq> []"
  shows "\<exists>ds keep M1. is = ds @ keep \<and> keep \<noteq> [] \<and> retract_loop reqs first is rt M = Inr (keep, rt @ map ((!) reqs) ds, M1) \<and>
    kv_inv T R (filter (\<lambda>x. x \<notin> set (map ((!) reqs) ds)) live) M1 \<and>
    (\<forall>y. y \<notin> set (map ((!) reqs) ds) \<longrightarrow> m_store M1 y = m_store M y) \<and>
    (length keep = 1 \<or> check_decode_mem M1 (map ((!) reqs) (rev keep))) \<and> (first \<longrightarrow> 1 < length is \<longrightarrow> ds \<noteq> []) \<and>
    fold_result retract_req (map ((!) reqs) ds) M = Inr M1 \<and>
    (ds \<noteq> [] \<longrightarrow> first \<and> length ds = 1 \<or>
       (\<exists>M0. fold_result retract_req (map ((!) reqs) (butlast ds)) M = Inr M0 \<and>
          \<not> check_decode_mem M0 (map ((!) reqs) (rev keep @ [last ds]))))"
  using assms
proof (induction reqs first "is" rt M arbitrary: live rule: retract_loop.induct)
  case (2 reqs first i rt M)
  then show ?case by (intro exI [of _ "[]"] exI [of _ "[i]"] exI [of _ M]) simp
next
  case (3 reqs first i j "is" rt M)
  show ?case
  proof (cases "first \<or> \<not> check_decode_mem M (map ((!) reqs) (rev (i # j # is)))")
    case True
    let ?x = "reqs ! i"
    obtain M1 where M1: "retract_req ?x M = Inr M1" "kv_inv T R (remove1 ?x live) M1" "\<forall>y. y \<noteq> ?x \<longrightarrow> m_store M1 y = m_store M y"
      using retract_req_keeps [OF "3.prems"(1), of ?x] "3.prems"(3) by auto
    have dl: "distinct live" using "3.prems"(1) by (simp add: kv_inv_def)
    have "reqs ! k \<in> set (remove1 ?x live)" if "k \<in> set (j # is)" for k
    proof -
      have "?x \<notin> set (map ((!) reqs) (j # is))" using "3.prems"(2) by simp
      moreover have "reqs ! k \<in> set (map ((!) reqs) (j # is))" using that by (simp only: set_map) (rule imageI)
      ultimately have "reqs ! k \<noteq> ?x" by metis
      moreover have "reqs ! k \<in> set live" by (rule bspec [OF "3.prems"(3)]) (use that in simp)
      ultimately show ?thesis using dl by simp
    qed
    then have "\<forall>k \<in> set (j # is). reqs ! k \<in> set (remove1 ?x live)" by blast
    moreover have d2: "distinct (map ((!) reqs) (j # is))" using "3.prems"(2) by simp
    ultimately obtain ds keep M2 where ih: "j # is = ds @ keep" "keep \<noteq> []"
      "retract_loop reqs False (j # is) (rt @ [?x]) M1 = Inr (keep, (rt @ [?x]) @ map ((!) reqs) ds, M2)"
      "kv_inv T R (filter (\<lambda>x. x \<notin> set (map ((!) reqs) ds)) (remove1 ?x live)) M2"
      "\<forall>y. y \<notin> set (map ((!) reqs) ds) \<longrightarrow> m_store M2 y = m_store M1 y"
      "length keep = 1 \<or> check_decode_mem M2 (map ((!) reqs) (rev keep))"
      "fold_result retract_req (map ((!) reqs) ds) M1 = Inr M2"
      "ds \<noteq> [] \<longrightarrow> (\<exists>M0. fold_result retract_req (map ((!) reqs) (butlast ds)) M1 = Inr M0 \<and>
          \<not> check_decode_mem M0 (map ((!) reqs) (rev keep @ [last ds])))"
      using "3.IH" [OF True M1(2) d2] by blast
    have f: "filter (\<lambda>x. x \<notin> set (map ((!) reqs) ds)) (remove1 ?x live) = filter (\<lambda>x. x \<notin> set (map ((!) reqs) (i # ds))) live"
      using dl by (auto simp: distinct_remove1_removeAll removeAll_filter_not_eq intro!: filter_cong)
    have run: "retract_loop reqs first (i # j # is) rt M = Inr (keep, rt @ map ((!) reqs) (i # ds), M2)"
      using True M1(1) ih(3) by (simp only: retract_loop.simps if_True bind_result.simps) simp
    have "\<forall>y. y \<notin> set (map ((!) reqs) (i # ds)) \<longrightarrow> m_store M2 y = m_store M y" using ih(5) M1(3) by simp
    moreover have "fold_result retract_req (map ((!) reqs) (i # ds)) M = Inr M2" using M1(1) ih(7) by simp
    moreover have "first \<and> length (i # ds) = 1 \<or> (\<exists>M0. fold_result retract_req (map ((!) reqs) (butlast (i # ds))) M = Inr M0 \<and>
        \<not> check_decode_mem M0 (map ((!) reqs) (rev keep @ [last (i # ds)])))"
      using True M1(1) ih(1,8) by (cases "ds = []") auto
    ultimately show ?thesis using ih(1,2,4,6) run unfolding f
      by (intro exI [of _ "i # ds"] exI [of _ keep] exI [of _ M2]) simp
  next
    case False
    then show ?thesis using "3.prems"
      by (intro exI [of _ "[]"] exI [of _ "i # j # is"] exI [of _ M]) simp
  qed
qed simp

lemma retract_order_perm: "mset (retract_order h reqs) = mset [0..<length reqs]"
  by (simp add: retract_order_def)

lemma filter_batch_store:
  assumes "\<forall>i \<in> set keep. i < length (b_reqs b) \<and> h' (b_reqs b ! i) = h (b_reqs b ! i)"
  shows "filter_batch h' [] (Some keep) b = filter_batch h [] (Some keep) b"
proof -
  have s: "select (b_reqs b) keep = Inr (map ((!) (b_reqs b)) keep)" using assms by (intro select_nth) simp
  have e: "list_ex (\<lambda>x. f (h' x)) (map ((!) (b_reqs b)) keep) = list_ex (\<lambda>x. f (h x)) (map ((!) (b_reqs b)) keep)" for f :: "req \<Rightarrow> bool"
    using assms by (auto simp: list_ex_iff)
  show ?thesis
    unfolding filter_batch_def Let_def option.case s bind_result.simps e [of return_logprob] e [of stream] e [of "\<lambda>r. grammar r \<noteq> None"] ..
qed

lemma represents_store:
  assumes "represents ed h b" "\<forall>x \<in> set (b_reqs b). h' x = h x"
  shows "represents ed h' b"
proof -
  have "map h' (b_reqs b) = map h (b_reqs b)" "map (\<lambda>x. sampling_params (h' x)) (b_reqs b) = map (\<lambda>x. sampling_params (h x)) (b_reqs b)"
    using assms(2) by simp_all
  moreover have "list_ex (\<lambda>x. f (h' x)) (b_reqs b) = list_ex (\<lambda>x. f (h x)) (b_reqs b)" for f :: "req \<Rightarrow> bool"
    using assms(2) by (auto simp: list_ex_iff)
  note e = this [of stream] this [of "\<lambda>r. grammar r \<noteq> None"]
  ultimately show ?thesis using assms(1) by (simp only: represents_def e)
qed

text \<open>The new estimate: a ratio when all token limits are known and not negative.\<close>

lemma retract_ratio:
  assumes mx: "\<forall>r \<in> set rs. \<exists>n \<ge> 0. max_new_tokens (sampling_params r) = Some n"
  shows "\<exists>ns. map_result (\<lambda>r. case max_new_tokens (sampling_params r) of None \<Rightarrow> Inl TypeError | Some n \<Rightarrow> Inr n) rs = Inr ns \<and> 0 \<le> sum_list ns \<and>
    0 \<le> min 1 (real_of_int (sum_list (map (\<lambda>r. int (length (output_ids r))) rs) + int (steps * length rs)) / real_of_int (sum_list ns + 1))"
proof -
  let ?mx = "\<lambda>r. the (max_new_tokens (sampling_params r))"
  have "map_result (\<lambda>r. case max_new_tokens (sampling_params r) of None \<Rightarrow> Inl TypeError | Some n \<Rightarrow> Inr n) rs = Inr (map ?mx rs)"
    by (rule map_result_Inr_map) (use mx in auto)
  moreover have "0 \<le> sum_list (map ?mx rs)" by (rule sum_list_nonneg) (use mx in auto)
  moreover have "0 \<le> sum_list (map (\<lambda>r. int (length (output_ids r))) rs)" by (rule sum_list_nonneg) auto
  ultimately show ?thesis by (intro exI [of _ "map ?mx rs"]) simp
qed

text \<open>Keeping the requests at the indices \<open>left\<close>, which are all of them only if there is one.\<close>

lemma filter_left:
  assumes rep: "represents ed h b" and ne: "left \<noteq> []" and lt: "\<forall>i \<in> set left. i < length (b_reqs b)"
    and all: "length left = length (b_reqs b) \<Longrightarrow> left = [0]"
  shows "\<exists>b1. filter_batch h [] (Some (rev left)) b = Inr b1 \<and> b_reqs b1 = map ((!) (b_reqs b)) (rev left) \<and> represents ed h b1"
proof (cases "length (rev left) = length (b_reqs b)")
  case True
  then have one: "length (b_reqs b) = 1" "left = [0]" using all by auto
  then have "map ((!) (b_reqs b)) (rev left) = b_reqs b" by (cases "b_reqs b") auto
  then show ?thesis using rep one by (intro exI [of _ b]) (simp add: filter_batch_def)
next
  case False
  have "\<forall>i \<in> set (rev left). i < length (b_reqs b)" "0 < length (rev left)"
    "rev left = (case Some (rev left) of None \<Rightarrow> kept_indices h (b_reqs b) [] | Some ks \<Rightarrow> ks)"
    using lt ne by simp_all
  from filter_batch_keep [OF rep this(1,2) False this(3)] show ?thesis by blast
qed

lemma retract_decode_spec:
  assumes inv: "kv_inv T R live M" and d: "distinct (b_reqs b)" "set (b_reqs b) \<subseteq> set live" "b_reqs b \<noteq> []"
    and rep: "represents ed (m_store M) b"
    and max: "\<forall>x \<in> set (b_reqs b). \<exists>n \<ge> 0. max_new_tokens (sampling_params (m_store M x)) = Some n"
  shows "(retract_decode steps b M = Inl ValueError \<and>
      (\<exists>x ys M1. mset (b_reqs b) = {#x#} + mset ys \<and> fold_result retract_req ys M = Inr M1 \<and> \<not> check_decode_mem M1 [x] \<and>
         kv_inv T R (filter (\<lambda>y. y \<notin> set ys) live) M1)) \<or>
    (\<exists>gone ratio b1 M1. retract_decode steps b M = Inr (gone, ratio, b1, M1) \<and> fold_result retract_req gone M = Inr M1 \<and>
      (1 < length gone \<longrightarrow> (\<exists>M0. fold_result retract_req (butlast gone) M = Inr M0 \<and> \<not> check_decode_mem M0 (b_reqs b1 @ [last gone]))) \<and>
      mset (b_reqs b) = mset (b_reqs b1) + mset gone \<and> b_reqs b1 \<noteq> [] \<and> (1 < length (b_reqs b) \<longrightarrow> gone \<noteq> []) \<and>
      check_decode_mem M1 (b_reqs b1) \<and> represents ed (m_store M1) b1 \<and>
      kv_inv T R (filter (\<lambda>x. x \<notin> set gone) live) M1 \<and> (\<forall>y. y \<notin> set gone \<longrightarrow> m_store M1 y = m_store M y) \<and> 0 \<le> ratio \<and> ratio \<le> 1)"
proof -
  let ?reqs = "b_reqs b" and ?is = "retract_order (m_store M) (b_reqs b)"
  have ms: "mset ?is = mset [0..<length ?reqs]" by (rule retract_order_perm)
  have set: "set ?is = {0..<length ?reqs}" using mset_eq_setD [OF ms] by simp
  have mm: "mset (map ((!) ?reqs) ?is) = mset ?reqs" using ms by (metis map_nth mset_map)
  then have di: "distinct (map ((!) ?reqs) ?is)" using d(1) mset_eq_imp_distinct_iff by blast
  have lis: "length ?is = length ?reqs" using arg_cong [OF ms, of size] by simp
  then have ne: "?is \<noteq> []" using d(3) by auto
  have li: "\<forall>i \<in> set ?is. ?reqs ! i \<in> set live" using set d(2) by auto
  obtain ds left M1 where L: "?is = ds @ left" "left \<noteq> []" "retract_loop ?reqs True ?is [] M = Inr (left, map ((!) ?reqs) ds, M1)"
    "kv_inv T R (filter (\<lambda>x. x \<notin> set (map ((!) ?reqs) ds)) live) M1"
    "\<forall>y. y \<notin> set (map ((!) ?reqs) ds) \<longrightarrow> m_store M1 y = m_store M y"
    "length left = 1 \<or> check_decode_mem M1 (map ((!) ?reqs) (rev left))" "1 < length ?is \<longrightarrow> ds \<noteq> []"
    "fold_result retract_req (map ((!) ?reqs) ds) M = Inr M1"
    "ds \<noteq> [] \<longrightarrow> length ds = 1 \<or> (\<exists>M0. fold_result retract_req (map ((!) ?reqs) (butlast ds)) M = Inr M0 \<and>
        \<not> check_decode_mem M0 (map ((!) ?reqs) (rev left @ [last ds])))"
    using retract_loop_spec [OF inv di li ne, of True "[]", unfolded append_Nil simp_thms] by blast
  let ?gone = "map ((!) ?reqs) ds" and ?keep = "map ((!) ?reqs) (rev left)"
  have part: "mset ?reqs = mset ?keep + mset ?gone" using mm by (simp add: L(1) ac_simps)
  have kd: "set ?keep \<inter> set ?gone = {}" using di by (auto simp: L(1))
  show ?thesis
  proof (cases "length (rev left) \<le> 1 \<and> \<not> check_decode_mem M1 ?keep")
    case True
    then obtain i where i: "left = [i]" using L(2) by (cases left) auto
    have "retract_decode steps b M = Inl ValueError" using L(3) True by (simp add: retract_decode_def)
    moreover have "mset ?reqs = {#?reqs ! i#} + mset ?gone" using part i by simp
    ultimately show ?thesis using L(4,8) True i
      by (intro disjI1 conjI exI [of _ "?reqs ! i"] exI [of _ ?gone] exI [of _ M1]) simp_all
  next
    case False
    then have ok: "check_decode_mem M1 ?keep" using L(2,6) by (cases left) auto
    have kept: "\<forall>i \<in> set (rev left). i < length ?reqs \<and> m_store M1 (?reqs ! i) = m_store M (?reqs ! i)"
    proof
      fix i assume i: "i \<in> set (rev left)"
      then have "?reqs ! i \<in> set ?keep" by auto
      then have "?reqs ! i \<notin> set ?gone" using kd by blast
      then show "i < length ?reqs \<and> m_store M1 (?reqs ! i) = m_store M (?reqs ! i)" using L(5) set L(1) i by auto
    qed
    have all: "left = [0]" if "length left = length ?reqs"
    proof -
      have "ds = []" using that L(1) lis by simp
      then obtain i where "?is = [i]" using L(7) ne by (cases ?is) auto
      then show ?thesis using lis set L(1) \<open>ds = []\<close> by auto
    qed
    obtain b1 where b1: "filter_batch (m_store M) [] (Some (rev left)) b = Inr b1" "b_reqs b1 = ?keep" "represents ed (m_store M) b1"
      using filter_left [OF rep L(2) _ all] kept by auto
    have sub: "set (b_reqs b1) \<subseteq> set ?reqs" using mset_eq_setD [of ?reqs "?keep @ ?gone"] part unfolding b1(2) by simp
    have same: "\<forall>x \<in> set (b_reqs b1). m_store M1 x = m_store M x" using kept b1(2) by auto
    have r1: "represents ed (m_store M1) b1" by (rule represents_store [OF b1(3) same])
    let ?rs = "map (m_store M1) (b_reqs b1)"
    have "\<forall>r \<in> set ?rs. \<exists>n \<ge> 0. max_new_tokens (sampling_params r) = Some n" using max sub same by auto
    from retract_ratio [OF this, of steps] obtain ns where
      ns: "map_result (\<lambda>r. case max_new_tokens (sampling_params r) of None \<Rightarrow> Inl TypeError | Some n \<Rightarrow> Inr n) ?rs = Inr ns" "0 \<le> sum_list ns"
      and ge: "0 \<le> min 1 (real_of_int (sum_list (map (\<lambda>r. int (length (output_ids r))) ?rs) + int (steps * length ?rs)) / real_of_int (sum_list ns + 1))"
      by blast
    let ?ratio = "min 1 (real_of_int (sum_list (map (\<lambda>r. int (length (output_ids r))) ?rs) + int (steps * length ?rs)) / real_of_int (sum_list ns + 1))"
    have nz: "sum_list ns + 1 \<noteq> 0" using ns(2) by linarith
    have cond: "(length (rev left) \<le> 1 \<and> \<not> check_decode_mem M1 ?keep) = False" using False by simp
    have run: "retract_decode steps b M = Inr (?gone, ?ratio, b1, M1)"
      unfolding retract_decode_def L(3) bind_result.simps prod.case Let_def cond if_False filter_batch_store [OF kept] b1(1) ns(1)
      using nz by (simp only: if_False)
    have gn: "1 < length ?reqs \<longrightarrow> ?gone \<noteq> []" using L(7) lis by simp
    have bn: "b_reqs b1 \<noteq> []" using b1(2) L(2) by simp
    have part': "mset ?reqs = mset (b_reqs b1) + mset ?gone" and ok': "check_decode_mem M1 (b_reqs b1)"
      using part ok by (simp_all only: b1(2))
    have lazy: "1 < length ?gone \<longrightarrow> (\<exists>M0. fold_result retract_req (butlast ?gone) M = Inr M0 \<and> \<not> check_decode_mem M0 (b_reqs b1 @ [last ?gone]))"
    proof
      assume "1 < length ?gone"
      then have "ds \<noteq> []" "length ds \<noteq> 1" by auto
      then show "\<exists>M0. fold_result retract_req (butlast ?gone) M = Inr M0 \<and> \<not> check_decode_mem M0 (b_reqs b1 @ [last ?gone])"
        using L(9) by (simp add: b1(2) map_butlast last_map)
    qed
    show ?thesis
      by (rule disjI2, rule exI [of _ ?gone], rule exI [of _ ?ratio], rule exI [of _ b1], rule exI [of _ M1])
        (intro conjI run part' bn gn ok' r1 L(4,5,8) lazy ge min.cobounded1)
  qed
qed

section \<open>Properties\<close>

text \<open>Two running requests of two KV slots each, and the slots \<open>fs\<close>.\<close>

definition two_mem :: "slot list \<Rightarrow> mem" where
  "two_mem fs =
     \<lparr>m_store = (\<lambda>x. example_req\<lparr>req_pool_idx := Some x, output_ids := replicate (Suc x) 5, kv_committed_len := 2, kv_allocated_len := 2\<rparr>),
      m_pool = (rt_write (rt_write (rt_init 4 16) 0 0 [1, 2]) 1 0 [3, 4])\<lparr>free_slots := [2, 3]\<rparr>,
      m_alloc = (token_init 12 False)\<lparr>free_pages := fs\<rparr>\<rparr>"

lemma two_mem_owned: "owned (two_mem fs) 0 = [1, 2]" "owned (two_mem fs) 1 = [3, 4]"
  by (simp_all add: owned_def row_of_def two_mem_def rt_slice_def rt_write_def rt_init_def upt_rec)

lemma two_mem_inv:
  assumes "distinct fs" "\<forall>s \<in> set fs. 5 \<le> s \<and> s \<le> 12"
  shows "kv_inv (mset (fs @ [1, 2, 3, 4])) (mset [2, 3, 0, 1]) [0, 1] (two_mem fs)"
proof -
  have a: "m_alloc (two_mem fs) = (token_init 12 False)\<lparr>free_pages := fs\<rparr>" by (simp add: two_mem_def)
  have ok: "allocator_ok (m_alloc (two_mem fs))" "page_size (m_alloc (two_mem fs)) = 1" "num_pages (m_alloc (two_mem fs)) = 12"
    "avail_slots (m_alloc (two_mem fs)) = mset fs" "pending_slots (m_alloc (two_mem fs)) = {#}"
    using assms unfolding a
    by (auto simp: allocator_ok_def token_init_def token_clear_def init_base_def held_pages_def num_pages_def avail_slots_def pending_slots_def)
  have one: "count (mset xs) z \<le> 1" if "distinct xs" for xs :: "'z list" and z using that by (simp add: distinct_count_atmost_1)
  have d: "distinct (fs @ [1, 2, 3, 4])" using assms by auto
  have own: "concat (map (owned (two_mem fs)) [0, 1]) = [1, 2, 3, 4]" by (simp add: two_mem_owned del: One_nat_def)
  have "slots_balanced (mset (fs @ [1, 2, 3, 4])) [0, 1] (two_mem fs)"
    using one [OF d] assms(2) unfolding slots_balanced_def own ok by (auto simp: ok)
  moreover have "rows_balanced (mset [2, 3, 0, 1]) [0, 1] (two_mem fs)"
    using one [of "[2, 3, 0, 1]"] unfolding rows_balanced_def by (simp add: two_mem_def row_of_def rt_write_def rt_init_def)
  moreover have "\<forall>x \<in> set [0, 1]. lens_ok (two_mem fs) x"
    by (simp add: lens_ok_def two_mem_def rt_write_def rt_init_def example_req_def init_req_def)
  ultimately show ?thesis by (simp add: kv_inv_def)
qed

lemma two_mem_batch:
  "represents False (m_store (two_mem fs)) (example_batch [0, 1] (m_store (two_mem fs)))"
  "b_reqs (example_batch [0, 1] (m_store (two_mem fs))) = [0, 1]"
  by (rule example_batch_represents) (simp_all add: two_mem_def example_batch_def init_new_def new_batch_def)

text \<open>C21. When \<open>check_decode_mem\<close> holds, preparing a decode batch never raises: every request of the batch gets one new
  slot at the end of its row, the sampled tokens become the input, and the batch still represents its requests.\<close>

theorem decode_batch_prepared:
  assumes "kv_inv T R live M" "distinct (b_reqs b)" "set (b_reqs b) \<subseteq> set live"
    and "rep_lens b (map (m_store M) (b_reqs b))"
    and "\<forall>x \<in> set (b_reqs b). kv_allocated_len (m_store M x) < int (max_context_len (m_pool M))"
    and "check_decode_mem M (b_reqs b)"
  shows "\<exists>b' M'. prepare_for_decode L b M = Inr (b', M') \<and> kv_inv T R live M' \<and> b_reqs b' = b_reqs b \<and>
    b_input_ids b' = b_output_ids b \<and> b_output_ids b' = None \<and> rep_lens b' (map (m_store M') (b_reqs b)) \<and>
    m_store M' = (\<lambda>y. if y \<in> set (b_reqs b) then decode_req (m_store M y) else m_store M y) \<and>
    b_out_cache_loc b' = Some (map (\<lambda>x. last (owned M' x)) (b_reqs b))"
  by (rule prepare_for_decode_keeps [OF assms])

theorem decode_batch_prepared_witness:
  "check_decode_mem (two_mem [5, 6]) [0, 1] \<and>
   (\<exists>b' M'. prepare_for_decode kv_launch (example_batch [0, 1] (m_store (two_mem [5, 6]))) (two_mem [5, 6]) = Inr (b', M') \<and>
      kv_inv (mset [5, 6, 1, 2, 3, 4]) (mset [2, 3, 0, 1]) [0, 1] M' \<and> kv_allocated_len (m_store M' 1) = 3)"
proof -
  let ?M = "two_mem [5, 6]"
  let ?b = "example_batch [0, 1] (m_store ?M)"
  have inv: "kv_inv (mset [5, 6, 1, 2, 3, 4]) (mset [2, 3, 0, 1]) [0, 1] ?M" using two_mem_inv [of "[5, 6]"] by simp
  have rep: "rep_lens ?b (map (m_store ?M) (b_reqs ?b))" using two_mem_batch(1) [of "[5, 6]"] by (simp add: represents_def)
  have mem: "check_decode_mem ?M (b_reqs ?b)" unfolding two_mem_batch(2) by code_simp
  have room: "\<forall>x \<in> set (b_reqs ?b). kv_allocated_len (m_store ?M x) < int (max_context_len (m_pool ?M))"
    by (simp add: two_mem_def rt_write_def rt_init_def)
  have d: "distinct (b_reqs ?b)" "set (b_reqs ?b) \<subseteq> set [0, 1]" by (simp_all add: two_mem_batch(2) del: One_nat_def)
  obtain b' M' where run: "prepare_for_decode kv_launch ?b ?M = Inr (b', M')" "kv_inv (mset [5, 6, 1, 2, 3, 4]) (mset [2, 3, 0, 1]) [0, 1] M'"
    and st: "m_store M' = (\<lambda>y. if y \<in> set (b_reqs ?b) then decode_req (m_store ?M y) else m_store ?M y)"
    using decode_batch_prepared [OF inv d rep room mem, of kv_launch] by blast
  have "kv_allocated_len (m_store M' 1) = 3" unfolding st two_mem_batch(2) by (simp add: decode_req_def two_mem_def)
  then show ?thesis using run mem unfolding two_mem_batch(2) by blast
qed

text \<open>C22. Retraction ends and works.  Either what is left of the decode batch has the memory for its next step, at
  least one request is left, the others were retracted one after the other and hold no slot or row any more, the batch
  represents the ones left, and the new estimate is a ratio; or \<open>ValueError\<close> is raised because one request alone has not
  enough memory even after all the others have been retracted.  One request is retracted in any case if there are
  several, and each further one only while the memory does not suffice for the rest: before the last one of several
  retractions the memory was too small for the requests left together with that one.\<close>

theorem retract_decode_frees_memory:
  assumes "kv_inv T R live M" "distinct (b_reqs b)" "set (b_reqs b) \<subseteq> set live" "b_reqs b \<noteq> []"
    and "represents ed (m_store M) b"
    and "\<forall>x \<in> set (b_reqs b). \<exists>n \<ge> 0. max_new_tokens (sampling_params (m_store M x)) = Some n"
  shows "(retract_decode steps b M = Inl ValueError \<and>
      (\<exists>x ys M1. mset (b_reqs b) = {#x#} + mset ys \<and> fold_result retract_req ys M = Inr M1 \<and> \<not> check_decode_mem M1 [x] \<and>
         kv_inv T R (filter (\<lambda>y. y \<notin> set ys) live) M1)) \<or>
    (\<exists>gone ratio b1 M1. retract_decode steps b M = Inr (gone, ratio, b1, M1) \<and> fold_result retract_req gone M = Inr M1 \<and>
      (1 < length gone \<longrightarrow> (\<exists>M0. fold_result retract_req (butlast gone) M = Inr M0 \<and> \<not> check_decode_mem M0 (b_reqs b1 @ [last gone]))) \<and>
      mset (b_reqs b) = mset (b_reqs b1) + mset gone \<and> b_reqs b1 \<noteq> [] \<and> (1 < length (b_reqs b) \<longrightarrow> gone \<noteq> []) \<and>
      check_decode_mem M1 (b_reqs b1) \<and> represents ed (m_store M1) b1 \<and>
      kv_inv T R (filter (\<lambda>x. x \<notin> set gone) live) M1 \<and> (\<forall>y. y \<notin> set gone \<longrightarrow> m_store M1 y = m_store M y) \<and> 0 \<le> ratio \<and> ratio \<le> 1)"
  by (rule retract_decode_spec [OF assms])

theorem retract_decode_frees_memory_witness:
  "\<not> check_decode_mem (two_mem [5]) [0, 1] \<and>
   (\<exists>ratio b1 M1. retract_decode 20 (example_batch [0, 1] (m_store (two_mem [5]))) (two_mem [5]) = Inr ([0], ratio, b1, M1) \<and>
      check_decode_mem M1 (b_reqs b1) \<and> kv_inv (mset [5, 1, 2, 3, 4]) (mset [2, 3, 0, 1]) [1] M1)"
proof -
  let ?M = "two_mem [5]"
  let ?b = "example_batch [0, 1] (m_store ?M)"
  have inv: "kv_inv (mset [5, 1, 2, 3, 4]) (mset [2, 3, 0, 1]) [0, 1] ?M" using two_mem_inv [of "[5]"] by simp
  have d: "distinct (b_reqs ?b)" "set (b_reqs ?b) \<subseteq> set [0, 1]" "b_reqs ?b \<noteq> []" by (simp_all add: two_mem_batch(2) del: One_nat_def)
  have max: "\<forall>x \<in> set (b_reqs ?b). \<exists>n \<ge> 0. max_new_tokens (sampling_params (m_store ?M x)) = Some n"
  proof
    fix x
    have "max_new_tokens (sampling_params example_req) = Some 128" by code_simp
    then show "\<exists>n \<ge> 0. max_new_tokens (sampling_params (m_store ?M x)) = Some n" by (simp add: two_mem_def)
  qed
  have no: "\<not> check_decode_mem ?M [0, 1]" by code_simp
  have "(case retract_decode 20 ?b ?M of Inr (g, _, _, _) \<Rightarrow> g = [0] | Inl _ \<Rightarrow> False)" by code_simp
  then obtain ratio b1 M1 where run: "retract_decode 20 ?b ?M = Inr ([0], ratio, b1, M1)" by (auto split: sum.splits)
  from retract_decode_frees_memory [OF inv d two_mem_batch(1) max, of 20, unfolded run]
  have "check_decode_mem M1 (b_reqs b1)" "kv_inv (mset [5, 1, 2, 3, 4]) (mset [2, 3, 0, 1]) (filter (\<lambda>x. x \<notin> set [0]) [0, 1]) M1" by blast+
  then show ?thesis using run no by (intro conjI exI [of _ ratio] exI [of _ b1] exI [of _ M1]) simp_all
qed

end
