(* ===== verification/Prefill_Adder.thy ===== *)
theory Prefill_Adder
  imports Retraction
begin

text \<open>
  \<open>PrefillAdder\<close> (\<open>managers/schedule_policy.py\<close>): the budget of the next prefill batch and the decisions to
  admit a request whole, to admit a first chunk of it, or to preempt running requests for it.  The prefix
  cache is \<open>ChunkCache\<close>: nothing is evictable, nothing is loaded back from a host, locks are no-ops, and
  \<open>disable\<close> is true.  Diffusion models and hybrid caches are left out.  The running batch the adder shares
  with the scheduler is its field \<open>pa_running\<close>.
\<close>

section \<open>The budget\<close>

datatype add_req_result = ADD_CONTINUE | ADD_NO_TOKEN | ADD_OTHER

text \<open>The default of the environment variable that clips estimates.\<close>

definition CLIP_MAX_NEW_TOKENS :: int where
  "CLIP_MAX_NEW_TOKENS = 4096"

definition IGNORE_EOS_RESERVE_TOKENS :: nat where
  "IGNORE_EOS_RESERVE_TOKENS = 1"

text \<open>\<open>pa_delayer\<close> is what the prefill delayer answers in this pass, when there is one: the answer is
  negotiated once per pass and then kept.\<close>

record prefill_adder =
  pa_page_size :: nat
  pa_running :: schedule_batch
  pa_new_token_ratio :: real
  pa_rem_input :: int
  pa_rem_chunk :: "int option"
  pa_rem_total_offset :: real
  pa_cur_rem_offset :: int
  pa_req_states :: "(real \<times> int) list option"
  can_run_list :: "ref list"
  preempt_list :: "ref list"
  new_chunked_req :: "ref option"
  log_hit_tokens :: int
  log_input_tokens :: int
  pa_preemption_threshold :: int
  pa_nsa_split :: bool
  prefill_max_requests :: "nat option"
  pa_delayer :: "bool option"

definition max_new :: "req \<Rightarrow> int result" where
  "max_new r = (case max_new_tokens (sampling_params r) of None \<Rightarrow> Inl TypeError | Some n \<Rightarrow> Inr n)"

definition running_total_token_offset :: "real \<Rightarrow> req \<Rightarrow> real result" where
  "running_total_token_offset ratio r =
     bind_result (max_new r) (\<lambda>n. Inr (real_of_int (min (n - int (length (output_ids r))) CLIP_MAX_NEW_TOKENS) * ratio))"

definition adder_init ::
  "nat \<Rightarrow> schedule_batch \<Rightarrow> real \<Rightarrow> int \<Rightarrow> int option \<Rightarrow> nat \<Rightarrow> int \<Rightarrow> bool \<Rightarrow> nat option \<Rightarrow> bool option \<Rightarrow> store \<Rightarrow>
   prefill_adder result" where
  "adder_init page running ratio rem_input rem_chunk mixed threshold nsa max_requests delayer h =
     bind_result (map_result (\<lambda>x. running_total_token_offset ratio (h x)) (b_reqs running)) (\<lambda>offsets.
       Inr \<lparr>pa_page_size = page, pa_running = running, pa_new_token_ratio = ratio, pa_rem_input = rem_input - int mixed,
            pa_rem_chunk = map_option (\<lambda>c. c - int mixed) rem_chunk,
            pa_rem_total_offset = real mixed + sum_list offsets, pa_cur_rem_offset = int mixed, pa_req_states = None,
            can_run_list = [], preempt_list = [], new_chunked_req = None, log_hit_tokens = 0, log_input_tokens = 0,
            pa_preemption_threshold = threshold, pa_nsa_split = nsa, prefill_max_requests = max_requests,
            pa_delayer = delayer\<rparr>)"

definition rem_total_tokens :: "prefill_adder \<Rightarrow> allocator \<Rightarrow> real" where
  "rem_total_tokens A a = real (available_size a) - pa_rem_total_offset A"

definition cur_rem_tokens :: "prefill_adder \<Rightarrow> allocator \<Rightarrow> int" where
  "cur_rem_tokens A a = int (available_size a) - pa_cur_rem_offset A"

definition ceil_paged_tokens :: "nat \<Rightarrow> int \<Rightarrow> int" where
  "ceil_paged_tokens page t = - (- t div int page) * int page"

definition budget_state :: "prefill_adder \<Rightarrow> allocator \<Rightarrow> add_req_result" where
  "budget_state A a =
     (if rem_total_tokens A a \<le> 0 \<or> cur_rem_tokens A a \<le> 0 then ADD_NO_TOKEN
      else if pa_rem_input A \<le> 0 then ADD_OTHER
      else if (case pa_rem_chunk A of Some c \<Rightarrow> c \<le> 0 | None \<Rightarrow> False) then ADD_OTHER
      else ADD_CONTINUE)"

definition update_prefill_budget :: "nat \<Rightarrow> int \<Rightarrow> int \<Rightarrow> prefill_adder \<Rightarrow> prefill_adder" where
  "update_prefill_budget prefix_len extend_len new_tokens A =
     (let e = ceil_paged_tokens (pa_page_size A) extend_len
      in A\<lparr>pa_rem_total_offset := pa_rem_total_offset A + real_of_int (e + new_tokens),
           pa_cur_rem_offset := pa_cur_rem_offset A + e, pa_rem_input := pa_rem_input A - e,
           pa_rem_chunk := map_option (\<lambda>c. c - e) (pa_rem_chunk A),
           log_hit_tokens := log_hit_tokens A + int prefix_len, log_input_tokens := log_input_tokens A + e\<rparr>)"

section \<open>Admitting requests\<close>

text \<open>Python's \<open>int\<close> of a float.\<close>

definition py_int :: "real \<Rightarrow> int" where
  "py_int x = (if 0 \<le> x then \<lfloor>x\<rfloor> else \<lceil>x\<rceil>)"

text \<open>The next chunk of a request: its length is set first and the tokens to fill are cut after it.\<close>

definition cut_chunk :: "nat \<Rightarrow> int \<Rightarrow> req \<Rightarrow> req" where
  "cut_chunk prefix_len n r =
     (let r1 = set_extend_input_len n r in r1\<lparr>fill_ids := take_int (fill_ids r1) (int prefix_len + n)\<rparr>)"

definition add_chunked_req :: "ref \<Rightarrow> prefill_adder \<Rightarrow> mem \<Rightarrow> (ref option \<times> prefill_adder \<times> mem) result" where
  "add_chunked_req x A M =
     (case pa_rem_chunk A of None \<Rightarrow> Inl TypeError
      | Some c \<Rightarrow>
          (let m = min c (py_int (rem_total_tokens A (m_alloc M)));
               rem_tokens = (if m \<le> 0 then c else m);
               r = m_store M x;
               truncated = rem_tokens < extend_input_len r;
               n = min (extend_input_len r) rem_tokens
           in bind_result (if truncated then Inr 0 else bind_result (max_new r) (\<lambda>k. Inr (min k CLIP_MAX_NEW_TOKENS))) (\<lambda>new_tokens.
                Inr (if truncated then Some x else None,
                     update_prefill_budget 0 n new_tokens (A\<lparr>can_run_list := can_run_list A @ [x]\<rparr>),
                     M\<lparr>m_store := (m_store M)(x := cut_chunk (length (prefix_indices r)) n r)\<rparr>))))"

text \<open>The requests that share the memory with one that ignores the end-of-sequence token: how many tokens
  each may still generate and how many it occupies.\<close>

definition req_state :: "real \<Rightarrow> req \<Rightarrow> (real \<times> int) option result" where
  "req_state ratio r =
     bind_result (max_new r) (\<lambda>n.
       (let tokens_left = real_of_int n * (if ignore_eos (sampling_params r) then 1 else ratio) - real (length (output_ids r))
        in Inr (if tokens_left \<le> 0 then None
                else Some (tokens_left, int (length (origin_input_ids r)) + int (length (output_ids r))))))"

text \<open>The loop leaves its index at the first entry that is not smaller, and at the last entry when all are.\<close>

definition insert_state :: "real \<times> int \<Rightarrow> (real \<times> int) list \<Rightarrow> (real \<times> int) list" where
  "insert_state s ss =
     (let k = length (takeWhile (\<lambda>t. \<not> fst s \<le> fst t) ss); i = (if k = length ss then length ss - 1 else k)
      in take i ss @ s # drop i ss)"

definition update_req_states :: "ref \<Rightarrow> prefill_adder \<Rightarrow> store \<Rightarrow> (real \<times> int) list result" where
  "update_req_states x A h =
     (case pa_req_states A of
        None \<Rightarrow>
          bind_result (map_result (\<lambda>y. req_state (pa_new_token_ratio A) (h y)) (x # b_reqs (pa_running A) @ can_run_list A)) (\<lambda>ss.
            Inr (sort_key fst (List.map_filter (\<lambda>s. s) ss)))
      | Some ss \<Rightarrow>
          bind_result (req_state (pa_new_token_ratio A) (h x)) (\<lambda>s.
            Inr (case s of None \<Rightarrow> ss | Some t \<Rightarrow> insert_state t ss)))"

fun states_fit :: "int \<Rightarrow> int \<Rightarrow> (real \<times> int) list \<Rightarrow> bool" where
  "states_fit cur freed [] \<longleftrightarrow> True"
| "states_fit cur freed ((tokens_left, tokens_occupied) # ss) \<longleftrightarrow>
     (let bs = Suc (length ss)
      in \<not> real_of_int (cur + freed) - tokens_left * real bs \<le> real (IGNORE_EOS_RESERVE_TOKENS * bs) \<and>
         states_fit cur (freed + tokens_occupied) ss)"

definition add_one_req_ignore_eos :: "ref \<Rightarrow> prefill_adder \<Rightarrow> mem \<Rightarrow> (add_req_result \<times> prefill_adder \<times> mem) result" where
  "add_one_req_ignore_eos x A M =
     (let r = m_store M x; a = m_alloc M; e = ceil_paged_tokens (pa_page_size A) (extend_input_len r)
      in if real_of_int e > min (real_of_int (cur_rem_tokens A a)) (rem_total_tokens A a) then Inr (ADD_NO_TOKEN, A, M)
         else
           bind_result (update_req_states x A (m_store M)) (\<lambda>ss.
             (let A1 = A\<lparr>pa_req_states := Some ss\<rparr>
              in if \<not> states_fit (cur_rem_tokens A a - e) 0 ss then Inr (ADD_NO_TOKEN, A1, M)
                 else case pa_rem_chunk A1 of
                   Some c \<Rightarrow>
                     if extend_input_len r \<le> c then
                       bind_result (max_new r) (\<lambda>n.
                         (let A2 = update_prefill_budget 0 (extend_input_len r) (min n CLIP_MAX_NEW_TOKENS)
                                     (A1\<lparr>can_run_list := can_run_list A1 @ [x]\<rparr>)
                          in Inr (budget_state A2 a, A2, M)))
                     else if c \<le> 0 then Inr (ADD_OTHER, A1, M)
                     else
                       (let A2 = update_prefill_budget 0 c 0
                                   (A1\<lparr>can_run_list := can_run_list A1 @ [x], new_chunked_req := Some x\<rparr>)
                        in Inr (budget_state A2 a, A2, M\<lparr>m_store := (m_store M)(x := cut_chunk 0 c r)\<rparr>))
                 | None \<Rightarrow>
                     bind_result (max_new r) (\<lambda>n.
                       (let A2 = update_prefill_budget 0 (extend_input_len r) (min n CLIP_MAX_NEW_TOKENS)
                                   (A1\<lparr>can_run_list := can_run_list A1 @ [x]\<rparr>)
                        in Inr (budget_state A2 a, A2, M))))))"

text \<open>The length of a first chunk, cut to whole pages and, with deterministic attention, to whole tiles;
  \<open>None\<close> when the budget has not even one.\<close>

definition chunk_length :: "nat \<Rightarrow> int option \<Rightarrow> int \<Rightarrow> int option result" where
  "chunk_length page align rem_chunk =
     (let trunc_len = rem_chunk div int page * int page
      in if trunc_len \<le> 0 then Inr None
         else case align of None \<Rightarrow> Inr (Some trunc_len)
         | Some k \<Rightarrow> if trunc_len < k then Inr None
                     else if k = 0 then Inl ZeroDivisionError else Inr (Some (k * (trunc_len div k))))"

definition add_one_req ::
  "int option \<Rightarrow> ref \<Rightarrow> prefill_adder \<Rightarrow> mem \<Rightarrow> (add_req_result \<times> prefill_adder \<times> mem) result" where
  "add_one_req truncation_align_size x A M =
     (let r = m_store M x; a = m_alloc M; n0 = length (can_run_list A)
      in if pa_nsa_split A \<and> 1 \<le> n0 then Inr (ADD_OTHER, A, M)
         else if (case prefill_max_requests A of Some k \<Rightarrow> k \<le> n0 | None \<Rightarrow> False) then Inr (ADD_OTHER, A, M)
         else if ignore_eos (sampling_params r) then add_one_req_ignore_eos x A M
         else
           bind_result (max_new r) (\<lambda>mn.
             (let total_tokens = extend_input_len r + min (max (mn - int (length (output_ids r))) 0) CLIP_MAX_NEW_TOKENS;
                  input_tokens = ceil_paged_tokens (pa_page_size A) (extend_input_len r);
                  prefix_len = length (prefix_indices r);
                  A1 = A\<lparr>can_run_list := can_run_list A @ [x]\<rparr>
              in if rem_total_tokens A a \<le> real_of_int total_tokens then Inr (ADD_NO_TOKEN, A, M)
                 else if pa_rem_input A \<le> input_tokens \<and> n0 \<noteq> 0 then Inr (ADD_OTHER, A, M)
                 else if pa_delayer A = Some False then Inr (ADD_OTHER, A, M)
                 else if (case pa_rem_chunk A of None \<Rightarrow> True | Some c \<Rightarrow> input_tokens \<le> c) then
                   (let A2 = update_prefill_budget prefix_len input_tokens (min mn CLIP_MAX_NEW_TOKENS) A1
                    in Inr (budget_state A2 a, A2, M))
                 else
                   bind_result (chunk_length (pa_page_size A) truncation_align_size (the (pa_rem_chunk A))) (\<lambda>t.
                     case t of None \<Rightarrow> Inr (ADD_OTHER, A, M)
                     | Some trunc_len \<Rightarrow>
                         (let A2 = update_prefill_budget prefix_len trunc_len 0 (A1\<lparr>new_chunked_req := Some x\<rparr>)
                          in Inr (budget_state A2 a, A2,
                                  M\<lparr>m_store := (m_store M)(x := cut_chunk prefix_len trunc_len r)\<rparr>))))))"

section \<open>Preemption\<close>

text \<open>The two request attributes only the queue uses.\<close>

record arrival =
  priority :: "ref \<Rightarrow> int option"
  wait_queue_entry_time :: "ref \<Rightarrow> real"

fun preempt_select ::
  "real \<Rightarrow> store \<Rightarrow> (ref \<Rightarrow> int) \<Rightarrow> int \<Rightarrow> ref list \<Rightarrow> real \<Rightarrow> ref list \<Rightarrow> (ref list \<times> real) result" where
  "preempt_select ratio h diff threshold [] need chosen = Inr (chosen, need)"
| "preempt_select ratio h diff threshold (x # xs) need chosen =
     (if threshold < diff x then
        bind_result (running_total_token_offset ratio (h x)) (\<lambda>k.
          (let need' = need - k
           in if need' \<le> 0 then Inr (chosen @ [x], need')
              else preempt_select ratio h diff threshold xs need' (chosen @ [x])))
      else Inr (chosen, need))"

fun preempt_release ::
  "real \<Rightarrow> ref list \<Rightarrow> nat \<Rightarrow> ref list \<Rightarrow> real \<Rightarrow> mem \<Rightarrow> nat list \<Rightarrow> (real \<times> mem \<times> nat list) result" where
  "preempt_release ratio chosen i [] off M keep = Inr (off, M, keep)"
| "preempt_release ratio chosen i (x # xs) off M keep =
     (if x \<in> set chosen then
        bind_result (running_total_token_offset ratio (m_store M x)) (\<lambda>k.
        bind_result (retract_req x M) (\<lambda>M1.
          preempt_release ratio chosen (Suc i) xs (off - k) M1 keep))
      else preempt_release ratio chosen (Suc i) xs off M (keep @ [i]))"

text \<open>\<open>set_order\<close> lists a Python set of requests in the order of its iteration.\<close>

definition preempt_to_schedule ::
  "(ref list \<Rightarrow> ref list) \<Rightarrow> bool \<Rightarrow> arrival \<Rightarrow> ref \<Rightarrow> prefill_adder \<Rightarrow> mem \<Rightarrow> (bool \<times> prefill_adder \<times> mem) result" where
  "preempt_to_schedule set_order low_values_first Q x A M =
     (let sign = (if low_values_first then 1 else -1); h = m_store M; ratio = pa_new_token_ratio A;
          valid = filter (\<lambda>y. y \<notin> set (preempt_list A) \<and> \<not> finished (h y)) (b_reqs (pa_running A))
      in if valid \<noteq> [] \<and> list_ex (\<lambda>y. priority Q y = None) (x # valid) then Inl TypeError
         else
           (let prio = (\<lambda>y. the (priority Q y));
                sorted_reqs = sort_key (\<lambda>y. (prio y * - sign, - wait_queue_entry_time Q y)) valid
            in bind_result (max_new (h x)) (\<lambda>mn.
               bind_result (preempt_select ratio h (\<lambda>y. (prio x - prio y) * - sign) (pa_preemption_threshold A) sorted_reqs
                   (real_of_int (extend_input_len (h x) + min mn CLIP_MAX_NEW_TOKENS) - rem_total_tokens A (m_alloc M)) []) (\<lambda>(chosen, need).
                 if chosen = [] \<or> 0 < need then Inr (False, A, M)
                 else
                   bind_result (preempt_release ratio chosen 0 (b_reqs (pa_running A)) (pa_rem_total_offset A) M []) (\<lambda>(off, M1, keep).
                   bind_result (filter_batch (m_store M1) [] (Some keep) (pa_running A)) (\<lambda>b.
                     Inr (True, A\<lparr>pa_rem_total_offset := off, pa_running := b,
                                  preempt_list := preempt_list A @ set_order chosen\<rparr>, M1)))))))"

end
