(* ===== verification/Request_Queue.thy ===== *)
theory Request_Queue
  imports Prefill_Adder
begin

text \<open>
  The way of a request into the waiting queue (\<open>managers/scheduler.py\<close>): \<open>handle_generate_request\<close> with the length
  checks of \<open>managers/utils.py\<close>, the hand-over to the grammar manager (\<open>constrained/grammar_manager.py\<close>), priorities,
  the limit on the queue's length, and the two timeouts.  Sessions, multimodal inputs, embeddings and disaggregation
  are left out: a request that names a session names an unknown one.  The texts of error messages are shortened.
\<close>

section \<open>The state of the scheduler\<close>

text \<open>Command-line arguments and environment variables.  \<open>sa_clock n\<close> is what the \<open>n\<close>-th reading of
  \<open>time.perf_counter\<close> returns, \<open>sa_shuffle\<close> what \<open>random.shuffle\<close> does, \<open>sa_set_order\<close> the iteration order of a set of
  requests; \<open>sa_grammar\<close> is the grammar backend, which maps a key to a grammar (\<open>None\<close> for an invalid one) and tells whether
  it was cached.  The fields \<open>sa_test_retract\<close> to \<open>sa_test_retract_no_prefill_bs\<close> are the constants \<open>TEST_RETRACT\<close>,
  \<open>TEST_RETRACT_INTERVAL\<close> and \<open>TEST_RETRACT_NO_PREFILL_BS\<close>, and \<open>sa_predict_chunk\<close> is \<open>predict_next_chunk_size\<close>, which has no
  prediction unless dynamic chunking is enabled.\<close>

record sched_args =
  sa_max_prefill_tokens :: int
  sa_chunked_prefill_size :: "int option"
  sa_enable_mixed_chunk :: bool
  sa_enable_priority_scheduling :: bool
  sa_low_priority_values_first :: bool
  sa_abort_on_priority_when_disabled :: bool
  sa_preemption_threshold :: int
  sa_prefill_max_requests :: "nat option"
  sa_enable_llm42 :: bool
  sa_truncation_align_size :: "int option"
  sa_pp_max_micro_batch_size :: int
  sa_max_queued_requests :: "nat option"
  sa_max_req_len :: int
  sa_max_req_input_len :: int
  sa_allow_auto_truncate :: bool
  sa_new_token_ratio_decay :: real
  sa_min_new_token_ratio :: real
  sa_retract_decode_steps :: nat
  sa_enable_overlap :: bool
  sa_enable_deterministic :: bool
  sa_vocab_size :: int
  sa_eos_token_ids :: "token set"
  sa_schedule_policy :: string
  sa_nsa_split :: bool
  sa_waiting_timeout :: real
  sa_running_timeout :: real
  sa_clock :: "nat \<Rightarrow> real"
  sa_shuffle :: "ref list \<Rightarrow> ref list"
  sa_set_order :: "ref list \<Rightarrow> ref list"
  sa_grammar :: "(string \<times> string \<Rightarrow> nat option \<times> bool) option"
  sa_test_retract :: bool
  sa_test_retract_interval :: nat
  sa_test_retract_no_prefill_bs :: nat
  sa_predict_chunk :: "nat \<Rightarrow> int option"

definition try_preemption :: "sched_args \<Rightarrow> bool" where
  "try_preemption C = sa_enable_priority_scheduling C"

definition is_mixed_chunk :: "sched_args \<Rightarrow> bool" where
  "is_mixed_chunk C = (sa_chunked_prefill_size C \<noteq> None \<and> sa_enable_mixed_chunk C)"

text \<open>\<open>max_req_len\<close> and \<open>max_req_input_len\<close> as the worker derives them from the context length of the model and the size of
  the KV pool.\<close>

definition worker_limits :: "int \<Rightarrow> int \<Rightarrow> (int \<times> int) result" where
  "worker_limits context_len max_token_pool_size =
     (let max_req_len = min (context_len - 1) (max_token_pool_size - 1); max_req_input_len = max_req_len - 5
      in if 0 < max_req_len \<and> 0 < max_req_input_len then Inr (max_req_len, max_req_input_len) else Inl AssertionError)"

text \<open>\<open>sd_entered\<close> is \<open>time_stats.forward_entry_time\<close>; \<open>sd_aborts\<close> lists the abort messages sent to the tokenizer, the id of the request with the
  reason; \<open>sd_ticks\<close> counts the readings of the clock and \<open>sd_forward_ct\<close> the batches that were run.\<close>

record scheduler =
  sd_mem :: mem
  sd_arrival :: arrival
  sd_entered :: "ref \<Rightarrow> real"
  sd_waiting :: "ref list"
  sd_grammar_queue :: "ref list"
  sd_running :: schedule_batch
  sd_last :: "schedule_batch option"
  sd_chunked :: "ref option"
  sd_new_token_ratio :: real
  sd_aborts :: "(string \<times> string) list"
  sd_ticks :: nat
  sd_forward_ct :: nat

definition sd_req :: "scheduler \<Rightarrow> ref \<Rightarrow> req" where
  "sd_req S x = m_store (sd_mem S) x"

definition sd_put :: "ref \<Rightarrow> req \<Rightarrow> scheduler \<Rightarrow> scheduler" where
  "sd_put x r S = S\<lparr>sd_mem := (sd_mem S)\<lparr>m_store := (m_store (sd_mem S))(x := r)\<rparr>\<rparr>"

section \<open>The queue\<close>

definition set_or_validate_priority :: "sched_args \<Rightarrow> ref \<Rightarrow> scheduler \<Rightarrow> bool \<times> scheduler" where
  "set_or_validate_priority C x S =
     (let p = priority (sd_arrival S)
      in if sa_enable_priority_scheduling C \<and> p x = None then
           (True, S\<lparr>sd_arrival := (sd_arrival S)\<lparr>priority := p(x := Some (if sa_low_priority_values_first C then 2 ^ 63 - 1 else - (2 ^ 63 - 1) - 1))\<rparr>\<rparr>)
         else if \<not> sa_enable_priority_scheduling C \<and> p x \<noteq> None \<and> sa_abort_on_priority_when_disabled C then
           (False, S\<lparr>sd_aborts := sd_aborts S @ [(rid (sd_req S x),
              ''Using priority is disabled for this server. Please send a new request without a priority.'')]\<rparr>)
         else (True, S))"

text \<open>Python's \<open>max\<close> with a key: the first of the largest.\<close>

definition max_by :: "('a \<Rightarrow> 'b :: linorder) \<Rightarrow> 'a \<Rightarrow> 'a list \<Rightarrow> 'a" where
  "max_by f = foldl (\<lambda>m y. if f m < f y then y else m)"

text \<open>Drop \<open>y\<close> in favour of the queue \<open>w\<close>; the answer says whether that is the incoming request \<open>x\<close>.\<close>

definition reject_request :: "ref \<Rightarrow> ref \<Rightarrow> string \<Rightarrow> ref list \<Rightarrow> scheduler \<Rightarrow> bool \<times> scheduler" where
  "reject_request x y message w S =
     (rid (sd_req S y) = rid (sd_req S x), S\<lparr>sd_waiting := w, sd_aborts := sd_aborts S @ [(rid (sd_req S y), message)]\<rparr>)"

definition abort_on_queued_limit :: "sched_args \<Rightarrow> ref \<Rightarrow> scheduler \<Rightarrow> (bool \<times> scheduler) result" where
  "abort_on_queued_limit C x S =
     (if (case sa_max_queued_requests C of None \<Rightarrow> True | Some n \<Rightarrow> length (sd_waiting S) + 1 \<le> n) then Inr (False, S)
      else if \<not> sa_enable_priority_scheduling C then Inr (reject_request x x ''The request queue is full.'' (sd_waiting S) S)
      else if sd_waiting S = [] then Inl ValueError
      else if list_ex (\<lambda>y. priority (sd_arrival S) y = None) (x # sd_waiting S) then Inl TypeError
      else
        (let direction = (if sa_low_priority_values_first C then 1 else -1);
             prio = (\<lambda>y. direction * the (priority (sd_arrival S) y));
             i = max_by (\<lambda>k. (prio (sd_waiting S ! k), wait_queue_entry_time (sd_arrival S) (sd_waiting S ! k))) 0 [1..<length (sd_waiting S)];
             candidate = sd_waiting S ! i
         in Inr (if prio x < prio candidate
                 then reject_request x candidate ''The request is aborted by a higher priority request.'' (take i (sd_waiting S) @ drop (Suc i) (sd_waiting S)) S
                 else reject_request x x ''The request queue is full.'' (sd_waiting S) S)))"

definition add_request_to_queue :: "sched_args \<Rightarrow> ref \<Rightarrow> scheduler \<Rightarrow> scheduler result" where
  "add_request_to_queue C x S =
     (let (ok, S1) = set_or_validate_priority C x S
      in if \<not> ok then Inr S1
         else bind_result (abort_on_queued_limit C x S1) (\<lambda>(aborted, S2).
           if aborted then Inr S2
           else Inr (S2\<lparr>sd_waiting := sd_waiting S2 @ [x],
                        sd_arrival := (sd_arrival S2)\<lparr>wait_queue_entry_time := (wait_queue_entry_time (sd_arrival S2))(x := sa_clock C (sd_ticks S2))\<rparr>,
                        sd_ticks := Suc (sd_ticks S2)\<rparr>)))"

definition abort_on_waiting_timeout :: "sched_args \<Rightarrow> scheduler \<Rightarrow> scheduler" where
  "abort_on_waiting_timeout C S =
     (if sa_waiting_timeout C \<le> 0 then S
      else
        (let deadline = sa_clock C (sd_ticks S) - sa_waiting_timeout C;
             late = (\<lambda>x. 0 < wait_queue_entry_time (sd_arrival S) x \<and> wait_queue_entry_time (sd_arrival S) x < deadline)
         in S\<lparr>sd_ticks := Suc (sd_ticks S),
              sd_aborts := sd_aborts S @ map (\<lambda>x. (rid (sd_req S x), ''Request waiting timeout reached.'')) (filter late (sd_waiting S)),
              sd_waiting := filter (\<lambda>x. \<not> late x) (sd_waiting S)\<rparr>))"

definition abort_on_running_timeout :: "sched_args \<Rightarrow> scheduler \<Rightarrow> scheduler" where
  "abort_on_running_timeout C S =
     (if sa_running_timeout C \<le> 0 then S
      else if is_empty (sd_running S) then S
      else
        (let deadline = sa_clock C (sd_ticks S) - sa_running_timeout C;
             h = m_store (sd_mem S);
             late = (\<lambda>x. \<not> finished (h x) \<and> 0 < sd_entered S x \<and> sd_entered S x < deadline)
         in S\<lparr>sd_ticks := Suc (sd_ticks S),
              sd_mem := (sd_mem S)\<lparr>m_store := (\<lambda>x. if x \<in> set (b_reqs (sd_running S)) \<and> late x
                 then (h x)\<lparr>to_finish := Some (make_abort (Some ''Request running timeout reached.'') (Some 503) None)\<rparr> else h x)\<rparr>\<rparr>))"

section \<open>Receiving a request\<close>

record tokenized_req =
  tk_rid :: string
  tk_input_ids :: "token list"
  tk_input_embeds_len :: "nat option"
  tk_sampling_params :: sampling_params
  tk_return_logprob :: bool
  tk_logprob_start_len :: int
  tk_top_logprobs_num :: nat
  tk_token_ids_logprob :: "token list option"
  tk_stream :: bool
  tk_priority :: "int option"
  tk_session_id :: "string option"

definition init_req_max_new_tokens :: "sched_args \<Rightarrow> req \<Rightarrow> req" where
  "init_req_max_new_tokens C r =
     r\<lparr>sampling_params := (sampling_params r)\<lparr>max_new_tokens :=
        Some (min (case max_new_tokens (sampling_params r) of Some n \<Rightarrow> n | None \<Rightarrow> 2 ^ 30)
                  (sa_max_req_len C - int (length (origin_input_ids r)) - 1))\<rparr>\<rparr>"

definition validate_input_length :: "sched_args \<Rightarrow> req \<Rightarrow> string option \<times> req" where
  "validate_input_length C r =
     (if sa_max_req_input_len C \<le> int (length (origin_input_ids r)) then
        if sa_allow_auto_truncate C then (None, r\<lparr>origin_input_ids := take_int (origin_input_ids r) (sa_max_req_input_len C)\<rparr>)
        else (Some ''Input length exceeds the maximum allowed length'', r)
      else (None, r))"

definition process_req_with_grammar :: "sched_args \<Rightarrow> req \<Rightarrow> (bool \<times> req) result" where
  "process_req_with_grammar C r =
     (let p = sampling_params r
      in if json_schema p = None \<and> sp_regex p = None \<and> ebnf p = None \<and> structural_tag p = None then Inr (False, r)
         else case sa_grammar C of
           None \<Rightarrow> Inr (False, set_finish_with_abort ''Grammar-based generation is not supported'' r)
         | Some backend \<Rightarrow>
             bind_result
               (case (json_schema p, sp_regex p, ebnf p, structural_tag p) of
                  (Some s, _, _, _) \<Rightarrow> Inr (''json'', s)
                | (None, Some s, _, _) \<Rightarrow> Inr (''regex'', s)
                | (None, None, Some s, _) \<Rightarrow> Inr (''ebnf'', s)
                | (None, None, None, Some s) \<Rightarrow> if s = [] then Inl UnboundLocalError else Inr (''structural_tag'', s)
                | _ \<Rightarrow> Inl UnboundLocalError)
               (\<lambda>key. let (value, cache_hit) = backend key
                      in if \<not> cache_hit then Inr (True, r\<lparr>grammar := value\<rparr>)
                         else if value = None then Inr (False, set_finish_with_abort ''Invalid grammar request with cache hit'' r)
                         else Inr (False, r\<lparr>grammar := value\<rparr>)))"

text \<open>The start of the prompt log-probabilities; \<open>r\<close> is the request, already with its token limit.\<close>

definition request_logprob_start :: "tokenized_req \<Rightarrow> req \<Rightarrow> int" where
  "request_logprob_start t r =
     (let start = (if \<not> tk_return_logprob t \<and> tk_logprob_start_len t \<noteq> -1 then -1 else tk_logprob_start_len t)
      in if start = -1 then
           if tk_return_logprob t \<and> tk_token_ids_logprob t = None then int (length (origin_input_ids r)) - 1
           else if is_prefill_only r then int (length (origin_input_ids r))
           else -1
         else start)"

text \<open>The request object is created at the fresh reference \<open>x\<close>.\<close>

definition handle_generate_request :: "sched_args \<Rightarrow> ref \<Rightarrow> tokenized_req \<Rightarrow> scheduler \<Rightarrow> scheduler result" where
  "handle_generate_request C x t S =
     (let ids = (case tk_input_embeds_len t of Some n \<Rightarrow> replicate n 1 | None \<Rightarrow> tk_input_ids t);
          r0 = init_req (tk_rid t) ids [] (tk_sampling_params t) (tk_return_logprob t) (tk_top_logprobs_num t)
                 (tk_token_ids_logprob t) (tk_stream t) (sa_eos_token_ids C) (Some (sa_vocab_size C));
          S0 = S\<lparr>sd_arrival := (sd_arrival S)\<lparr>priority := (priority (sd_arrival S))(x := tk_priority t),
                   wait_queue_entry_time := (wait_queue_entry_time (sd_arrival S))(x := 0)\<rparr>, sd_entered := (sd_entered S)(x := 0)\<rparr>;
          enqueue = (\<lambda>r. add_request_to_queue C x (sd_put x r S0))
      in case tk_session_id t of
           Some s \<Rightarrow> enqueue (init_req_max_new_tokens C (set_finish_with_abort (''Invalid request: session id '' @ s @ '' does not exist'') r0))
         | None \<Rightarrow>
             (let (err, r1) = validate_input_length C (init_req_max_new_tokens C r0)
              in case err of
                   Some msg \<Rightarrow> enqueue (set_finish_with_abort msg r1)
                 | None \<Rightarrow>
                     (let r2 = r1\<lparr>logprob_start_len := request_logprob_start t r1\<rparr>
                      in if int (length (origin_input_ids r2)) < logprob_start_len r2
                         then enqueue (set_finish_with_abort ''logprob_start_len is higher than the number of input tokens'' (r2\<lparr>logprob_start_len := -1\<rparr>))
                         else bind_result (process_req_with_grammar C r2) (\<lambda>(queued, r3).
                                if queued then Inr ((sd_put x r3 S0)\<lparr>sd_grammar_queue := sd_grammar_queue S @ [x]\<rparr>)
                                else enqueue r3))))"

section \<open>What the queue leaves alone\<close>

lemma reject_request_mem: "sd_mem (snd (reject_request x y m w S)) = sd_mem S"
  by (simp add: reject_request_def)

lemma abort_on_queued_limit_mem: "abort_on_queued_limit C x S = Inr p \<Longrightarrow> sd_mem (snd p) = sd_mem S"
  by (auto simp: abort_on_queued_limit_def Let_def reject_request_mem split: if_splits)

lemma set_or_validate_priority_mem: "sd_mem (snd (set_or_validate_priority C x S)) = sd_mem S"
  by (simp add: set_or_validate_priority_def Let_def)

lemma add_request_to_queue_mem:
  assumes "add_request_to_queue C x S = Inr S'"
  shows "sd_mem S' = sd_mem S"
proof -
  obtain ok S1 where v: "set_or_validate_priority C x S = (ok, S1)" by (cases "set_or_validate_priority C x S")
  have 1: "sd_mem S1 = sd_mem S" using set_or_validate_priority_mem [of C x S] v by simp
  show ?thesis
  proof (cases ok)
    case True
    then obtain ab S2 where l: "abort_on_queued_limit C x S1 = Inr (ab, S2)" using assms v by (auto simp: add_request_to_queue_def)
    then have "sd_mem S2 = sd_mem S1" using abort_on_queued_limit_mem [OF l] by simp
    moreover have "sd_mem S' = sd_mem S2" using assms v True l by (cases ab) (simp_all add: add_request_to_queue_def, auto)
    ultimately show ?thesis using 1 by simp
  next
    case False
    then have "S' = S1" using assms v by (simp add: add_request_to_queue_def)
    then show ?thesis using 1 by simp
  qed
qed

lemma add_request_to_queue_req: "add_request_to_queue C x S = Inr S' \<Longrightarrow> sd_req S' y = sd_req S y"
  using add_request_to_queue_mem by (fastforce simp: sd_req_def)

text \<open>The changes a new request goes through before it is queued keep its token limit and its empty KV state; its prompt stays or
  becomes the single token of a rejected request.\<close>

definition same_request :: "req \<Rightarrow> req \<Rightarrow> bool" where
  "same_request r r' \<longleftrightarrow>
     sampling_params r' = sampling_params r \<and> req_pool_idx r' = req_pool_idx r \<and> kv_committed_freed r' = kv_committed_freed r \<and>
     kv_overallocated_freed r' = kv_overallocated_freed r \<and> output_ids r' = output_ids r \<and>
     (origin_input_ids r' = origin_input_ids r \<or> origin_input_ids r' = [0])"

lemma same_request_refl [simp]: "same_request r r"
  by (simp add: same_request_def)

lemma same_request_trans: "same_request r r' \<Longrightarrow> same_request r' r'' \<Longrightarrow> same_request r r''"
  by (auto simp: same_request_def)

lemma same_request_steps [simp]:
  "same_request r (set_finish_with_abort msg r)" "same_request r (r\<lparr>logprob_start_len := n\<rparr>)" "same_request r (r\<lparr>grammar := g\<rparr>)"
  by (simp_all add: same_request_def set_finish_with_abort_def)

lemma process_req_with_grammar_same: "process_req_with_grammar C r = Inr (q, r') \<Longrightarrow> same_request r r'"
  by (auto simp: process_req_with_grammar_def Let_def split: if_splits option.splits prod.splits)

lemma handled_req:
  assumes "handle_generate_request C x t S = Inr S'" "tk_session_id t = None"
  defines "ids \<equiv> (case tk_input_embeds_len t of Some n \<Rightarrow> replicate n 1 | None \<Rightarrow> tk_input_ids t)"
  defines "r0 \<equiv> init_req (tk_rid t) ids [] (tk_sampling_params t) (tk_return_logprob t) (tk_top_logprobs_num t)
    (tk_token_ids_logprob t) (tk_stream t) (sa_eos_token_ids C) (Some (sa_vocab_size C))"
  shows "\<exists>r. sd_mem S' = (sd_mem S)\<lparr>m_store := (m_store (sd_mem S))(x := r)\<rparr> \<and> same_request (snd (validate_input_length C (init_req_max_new_tokens C r0))) r"
proof -
  define r1 where "r1 = init_req_max_new_tokens C r0"
  obtain err r2 where v: "validate_input_length C r1 = (err, r2)" by (cases "validate_input_length C r1")
  define S0 where "S0 = S\<lparr>sd_arrival := (sd_arrival S)\<lparr>priority := (priority (sd_arrival S))(x := tk_priority t),
    wait_queue_entry_time := (wait_queue_entry_time (sd_arrival S))(x := 0)\<rparr>, sd_entered := (sd_entered S)(x := 0)\<rparr>"
  have S0: "sd_mem (sd_put x r S0) = (sd_mem S)\<lparr>m_store := (m_store (sd_mem S))(x := r)\<rparr>" for r by (simp add: sd_put_def S0_def)
  have put: "\<exists>r. sd_mem S' = (sd_mem S)\<lparr>m_store := (m_store (sd_mem S))(x := r)\<rparr> \<and> same_request r2 r"
    if "add_request_to_queue C x (sd_put x r S0) = Inr S'" "same_request r2 r" for r
    using add_request_to_queue_mem [OF that(1)] that(2) S0 by auto
  note run = assms(1) [unfolded handle_generate_request_def Let_def ids_def [symmetric] r0_def [symmetric] r1_def [symmetric] S0_def [symmetric] assms(2) option.case v prod.case]
  have "\<exists>r. sd_mem S' = (sd_mem S)\<lparr>m_store := (m_store (sd_mem S))(x := r)\<rparr> \<and> same_request r2 r"
  proof (cases err)
    case (Some msg)
    then show ?thesis using put [of "set_finish_with_abort msg r2"] run by simp
  next
    case None
    define r3 where "r3 = r2\<lparr>logprob_start_len := request_logprob_start t r2\<rparr>"
    note run = run [unfolded None option.case r3_def [symmetric]]
    have r3: "same_request r2 r3" by (simp add: r3_def)
    show ?thesis
    proof (cases "int (length (origin_input_ids r3)) < logprob_start_len r3")
      case True
      have "same_request r2 (set_finish_with_abort m (r3\<lparr>logprob_start_len := -1\<rparr>))" for m
        using same_request_trans [OF r3] same_request_trans same_request_steps by blast
      then show ?thesis using put run True by auto
    next
      case False
      obtain q r4 where g: "process_req_with_grammar C r3 = Inr (q, r4)" using run False by auto
      have s4: "same_request r2 r4" using same_request_trans [OF r3] process_req_with_grammar_same [OF g] by blast
      show ?thesis
      proof (cases q)
        case True
        then have "sd_mem S' = sd_mem (sd_put x r4 S0)" using run False g by auto
        then show ?thesis using s4 S0 by auto
      next
        case qf: False
        then show ?thesis using run False g put [OF _ s4] by simp
      qed
    qed
  qed
  then show ?thesis using v by (simp add: r1_def)
qed

lemma handled_params:
  assumes "handle_generate_request C x t S = Inr S'" "tk_session_id t = None"
  defines "ids \<equiv> (case tk_input_embeds_len t of Some n \<Rightarrow> replicate n 1 | None \<Rightarrow> tk_input_ids t)"
  shows "max_new_tokens (sampling_params (sd_req S' x)) =
    Some (min (case max_new_tokens (tk_sampling_params t) of Some n \<Rightarrow> n | None \<Rightarrow> 2 ^ 30) (sa_max_req_len C - int (length ids) - 1))"
  using handled_req [OF assms(1,2)] unfolding ids_def [symmetric]
  by (auto simp: sd_req_def same_request_def validate_input_length_def init_req_max_new_tokens_def init_req_def split: if_splits)

text \<open>Without priorities and without a limit the queue takes every request.\<close>

definition open_queue :: "sched_args \<Rightarrow> bool" where
  "open_queue C \<longleftrightarrow> \<not> sa_enable_priority_scheduling C \<and> \<not> sa_abort_on_priority_when_disabled C \<and> sa_max_queued_requests C = None"

lemma add_request_to_queue_open:
  assumes "open_queue C"
  shows "\<exists>S'. add_request_to_queue C x S = Inr S' \<and> sd_waiting S' = sd_waiting S @ [x] \<and> sd_mem S' = sd_mem S \<and>
    sd_new_token_ratio S' = sd_new_token_ratio S \<and> sd_running S' = sd_running S \<and> sd_chunked S' = sd_chunked S \<and> sd_aborts S' = sd_aborts S"
  using assms by (simp add: add_request_to_queue_def open_queue_def set_or_validate_priority_def abort_on_queued_limit_def)

lemma add_requests_open:
  assumes "open_queue C"
  shows "\<exists>S'. fold_result (add_request_to_queue C) xs S = Inr S' \<and> sd_waiting S' = sd_waiting S @ xs \<and> sd_mem S' = sd_mem S \<and>
    sd_new_token_ratio S' = sd_new_token_ratio S \<and> sd_running S' = sd_running S \<and> sd_chunked S' = sd_chunked S \<and> sd_aborts S' = sd_aborts S"
proof (induction xs arbitrary: S)
  case (Cons x xs)
  obtain S1 where 1: "add_request_to_queue C x S = Inr S1" "sd_waiting S1 = sd_waiting S @ [x]" "sd_mem S1 = sd_mem S"
    "sd_new_token_ratio S1 = sd_new_token_ratio S" "sd_running S1 = sd_running S" "sd_chunked S1 = sd_chunked S" "sd_aborts S1 = sd_aborts S"
    using add_request_to_queue_open [OF assms] by blast
  show ?case using Cons.IH [of S1] 1 by auto
qed simp

end
