(* ===== verification/Scheduler.thy ===== *)
theory Scheduler
  imports Request_Queue "HOL-Library.Char_ord" "HOL-Library.List_Lexorder"
begin

text \<open>
  The choice of the next batch (\<open>managers/scheduler.py\<close>): the order of the waiting queue (\<open>SchedulePolicy\<close>,
  \<open>managers/schedule_policy.py\<close>), \<open>_get_new_batch_prefill_raw\<close> with the isolation of deterministic prefills,
  \<open>update_running_batch\<close> and \<open>get_next_batch_to_run\<close>, for one scheduler process without pipeline or data parallelism,
  LoRA, hierarchical caches, diffusion models and disaggregation, and with an empty grammar queue.
\<close>

section \<open>The order of the waiting queue\<close>

datatype cache_agnostic_policy = FCFS | LOF | RANDOM | ROUTING_KEY

text \<open>With a disabled prefix cache the two cache-aware policies fall back to first come, first served.\<close>

definition validate_and_adjust_policy :: "string \<Rightarrow> cache_agnostic_policy result" where
  "validate_and_adjust_policy s =
     (if s = ''lpm'' \<or> s = ''dfs-weight'' then Inr FCFS
      else if s = ''fcfs'' then Inr FCFS else if s = ''lof'' then Inr LOF
      else if s = ''random'' then Inr RANDOM else if s = ''routing-key'' then Inr ROUTING_KEY
      else Inl ValueError)"

definition sort_by_priority_and_fcfs :: "int \<Rightarrow> arrival \<Rightarrow> ref list \<Rightarrow> ref list result" where
  "sort_by_priority_and_fcfs sign Q xs =
     (if list_ex (\<lambda>x. priority Q x = None) xs then Inl TypeError
      else Inr (sort_key (\<lambda>x. (the (priority Q x) * sign, wait_queue_entry_time Q x)) xs))"

definition sort_by_longest_output :: "bool \<Rightarrow> int \<Rightarrow> arrival \<Rightarrow> store \<Rightarrow> ref list \<Rightarrow> ref list result" where
  "sort_by_longest_output by_priority sign Q h xs =
     (if list_ex (\<lambda>x. max_new_tokens (sampling_params (h x)) = None) xs then Inl TypeError
      else if by_priority then
        if list_ex (\<lambda>x. priority Q x = None) xs then Inl TypeError
        else Inr (sort_key (\<lambda>x. (the (priority Q x) * sign, - the (max_new_tokens (sampling_params (h x))))) xs)
      else Inr (sort_key (\<lambda>x. - the (max_new_tokens (sampling_params (h x)))) xs))"

text \<open>\<open>key\<close> gives the routing key of a request; an empty key counts as none.\<close>

definition sort_by_routing_key :: "(ref \<Rightarrow> string option) \<Rightarrow> ref list \<Rightarrow> ref list \<Rightarrow> ref list" where
  "sort_by_routing_key key running xs =
     (let k = (\<lambda>x. case key x of None \<Rightarrow> [] | Some s \<Rightarrow> s);
          count = (\<lambda>s. length (filter (\<lambda>y. k y = s) running))
      in if list_all (\<lambda>y. k y = []) running then xs
         else sort_key (\<lambda>x. if k x \<noteq> [] \<and> 0 < count (k x) then (0 :: nat, - int (count (k x)), k x) else (1, 0, k x)) xs)"

definition calc_priority ::
  "sched_args \<Rightarrow> arrival \<Rightarrow> (ref \<Rightarrow> string option) \<Rightarrow> store \<Rightarrow> ref list \<Rightarrow> ref list \<Rightarrow> ref list result" where
  "calc_priority C Q key h running xs =
     (let sign = (if sa_low_priority_values_first C then 1 else -1)
      in bind_result (validate_and_adjust_policy (sa_schedule_policy C)) (\<lambda>policy. case policy of
           FCFS \<Rightarrow> if sa_enable_priority_scheduling C then sort_by_priority_and_fcfs sign Q xs else Inr xs
         | LOF \<Rightarrow> sort_by_longest_output (sa_enable_priority_scheduling C) sign Q h xs
         | RANDOM \<Rightarrow> Inr (sa_shuffle C xs)
         | ROUTING_KEY \<Rightarrow> Inr (sort_by_routing_key key running xs)))"

section \<open>The next prefill batch\<close>

definition get_num_allocatable_reqs :: "sched_args \<Rightarrow> mem \<Rightarrow> nat \<Rightarrow> int" where
  "get_num_allocatable_reqs C M running_bs =
     min (sa_pp_max_micro_batch_size C - int running_bs) (int (rt_available_size (m_pool M)))"

text \<open>Whether there is a place for one more request in the batch, if need be after a preemption.\<close>

definition find_place :: "sched_args \<Rightarrow> arrival \<Rightarrow> ref \<Rightarrow> prefill_adder \<Rightarrow> mem \<Rightarrow> (bool \<times> prefill_adder \<times> mem) result" where
  "find_place C Q x A M =
     (let full = (b_batch_is_full (pa_running A) \<or>
                  get_num_allocatable_reqs C M (length (b_reqs (pa_running A))) \<le> int (length (can_run_list A)));
          A1 = A\<lparr>pa_running := (pa_running A)\<lparr>b_batch_is_full := full\<rparr>\<rparr>
      in if \<not> full then Inr (True, A1, M)
         else if \<not> try_preemption C then Inr (False, A1, M)
         else preempt_to_schedule (sa_set_order C) (sa_low_priority_values_first C) Q x A1 M)"

text \<open>The loop over the waiting queue; \<open>det\<close> is \<open>has_deterministic_in_batch\<close>.\<close>

fun fill_prefill ::
  "sched_args \<Rightarrow> arrival \<Rightarrow> ref list \<Rightarrow> bool \<Rightarrow> prefill_adder \<Rightarrow> mem \<Rightarrow> (prefill_adder \<times> mem) result" where
  "fill_prefill C Q [] det A M = Inr (A, M)"
| "fill_prefill C Q (x # xs) det A M =
     (if sa_enable_llm42 C \<and> det then Inr (A, M)
      else if sa_enable_llm42 C \<and> 0 < length (can_run_list A) \<and> is_deterministic (m_store M x) then fill_prefill C Q xs det A M
      else
        bind_result (find_place C Q x A M) (\<lambda>(go, A2, M2).
          if \<not> go then Inr (A2, M2)
          else
            bind_result (add_one_req (sa_truncation_align_size C) x A2
                (M2\<lparr>m_store := (m_store M2)(x := init_next_round_input (Some chunk_match_prefix) (m_store M2 x))\<rparr>)) (\<lambda>(res, A3, M3).
              (let det' = (det \<or> (sa_enable_llm42 C \<and> x \<in> set (can_run_list A3) \<and> is_deterministic (m_store M3 x)))
               in case res of
                    ADD_CONTINUE \<Rightarrow> fill_prefill C Q xs det' A3 M3
                  | ADD_NO_TOKEN \<Rightarrow> Inr (A3\<lparr>pa_running := (pa_running A3)\<lparr>b_batch_is_full := True\<rparr>\<rparr>, M3)
                  | ADD_OTHER \<Rightarrow> Inr (A3, M3)))))"

text \<open>The chunked request, if there is one, goes first.\<close>

definition continue_chunked ::
  "sched_args \<Rightarrow> ref option \<Rightarrow> prefill_adder \<Rightarrow> mem \<Rightarrow> (ref option \<times> bool \<times> prefill_adder \<times> mem) result" where
  "continue_chunked C chunked A M =
     (case chunked of None \<Rightarrow> Inr (None, False, A, M)
      | Some x \<Rightarrow>
          bind_result (add_chunked_req x A (M\<lparr>m_store := (m_store M)(x := init_next_round_input None (m_store M x))\<rparr>)) (\<lambda>(c, A1, M1).
            Inr (c, sa_enable_llm42 C \<and> is_deterministic (m_store M x), A1, M1)))"

text \<open>Mixed-style chunked prefill: the running requests take their decode step in the same batch.\<close>

definition mix_chunk :: "sched_args \<Rightarrow> launch \<Rightarrow> schedule_batch \<Rightarrow> schedule_batch \<Rightarrow> mem \<Rightarrow> (schedule_batch \<times> schedule_batch \<times> mem) result" where
  "mix_chunk C L b running M =
     (if is_mixed_chunk C \<and> \<not> is_empty running \<and> \<not> (b_return_logprob b \<or> b_return_logprob running) then
        bind_result (filter_batch (m_store M) [] None running) (\<lambda>running1.
        bind_result
          (if is_empty running1 then Inr (b, M)
           else bind_result (prepare_for_decode L running1 M) (\<lambda>(running2, M1).
                bind_result (mix_with_running b running2 M1) (\<lambda>(b1, M2).
                  Inr (b1\<lparr>b_decoding_reqs := Some (b_reqs running2)\<rparr>, M2)))) (\<lambda>(b2, M3).
          Inr (b2, new_batch [] (b_batch_is_full running1), M3)))
      else Inr (b\<lparr>b_decoding_reqs := None\<rparr>, running, M))"

definition note_entry :: "sched_args \<Rightarrow> ref list \<Rightarrow> scheduler \<Rightarrow> scheduler" where
  "note_entry C xs S =
     fold (\<lambda>x S. if sd_entered S x = 0
        then S\<lparr>sd_entered := (sd_entered S)(x := sa_clock C (sd_ticks S)), sd_ticks := Suc (sd_ticks S)\<rparr> else S) xs S"

text \<open>What follows the choice of the requests: the queues are updated and the batch is built.\<close>

definition build_prefill ::
  "sched_args \<Rightarrow> launch \<Rightarrow> prefill_adder \<Rightarrow> scheduler \<Rightarrow> (schedule_batch option \<times> scheduler) result" where
  "build_prefill C L A S =
     (let can = can_run_list A
      in if length can = 0 then Inr (None, S)
         else
           bind_result (fold_result (add_request_to_queue C) (preempt_list A)
               (S\<lparr>sd_waiting := filter (\<lambda>x. x \<notin> set can) (sd_waiting S)\<rparr>)) (\<lambda>S1.
           bind_result
             (case new_chunked_req A of None \<Rightarrow> Inr S1
              | Some c \<Rightarrow> if sd_chunked S1 \<noteq> None then Inl AssertionError else Inr (S1\<lparr>sd_chunked := Some c\<rparr>)) (\<lambda>S2.
             (let S3 = note_entry C can
                         (case sd_chunked S2 of None \<Rightarrow> S2
                          | Some c \<Rightarrow> sd_put c ((sd_req S2 c)\<lparr>is_chunked := is_chunked (sd_req S2 c) + 1\<rparr>) S2)
              in bind_result (prepare_for_extend L (sa_enable_deterministic C) (sa_vocab_size C)
                     (init_new (m_store (sd_mem S3)) can (sa_enable_overlap C) (sd_chunked S3)) (sd_mem S3)) (\<lambda>(b, M).
                 bind_result (mix_chunk C L b (sd_running S3) M) (\<lambda>(b1, running, M1).
                   Inr (Some b1, S3\<lparr>sd_mem := M1, sd_running := running\<rparr>)))))))"

text \<open>The chunk size for this batch: the prediction of the dynamic chunking for the tokens the chunked request has in the
  cache, or the configured size.  Without dynamic chunking there is no prediction.\<close>

definition chunk_size :: "sched_args \<Rightarrow> scheduler \<Rightarrow> int option" where
  "chunk_size C S =
     (case sd_chunked S of None \<Rightarrow> sa_chunked_prefill_size C
      | Some x \<Rightarrow> (case sa_predict_chunk C (length (prefix_indices (sd_req S x))) of
          None \<Rightarrow> sa_chunked_prefill_size C | Some n \<Rightarrow> Some n))"

text \<open>The requests of the batch: what is left of the chunked request, the adder and the memory.\<close>

definition choose_requests ::
  "sched_args \<Rightarrow> bool option \<Rightarrow> schedule_batch \<Rightarrow> scheduler \<Rightarrow> (ref option \<times> prefill_adder \<times> mem) result" where
  "choose_requests C delayer running S =
     bind_result (adder_init (page_size (m_alloc (sd_mem S))) running (sd_new_token_ratio S) (sa_max_prefill_tokens C)
         (chunk_size C S) (if is_mixed_chunk C then length (b_reqs running) else 0) (sa_preemption_threshold C) (sa_nsa_split C)
         (sa_prefill_max_requests C) delayer (m_store (sd_mem S))) (\<lambda>A0.
     bind_result (continue_chunked C (sd_chunked S) A0 (sd_mem S)) (\<lambda>(chunked, det, A1, M1).
     bind_result (fill_prefill C (sd_arrival S) (sd_waiting S) det A1 M1) (\<lambda>(A, M).
       Inr (chunked, A, M))))"

definition get_new_batch_prefill ::
  "sched_args \<Rightarrow> launch \<Rightarrow> (ref \<Rightarrow> string option) \<Rightarrow> bool option \<Rightarrow> scheduler \<Rightarrow> (schedule_batch option \<times> scheduler) result" where
  "get_new_batch_prefill C L key delayer S =
     (let running = (if try_preemption C then (sd_running S)\<lparr>b_batch_is_full := False\<rparr> else sd_running S)
      in if (b_batch_is_full running \<or> length (sd_waiting S) = 0) \<and> sd_chunked S = None then Inr (None, S\<lparr>sd_running := running\<rparr>)
         else if get_num_allocatable_reqs C (sd_mem S) (length (b_reqs running)) \<le> 0 \<and> sd_chunked S \<noteq> None \<and> \<not> try_preemption C
         then Inr (None, S\<lparr>sd_running := running\<lparr>b_batch_is_full := True\<rparr>\<rparr>)
         else bind_result (calc_priority C (sd_arrival S) key (m_store (sd_mem S)) (b_reqs running) (sd_waiting S)) (\<lambda>waiting.
                (let S1 = S\<lparr>sd_waiting := waiting, sd_running := running\<rparr>
                 in if sa_test_retract C \<and> sa_test_retract_no_prefill_bs C < length (b_reqs running) then Inr (None, S1)
                    else bind_result (choose_requests C delayer running S1) (\<lambda>(chunked, A, M).
                           build_prefill C L A (S1\<lparr>sd_mem := M, sd_running := pa_running A, sd_chunked := chunked\<rparr>)))))"

section \<open>The next decode batch\<close>

text \<open>Requests are retracted when the memory is too small, and in tests of the retraction at regular intervals.\<close>

definition retract_now :: "sched_args \<Rightarrow> bool \<Rightarrow> scheduler \<Rightarrow> bool result" where
  "retract_now C mem_ok S =
     (if \<not> mem_ok then Inr True
      else if \<not> sa_test_retract C then Inr False
      else if sa_test_retract_interval C = 0 then Inl ZeroDivisionError
      else Inr (sd_forward_ct S mod sa_test_retract_interval C = 0))"

definition update_running_batch ::
  "sched_args \<Rightarrow> launch \<Rightarrow> schedule_batch \<Rightarrow> scheduler \<Rightarrow> (schedule_batch \<times> scheduler) result" where
  "update_running_batch C L b0 S =
     bind_result (filter_batch (m_store (sd_mem S)) [] None b0) (\<lambda>b.
       if is_empty b then Inr (b\<lparr>b_batch_is_full := False\<rparr>, S)
       else
         bind_result (retract_now C (check_decode_mem (sd_mem S) (b_reqs b)) S) (\<lambda>retract.
         bind_result
           (if retract then
              bind_result (retract_decode (sa_retract_decode_steps C) b (sd_mem S)) (\<lambda>(retracted, ratio, b1, M1).
              bind_result (fold_result (add_request_to_queue C) retracted (S\<lparr>sd_mem := M1, sd_new_token_ratio := ratio\<rparr>)) (\<lambda>S1.
                Inr (b1, S1)))
            else Inr (b, S\<lparr>sd_new_token_ratio := max (sd_new_token_ratio S - sa_new_token_ratio_decay C) (sa_min_new_token_ratio C)\<rparr>)) (\<lambda>(b1, S1).
           (let b2 = (if batch_size b1 < batch_size b0 then b1\<lparr>b_batch_is_full := False\<rparr> else b1)
            in bind_result (prepare_for_decode L b2 (sd_mem S1)) (\<lambda>(b3, M3). Inr (b3, S1\<lparr>sd_mem := M3\<rparr>))))))"

section \<open>The next batch\<close>

text \<open>The finished part of the last prefill batch joins the running batch.  Afterwards the last batch is not used again:
  the event loop replaces it by the batch that is returned.\<close>

definition merge_last_batch :: "scheduler \<Rightarrow> scheduler result" where
  "merge_last_batch S =
     (case sd_last S of None \<Rightarrow> Inr S
      | Some lb \<Rightarrow> (case b_forward_mode lb of None \<Rightarrow> Inl AttributeError
        | Some m \<Rightarrow>
            if \<not> is_extend False m then Inr S
            else
              (let exclude = (case sd_chunked S of None \<Rightarrow> [] | Some x \<Rightarrow> [x]) @ (case b_chunked_req lb of None \<Rightarrow> [] | Some x \<Rightarrow> [x])
               in bind_result (filter_batch (m_store (sd_mem S)) exclude None lb) (\<lambda>lb1.
                    (let running = (if batch_size lb1 < batch_size lb then (sd_running S)\<lparr>b_batch_is_full := False\<rparr> else sd_running S);
                         S1 = S\<lparr>sd_last := Some lb1, sd_running := running\<rparr>
                     in if is_empty lb1 \<or> b_is_prefill_only lb1 then Inr S1
                        else if is_empty running then Inr (S1\<lparr>sd_running := lb1\<rparr>)
                        else bind_result (merge_batch running lb1) (\<lambda>b. Inr (S1\<lparr>sd_running := b\<rparr>)))))))"

definition stash_chunked_request :: "scheduler \<Rightarrow> scheduler result" where
  "stash_chunked_request S =
     (case sd_chunked S of None \<Rightarrow> Inr S
      | Some x \<Rightarrow> bind_result (chunk_cache_unfinished_req (m_pool (sd_mem S)) (sd_req S x)) (\<lambda>r. Inr (sd_put x r S)))"

definition get_next_batch_to_run ::
  "sched_args \<Rightarrow> launch \<Rightarrow> (ref \<Rightarrow> string option) \<Rightarrow> bool option \<Rightarrow> scheduler \<Rightarrow> (schedule_batch option \<times> scheduler) result" where
  "get_next_batch_to_run C L key delayer S =
     bind_result (stash_chunked_request (abort_on_running_timeout C (abort_on_waiting_timeout C S))) (\<lambda>S1.
     bind_result (merge_last_batch S1) (\<lambda>S2.
     bind_result (get_new_batch_prefill C L key delayer S2) (\<lambda>(b, S3).
       case b of Some b' \<Rightarrow> Inr (Some b', S3)
       | None \<Rightarrow>
           if is_empty (sd_running S3) then Inr (None, S3)
           else bind_result (update_running_batch C L (sd_running S3) S3) (\<lambda>(b1, S4).
                  Inr (if is_empty b1 then None else Some b1, S4\<lparr>sd_running := b1\<rparr>)))))"

end
