(* ===== verification/Scheduling_Examples.thy ===== *)
theory Scheduling_Examples
  imports Scheduler
begin

text \<open>Concrete schedulers on which the properties of scheduling are evaluated.\<close>

definition example_args :: sched_args where
  "example_args =
     \<lparr>sa_max_prefill_tokens = 64, sa_chunked_prefill_size = Some 8, sa_enable_mixed_chunk = False,
      sa_enable_priority_scheduling = False, sa_low_priority_values_first = False, sa_abort_on_priority_when_disabled = False,
      sa_preemption_threshold = 0, sa_prefill_max_requests = None, sa_enable_llm42 = True, sa_truncation_align_size = None,
      sa_pp_max_micro_batch_size = 4, sa_max_queued_requests = None, sa_max_req_len = 15, sa_max_req_input_len = 10,
      sa_allow_auto_truncate = False, sa_new_token_ratio_decay = 1 / 1000, sa_min_new_token_ratio = 1 / 10,
      sa_retract_decode_steps = 20, sa_enable_overlap = False, sa_enable_deterministic = True, sa_vocab_size = 32000,
      sa_eos_token_ids = {}, sa_schedule_policy = ''fcfs'', sa_nsa_split = False, sa_waiting_timeout = 0, sa_running_timeout = 0,
      sa_clock = real, sa_shuffle = (\<lambda>xs. xs), sa_set_order = (\<lambda>xs. xs), sa_grammar = None,
      sa_test_retract = False, sa_test_retract_interval = 3, sa_test_retract_no_prefill_bs = 8, sa_predict_chunk = (\<lambda>_. None)\<rparr>"

text \<open>Requests with a prompt of \<open>n\<close> tokens that may generate four, and a pool of \<open>k\<close> slots.\<close>

definition prompt_req :: "nat \<Rightarrow> req" where
  "prompt_req n = init_req ''r'' (map int [1..<Suc n]) [] (default_sampling_params\<lparr>max_new_tokens := Some 4\<rparr>) False 0 None False {} (Some 32000)"

definition waiting_sched :: "nat \<Rightarrow> store \<Rightarrow> ref list \<Rightarrow> scheduler" where
  "waiting_sched k h xs =
     \<lparr>sd_mem = \<lparr>m_store = h, m_pool = rt_init 4 16, m_alloc = token_init k False\<rparr>,
      sd_arrival = \<lparr>priority = (\<lambda>_. None), wait_queue_entry_time = real\<rparr>, sd_entered = (\<lambda>_. 0), sd_waiting = xs,
      sd_grammar_queue = [], sd_running = new_batch [] False, sd_last = None, sd_chunked = None, sd_new_token_ratio = 1 / 2,
      sd_aborts = [], sd_ticks = 1, sd_forward_ct = 0\<rparr>"

end
