(* ===== verification/Isolation.thy ===== *)
theory Isolation
  imports Scheduling_Examples
begin

text \<open>
  The prefill of a deterministic request runs alone: \<open>_get_new_batch_prefill_raw\<close> never puts another request into the
  batch of such a request.
\<close>

section \<open>Which requests an admission adds\<close>

lemma set_extend_input_len_flags [simp]:
  "is_deterministic (set_extend_input_len n r) = is_deterministic r" "finished_reason (set_extend_input_len n r) = finished_reason r"
  by (simp_all add: set_extend_input_len_def Let_def)

lemma cut_chunk_flags [simp]:
  "is_deterministic (cut_chunk p n r) = is_deterministic r" "finished_reason (cut_chunk p n r) = finished_reason r"
  by (simp_all add: cut_chunk_def Let_def)

lemma init_next_round_input_flags [simp]:
  "is_deterministic (init_next_round_input m r) = is_deterministic r" "finished_reason (init_next_round_input m r) = finished_reason r"
  by (simp_all add: init_next_round_input_def Let_def split: option.splits)

lemma update_prefill_budget_keeps [simp]:
  "can_run_list (update_prefill_budget p n k A) = can_run_list A" "preempt_list (update_prefill_budget p n k A) = preempt_list A"
  "pa_running (update_prefill_budget p n k A) = pa_running A" "new_chunked_req (update_prefill_budget p n k A) = new_chunked_req A"
  by (simp_all add: update_prefill_budget_def Let_def)

text \<open>The passes over the queue neither finish a request nor make it deterministic.\<close>

definition same_flags :: "mem \<Rightarrow> mem \<Rightarrow> bool" where
  "same_flags M M' \<longleftrightarrow> (\<forall>y. is_deterministic (m_store M' y) = is_deterministic (m_store M y) \<and>
     finished_reason (m_store M' y) = finished_reason (m_store M y))"

lemma same_flags_refl [simp]: "same_flags M M"
  by (simp add: same_flags_def)

lemma same_flags_trans: "same_flags M M1 \<Longrightarrow> same_flags M1 M2 \<Longrightarrow> same_flags M M2"
  by (simp add: same_flags_def)

lemma same_flags_upd [simp]:
  "is_deterministic r = is_deterministic (m_store M x) \<Longrightarrow> finished_reason r = finished_reason (m_store M x) \<Longrightarrow> same_flags M (M\<lparr>m_store := (m_store M)(x := r)\<rparr>)"
  by (simp add: same_flags_def)

definition adds :: "ref \<Rightarrow> prefill_adder \<Rightarrow> prefill_adder \<Rightarrow> bool" where
  "adds x A A' \<longleftrightarrow> (can_run_list A' = can_run_list A \<or> can_run_list A' = can_run_list A @ [x]) \<and>
     preempt_list A' = preempt_list A \<and> pa_running A' = pa_running A"

lemma add_one_req_ignore_eos_adds:
  assumes "add_one_req_ignore_eos x A M = Inr (res, A', M')"
  shows "adds x A A' \<and> same_flags M M'"
  using assms unfolding add_one_req_ignore_eos_def adds_def Let_def
  by (cases "update_req_states x A (m_store M)"; cases "pa_rem_chunk A"; cases "max_new (m_store M x)")
    (auto split: if_splits)

lemma add_one_req_adds:
  assumes "add_one_req align x A M = Inr (res, A', M')"
  shows "adds x A A' \<and> same_flags M M'"
proof (cases "ignore_eos (sampling_params (m_store M x))")
  case True
  then show ?thesis using assms add_one_req_ignore_eos_adds [of x A M]
    by (auto simp: add_one_req_def Let_def adds_def split: if_splits)
next
  case False
  then show ?thesis using assms unfolding add_one_req_def adds_def Let_def
    by (cases "max_new (m_store M x)"; cases "chunk_length (pa_page_size A) align (the (pa_rem_chunk A))")
      (auto split: if_splits option.splits)
qed

lemma reset_for_retract_flags [simp]:
  "is_deterministic (reset_for_retract r) = is_deterministic r" "finished_reason (reset_for_retract r) = finished_reason r"
  by (simp_all add: reset_for_retract_def Let_def)

lemma retract_req_flags:
  assumes "retract_req x M = Inr M'"
  shows "same_flags M M'"
proof -
  obtain p a r where r: "release_kv_cache False (m_pool M) (m_alloc M) (m_store M x) = Inr (p, a, r)"
    and M': "M' = \<lparr>m_store = (m_store M)(x := reset_for_retract r), m_pool = p, m_alloc = a\<rparr>"
    using assms by (auto simp: retract_req_def bind_result_eq_Inr)
  have "is_deterministic r = is_deterministic (m_store M x)" "finished_reason r = finished_reason (m_store M x)"
    using release_kv_cache_shape [OF r] by auto
  then show ?thesis by (simp add: M' same_flags_def)
qed

lemma preempt_release_flags:
  "preempt_release ratio chosen i xs off M keep = Inr (off', M', keep') \<Longrightarrow> same_flags M M'"
proof (induction ratio chosen i xs off M keep rule: preempt_release.induct)
  case (2 ratio chosen i x xs off M keep)
  then show ?case using retract_req_flags same_flags_trans by (fastforce simp: bind_result_eq_Inr split: if_splits)
qed simp

lemma preempt_to_schedule_flags:
  assumes "preempt_to_schedule so low Q x A M = Inr (go, A', M')"
  shows "can_run_list A' = can_run_list A \<and> same_flags M M'"
  using assms unfolding preempt_to_schedule_def Let_def
  by (auto simp: bind_result_eq_Inr split: if_splits prod.splits dest: preempt_release_flags)

section \<open>The loop over the waiting queue\<close>

lemma find_place_flags:
  assumes "find_place C Q x A M = Inr (go, A', M')"
  shows "can_run_list A' = can_run_list A \<and> same_flags M M'"
  using assms preempt_to_schedule_flags by (fastforce simp: find_place_def Let_def split: if_splits)

definition isolated :: "mem \<Rightarrow> ref list \<Rightarrow> bool" where
  "isolated M xs \<longleftrightarrow> (\<forall>x \<in> set xs. is_deterministic (m_store M x) \<longrightarrow> xs = [x])"

lemma isolated_same_flags: "same_flags M M' \<Longrightarrow> isolated M' xs = isolated M xs"
  by (simp add: isolated_def same_flags_def)

lemma fill_prefill_isolated:
  assumes "fill_prefill C Q xs det A M = Inr (A', M')" "sa_enable_llm42 C" "isolated M (can_run_list A)"
    and "\<not> det \<longrightarrow> (\<forall>x \<in> set (can_run_list A). \<not> is_deterministic (m_store M x))"
  shows "isolated M' (can_run_list A') \<and> same_flags M M'"
  using assms
proof (induction xs arbitrary: det A M)
  case (Cons x xs)
  show ?case
  proof (cases "det \<or> 0 < length (can_run_list A) \<and> is_deterministic (m_store M x)")
    case True
    then show ?thesis using Cons.prems Cons.IH [of det A M] by (auto split: if_splits)
  next
    case False
    obtain go A2 M2 where f: "find_place C Q x A M = Inr (go, A2, M2)" using Cons.prems(1,2) False by (auto split: if_splits)
    have f2: "can_run_list A2 = can_run_list A" "same_flags M M2" using find_place_flags [OF f] by auto
    show ?thesis
    proof (cases go)
      case False
      then show ?thesis using Cons.prems \<open>\<not> (det \<or> _)\<close> f f2 by (auto simp: isolated_same_flags)
    next
      case True
      let ?M = "M2\<lparr>m_store := (m_store M2)(x := init_next_round_input (Some chunk_match_prefix) (m_store M2 x))\<rparr>"
      obtain res A3 M3 where a: "add_one_req (sa_truncation_align_size C) x A2 ?M = Inr (res, A3, M3)"
        using Cons.prems(1,2) False True f by (auto split: if_splits)
      have a2: "adds x A2 A3" "same_flags ?M M3" using add_one_req_adds [OF a] by auto
      have "same_flags M2 ?M" by simp
      then have sd: "same_flags M M3" using a2(2) f2(2) same_flags_trans by blast
      let ?det = "x \<in> set (can_run_list A3) \<and> is_deterministic (m_store M3 x)"
      have dx: "is_deterministic (m_store M3 y) = is_deterministic (m_store M y)" for y using sd by (simp add: same_flags_def)
      have none: "\<forall>y \<in> set (can_run_list A). \<not> is_deterministic (m_store M y)" using Cons.prems(4) False by simp
      have iso: "isolated M3 (can_run_list A3)"
        using a2(1) f2(1) none False by (auto simp: isolated_def adds_def dx)
      have nd: "\<not> ?det \<longrightarrow> (\<forall>y \<in> set (can_run_list A3). \<not> is_deterministic (m_store M3 y))"
        using a2(1) f2(1) none by (auto simp: adds_def dx)
      show ?thesis
      proof (cases res)
        case ADD_CONTINUE
        then have "fill_prefill C Q xs ?det A3 M3 = Inr (A', M')"
          using Cons.prems(1,2) False True f a by (simp split: if_splits)
        then show ?thesis using Cons.IH [OF _ Cons.prems(2) iso nd] sd same_flags_trans by blast
      qed (use Cons.prems(1,2) False True f a iso sd in \<open>auto split: if_splits\<close>)
    qed
  qed
qed simp

section \<open>The batch\<close>

lemma prepare_for_extend_reqs: "prepare_for_extend L ed vocab b M = Inr (b', M') \<Longrightarrow> b_reqs b' = b_reqs b"
  by (auto simp: prepare_for_extend_def Let_def)

lemma continue_chunked_isolated:
  assumes "continue_chunked C chunked A M = Inr (c, det, A', M')" "can_run_list A = []" "sa_enable_llm42 C"
  shows "same_flags M M' \<and> isolated M' (can_run_list A') \<and> (\<not> det \<longrightarrow> (\<forall>x \<in> set (can_run_list A'). \<not> is_deterministic (m_store M' x)))"
  using assms by (auto simp: continue_chunked_def add_chunked_req_def Let_def isolated_def same_flags_def split: option.splits if_splits)

lemma build_prefill_reqs:
  assumes "build_prefill C L A S = Inr (Some b, S')" "\<not> is_mixed_chunk C"
  shows "b_reqs b = can_run_list A"
  using assms prepare_for_extend_reqs
  by (fastforce simp: build_prefill_def Let_def mix_chunk_def init_new_def new_batch_def split: if_splits)

lemma build_prefill_None: "build_prefill C L A S = Inr (None, S') \<Longrightarrow> can_run_list A = []"
  by (auto simp: build_prefill_def Let_def split: if_splits)

lemma prefill_isolated:
  assumes "get_new_batch_prefill C L key delayer S = Inr (Some b, S')" "sa_enable_llm42 C" "\<not> is_mixed_chunk C"
    and "x \<in> set (b_reqs b)" "is_deterministic (m_store (sd_mem S) x)"
  shows "b_reqs b = [x]"
proof -
  obtain waiting cs A0 chunked det A1 M1 A M S1 where
    a: "adder_init (page_size (m_alloc (sd_mem S))) waiting (sd_new_token_ratio S) (sa_max_prefill_tokens C)
      cs 0 (sa_preemption_threshold C) (sa_nsa_split C) (sa_prefill_max_requests C) delayer (m_store (sd_mem S)) = Inr A0"
    and c: "continue_chunked C (sd_chunked S) A0 (sd_mem S) = Inr (chunked, det, A1, M1)"
    and f: "\<exists>ws. fill_prefill C (sd_arrival S) ws det A1 M1 = Inr (A, M)"
    and b: "build_prefill C L A S1 = Inr (Some b, S')"
    using assms(1,3) by (fastforce simp: get_new_batch_prefill_def choose_requests_def Let_def split: if_splits)
  have "can_run_list A0 = []" using a by (auto simp: adder_init_def)
  note c1 = continue_chunked_isolated [OF c this assms(2)]
  obtain ws where "fill_prefill C (sd_arrival S) ws det A1 M1 = Inr (A, M)" using f by blast
  from fill_prefill_isolated [OF this assms(2)] c1 have "isolated M (can_run_list A)" "same_flags (sd_mem S) M"
    using same_flags_trans by blast+
  then show ?thesis using assms(4,5) build_prefill_reqs [OF b assms(3)] by (auto simp: isolated_def same_flags_def)
qed

end
