(* ===== verification/Prefill_Memory.thy ===== *)
theory Prefill_Memory
  imports Isolation
begin


text \<open>
  The prefill adder keeps the memory promise: the requests it admits fit the rows and the slots that are free, so the
  preparation of the batch never runs out of memory.  Pages hold one token.
\<close>

section \<open>One admission\<close>

definition capped :: "req \<Rightarrow> bool" where
  "capped r \<longleftrightarrow> (case max_new_tokens (sampling_params r) of None \<Rightarrow> False | Some n \<Rightarrow> 0 \<le> n)"

lemma capped_max_new: "capped r \<Longrightarrow> \<exists>n \<ge> 0. max_new r = Inr n"
  by (auto simp: capped_def max_new_def split: option.splits)

lemma ceil_paged_one [simp]: "ceil_paged_tokens (Suc 0) t = t"
  by (simp add: ceil_paged_tokens_def)

lemma update_budget_one:
  assumes "pa_page_size A = 1"
  shows "pa_rem_total_offset (update_prefill_budget p n k A) = pa_rem_total_offset A + real_of_int (n + k)"
    "pa_cur_rem_offset (update_prefill_budget p n k A) = pa_cur_rem_offset A + n"
    "pa_rem_chunk (update_prefill_budget p n k A) = map_option (\<lambda>c. c - n) (pa_rem_chunk A)"
    "pa_page_size (update_prefill_budget p n k A) = pa_page_size A"
  using assms by (simp_all add: update_prefill_budget_def Let_def)

text \<open>\<open>n\<close> tokens of \<open>x\<close> were admitted, and the memory was there.\<close>

definition admitted :: "ref \<Rightarrow> int \<Rightarrow> prefill_adder \<Rightarrow> mem \<Rightarrow> prefill_adder \<Rightarrow> mem \<Rightarrow> bool" where
  "admitted x n A M A' M' \<longleftrightarrow>
     0 < n \<and> can_run_list A' = can_run_list A @ [x] \<and> preempt_list A' = preempt_list A \<and> pa_running A' = pa_running A \<and>
     pa_page_size A' = pa_page_size A \<and> (\<exists>k \<ge> 0. pa_rem_total_offset A' = pa_rem_total_offset A + real_of_int (n + k)) \<and>
     pa_cur_rem_offset A' = pa_cur_rem_offset A + n \<and> pa_rem_chunk A' = map_option (\<lambda>c. c - n) (pa_rem_chunk A) \<and>
     real_of_int n \<le> rem_total_tokens A (m_alloc M) \<and> (\<forall>c. pa_rem_chunk A = Some c \<longrightarrow> n \<le> c) \<and>
     (n = extend_input_len (m_store M x) \<and> M' = M \<and> new_chunked_req A' = new_chunked_req A \<or>
      n < extend_input_len (m_store M x) \<and> M' = M\<lparr>m_store := (m_store M)(x := cut_chunk 0 n (m_store M x))\<rparr> \<and> new_chunked_req A' = Some x)"

definition refused :: "prefill_adder \<Rightarrow> mem \<Rightarrow> prefill_adder \<Rightarrow> mem \<Rightarrow> bool" where
  "refused A M A' M' \<longleftrightarrow> M' = M \<and> (\<exists>ss. A' = A\<lparr>pa_req_states := ss\<rparr>)"

definition align_ok :: "int option \<Rightarrow> bool" where
  "align_ok al \<longleftrightarrow> (case al of None \<Rightarrow> True | Some k \<Rightarrow> 0 < k)"

lemma chunk_length_spec:
  assumes "align_ok al"
  shows "\<exists>t. chunk_length (Suc 0) al c = Inr t \<and> (\<forall>n. t = Some n \<longrightarrow> 0 < n \<and> n \<le> c)"
proof -
  have "0 < k * (c div k) \<and> k * (c div k) \<le> c" if "0 < k" "k \<le> c" for k
  proof -
    have "0 < c div k" using that pos_imp_zdiv_pos_iff [of k c] by simp
    moreover have "c = k * (c div k) + c mod k" "0 \<le> c mod k" using that by simp_all
    then have "k * (c div k) \<le> c" by linarith
    ultimately show ?thesis using that by (simp add: zero_less_mult_iff)
  qed
  then show ?thesis using assms by (cases al) (auto simp: chunk_length_def align_ok_def Let_def)
qed

lemma update_req_states_runs:
  assumes "\<forall>y \<in> set (x # b_reqs (pa_running A) @ can_run_list A). capped (h y)"
  shows "\<exists>ss. update_req_states x A h = Inr ss"
proof -
  have r: "\<exists>s. req_state q (h y) = Inr s" if "y \<in> set (x # b_reqs (pa_running A) @ can_run_list A)" for y q
    using capped_max_new [OF bspec [OF assms that]] by (auto simp: req_state_def Let_def)
  have "\<exists>ss. map_result (\<lambda>y. req_state q (h y)) ys = Inr ss" if "set ys \<subseteq> set (x # b_reqs (pa_running A) @ can_run_list A)" for ys q
    using that
  proof (induction ys)
    case (Cons y ys)
    then show ?case using r [of y q] by fastforce
  qed simp
  from this [of "x # b_reqs (pa_running A) @ can_run_list A"] r [of x] show ?thesis
    by (auto simp: update_req_states_def split: option.splits)
qed

lemma add_one_req_ignore_eos_runs:
  assumes "pa_page_size A = 1" "prefix_indices (m_store M x) = []" "0 < extend_input_len (m_store M x)"
    and "\<forall>y \<in> set (x # b_reqs (pa_running A) @ can_run_list A). capped (m_store M y)"
  shows "\<exists>res A' M'. add_one_req_ignore_eos x A M = Inr (res, A', M') \<and>
    (refused A M A' M' \<and> res \<noteq> ADD_CONTINUE \<or> (\<exists>n. admitted x n A M A' M'))"
proof -
  let ?r = "m_store M x" and ?a = "m_alloc M"
  obtain mn where mn: "max_new ?r = Inr mn" "0 \<le> mn" using capped_max_new assms(4) by fastforce
  obtain ss where ss: "update_req_states x A (m_store M) = Inr ss" using update_req_states_runs [OF assms(4)] by blast
  let ?A = "A\<lparr>pa_req_states := Some ss\<rparr>"
  show ?thesis
  proof (cases "real_of_int (extend_input_len ?r) > min (real_of_int (cur_rem_tokens A ?a)) (rem_total_tokens A ?a) \<or>
      \<not> states_fit (cur_rem_tokens A ?a - extend_input_len ?r) 0 ss")
    case True
    then show ?thesis using ss assms(1) by (auto simp: add_one_req_ignore_eos_def Let_def refused_def intro: exI [of _ "pa_req_states A"])
  next
    case False
    then have room: "real_of_int (extend_input_len ?r) \<le> rem_total_tokens A ?a" by linarith
    show ?thesis
    proof (cases "pa_rem_chunk A")
      case None
      then show ?thesis using False ss mn assms room
        by (auto simp: add_one_req_ignore_eos_def Let_def admitted_def update_budget_one intro!: exI [of _ "extend_input_len ?r"] exI [of _ "min mn CLIP_MAX_NEW_TOKENS"]
            simp: CLIP_MAX_NEW_TOKENS_def)
    next
      case (Some c)
      show ?thesis
      proof (cases "extend_input_len ?r \<le> c")
        case True
        then show ?thesis using False ss mn assms room Some
          by (auto simp: add_one_req_ignore_eos_def Let_def admitted_def update_budget_one intro!: exI [of _ "extend_input_len ?r"] exI [of _ "min mn CLIP_MAX_NEW_TOKENS"]
              simp: CLIP_MAX_NEW_TOKENS_def)
      next
        case c: False
        show ?thesis
        proof (cases "c \<le> 0")
          case True
          then show ?thesis using False ss assms(1) Some c by (auto simp: add_one_req_ignore_eos_def Let_def refused_def)
        next
          case pos: False
          have "real_of_int c \<le> rem_total_tokens A ?a" using room c by linarith
          then show ?thesis using False ss assms Some c pos
            by (auto simp: add_one_req_ignore_eos_def Let_def admitted_def update_budget_one intro!: exI [of _ c] exI [of _ 0])
        qed
      qed
    qed
  qed
qed

lemma add_one_req_runs:
  assumes page: "pa_page_size A = 1" and pre: "prefix_indices (m_store M x) = []" and pos: "0 < extend_input_len (m_store M x)"
    and cap: "\<forall>y \<in> set (x # b_reqs (pa_running A) @ can_run_list A). capped (m_store M y)" and al: "align_ok al"
  shows "\<exists>res A' M'. add_one_req al x A M = Inr (res, A', M') \<and>
    (refused A M A' M' \<and> res \<noteq> ADD_CONTINUE \<or> (\<exists>n. admitted x n A M A' M'))"
proof -
  let ?r = "m_store M x" and ?a = "m_alloc M"
  obtain mn where mn: "max_new ?r = Inr mn" "0 \<le> mn" using capped_max_new cap by fastforce
  have keep: "refused A M A M" by (auto simp: refused_def intro: exI [of _ "pa_req_states A"])
  define total where "total = extend_input_len ?r + min (max (mn - int (length (output_ids ?r))) 0) CLIP_MAX_NEW_TOKENS"
  have tot: "extend_input_len ?r \<le> total" by (simp add: total_def CLIP_MAX_NEW_TOKENS_def)
  show ?thesis
  proof (cases "(pa_nsa_split A \<and> 1 \<le> length (can_run_list A)) \<or> (case prefill_max_requests A of Some k \<Rightarrow> k \<le> length (can_run_list A) | None \<Rightarrow> False)")
    case True
    then show ?thesis using keep by (auto simp: add_one_req_def Let_def)
  next
    case op: False
    show ?thesis
    proof (cases "ignore_eos (sampling_params ?r)")
      case True
      then have "add_one_req al x A M = add_one_req_ignore_eos x A M" using op by (auto simp: add_one_req_def Let_def)
      then show ?thesis using add_one_req_ignore_eos_runs [OF page pre pos cap] by simp
    next
      case eos: False
      show ?thesis
      proof (cases "rem_total_tokens A ?a \<le> real_of_int total \<or> pa_rem_input A \<le> extend_input_len ?r \<and> length (can_run_list A) \<noteq> 0 \<or> pa_delayer A = Some False")
        case True
        then show ?thesis using op eos mn keep page by (auto simp: add_one_req_def Let_def total_def)
      next
        case fit: False
        then have room: "real_of_int (extend_input_len ?r) \<le> rem_total_tokens A ?a" using tot by linarith
        show ?thesis
        proof (cases "case pa_rem_chunk A of None \<Rightarrow> True | Some c \<Rightarrow> extend_input_len ?r \<le> c")
          case True
          have "admitted x (extend_input_len ?r) A M (update_prefill_budget 0 (extend_input_len ?r) (min mn CLIP_MAX_NEW_TOKENS) (A\<lparr>can_run_list := can_run_list A @ [x]\<rparr>)) M"
            using True pos page mn(2) room by (auto simp: admitted_def update_budget_one CLIP_MAX_NEW_TOKENS_def intro!: exI [of _ "min mn CLIP_MAX_NEW_TOKENS"])
          then show ?thesis using True op eos fit mn(1) page pre by (auto simp: add_one_req_def Let_def total_def)
        next
          case False
          then obtain c where c: "pa_rem_chunk A = Some c" "c < extend_input_len ?r" by (auto split: option.splits)
          obtain t where t: "chunk_length (Suc 0) al c = Inr t" "\<forall>n. t = Some n \<longrightarrow> 0 < n \<and> n \<le> c" using chunk_length_spec [OF al] by blast
          have adm: "admitted x n A M (update_prefill_budget 0 n 0 (A\<lparr>can_run_list := can_run_list A @ [x], new_chunked_req := Some x\<rparr>))
              (M\<lparr>m_store := (m_store M)(x := cut_chunk 0 n ?r)\<rparr>)" if "t = Some n" for n
            using that t(2) c page room by (auto simp: admitted_def update_budget_one intro!: exI [of _ 0])
          show ?thesis
            using False op eos fit mn(1) page pre c t(1) keep adm by (cases t) (auto simp: add_one_req_def Let_def total_def)
        qed
      qed
    qed
  qed
qed

section \<open>The loop over the waiting queue\<close>

definition waiting_ok :: "mem \<Rightarrow> ref \<Rightarrow> bool" where
  "waiting_ok M x \<longleftrightarrow>
     (let r = m_store M x
      in req_pool_idx r = None \<and> \<not> kv_committed_freed r \<and> \<not> kv_overallocated_freed r \<and> 0 < seqlen r \<and>
         seqlen r \<le> max_context_len (m_pool M) \<and> capped r)"

abbreviation "first_round r \<equiv> init_next_round_input (Some chunk_match_prefix) r"

lemma first_round_fields [simp]:
  "fill_ids (first_round r) = origin_input_ids r @ output_ids r" "prefix_indices (first_round r) = []"
  "extend_input_len (first_round r) = int (seqlen r)" "req_pool_idx (first_round r) = req_pool_idx r"
  "kv_committed_freed (first_round r) = kv_committed_freed r" "kv_overallocated_freed (first_round r) = kv_overallocated_freed r"
  "sampling_params (first_round r) = sampling_params r" "kv_same r (first_round r)"
  by (simp_all add: init_next_round_input_def chunk_match_prefix_def set_extend_input_len_def Let_def seqlen_def kv_same_def)

lemma cut_chunk_fields [simp]:
  "fill_ids (cut_chunk p n r) = take_int (fill_ids r) (int p + n)" "prefix_indices (cut_chunk p n r) = prefix_indices r"
  "extend_input_len (cut_chunk p n r) = n" "req_pool_idx (cut_chunk p n r) = req_pool_idx r"
  "kv_committed_freed (cut_chunk p n r) = kv_committed_freed r" "kv_overallocated_freed (cut_chunk p n r) = kv_overallocated_freed r"
  "sampling_params (cut_chunk p n r) = sampling_params r" "is_chunked (cut_chunk p n r) = is_chunked r"
  "kv_committed_len (cut_chunk p n r) = kv_committed_len r" "kv_same r (cut_chunk p n r)"
  by (simp_all add: cut_chunk_def set_extend_input_len_def Let_def kv_same_def)

text \<open>What the adder has promised so far, measured in the memory \<open>M0\<close> the pass started with.\<close>

definition adder_fits :: "ref list \<Rightarrow> mem \<Rightarrow> prefill_adder \<Rightarrow> mem \<Rightarrow> bool" where
  "adder_fits live M0 A M \<longleftrightarrow>
     m_pool M = m_pool M0 \<and> m_alloc M = m_alloc M0 \<and> pa_page_size A = 1 \<and> distinct (can_run_list A) \<and>
     (\<forall>x \<in> set (can_run_list A). extend_ok live M x) \<and> (\<forall>x. kv_same (m_store M0 x) (m_store M x)) \<and>
     int (sum_list (ext_lens (m_store M) (can_run_list A))) \<le> pa_cur_rem_offset A \<and>
     real_of_int (pa_cur_rem_offset A) \<le> pa_rem_total_offset A \<and>
     (can_run_list A \<noteq> [] \<longrightarrow> pa_cur_rem_offset A \<le> int (available_size (m_alloc M0))) \<and>
     length (filter (\<lambda>x. x \<notin> set live) (can_run_list A)) \<le> length (free_slots (m_pool M0)) \<and>
     length (filter (\<lambda>x. x \<in> set live) (can_run_list A)) \<le> 1"

lemma extend_ok_other: "y \<noteq> x \<Longrightarrow> extend_ok live (M\<lparr>m_store := (m_store M)(x := r)\<rparr>) y = extend_ok live M y"
  by (simp add: extend_ok_def Let_def owned_def row_of_def)

lemma extend_ok_first:
  assumes "waiting_ok M x" "x \<notin> set live"
  shows "extend_ok live (M\<lparr>m_store := (m_store M)(x := first_round (m_store M x))\<rparr>) x"
    and "0 < n \<Longrightarrow> n \<le> int (seqlen (m_store M x)) \<Longrightarrow>
      extend_ok live (M\<lparr>m_store := (m_store M)(x := cut_chunk 0 n (first_round (m_store M x)))\<rparr>) x"
  using assms by (auto simp: extend_ok_def waiting_ok_def Let_def seqlen_def take_int_def)

lemma adder_fits_first_round:
  assumes "adder_fits live M0 A M" "x \<notin> set (can_run_list A)"
  shows "adder_fits live M0 A (M\<lparr>m_store := (m_store M)(x := first_round (m_store M x))\<rparr>)"
proof -
  let ?N = "M\<lparr>m_store := (m_store M)(x := first_round (m_store M x))\<rparr>"
  have "ext_lens (m_store ?N) (can_run_list A) = ext_lens (m_store M) (can_run_list A)" using assms(2) by (auto simp: ext_lens_def)
  moreover have "\<forall>y \<in> set (can_run_list A). extend_ok live ?N y"
  proof
    fix y assume y: "y \<in> set (can_run_list A)"
    then have "y \<noteq> x" "extend_ok live M y" using assms by (auto simp: adder_fits_def)
    then show "extend_ok live ?N y" by (simp add: extend_ok_other)
  qed
  moreover have "kv_same (m_store M0 y) (m_store ?N y)" for y
    using assms(1) first_round_fields(8) by (auto simp: adder_fits_def kv_same_def)
  ultimately show ?thesis using assms(1) by (simp add: adder_fits_def)
qed

lemma adder_fits_admitted:
  assumes fits: "adder_fits live M0 A M" and adm: "admitted x n A M A' M'" and new: "x \<notin> set (can_run_list A)"
    and ok: "extend_ok live M' x" and pre: "prefix_indices (m_store M x) = []" and l: "x \<notin> set live"
    and rows: "length (can_run_list A) < length (free_slots (m_pool M0))"
  shows "adder_fits live M0 A' M'"
proof -
  have can: "can_run_list A' = can_run_list A @ [x]" using adm by (simp add: admitted_def)
  have oth: "m_store M' y = m_store M y" if "y \<noteq> x" for y using adm that by (auto simp: admitted_def)
  have pool: "m_pool M' = m_pool M" "m_alloc M' = m_alloc M" using adm by (auto simp: admitted_def)
  have e: "extend_input_len (m_store M' x) = n" "prefix_indices (m_store M' x) = []" using adm pre by (auto simp: admitted_def)
  then have len: "int (length (fill_ids (m_store M' x))) = n" using ok by (auto simp: extend_ok_def Let_def)
  have same: "m_store M' y = m_store M y" if "y \<in> set (can_run_list A)" for y by (rule oth) (use new that in auto)
  have "ext_lens (m_store M') (can_run_list A) = ext_lens (m_store M) (can_run_list A)" using same by (simp add: ext_lens_def)
  moreover have "ext_lens (m_store M') [x] = [nat n]" using len e(2) by (simp add: ext_lens_def flip: len)
  moreover have "ext_lens (m_store M') (can_run_list A @ [x]) = ext_lens (m_store M') (can_run_list A) @ ext_lens (m_store M') [x]"
    by (simp add: ext_lens_def)
  moreover have "0 < n" using adm by (simp add: admitted_def)
  ultimately have sum: "int (sum_list (ext_lens (m_store M') (can_run_list A'))) = int (sum_list (ext_lens (m_store M) (can_run_list A))) + n"
    unfolding can by simp
  have cur: "pa_cur_rem_offset A' = pa_cur_rem_offset A + n" using adm by (simp add: admitted_def)
  have oks: "\<forall>y \<in> set (can_run_list A'). extend_ok live M' y"
  proof
    fix y assume y: "y \<in> set (can_run_list A')"
    show "extend_ok live M' y"
    proof (cases "y = x")
      case False
      then have "y \<in> set (can_run_list A)" using y can by simp
      then have "extend_ok live M y" using fits by (simp add: adder_fits_def)
      moreover have "owned M' y = owned M y" using oth [OF False] pool by (simp add: owned_def row_of_def)
      ultimately show ?thesis unfolding extend_ok_def oth [OF False] pool by (auto simp: Let_def)
    qed (use ok in simp)
  qed
  have kv: "\<forall>y. kv_same (m_store M0 y) (m_store M' y)"
  proof
    fix y
    have "kv_same (m_store M0 y) (m_store M y)" using fits by (simp add: adder_fits_def)
    moreover have "kv_same (m_store M y) (m_store M' y)"
      using adm oth [of y] by (cases "y = x") (auto simp: admitted_def)
    ultimately show "kv_same (m_store M0 y) (m_store M' y)" by (simp add: kv_same_def)
  qed
  have off: "real_of_int (pa_cur_rem_offset A') \<le> pa_rem_total_offset A'" using fits adm by (auto simp: adder_fits_def admitted_def)
  have av: "pa_cur_rem_offset A' \<le> int (available_size (m_alloc M0))"
  proof -
    have "real_of_int n \<le> real (available_size (m_alloc M0)) - pa_rem_total_offset A" "real_of_int (pa_cur_rem_offset A) \<le> pa_rem_total_offset A"
      using fits adm by (simp_all add: adder_fits_def admitted_def rem_total_tokens_def)
    then show ?thesis unfolding cur by linarith
  qed
  have "length (filter (\<lambda>x. x \<notin> set live) (can_run_list A)) < length (free_slots (m_pool M0))"
    by (rule le_less_trans [OF length_filter_le rows])
  then have f1: "length (filter (\<lambda>x. x \<notin> set live) (can_run_list A')) \<le> length (free_slots (m_pool M0))" using can l by simp
  have f2: "length (filter (\<lambda>x. x \<in> set live) (can_run_list A')) \<le> 1" using fits can l by (simp add: adder_fits_def)
  have "m_pool M' = m_pool M0 \<and> m_alloc M' = m_alloc M0 \<and> pa_page_size A' = 1 \<and> distinct (can_run_list A')"
    using fits adm pool can new by (simp add: adder_fits_def admitted_def)
  moreover have "int (sum_list (ext_lens (m_store M') (can_run_list A'))) \<le> pa_cur_rem_offset A'"
    using fits sum cur by (simp add: adder_fits_def)
  ultimately show ?thesis unfolding adder_fits_def using oks kv off av f1 f2 by blast
qed

text \<open>The budget leaves no room for a single token.\<close>

definition blocked :: "prefill_adder \<Rightarrow> mem \<Rightarrow> bool" where
  "blocked A M \<longleftrightarrow> rem_total_tokens A (m_alloc M) < 1 \<or> (case pa_rem_chunk A of None \<Rightarrow> False | Some c \<Rightarrow> c \<le> 0)"

lemma blocked_not_admitted: "blocked A M \<Longrightarrow> \<not> admitted x n A M A' M'"
  by (auto simp: blocked_def admitted_def split: option.splits)

lemma find_place_runs:
  assumes "\<not> try_preemption C"
  shows "\<exists>go b. find_place C Q x A M = Inr (go, A\<lparr>pa_running := (pa_running A)\<lparr>b_batch_is_full := b\<rparr>\<rparr>, M) \<and>
    (go \<longrightarrow> length (can_run_list A) < length (free_slots (m_pool M)))"
proof -
  let ?full = "b_batch_is_full (pa_running A) \<or> get_num_allocatable_reqs C M (length (b_reqs (pa_running A))) \<le> int (length (can_run_list A))"
  have "find_place C Q x A M = Inr (\<not> ?full, A\<lparr>pa_running := (pa_running A)\<lparr>b_batch_is_full := ?full\<rparr>\<rparr>, M)"
    using assms by (simp only: find_place_def Let_def if_cancel) simp
  moreover have "length (can_run_list A) < length (free_slots (m_pool M))" if "\<not> ?full"
    using that by (simp add: get_num_allocatable_reqs_def rt_available_size_def min_def split: if_splits)
  ultimately show ?thesis by blast
qed

definition fill_post :: "ref list \<Rightarrow> mem \<Rightarrow> ref list \<Rightarrow> prefill_adder \<Rightarrow> mem \<Rightarrow> prefill_adder \<Rightarrow> mem \<Rightarrow> bool" where
  "fill_post live M0 xs A M A' M' \<longleftrightarrow>
     adder_fits live M0 A' M' \<and> (\<exists>ys. can_run_list A' = can_run_list A @ ys \<and> set ys \<subseteq> set xs) \<and> preempt_list A' = preempt_list A \<and>
     b_reqs (pa_running A') = b_reqs (pa_running A) \<and> (\<forall>y. y \<notin> set xs \<longrightarrow> m_store M' y = m_store M y) \<and>
     (blocked A M \<longrightarrow> new_chunked_req A' = new_chunked_req A) \<and>
     (\<forall>c. new_chunked_req A' = Some c \<longrightarrow> new_chunked_req A = Some c \<or> c \<in> set xs)"

lemma fill_post_stop:
  assumes "adder_fits live M0 A M" "x \<in> set xs" "x \<notin> set (can_run_list A)" "can_run_list A' = can_run_list A" "preempt_list A' = preempt_list A"
    and "b_reqs (pa_running A') = b_reqs (pa_running A)" "new_chunked_req A' = new_chunked_req A"
    and "pa_page_size A' = pa_page_size A" "pa_cur_rem_offset A' = pa_cur_rem_offset A" "pa_rem_total_offset A' = pa_rem_total_offset A"
    and "M' = M \<or> M' = M\<lparr>m_store := (m_store M)(x := first_round (m_store M x))\<rparr>"
  shows "fill_post live M0 xs A M A' M'"
proof -
  have "adder_fits live M0 A M'" using assms(11) adder_fits_first_round [OF assms(1,3)] assms(1) by blast
  then have "adder_fits live M0 A' M'" unfolding adder_fits_def assms(4,8,9,10) .
  then show ?thesis using assms(2,4-7,11) by (auto simp: fill_post_def)
qed

lemma fill_post_mono: "fill_post live M0 xs A M A' M' \<Longrightarrow> fill_post live M0 (x # xs) A M A' M'"
  by (auto simp: fill_post_def)

lemma fill_post_admitted:
  assumes adm: "admitted x n A2 M1 A3 M3" and post: "fill_post live M0 xs A3 M3 A' M'" and M1: "m_alloc M1 = m_alloc M" "\<forall>y. y \<noteq> x \<longrightarrow> m_store M1 y = m_store M y"
    and A2: "A2 = A\<lparr>pa_running := (pa_running A)\<lparr>b_batch_is_full := b\<rparr>\<rparr>"
  shows "fill_post live M0 (x # xs) A M A' M'"
proof -
  have a: "can_run_list A3 = can_run_list A @ [x]" "preempt_list A3 = preempt_list A" "b_reqs (pa_running A3) = b_reqs (pa_running A)"
    "new_chunked_req A3 = new_chunked_req A \<or> new_chunked_req A3 = Some x" "\<forall>y. y \<noteq> x \<longrightarrow> m_store M3 y = m_store M1 y"
    using adm by (auto simp: A2 admitted_def)
  have nb: "\<not> blocked A M" using blocked_not_admitted [of A2 M1 x n A3 M3] adm M1(1) by (auto simp: A2 blocked_def rem_total_tokens_def)
  obtain ys where p: "adder_fits live M0 A' M'" "can_run_list A' = can_run_list A3 @ ys" "set ys \<subseteq> set xs" "preempt_list A' = preempt_list A3"
    "b_reqs (pa_running A') = b_reqs (pa_running A3)" "\<forall>y. y \<notin> set xs \<longrightarrow> m_store M' y = m_store M3 y"
    "\<forall>c. new_chunked_req A' = Some c \<longrightarrow> new_chunked_req A3 = Some c \<or> c \<in> set xs"
    using post unfolding fill_post_def by blast
  have can: "can_run_list A' = can_run_list A @ (x # ys)" "set (x # ys) \<subseteq> set (x # xs)" using p(2,3) a(1) by auto
  have ch: "\<forall>c. new_chunked_req A' = Some c \<longrightarrow> new_chunked_req A = Some c \<or> c \<in> set (x # xs)"
    using p(7) a(4) by auto
  show ?thesis unfolding fill_post_def
    using p(1,4-6) a(2,3,5) M1(2) nb can ch by (intro conjI exI [of _ "x # ys"]) auto
qed

lemma waiting_ok_other: "m_store M' x = m_store M x \<Longrightarrow> m_pool M' = m_pool M \<Longrightarrow> waiting_ok M x \<Longrightarrow> waiting_ok M' x"
  by (simp add: waiting_ok_def)

lemma fill_prefill_runs:
  assumes np: "\<not> try_preemption C" and al: "align_ok (sa_truncation_align_size C)"
    and "adder_fits live M0 A M" "distinct (can_run_list A @ xs)" "set xs \<inter> set live = {}" "\<forall>x \<in> set xs. waiting_ok M x"
    and "\<forall>y \<in> set (b_reqs (pa_running A) @ can_run_list A). capped (m_store M y)"
  shows "\<exists>A' M'. fill_prefill C Q xs det A M = Inr (A', M') \<and> fill_post live M0 xs A M A' M'"
  using assms(3-)
proof (induction xs arbitrary: det A M)
  case Nil
  then show ?case by (simp add: fill_post_def)
next
  case (Cons x xs)
  have fits: "adder_fits live M0 A M" and xc: "x \<notin> set (can_run_list A)" and xl: "x \<notin> set live" and w: "waiting_ok M x" and xx: "x \<notin> set xs"
    using Cons.prems by auto
  note stop = fill_post_stop [OF fits list.set_intros(1) xc]
  show ?case
  proof (cases "sa_enable_llm42 C \<and> (det \<or> 0 < length (can_run_list A) \<and> is_deterministic (m_store M x))")
    case True
    obtain A' M' where "fill_prefill C Q xs det A M = Inr (A', M')" "fill_post live M0 xs A M A' M'"
      using Cons.IH [OF fits, of det] Cons.prems by auto
    moreover have "fill_post live M0 (x # xs) A M A M" by (rule stop) simp_all
    ultimately show ?thesis using True fill_post_mono by (cases det) auto
  next
    case iso: False
    let ?M = "M\<lparr>m_store := (m_store M)(x := first_round (m_store M x))\<rparr>"
    obtain go b where fp: "find_place C Q x A M = Inr (go, A\<lparr>pa_running := (pa_running A)\<lparr>b_batch_is_full := b\<rparr>\<rparr>, M)"
      "go \<longrightarrow> length (can_run_list A) < length (free_slots (m_pool M))" using find_place_runs [OF np] by blast
    define A2 where "A2 = A\<lparr>pa_running := (pa_running A)\<lparr>b_batch_is_full := b\<rparr>\<rparr>"
    note fp = fp(1) [folded A2_def] fp(2)
    show ?thesis
    proof (cases go)
      case False
      have "fill_prefill C Q (x # xs) det A M = Inr (A2, M)" using iso False fp(1) by auto
      moreover have "fill_post live M0 (x # xs) A M A2 M" by (rule stop) (simp_all add: A2_def)
      ultimately show ?thesis by blast
    next
      case True
      have fit2: "adder_fits live M0 A2 ?M" using adder_fits_first_round [OF fits xc] by (simp add: A2_def adder_fits_def)
      have "pa_page_size A2 = 1" "0 < extend_input_len (m_store ?M x)" using fits w by (simp_all add: A2_def adder_fits_def waiting_ok_def Let_def)
      moreover have cap: "\<forall>y \<in> set (x # b_reqs (pa_running A2) @ can_run_list A2). capped (m_store ?M y)"
        using Cons.prems(5) w by (auto simp: A2_def waiting_ok_def Let_def capped_def)
      ultimately obtain res A3 M3 where a: "add_one_req (sa_truncation_align_size C) x A2 ?M = Inr (res, A3, M3)"
        "refused A2 ?M A3 M3 \<and> res \<noteq> ADD_CONTINUE \<or> (\<exists>n. admitted x n A2 ?M A3 M3)"
        using add_one_req_runs [of A2 ?M x, OF _ _ _ _ al] by auto
      show ?thesis
      proof (cases "refused A2 ?M A3 M3 \<and> res \<noteq> ADD_CONTINUE")
        case ref: True
        then obtain ss where r: "M3 = ?M" "A3 = A2\<lparr>pa_req_states := ss\<rparr>" by (auto simp: refused_def)
        let ?A = "if res = ADD_NO_TOKEN then A3\<lparr>pa_running := (pa_running A3)\<lparr>b_batch_is_full := True\<rparr>\<rparr> else A3"
        have "fill_prefill C Q (x # xs) det A M = Inr (?A, M3)" using iso True fp(1) a(1) ref by (cases res) auto
        moreover have "fill_post live M0 (x # xs) A M ?A M3" by (rule stop) (simp_all add: r A2_def)
        ultimately show ?thesis by blast
      next
        case False
        then obtain n where adm: "admitted x n A2 ?M A3 M3" using a(2) by blast
        have ok: "extend_ok live M3 x" using adm extend_ok_first(1) [OF w xl] extend_ok_first(2) [OF w xl, of n] by (auto simp: admitted_def)
        have rows: "length (can_run_list A2) < length (free_slots (m_pool M0))" using fp(2) True fits by (simp add: A2_def adder_fits_def)
        have fit3: "adder_fits live M0 A3 M3"
          by (rule adder_fits_admitted [OF fit2 adm _ ok _ xl rows]) (use xc in \<open>simp_all add: A2_def\<close>)
        have same: "m_store M3 y = m_store M y" if "y \<noteq> x" for y using adm that by (auto simp: admitted_def)
        have pool: "m_pool M3 = m_pool M" using adm by (auto simp: admitted_def)
        have can: "can_run_list A3 = can_run_list A @ [x]" "b_reqs (pa_running A3) = b_reqs (pa_running A)" using adm by (auto simp: admitted_def A2_def)
        have post: "fill_post live M0 (x # xs) A M A' M'" if "fill_post live M0 xs A3 M3 A' M'" for A' M'
          by (rule fill_post_admitted [OF adm that _ _ A2_def]) simp_all
        show ?thesis
        proof (cases "res = ADD_CONTINUE")
          case cont: True
          have "\<forall>y \<in> set (b_reqs (pa_running A3) @ can_run_list A3). capped (m_store M3 y)"
            using cap adm by (auto simp: A2_def admitted_def capped_def split: if_splits)
          moreover have "\<forall>y \<in> set xs. waiting_ok M3 y"
            using Cons.prems(4) xx pool by (auto intro!: waiting_ok_other [OF same])
          moreover have "distinct (can_run_list A3 @ xs)" "set xs \<inter> set live = {}" using Cons.prems(2,3) can by auto
          ultimately obtain A' M' where "fill_prefill C Q xs (det \<or> (sa_enable_llm42 C \<and> x \<in> set (can_run_list A3) \<and> is_deterministic (m_store M3 x))) A3 M3 = Inr (A', M')"
            "fill_post live M0 xs A3 M3 A' M'" using Cons.IH [OF fit3] by blast
          then show ?thesis using post iso True fp(1) a(1) cont by auto
        next
          case ncont: False
          let ?A = "if res = ADD_NO_TOKEN then A3\<lparr>pa_running := (pa_running A3)\<lparr>b_batch_is_full := True\<rparr>\<rparr> else A3"
          have "fill_prefill C Q (x # xs) det A M = Inr (?A, M3)" using iso True fp(1) a(1) ncont by (cases res) auto
          moreover have "fill_post live M0 xs A3 M3 ?A M3" using fit3 by (simp add: fill_post_def adder_fits_def)
          ultimately show ?thesis using post by blast
        qed
      qed
    qed
  qed
qed

section \<open>The chunked request\<close>

definition chunk_ok :: "ref list \<Rightarrow> mem \<Rightarrow> ref \<Rightarrow> bool" where
  "chunk_ok live M x \<longleftrightarrow>
     (let r = m_store M x
      in x \<in> set live \<and> prefix_indices r = owned M x \<and> length (prefix_indices r) < seqlen r \<and> seqlen r \<le> max_context_len (m_pool M) \<and>
         0 < is_chunked r \<and> capped r)"

abbreviation "next_round r \<equiv> init_next_round_input None r"

lemma next_round_fields [simp]:
  "fill_ids (next_round r) = origin_input_ids r @ output_ids r" "prefix_indices (next_round r) = prefix_indices r"
  "extend_input_len (next_round r) = int (seqlen r) - int (length (prefix_indices r))"
  "sampling_params (next_round r) = sampling_params r" "is_chunked (next_round r) = is_chunked r" "kv_same r (next_round r)"
  by (simp_all add: init_next_round_input_def set_extend_input_len_def Let_def seqlen_def kv_same_def)

lemma add_chunked_req_runs:
  assumes page: "pa_page_size A = 1" and c: "pa_rem_chunk A = Some c" "0 < c" and tot: "1 \<le> rem_total_tokens A (m_alloc M)"
    and pos: "0 < extend_input_len (m_store M x)" and cap: "capped (m_store M x)"
  shows "\<exists>y n A'. add_chunked_req x A M =
      Inr (y, A', M\<lparr>m_store := (m_store M)(x := cut_chunk (length (prefix_indices (m_store M x))) n (m_store M x))\<rparr>) \<and>
    0 < n \<and> n \<le> extend_input_len (m_store M x) \<and> real_of_int n \<le> rem_total_tokens A (m_alloc M) \<and> n \<le> c \<and>
    can_run_list A' = can_run_list A @ [x] \<and> preempt_list A' = preempt_list A \<and> pa_running A' = pa_running A \<and> pa_page_size A' = 1 \<and>
    (\<exists>k \<ge> 0. pa_rem_total_offset A' = pa_rem_total_offset A + real_of_int (n + k)) \<and> pa_cur_rem_offset A' = pa_cur_rem_offset A + n \<and>
    new_chunked_req A' = new_chunked_req A \<and> (y = None \<or> y = Some x \<and> blocked A' M)"
proof -
  let ?r = "m_store M x" and ?t = "rem_total_tokens A (m_alloc M)"
  define m where "m = min c (py_int ?t)"
  define n where "n = min (extend_input_len ?r) m"
  have fl: "1 \<le> \<lfloor>?t\<rfloor>" "real_of_int \<lfloor>?t\<rfloor> \<le> ?t" using tot by (simp_all add: le_floor_iff)
  have py: "py_int ?t = \<lfloor>?t\<rfloor>" using tot by (simp add: py_int_def)
  have m: "0 < m" "m \<le> c" "m \<le> \<lfloor>?t\<rfloor>" using fl(1) c(2) by (simp_all add: m_def py)
  have n: "0 < n" "n \<le> m" "n \<le> extend_input_len ?r" using m(1) pos by (simp_all add: n_def)
  obtain mn where mn: "max_new ?r = Inr mn" "0 \<le> mn" using capped_max_new [OF cap] by blast
  define k where "k = (if m < extend_input_len ?r then 0 else min mn CLIP_MAX_NEW_TOKENS)"
  have k: "0 \<le> k" using mn(2) by (simp add: k_def CLIP_MAX_NEW_TOKENS_def)
  define A' where "A' = update_prefill_budget 0 n k (A\<lparr>can_run_list := can_run_list A @ [x]\<rparr>)"
  let ?y = "if m < extend_input_len ?r then Some x else None"
  have run: "add_chunked_req x A M = Inr (?y, A', M\<lparr>m_store := (m_store M)(x := cut_chunk (length (prefix_indices ?r)) n ?r)\<rparr>)"
    using m(1) mn(1) by (simp add: add_chunked_req_def c(1) Let_def m_def [symmetric] n_def [symmetric] A'_def k_def)
  have f: "pa_rem_total_offset A' = pa_rem_total_offset A + real_of_int (n + k)" "pa_cur_rem_offset A' = pa_cur_rem_offset A + n"
    "pa_rem_chunk A' = Some (c - n)" "pa_page_size A' = 1" "can_run_list A' = can_run_list A @ [x]" "preempt_list A' = preempt_list A"
    "pa_running A' = pa_running A" "new_chunked_req A' = new_chunked_req A"
    using page c(1) by (simp_all add: A'_def update_budget_one)
  have "blocked A' M" if "m < extend_input_len ?r"
  proof -
    have "n = m" "k = 0" using that by (simp_all add: n_def k_def)
    then have "n = c \<or> n = \<lfloor>?t\<rfloor>" by (auto simp: m_def py min_def)
    then show ?thesis
    proof
      assume "n = c"
      then show ?thesis by (simp add: blocked_def f)
    next
      assume "n = \<lfloor>?t\<rfloor>"
      then have "rem_total_tokens A' (m_alloc M) = ?t - real_of_int \<lfloor>?t\<rfloor>" by (simp add: rem_total_tokens_def f \<open>k = 0\<close>)
      moreover have "?t < real_of_int \<lfloor>?t\<rfloor> + 1" by (rule real_of_int_floor_add_one_gt)
      ultimately show ?thesis unfolding blocked_def by linarith
    qed
  qed
  moreover have "real_of_int n \<le> ?t" using n(2) m(3) fl(2) by linarith
  ultimately show ?thesis using run f n m(2) k
    by (intro exI [of _ ?y] exI [of _ n] exI [of _ A']) auto
qed

lemma continue_chunked_runs:
  assumes fits: "adder_fits live M A M" and can: "can_run_list A = []" and inv: "kv_inv T R live M" and chunk: "chunk_ok live M x"
    and c: "pa_rem_chunk A = Some c" "0 < c" and tot: "1 \<le> rem_total_tokens A (m_alloc M)"
  shows "\<exists>y det A' M'. continue_chunked C (Some x) A M = Inr (y, det, A', M') \<and> adder_fits live M A' M' \<and> can_run_list A' = [x] \<and>
    preempt_list A' = preempt_list A \<and> pa_running A' = pa_running A \<and> new_chunked_req A' = new_chunked_req A \<and>
    (y = None \<or> y = Some x \<and> blocked A' M') \<and> sampling_params (m_store M' x) = sampling_params (m_store M x) \<and> 0 < is_chunked (m_store M' x) \<and>
    (\<forall>z. z \<noteq> x \<longrightarrow> m_store M' z = m_store M z)"
proof -
  let ?r = "m_store M x"
  let ?N = "M\<lparr>m_store := (m_store M)(x := next_round ?r)\<rparr>"
  have live: "x \<in> set live" "prefix_indices ?r = owned M x" "length (prefix_indices ?r) < seqlen ?r" "seqlen ?r \<le> max_context_len (m_pool M)"
    "0 < is_chunked ?r" "capped ?r" using chunk [unfolded chunk_ok_def Let_def] by blast+
  have lens: "\<not> kv_committed_freed ?r" "\<not> kv_overallocated_freed ?r" using inv live(1) by (simp_all add: kv_inv_def lens_ok_def)
  have page: "pa_page_size A = 1" using fits by (simp add: adder_fits_def)
  have "0 < extend_input_len (m_store ?N x)" "capped (m_store ?N x)" "1 \<le> rem_total_tokens A (m_alloc ?N)"
    using live(3,6) tot by (simp_all add: capped_def)
  from add_chunked_req_runs [OF page c this(3) this(1,2)] obtain y n A' where
    run: "add_chunked_req x A ?N = Inr (y, A', ?N\<lparr>m_store := (m_store ?N)(x := cut_chunk (length (prefix_indices (m_store ?N x))) n (m_store ?N x))\<rparr>)"
    and n: "0 < n" "n \<le> int (seqlen ?r) - int (length (prefix_indices ?r))" "real_of_int n \<le> rem_total_tokens A (m_alloc M)"
    and A': "can_run_list A' = [x]" "preempt_list A' = preempt_list A" "pa_running A' = pa_running A" "pa_page_size A' = 1"
      "\<exists>k \<ge> 0. pa_rem_total_offset A' = pa_rem_total_offset A + real_of_int (n + k)" "pa_cur_rem_offset A' = pa_cur_rem_offset A + n"
      "new_chunked_req A' = new_chunked_req A" "y = None \<or> y = Some x \<and> blocked A' ?N"
    using can by auto
  define r' where "r' = cut_chunk (length (prefix_indices ?r)) n (next_round ?r)"
  define M' where "M' = M\<lparr>m_store := (m_store M)(x := r')\<rparr>"
  have run': "continue_chunked C (Some x) A M = Inr (y, sa_enable_llm42 C \<and> is_deterministic ?r, A', M')"
    using run by (simp add: continue_chunked_def M'_def r'_def)
  have len: "length (fill_ids r') = length (prefix_indices ?r) + nat n"
    using n(1,2) live(3) by (simp add: r'_def take_int_def seqlen_def)
  have r': "prefix_indices r' = prefix_indices ?r" "extend_input_len r' = n" "is_chunked r' = is_chunked ?r" "kv_same ?r r'"
    "sampling_params r' = sampling_params ?r"
    using kv_same_trans [OF next_round_fields(6) cut_chunk_fields(10)] by (simp_all add: r'_def)
  have own: "owned M' x = owned M x" using r'(4) by (simp add: M'_def owned_def row_of_def kv_same_def)
  have ok: "extend_ok live M' x"
    using len r' own live lens n by (auto simp: extend_ok_def Let_def M'_def kv_same_def)
  have sum: "int (sum_list (ext_lens (m_store M') (can_run_list A'))) = n" using len r'(1) n(1) by (simp add: ext_lens_def A'(1) M'_def)
  have off: "real_of_int (pa_cur_rem_offset A) \<le> pa_rem_total_offset A" "0 \<le> pa_cur_rem_offset A"
    using fits can by (auto simp: adder_fits_def ext_lens_def)
  have off': "real_of_int (pa_cur_rem_offset A') \<le> pa_rem_total_offset A'" using off A'(5,6) by auto
  have av: "pa_cur_rem_offset A' \<le> int (available_size (m_alloc M))" using n(3) off A'(6) by (simp add: rem_total_tokens_def)
  have "adder_fits live M A' M'" unfolding adder_fits_def
    using ok sum off off' av r'(4) live(1) A'(1,4,6) by (auto simp: M'_def)
  moreover have "blocked A' M' = blocked A' ?N" by (simp add: blocked_def M'_def)
  moreover have "sampling_params (m_store M' x) = sampling_params ?r" "0 < is_chunked (m_store M' x)" "\<forall>z. z \<noteq> x \<longrightarrow> m_store M' z = m_store M z"
    using r'(3,5) live(5) by (simp_all add: M'_def)
  ultimately show ?thesis using run' A'(1-3,7,8) by blast
qed

end
