(* ===== verification/Prefill_Schedule.thy ===== *)
theory Prefill_Schedule
  imports Prefill_Memory
begin

text \<open>
  The whole of \<open>_get_new_batch_prefill_raw\<close>, without preemption and without mixed chunks: it never raises, the batch it
  builds is backed by rows and slots, and every request stays in the queue or is in the batch.
\<close>

section \<open>The pieces\<close>

definition reserved :: "real \<Rightarrow> store \<Rightarrow> ref list \<Rightarrow> real" where
  "reserved ratio h xs =
     sum_list (map (\<lambda>x. real_of_int (min (the (max_new_tokens (sampling_params (h x))) - int (length (output_ids (h x)))) CLIP_MAX_NEW_TOKENS) * ratio) xs)"

text \<open>A running request is still below its token limit.\<close>

definition running_ok :: "req \<Rightarrow> bool" where
  "running_ok r \<longleftrightarrow> (case max_new_tokens (sampling_params r) of None \<Rightarrow> False | Some n \<Rightarrow> int (length (output_ids r)) \<le> n)"

lemma running_ok_capped: "running_ok r \<Longrightarrow> capped r"
  by (auto simp: running_ok_def capped_def split: option.splits)

lemma reserved_nonneg:
  assumes "\<forall>x \<in> set xs. running_ok (h x)" "0 \<le> ratio"
  shows "0 \<le> reserved ratio h xs"
  unfolding reserved_def using assms
  by (intro sum_list_nonneg) (fastforce simp: running_ok_def CLIP_MAX_NEW_TOKENS_def split: option.splits)

lemma adder_init_runs:
  assumes "\<forall>x \<in> set (b_reqs running). running_ok (h x)"
  shows "\<exists>A. adder_init page running ratio inp chunk 0 thr nsa mx delayer h = Inr A \<and> can_run_list A = [] \<and> preempt_list A = [] \<and>
    new_chunked_req A = None \<and> pa_page_size A = page \<and> pa_running A = running \<and> pa_rem_chunk A = chunk \<and> pa_cur_rem_offset A = 0 \<and>
    pa_rem_total_offset A = reserved ratio h (b_reqs running)"
proof -
  have "map_result (\<lambda>x. running_total_token_offset ratio (h x)) (b_reqs running) =
      Inr (map (\<lambda>x. real_of_int (min (the (max_new_tokens (sampling_params (h x))) - int (length (output_ids (h x)))) CLIP_MAX_NEW_TOKENS) * ratio) (b_reqs running))"
    using assms by (intro map_result_Inr_map) (auto simp: running_total_token_offset_def running_ok_def max_new_def split: option.splits)
  then show ?thesis by (simp add: adder_init_def reserved_def option.map_ident)
qed

definition policy_ok :: "sched_args \<Rightarrow> bool" where
  "policy_ok C \<longleftrightarrow> (\<exists>p. validate_and_adjust_policy (sa_schedule_policy C) = Inr p) \<and> (\<forall>xs. mset (sa_shuffle C xs) = mset xs)"

lemma calc_priority_perm:
  assumes "policy_ok C" "\<not> sa_enable_priority_scheduling C" "\<forall>x \<in> set xs. capped (h x)"
  shows "\<exists>ys. calc_priority C Q key h running xs = Inr ys \<and> mset ys = mset xs"
proof -
  obtain p where p: "validate_and_adjust_policy (sa_schedule_policy C) = Inr p" using assms(1) by (auto simp: policy_ok_def)
  have "\<not> list_ex (\<lambda>x. max_new_tokens (sampling_params (h x)) = None) xs" using assms(3) by (fastforce simp: list_ex_iff capped_def split: option.splits)
  then show ?thesis using assms(1,2) p
    by (cases p) (auto simp: calc_priority_def policy_ok_def sort_by_longest_output_def sort_by_routing_key_def Let_def)
qed

lemma note_entry_fields [simp]:
  "sd_mem (note_entry C xs S) = sd_mem S" "sd_waiting (note_entry C xs S) = sd_waiting S" "sd_running (note_entry C xs S) = sd_running S"
  "sd_chunked (note_entry C xs S) = sd_chunked S" "sd_aborts (note_entry C xs S) = sd_aborts S"
proof -
  have "sd_mem (note_entry C xs S) = sd_mem S \<and> sd_waiting (note_entry C xs S) = sd_waiting S \<and> sd_running (note_entry C xs S) = sd_running S \<and>
      sd_chunked (note_entry C xs S) = sd_chunked S \<and> sd_aborts (note_entry C xs S) = sd_aborts S"
    unfolding note_entry_def by (induction xs arbitrary: S) (auto simp: Let_def)
  then show "sd_mem (note_entry C xs S) = sd_mem S" "sd_waiting (note_entry C xs S) = sd_waiting S" "sd_running (note_entry C xs S) = sd_running S"
    "sd_chunked (note_entry C xs S) = sd_chunked S" "sd_aborts (note_entry C xs S) = sd_aborts S" by simp_all
qed

text \<open>Counting the chunk of a request changes nothing the preparation of the batch looks at.\<close>

lemma adder_fits_count:
  assumes "adder_fits live M0 A M" "c \<in> set live \<longrightarrow> 0 \<le> is_chunked (m_store M c)"
  shows "adder_fits live M0 A (M\<lparr>m_store := (m_store M)(c := (m_store M c)\<lparr>is_chunked := is_chunked (m_store M c) + 1\<rparr>)\<rparr>)"
proof -
  let ?N = "M\<lparr>m_store := (m_store M)(c := (m_store M c)\<lparr>is_chunked := is_chunked (m_store M c) + 1\<rparr>)\<rparr>"
  have own: "owned ?N x = owned M x" for x by (simp add: owned_def row_of_def)
  have "extend_ok live ?N x" if "extend_ok live M x" for x
    using that assms(2) by (cases "x = c") (auto simp: extend_ok_def own Let_def)
  moreover have "ext_lens (m_store ?N) xs = ext_lens (m_store M) xs" for xs by (auto simp: ext_lens_def)
  moreover have "kv_same (m_store M0 x) (m_store ?N x)" for x using assms(1) by (auto simp: adder_fits_def kv_same_def)
  ultimately show ?thesis using assms(1) by (simp add: adder_fits_def)
qed

lemma build_prefill_runs:
  assumes inv: "kv_inv T R live M0" and fits: "adder_fits live M0 A (sd_mem S)" and ne: "can_run_list A \<noteq> []" and pl: "preempt_list A = []"
    and ch: "new_chunked_req A \<noteq> None \<longrightarrow> sd_chunked S = None" and cnt: "\<forall>c \<in> set live. sd_chunked S = Some c \<longrightarrow> 0 < is_chunked (m_store (sd_mem S) c)"
    and new: "\<forall>c. new_chunked_req A = Some c \<longrightarrow> c \<notin> set live" and mix: "\<not> is_mixed_chunk C" and ord: "\<forall>n. program_order n (l_order L n)"
  shows "\<exists>b S'. build_prefill C L A S = Inr (Some b, S') \<and> b_reqs b = can_run_list A \<and>
    kv_inv T R (live @ filter (\<lambda>x. x \<notin> set live) (can_run_list A)) (sd_mem S') \<and> represents (sa_enable_deterministic C) (m_store (sd_mem S')) b \<and>
    sd_waiting S' = filter (\<lambda>x. x \<notin> set (can_run_list A)) (sd_waiting S) \<and> sd_running S' = sd_running S \<and>
    sd_chunked S' = (case new_chunked_req A of None \<Rightarrow> sd_chunked S | Some c \<Rightarrow> Some c)"
proof -
  let ?xs = "can_run_list A"
  define S1 where "S1 = S\<lparr>sd_waiting := filter (\<lambda>x. x \<notin> set ?xs) (sd_waiting S)\<rparr>"
  define cd where "cd = (case new_chunked_req A of None \<Rightarrow> sd_chunked S | Some c \<Rightarrow> Some c)"
  define S2 where "S2 = S1\<lparr>sd_chunked := cd\<rparr>"
  define S3 where "S3 = note_entry C ?xs (case sd_chunked S2 of None \<Rightarrow> S2 | Some c \<Rightarrow> sd_put c ((sd_req S2 c)\<lparr>is_chunked := is_chunked (sd_req S2 c) + 1\<rparr>) S2)"
  have cl: "cd = Some c \<Longrightarrow> c \<in> set live \<longrightarrow> 0 \<le> is_chunked (m_store (sd_mem S) c)" for c
    using cnt new by (fastforce simp: cd_def split: option.splits)
  have S2: "(case new_chunked_req A of None \<Rightarrow> Inr S1 | Some c \<Rightarrow> if sd_chunked S1 \<noteq> None then Inl AssertionError else Inr (S1\<lparr>sd_chunked := Some c\<rparr>)) = Inr S2"
    using ch by (auto simp: S2_def S1_def cd_def split: option.splits)
  have fits3: "adder_fits live M0 A (sd_mem S3)"
    using fits adder_fits_count [OF fits cl] by (cases cd) (simp_all add: S3_def S2_def S1_def sd_put_def sd_req_def)
  have f3: "sd_waiting S3 = sd_waiting S1" "sd_running S3 = sd_running S" "sd_chunked S3 = cd"
    by (simp_all add: S3_def S2_def S1_def sd_put_def split: option.splits)
  have inv3: "kv_inv T R live (sd_mem S3)"
    by (rule kv_inv_cong [OF inv]) (use fits3 in \<open>auto simp: adder_fits_def\<close>)
  have "int (sum_list (ext_lens (m_store (sd_mem S3)) ?xs)) \<le> int (available_size (m_alloc (sd_mem S3)))"
    using fits3 ne unfolding adder_fits_def by auto
  then have mem: "sum_list (ext_lens (m_store (sd_mem S3)) ?xs) \<le> available_size (m_alloc (sd_mem S3))" by simp
  obtain b M' where prep: "prepare_for_extend L (sa_enable_deterministic C) (sa_vocab_size C)
      (init_new (m_store (sd_mem S3)) ?xs (sa_enable_overlap C) cd) (sd_mem S3) = Inr (b, M')"
    "kv_inv T R (live @ filter (\<lambda>x. x \<notin> set live) ?xs) M'" "represents (sa_enable_deterministic C) (m_store M') b" "b_reqs b = ?xs"
    using prepare_for_extend_keeps [OF inv3 _ _ _ _ mem, of L "sa_enable_deterministic C" "sa_vocab_size C" "sa_enable_overlap C" cd] fits3 ord
    unfolding adder_fits_def by metis
  have mc: "mix_chunk C L b (sd_running S3) M' = Inr (b\<lparr>b_decoding_reqs := None\<rparr>, sd_running S3, M')" using mix by (simp add: mix_chunk_def)
  have run: "build_prefill C L A S = Inr (Some (b\<lparr>b_decoding_reqs := None\<rparr>), S3\<lparr>sd_mem := M', sd_running := sd_running S3\<rparr>)"
    unfolding build_prefill_def Let_def S1_def [symmetric] pl fold_result.simps bind_result.simps S2 S3_def [symmetric] f3(3) prep(1) prod.case mc
    using ne by simp
  have "represents (sa_enable_deterministic C) (m_store M') (b\<lparr>b_decoding_reqs := None\<rparr>)" using prep(3) by (simp add: represents_def rep_lens_def rep_logprobs_def)
  then show ?thesis using run prep(2,4) f3
    by (intro exI [of _ "b\<lparr>b_decoding_reqs := None\<rparr>"] exI [of _ "S3\<lparr>sd_mem := M', sd_running := sd_running S3\<rparr>"])
      (simp add: S1_def cd_def [symmetric])
qed

section \<open>The pass\<close>

text \<open>The state between two batches: the balance of slots and rows over the requests that hold a row, a queue of requests
  that hold none, running requests below their limits, and a chunked request whose prefix is in its row.\<close>

definition sched_ok :: "slot multiset \<Rightarrow> nat multiset \<Rightarrow> ref list \<Rightarrow> scheduler \<Rightarrow> bool" where
  "sched_ok T R live S \<longleftrightarrow>
     kv_inv T R live (sd_mem S) \<and> distinct (sd_waiting S) \<and> set (sd_waiting S) \<inter> set live = {} \<and>
     (\<forall>x \<in> set (sd_waiting S). waiting_ok (sd_mem S) x) \<and> (\<forall>x \<in> set (b_reqs (sd_running S)). running_ok (m_store (sd_mem S) x)) \<and>
     0 \<le> sd_new_token_ratio S \<and> (\<forall>x. sd_chunked S = Some x \<longrightarrow> chunk_ok live (sd_mem S) x)"

definition plain_args :: "sched_args \<Rightarrow> bool" where
  "plain_args C \<longleftrightarrow> \<not> try_preemption C \<and> \<not> is_mixed_chunk C \<and> align_ok (sa_truncation_align_size C) \<and> policy_ok C"

text \<open>Room for at least one token of the chunked request, after what is reserved for the running requests.\<close>

definition chunk_room :: "sched_args \<Rightarrow> scheduler \<Rightarrow> bool" where
  "chunk_room C S \<longleftrightarrow>
     (sd_chunked S \<noteq> None \<longrightarrow> (case chunk_size C S of None \<Rightarrow> False | Some c \<Rightarrow> 0 < c) \<and>
        1 \<le> real (available_size (m_alloc (sd_mem S))) - reserved (sd_new_token_ratio S) (m_store (sd_mem S)) (b_reqs (sd_running S)))"

lemma choose_requests_runs:
  assumes ok: "sched_ok T R live S" and args: "plain_args C" and room: "chunk_room C S"
  shows "\<exists>chunked A M. choose_requests C delayer (sd_running S) S = Inr (chunked, A, M) \<and>
    adder_fits live (sd_mem S) A M \<and> preempt_list A = [] \<and> set (can_run_list A) \<subseteq> set (sd_waiting S) \<union> set_option (sd_chunked S) \<and>
    (sd_chunked S \<noteq> None \<longrightarrow> can_run_list A \<noteq> []) \<and> (chunked = None \<or> chunked = sd_chunked S) \<and> (new_chunked_req A \<noteq> None \<longrightarrow> chunked = None) \<and>
    (\<forall>c. new_chunked_req A = Some c \<longrightarrow> c \<notin> set live) \<and> (\<forall>c. chunked = Some c \<longrightarrow> 0 < is_chunked (m_store M c)) \<and> b_reqs (pa_running A) = b_reqs (sd_running S)"
proof -
  let ?M = "sd_mem S" and ?h = "m_store (sd_mem S)" and ?run = "b_reqs (sd_running S)"
  have inv: "kv_inv T R live ?M" and dis: "distinct (sd_waiting S)" "set (sd_waiting S) \<inter> set live = {}" and w: "\<forall>x \<in> set (sd_waiting S). waiting_ok ?M x"
    and run: "\<forall>x \<in> set ?run. running_ok (?h x)" and ratio: "0 \<le> sd_new_token_ratio S" and chunk: "\<And>x. sd_chunked S = Some x \<Longrightarrow> chunk_ok live ?M x"
    using ok by (simp_all add: sched_ok_def)
  have np: "\<not> try_preemption C" and mix: "\<not> is_mixed_chunk C" and al: "align_ok (sa_truncation_align_size C)"
    using args by (simp_all add: plain_args_def)
  define waiting where "waiting = sd_waiting S"
  have wset: "set waiting = set (sd_waiting S)" "distinct waiting" using dis(1) by (simp_all add: waiting_def)
  have page: "page_size (m_alloc ?M) = 1" using inv by (simp add: kv_inv_def slots_balanced_def)
  obtain A0 where A0: "adder_init (page_size (m_alloc ?M)) (sd_running S) (sd_new_token_ratio S) (sa_max_prefill_tokens C)
      (chunk_size C S) 0 (sa_preemption_threshold C) (sa_nsa_split C) (sa_prefill_max_requests C) delayer ?h = Inr A0"
    "can_run_list A0 = []" "preempt_list A0 = []" "new_chunked_req A0 = None" "pa_page_size A0 = 1" "pa_running A0 = sd_running S"
    "pa_rem_chunk A0 = chunk_size C S" "pa_cur_rem_offset A0 = 0" "pa_rem_total_offset A0 = reserved (sd_new_token_ratio S) ?h ?run"
    using adder_init_runs [OF run] page by metis
  have fits0: "adder_fits live ?M A0 ?M"
    using A0(2,5,8,9) reserved_nonneg [OF run ratio] by (simp add: adder_fits_def ext_lens_def)
  have capr: "\<forall>y \<in> set ?run. capped (?h y)" using run running_ok_capped by blast
  have fin: ?thesis
    if c: "continue_chunked C (sd_chunked S) A0 ?M = Inr (ch, det, A1, M1)" and fits1: "adder_fits live ?M A1 M1"
      and can1: "can_run_list A1 = (case sd_chunked S of None \<Rightarrow> [] | Some x \<Rightarrow> [x])"
      and A1: "preempt_list A1 = []" "b_reqs (pa_running A1) = ?run" "new_chunked_req A1 = None"
      and ch: "ch = None \<or> ch = sd_chunked S \<and> blocked A1 M1"
      and sp: "\<forall>x. sampling_params (m_store M1 x) = sampling_params (?h x)" and oth: "\<forall>z. sd_chunked S \<noteq> Some z \<longrightarrow> m_store M1 z = ?h z"
      and cnt: "\<forall>x. sd_chunked S = Some x \<longrightarrow> 0 < is_chunked (m_store M1 x)" for ch det A1 M1
  proof -
    have nl: "sd_chunked S = Some x \<Longrightarrow> x \<in> set live" for x using chunk by (auto simp: chunk_ok_def Let_def)
    have nw: "x \<in> set waiting \<Longrightarrow> sd_chunked S \<noteq> Some x" for x using nl wset dis by auto
    have pool: "m_pool M1 = m_pool ?M" using fits1 by (simp add: adder_fits_def)
    have d: "distinct (can_run_list A1 @ waiting)" using wset nw can1 by (auto split: option.splits)
    have w1: "\<forall>x \<in> set waiting. waiting_ok M1 x" using w wset nw oth pool by (auto intro!: waiting_ok_other [of M1 _ ?M])
    have cap1: "\<forall>y \<in> set (b_reqs (pa_running A1) @ can_run_list A1). capped (m_store M1 y)"
      using capr chunk can1 A1(2) sp by (auto simp: capped_def chunk_ok_def Let_def split: option.splits)
    have "set waiting \<inter> set live = {}" using wset dis by simp
    from fill_prefill_runs [OF np al fits1 d this w1 cap1] obtain A M where
      f: "fill_prefill C (sd_arrival S) waiting det A1 M1 = Inr (A, M)" "fill_post live ?M waiting A1 M1 A M" by blast
    have run': "choose_requests C delayer (sd_running S) S = Inr (ch, A, M)" using A0(1) c f(1) mix by (simp add: choose_requests_def waiting_def)
    obtain ys where p: "adder_fits live ?M A M" "can_run_list A = can_run_list A1 @ ys" "set ys \<subseteq> set waiting" "preempt_list A = []"
      "b_reqs (pa_running A) = ?run" "\<forall>y. y \<notin> set waiting \<longrightarrow> m_store M y = m_store M1 y" "blocked A1 M1 \<longrightarrow> new_chunked_req A = None"
      "\<forall>c. new_chunked_req A = Some c \<longrightarrow> c \<in> set waiting"
      using f(2) A1 unfolding fill_post_def by auto
    have s1: "set (can_run_list A) \<subseteq> set (sd_waiting S) \<union> set_option (sd_chunked S)" "sd_chunked S \<noteq> None \<longrightarrow> can_run_list A \<noteq> []"
      using p(2,3) can1 wset by (auto split: option.splits)
    have s2: "ch = None \<or> ch = sd_chunked S" "new_chunked_req A \<noteq> None \<longrightarrow> ch = None" using ch p(7) by auto
    have s3: "\<forall>c. new_chunked_req A = Some c \<longrightarrow> c \<notin> set live" using p(8) wset dis by auto
    have s4: "\<forall>c. ch = Some c \<longrightarrow> 0 < is_chunked (m_store M c)"
    proof (intro allI impI)
      fix c assume "ch = Some c"
      then have "sd_chunked S = Some c" using ch by auto
      moreover then have "c \<notin> set waiting" using nw by blast
      ultimately show "0 < is_chunked (m_store M c)" using cnt p(6) by simp
    qed
    show ?thesis by (intro exI conjI, rule run') (use p(1,4,5) s1 s2 s3 s4 in blast)+
  qed
  show ?thesis
  proof (cases "sd_chunked S")
    case None
    show ?thesis by (rule fin [of None False A0 ?M]) (use None A0 fits0 in \<open>simp_all add: continue_chunked_def\<close>)
  next
    case (Some x)
    then obtain c where c: "chunk_size C S = Some c" "0 < c" "1 \<le> rem_total_tokens A0 (m_alloc ?M)"
      using room A0(9) by (auto simp: chunk_room_def rem_total_tokens_def split: option.splits)
    from continue_chunked_runs [OF fits0 A0(2) inv chunk [OF Some], of c C] obtain y det A1 M1 where
      r: "continue_chunked C (Some x) A0 ?M = Inr (y, det, A1, M1)" "adder_fits live ?M A1 M1" "can_run_list A1 = [x]"
      "preempt_list A1 = preempt_list A0" "pa_running A1 = pa_running A0" "new_chunked_req A1 = new_chunked_req A0"
      "y = None \<or> y = Some x \<and> blocked A1 M1" "sampling_params (m_store M1 x) = sampling_params (?h x)" "0 < is_chunked (m_store M1 x)"
      "\<forall>z. z \<noteq> x \<longrightarrow> m_store M1 z = ?h z"
      using c A0(7) by auto
    have "\<forall>z. sampling_params (m_store M1 z) = sampling_params (?h z)" using r(8,10) by metis
    then show ?thesis by (intro fin [of y det A1 M1]) (use Some A0 r in auto)
  qed
qed

text \<open>Whatever the requests chosen are, the batch built from them is backed by memory and no request is lost.\<close>

definition prefill_done :: "slot multiset \<Rightarrow> nat multiset \<Rightarrow> ref list \<Rightarrow> bool \<Rightarrow> scheduler \<Rightarrow> schedule_batch option \<Rightarrow> scheduler \<Rightarrow> bool" where
  "prefill_done T R live ed S b S' \<longleftrightarrow>
    (case b of
       None \<Rightarrow> kv_inv T R live (sd_mem S') \<and> mset (sd_waiting S') = mset (sd_waiting S) \<and> sd_chunked S' = sd_chunked S
     | Some b' \<Rightarrow>
         kv_inv T R (live @ filter (\<lambda>x. x \<notin> set live) (b_reqs b')) (sd_mem S') \<and> represents ed (m_store (sd_mem S')) b' \<and>
         b_reqs b' \<noteq> [] \<and> distinct (b_reqs b') \<and> set (b_reqs b') \<subseteq> set (sd_waiting S) \<union> set_option (sd_chunked S) \<and>
         mset (sd_waiting S') = filter_mset (\<lambda>x. x \<notin> set (b_reqs b')) (mset (sd_waiting S)))"

lemma chosen_batch_runs:
  assumes ok: "sched_ok T R live S" and args: "plain_args C" and room: "chunk_room C S" and ord: "\<forall>n. program_order n (l_order L n)"
  shows "\<exists>chunked A M b S'. choose_requests C delayer (sd_running S) S = Inr (chunked, A, M) \<and>
    build_prefill C L A (S\<lparr>sd_mem := M, sd_running := pa_running A, sd_chunked := chunked\<rparr>) = Inr (b, S') \<and>
    prefill_done T R live (sa_enable_deterministic C) S b S'"
proof -
  have inv: "kv_inv T R live (sd_mem S)" and mix: "\<not> is_mixed_chunk C" using ok args by (simp_all add: sched_ok_def plain_args_def)
  obtain chunked A M where c: "choose_requests C delayer (sd_running S) S = Inr (chunked, A, M)"
    "adder_fits live (sd_mem S) A M" "preempt_list A = []" "set (can_run_list A) \<subseteq> set (sd_waiting S) \<union> set_option (sd_chunked S)"
    "sd_chunked S \<noteq> None \<longrightarrow> can_run_list A \<noteq> []" "chunked = None \<or> chunked = sd_chunked S" "new_chunked_req A \<noteq> None \<longrightarrow> chunked = None"
    "\<forall>c. new_chunked_req A = Some c \<longrightarrow> c \<notin> set live" "\<forall>c. chunked = Some c \<longrightarrow> 0 < is_chunked (m_store M c)"
    using choose_requests_runs [OF ok args room] by metis
  define S1 where "S1 = S\<lparr>sd_mem := M, sd_running := pa_running A, sd_chunked := chunked\<rparr>"
  have "\<exists>b S'. build_prefill C L A S1 = Inr (b, S') \<and> prefill_done T R live (sa_enable_deterministic C) S b S'"
  proof (cases "can_run_list A = []")
    case True
    have "kv_inv T R live M" by (rule kv_inv_cong [OF inv]) (use c(2) in \<open>auto simp: adder_fits_def\<close>)
    then show ?thesis using True c(5,6) by (auto simp: build_prefill_def prefill_done_def S1_def)
  next
    case ne: False
    obtain b S' where b: "build_prefill C L A S1 = Inr (Some b, S')" "b_reqs b = can_run_list A"
      "kv_inv T R (live @ filter (\<lambda>x. x \<notin> set live) (can_run_list A)) (sd_mem S')" "represents (sa_enable_deterministic C) (m_store (sd_mem S')) b"
      "sd_waiting S' = filter (\<lambda>x. x \<notin> set (can_run_list A)) (sd_waiting S)"
      using build_prefill_runs [OF inv _ ne c(3) _ _ c(8) mix ord, of S1] c(2,7,9) by (auto simp: S1_def)
    have "distinct (b_reqs b)" using c(2) b(2) by (simp add: adder_fits_def)
    then show ?thesis using b c(4) ne by (intro exI [of _ "Some b"] exI [of _ S']) (simp add: prefill_done_def)
  qed
  then show ?thesis using c(1) unfolding S1_def by blast
qed

lemma get_new_batch_prefill_runs:
  assumes ok: "sched_ok T R live S" and args: "plain_args C" and room: "chunk_room C S" and ord: "\<forall>n. program_order n (l_order L n)"
  shows "\<exists>b S'. get_new_batch_prefill C L key delayer S = Inr (b, S') \<and> prefill_done T R live (sa_enable_deterministic C) S b S'"
proof -
  have np: "\<not> try_preemption C" and inv: "kv_inv T R live (sd_mem S)" using args ok by (simp_all add: plain_args_def sched_ok_def)
  have "\<forall>x \<in> set (sd_waiting S). capped (m_store (sd_mem S) x)" using ok by (simp add: sched_ok_def waiting_ok_def Let_def)
  then obtain waiting where cp: "calc_priority C (sd_arrival S) key (m_store (sd_mem S)) (b_reqs (sd_running S)) (sd_waiting S) = Inr waiting"
    "mset waiting = mset (sd_waiting S)"
    using calc_priority_perm args np unfolding plain_args_def try_preemption_def by metis
  let ?S = "S\<lparr>sd_waiting := waiting, sd_running := sd_running S\<rparr>"
  have ws: "set waiting = set (sd_waiting S)" "distinct waiting = distinct (sd_waiting S)"
    using cp(2) mset_eq_setD mset_eq_imp_distinct_iff by blast+
  have "chunk_size C ?S = chunk_size C S" by (simp add: chunk_size_def sd_req_def cong: option.case_cong)
  then have "chunk_room C ?S" using room by (simp add: chunk_room_def)
  moreover have "sched_ok T R live ?S" using ok unfolding sched_ok_def by (simp add: ws)
  ultimately obtain chunked A M b S' where c: "choose_requests C delayer (sd_running S) ?S = Inr (chunked, A, M)"
    "build_prefill C L A (?S\<lparr>sd_mem := M, sd_running := pa_running A, sd_chunked := chunked\<rparr>) = Inr (b, S')"
    "prefill_done T R live (sa_enable_deterministic C) ?S b S'"
    using chosen_batch_runs [OF _ args _ ord, of T R live ?S delayer] by auto
  have d: "prefill_done T R live (sa_enable_deterministic C) S b S'" using c(3) by (simp add: prefill_done_def cp(2) ws cong: option.case_cong)
  show ?thesis
  proof (cases "((b_batch_is_full (sd_running S) \<or> length (sd_waiting S) = 0) \<and> sd_chunked S = None) \<or>
      get_num_allocatable_reqs C (sd_mem S) (length (b_reqs (sd_running S))) \<le> 0 \<and> sd_chunked S \<noteq> None \<or>
      sa_test_retract C \<and> sa_test_retract_no_prefill_bs C < length (b_reqs (sd_running S))")
    case True
    then show ?thesis using np inv cp by (auto simp: get_new_batch_prefill_def prefill_done_def Let_def)
  next
    case False
    then have "get_new_batch_prefill C L key delayer S =
        build_prefill C L A (?S\<lparr>sd_mem := M, sd_running := pa_running A, sd_chunked := chunked\<rparr>)"
      using np cp(1) c(1) by (auto simp: get_new_batch_prefill_def Let_def)
    then show ?thesis using c(2) d by auto
  qed
qed

section \<open>Properties\<close>

text \<open>A queue of two requests of three tokens each, the one with reference \<open>1\<close> deterministic, in front of an empty machine.\<close>

definition iso_sched :: "ref list \<Rightarrow> scheduler" where
  "iso_sched = waiting_sched 30 (\<lambda>x. (prompt_req 3)\<lparr>is_deterministic := (x = 1)\<rparr>)"

lemma iso_sched_ok:
  assumes "distinct xs"
  shows "sched_ok (avail_slots (token_init 30 False)) (mset [0..<4]) [] (iso_sched xs)"
proof -
  let ?a = "token_init 30 False" and ?M = "sd_mem (iso_sched xs)"
  have f: "m_alloc ?M = ?a" "m_pool ?M = rt_init 4 16" by (simp_all add: iso_sched_def waiting_sched_def)
  have ok: "allocator_ok ?a" by (rule token_init_ok)
  have a: "page_size ?a = 1" "is_not_in_free_group ?a" by (simp_all add: token_init_def token_clear_def init_base_def)
  have av: "avail_slots ?a = mset (free_pages ?a @ release_pages ?a)" using a(1) by (simp add: avail_slots_def)
  have d: "distinct (free_pages ?a @ release_pages ?a)" "\<forall>p \<in> set (free_pages ?a @ release_pages ?a). 1 \<le> p \<and> p \<le> int (num_pages ?a)"
    using ok a(2) by (simp_all add: allocator_ok_def held_pages_def)
  have one: "count (mset xs) z \<le> 1" if "distinct xs" for xs :: "'z list" and z
    using that by (simp add: distinct_count_atmost_1)
  have "slots_balanced (avail_slots ?a) [] ?M"
    using ok a d(2) one [OF d(1)] unfolding slots_balanced_def f by (simp add: av pending_slots_def)
  moreover have "rows_balanced (mset [0..<4]) [] ?M"
    using one [of "[0..<4]"] unfolding rows_balanced_def f by (simp add: rt_init_def)
  ultimately have "kv_inv (avail_slots ?a) (mset [0..<4]) [] ?M" by (simp add: kv_inv_def)
  then show ?thesis using assms
    by (simp add: sched_ok_def iso_sched_def waiting_sched_def waiting_ok_def prompt_req_def init_req_def seqlen_def rt_init_def capped_def new_batch_def)
qed

lemma iso_sched_args: "plain_args example_args" "chunk_room example_args (iso_sched xs)" "\<forall>n. program_order n (l_order kv_launch n)"
proof -
  have "validate_and_adjust_policy (sa_schedule_policy example_args) = Inr FCFS" by code_simp
  then show "plain_args example_args" by (auto simp: plain_args_def try_preemption_def is_mixed_chunk_def align_ok_def policy_ok_def example_args_def)
  show "chunk_room example_args (iso_sched xs)" by (simp add: chunk_room_def iso_sched_def waiting_sched_def)
  show "\<forall>n. program_order n (l_order kv_launch n)" by (auto simp: program_order_def kv_launch_def)
qed

lemma iso_sched_choice:
  "(case choose_requests example_args None (sd_running (iso_sched [1, 0])) (iso_sched [1, 0]) of
      Inr (_, A, _) \<Rightarrow> can_run_list A = [1] | Inl _ \<Rightarrow> False)"
  by code_simp

lemma iso_sched_run:
  "\<exists>b S'. get_new_batch_prefill example_args kv_launch (\<lambda>_. None) None (iso_sched [1, 0]) = Inr (Some b, S') \<and> b_reqs b = [1]"
proof -
  let ?S = "iso_sched [1, 0]"
  obtain c A M where ch: "choose_requests example_args None (sd_running ?S) ?S = Inr (c, A, M)" "can_run_list A = [1]"
    using iso_sched_choice by (auto split: sum.splits)
  have g: "get_new_batch_prefill example_args kv_launch (\<lambda>_. None) None ?S =
      build_prefill example_args kv_launch A (?S\<lparr>sd_mem := M, sd_running := pa_running A, sd_chunked := c\<rparr>)"
  proof -
    have "calc_priority example_args (sd_arrival ?S) (\<lambda>_. None) (m_store (sd_mem ?S)) (b_reqs (sd_running ?S)) (sd_waiting ?S) = Inr (sd_waiting ?S)"
      by (simp add: calc_priority_def validate_and_adjust_policy_def example_args_def)
    moreover have "?S\<lparr>sd_waiting := sd_waiting ?S, sd_running := sd_running ?S\<rparr> = ?S" by simp
    moreover have "\<not> try_preemption example_args" "\<not> sa_test_retract example_args" "sd_chunked ?S = None" "sd_waiting ?S \<noteq> []"
      "\<not> b_batch_is_full (sd_running ?S)"
      by (simp_all add: try_preemption_def example_args_def iso_sched_def waiting_sched_def new_batch_def)
    ultimately show ?thesis using ch(1) by (simp add: get_new_batch_prefill_def Let_def)
  qed
  have "distinct [1, 0 :: ref]" by simp
  from get_new_batch_prefill_runs [OF iso_sched_ok [OF this] iso_sched_args] obtain b S' where
    r: "get_new_batch_prefill example_args kv_launch (\<lambda>_. None) None ?S = Inr (b, S')" by blast
  have "b \<noteq> None"
  proof
    assume "b = None"
    then have "can_run_list A = []" using build_prefill_None [OF trans [OF g [symmetric] r [unfolded \<open>b = None\<close>]]] by blast
    then show False using ch(2) by simp
  qed
  then obtain b' where b': "b = Some b'" by blast
  then have "build_prefill example_args kv_launch A (?S\<lparr>sd_mem := M, sd_running := pa_running A, sd_chunked := c\<rparr>) = Inr (Some b', S')"
    using r g by simp
  then have "b_reqs b' = [1]" using build_prefill_reqs iso_sched_args(1) ch(2) by (fastforce simp: plain_args_def)
  then show ?thesis using r b' by blast
qed

text \<open>C7. With LLM-42 enabled and without mixed chunks, a prefill batch that holds a deterministic request holds no other request, whatever the
  waiting queue, the policy, the budgets, preemptions and the chunked request are.\<close>

theorem deterministic_prefill_isolated:
  assumes "get_new_batch_prefill C L key delayer S = Inr (Some b, S')" "sa_enable_llm42 C" "\<not> is_mixed_chunk C"
    and "x \<in> set (b_reqs b)" "is_deterministic (m_store (sd_mem S) x)"
  shows "b_reqs b = [x]"
  by (rule prefill_isolated [OF assms])

theorem deterministic_prefill_isolated_witness:
  "\<exists>b S'. get_new_batch_prefill example_args kv_launch (\<lambda>_. None) None (iso_sched [1, 0]) = Inr (Some b, S') \<and> b_reqs b = [1]"
proof -
  obtain b S' where r: "get_new_batch_prefill example_args kv_launch (\<lambda>_. None) None (iso_sched [1, 0]) = Inr (Some b, S')" "b_reqs b = [1]"
    using iso_sched_run by blast
  have a: "sa_enable_llm42 example_args" "\<not> is_mixed_chunk example_args" by (simp_all add: example_args_def is_mixed_chunk_def)
  have "is_deterministic (m_store (sd_mem (iso_sched [1, 0])) 1)" by (simp add: iso_sched_def waiting_sched_def)
  then have "b_reqs b = [1]" using deterministic_prefill_isolated [OF r(1) a, of 1] r(2) by simp
  then show ?thesis using r(1) by blast
qed

text \<open>C8. Without preemption and without mixed chunks, with single-token pages, a valid policy and a positive chunk
  alignment, building the next prefill batch never raises and never runs out of memory: the batch gets rows and slots
  without sharing, the arrays of the batch represent its requests, and every waiting request is either in the batch or
  still in the queue.  Before the pass every waiting request holds no row, has at least one token, fits into a row and has a token
  limit that is not negative; the running requests have not exceeded their limits; the chunked request, if there is
  one, has its prefix in its row, a limit that is not negative, a positive chunk size and room for one token beside what is
  reserved for the running requests.\<close>

theorem prefill_scheduling_safe:
  assumes "sched_ok T R live S" "plain_args C" "chunk_room C S" "\<forall>n. program_order n (l_order L n)"
  shows "\<exists>b S'. get_new_batch_prefill C L key delayer S = Inr (b, S') \<and>
    (case b of
       None \<Rightarrow> kv_inv T R live (sd_mem S') \<and> mset (sd_waiting S') = mset (sd_waiting S) \<and> sd_chunked S' = sd_chunked S
     | Some b' \<Rightarrow>
         kv_inv T R (live @ filter (\<lambda>x. x \<notin> set live) (b_reqs b')) (sd_mem S') \<and> represents (sa_enable_deterministic C) (m_store (sd_mem S')) b' \<and>
         b_reqs b' \<noteq> [] \<and> distinct (b_reqs b') \<and> set (b_reqs b') \<subseteq> set (sd_waiting S) \<union> set_option (sd_chunked S) \<and>
         mset (sd_waiting S') = filter_mset (\<lambda>x. x \<notin> set (b_reqs b')) (mset (sd_waiting S)))"
  using get_new_batch_prefill_runs [OF assms] unfolding prefill_done_def .

theorem prefill_scheduling_safe_witness:
  "\<exists>b S'. get_new_batch_prefill example_args kv_launch (\<lambda>_. None) None (iso_sched [1, 0]) = Inr (Some b, S') \<and>
     kv_inv (avail_slots (token_init 30 False)) (mset [0..<4]) [1] (sd_mem S') \<and> mset (sd_waiting S') = {#0#}"
proof -
  have "distinct [1, 0 :: ref]" by simp
  from prefill_scheduling_safe [OF iso_sched_ok [OF this] iso_sched_args, of "\<lambda>_. None" None] iso_sched_run
  show ?thesis by (fastforce simp: iso_sched_def waiting_sched_def)
qed

end
