(* ===== verification/Decode_Schedule.thy ===== *)
theory Decode_Schedule
  imports Prefill_Schedule
begin

text \<open>
  \<open>update_running_batch\<close>: the running batch drops its finished requests, retracts others when the memory does not
  suffice, and takes a slot for the next token of each.
\<close>

text \<open>A batch after its results were processed: it still lists finished requests, which have given their rows back; for
  the others its arrays are right.\<close>

definition represents_unfinished :: "bool \<Rightarrow> store \<Rightarrow> schedule_batch \<Rightarrow> bool" where
  "represents_unfinished ed h b \<longleftrightarrow> (\<exists>h0. represents ed h0 b \<and> (\<forall>x \<in> set (b_reqs b). \<not> finished (h x) \<longrightarrow> h0 x = h x))"

abbreviation unfinished :: "store \<Rightarrow> ref list \<Rightarrow> ref list" where
  "unfinished h xs \<equiv> filter (\<lambda>x. \<not> finished (h x)) xs"

lemma kept_unfinished: "map ((!) xs) (kept_indices h xs []) = unfinished h xs"
  using kept_indices_reqs [of xs h "[]"] by simp

lemma filter_batch_unfinished:
  assumes "represents_unfinished ed h b"
  shows "\<exists>d. filter_batch h [] None b = Inr d \<and> b_reqs d = unfinished h (b_reqs b) \<and> (b_reqs d \<noteq> [] \<longrightarrow> represents ed h d)"
proof -
  let ?keep = "kept_indices h (b_reqs b) []"
  obtain h0 where h0: "represents ed h0 b" "\<forall>x \<in> set (b_reqs b). \<not> finished (h x) \<longrightarrow> h0 x = h x"
    using assms by (auto simp: represents_unfinished_def)
  have len: "length ?keep = length (unfinished h (b_reqs b))" using arg_cong [OF kept_unfinished, of length "b_reqs b" h] by simp
  have f: "filter_batch h [] None b = filter_batch h [] (Some ?keep) b" by (simp add: filter_batch_def)
  consider "length ?keep = 0" | "length ?keep = length (b_reqs b)" "length ?keep \<noteq> 0" | "0 < length ?keep" "length ?keep \<noteq> length (b_reqs b)" by blast
  then show ?thesis
  proof cases
    case 1
    then have "unfinished h (b_reqs b) = []" using len by simp
    then show ?thesis using 1 by (simp add: filter_batch_def)
  next
    case 2
    then have all: "unfinished h (b_reqs b) = b_reqs b" using len length_filter_less by (metis filter_True less_irrefl)
    then have "\<forall>x \<in> set (b_reqs b). h x = h0 x" using h0(2) by (metis filter_id_conv)
    then have "represents ed h b" by (rule represents_store [OF h0(1)])
    moreover have "filter_batch h [] None b = Inr b" unfolding filter_batch_def Let_def option.case using 2 by simp
    ultimately show ?thesis using all by simp
  next
    case 3
    have k: "\<forall>i \<in> set ?keep. i < length (b_reqs b)" by (simp add: kept_indices_def)
    have "\<forall>i \<in> set ?keep. i < length (b_reqs b) \<and> h (b_reqs b ! i) = h0 (b_reqs b ! i)" using h0(2) by (auto simp: kept_indices_def)
    then have e: "filter_batch h [] (Some ?keep) b = filter_batch h0 [] (Some ?keep) b" by (rule filter_batch_store)
    obtain d where d: "filter_batch h0 [] (Some ?keep) b = Inr d" "b_reqs d = map ((!) (b_reqs b)) ?keep" "represents ed h0 d"
      using filter_batch_keep [OF h0(1) k 3, where ks = "Some ?keep" and exclude = "[]"] by auto
    have "b_reqs d = unfinished h (b_reqs b)" using d(2) kept_unfinished by simp
    moreover then have "\<forall>x \<in> set (b_reqs d). h x = h0 x" using h0(2) by simp
    then have "represents ed h d" by (rule represents_store [OF d(3)])
    ultimately show ?thesis using d(1) f e by simp
  qed
qed

lemma retract_req_ctx: "retract_req x M = Inr M1 \<Longrightarrow> max_context_len (m_pool M1) = max_context_len (m_pool M)"
  using release_kv_cache_shape(2) by (fastforce simp: retract_req_def)

lemma retract_loop_ctx: "retract_loop reqs first is rt M = Inr (keep, rt', M1) \<Longrightarrow> max_context_len (m_pool M1) = max_context_len (m_pool M)"
proof (induction reqs first "is" rt M rule: retract_loop.induct)
  case (3 reqs first i j "is" rt M)
  then show ?case using retract_req_ctx by (fastforce split: if_splits)
qed (auto split: if_splits)

lemma retract_decode_ctx: "retract_decode steps b M = Inr (gone, rt, b1, M1) \<Longrightarrow> max_context_len (m_pool M1) = max_context_len (m_pool M)"
  by (auto simp: retract_decode_def Let_def split: if_splits dest: retract_loop_ctx)

lemma check_decode_mem_perm: "mset xs = mset ys \<Longrightarrow> check_decode_mem M xs = check_decode_mem M ys"
proof -
  assume "mset xs = mset ys"
  then have "mset (filter P xs) = mset (filter P ys)" for P by simp
  then have "length (filter P xs) = length (filter P ys)" for P using mset_eq_length by blast
  then show ?thesis by (simp add: check_decode_mem_def new_tokens_required_next_decode_def)
qed

text \<open>A batch in which a retraction is tested although the memory may suffice.\<close>

definition testing :: "sched_args \<Rightarrow> scheduler \<Rightarrow> bool" where
  "testing C S \<longleftrightarrow> sa_test_retract C \<and> sd_forward_ct S mod sa_test_retract_interval C = 0"

lemma retract_now_testing: "0 < sa_test_retract_interval C \<Longrightarrow> retract_now C ok S = Inr (\<not> ok \<or> testing C S)"
  by (auto simp: retract_now_def testing_def)

definition ratio_ok :: "sched_args \<Rightarrow> scheduler \<Rightarrow> bool" where
  "ratio_ok C S \<longleftrightarrow> 0 \<le> sa_min_new_token_ratio C \<and> sa_min_new_token_ratio C \<le> 1 \<and> 0 \<le> sa_new_token_ratio_decay C \<and> sd_new_token_ratio S \<le> 1"

text \<open>The end of the update: a slot for the next token of every request left.\<close>

lemma decode_tail_runs:
  assumes A: "kv_inv T R live (sd_mem S)" "distinct (b_reqs b)" "set (b_reqs b) \<subseteq> set live" "represents ed (m_store (sd_mem S)) b"
    "\<forall>x \<in> set (b_reqs b). kv_allocated_len (m_store (sd_mem S) x) < int (max_context_len (m_pool (sd_mem S)))" "check_decode_mem (sd_mem S) (b_reqs b)"
  shows "\<exists>b' S'. (let b2 = (if batch_size b < n then b\<lparr>b_batch_is_full := False\<rparr> else b)
      in bind_result (prepare_for_decode L b2 (sd_mem S)) (\<lambda>(b3, M3). Inr (b3, S\<lparr>sd_mem := M3\<rparr>))) = Inr (b', S') \<and>
    b_reqs b' = b_reqs b \<and> kv_inv T R live (sd_mem S') \<and> sd_waiting S' = sd_waiting S \<and> sd_new_token_ratio S' = sd_new_token_ratio S \<and>
    rep_lens b' (map (m_store (sd_mem S')) (b_reqs b')) \<and> b_out_cache_loc b' = Some (map (\<lambda>x. last (owned (sd_mem S') x)) (b_reqs b'))"
proof -
  let ?b2 = "if batch_size b < n then b\<lparr>b_batch_is_full := False\<rparr> else b"
  have b2: "b_reqs ?b2 = b_reqs b" by simp
  have rl: "rep_lens ?b2 (map (m_store (sd_mem S)) (b_reqs ?b2))" using A(4) by (simp add: represents_def rep_lens_def)
  obtain b' M' where p: "prepare_for_decode L ?b2 (sd_mem S) = Inr (b', M')" "kv_inv T R live M'" "b_reqs b' = b_reqs ?b2"
    "rep_lens b' (map (m_store M') (b_reqs ?b2))" "b_out_cache_loc b' = Some (map (\<lambda>x. last (owned M' x)) (b_reqs ?b2))"
    using prepare_for_decode_keeps [OF A(1) _ _ rl, of L] A(2,3,5,6) unfolding b2 by blast
  then show ?thesis unfolding Let_def p(1) bind_result.simps prod.case b2
    by (intro exI [of _ b'] exI [of _ "S\<lparr>sd_mem := M'\<rparr>"]) simp
qed

text \<open>The last request was retracted for lack of memory, or in a test.\<close>

lemma retracted_for_memory:
  assumes "mset us = mset kept + mset gone" "\<not> (check_decode_mem M us \<and> \<not> t)"
    and "1 < length gone \<longrightarrow> (\<exists>M0. fold_result retract_req (butlast gone) M = Inr M0 \<and> \<not> check_decode_mem M0 (kept @ [last gone]))"
  shows "gone \<noteq> [] \<longrightarrow> t \<and> length gone = 1 \<or>
    (\<exists>M0. fold_result retract_req (butlast gone) M = Inr M0 \<and> \<not> check_decode_mem M0 (kept @ [last gone]))"
proof (cases "length gone = 1 \<and> \<not> t")
  case True
  then obtain x where x: "gone = [x]" by (cases gone) auto
  then have "\<not> check_decode_mem M (kept @ [x])"
    using check_decode_mem_perm [of us "kept @ [x]" M] assms(1,2) True by simp
  then show ?thesis using x by simp
next
  case False
  then show ?thesis using assms(3) by (cases gone) auto
qed

lemma update_running_batch_runs:
  assumes inv: "kv_inv T R live (sd_mem S)" and rep: "represents_unfinished ed (m_store (sd_mem S)) b" and d: "distinct (b_reqs b)"
    and live: "set (unfinished (m_store (sd_mem S)) (b_reqs b)) \<subseteq> set live"
    and room: "\<forall>x \<in> set (unfinished (m_store (sd_mem S)) (b_reqs b)). kv_allocated_len (m_store (sd_mem S) x) < int (max_context_len (m_pool (sd_mem S)))"
    and cap: "\<forall>x \<in> set (unfinished (m_store (sd_mem S)) (b_reqs b)). capped (m_store (sd_mem S) x)"
    and q: "open_queue C" and ratio: "ratio_ok C S" and iv: "0 < sa_test_retract_interval C"
  shows "(update_running_batch C L b S = Inl ValueError \<and> (check_decode_mem (sd_mem S) (unfinished (m_store (sd_mem S)) (b_reqs b)) \<longrightarrow> testing C S) \<and>
      (\<exists>x ys M. mset (unfinished (m_store (sd_mem S)) (b_reqs b)) = {#x#} + mset ys \<and> fold_result retract_req ys (sd_mem S) = Inr M \<and>
         \<not> check_decode_mem M [x] \<and> kv_inv T R (filter (\<lambda>y. y \<notin> set ys) live) M)) \<or>
    (\<exists>gone b' S'. update_running_batch C L b S = Inr (b', S') \<and>
      mset (unfinished (m_store (sd_mem S)) (b_reqs b)) = mset (b_reqs b') + mset gone \<and> (b_reqs b' = [] \<longrightarrow> gone = []) \<and>
      (check_decode_mem (sd_mem S) (unfinished (m_store (sd_mem S)) (b_reqs b)) \<and> \<not> testing C S \<longrightarrow> gone = []) \<and>
      (gone \<noteq> [] \<longrightarrow> testing C S \<and> length gone = 1 \<or>
         (\<exists>M. fold_result retract_req (butlast gone) (sd_mem S) = Inr M \<and> \<not> check_decode_mem M (b_reqs b' @ [last gone]))) \<and>
      kv_inv T R (filter (\<lambda>x. x \<notin> set gone) live) (sd_mem S') \<and> sd_waiting S' = sd_waiting S @ gone \<and>
      (b_reqs b' \<noteq> [] \<longrightarrow> rep_lens b' (map (m_store (sd_mem S')) (b_reqs b')) \<and> 
         b_out_cache_loc b' = Some (map (\<lambda>x. last (owned (sd_mem S') x)) (b_reqs b')) \<and> 0 \<le> sd_new_token_ratio S' \<and> sd_new_token_ratio S' \<le> 1))"
proof -
  let ?M = "sd_mem S"
  let ?u = "unfinished (m_store ?M) (b_reqs b)"
  obtain b1 where b1: "filter_batch (m_store ?M) [] None b = Inr b1" "b_reqs b1 = ?u" "b_reqs b1 \<noteq> [] \<longrightarrow> represents ed (m_store ?M) b1"
    using filter_batch_unfinished [OF rep] by blast
  show ?thesis
  proof (cases "?u = []")
    case True
    then have "update_running_batch C L b S = Inr (b1\<lparr>b_batch_is_full := False\<rparr>, S)" using b1(1,2) by (simp add: update_running_batch_def is_empty_def)
    then show ?thesis using True inv b1(2) by (intro disjI2 exI [of _ "[]"]) simp
  next
    case ne: False
    have r1: "represents ed (m_store ?M) b1" "b_reqs b1 \<noteq> []" "is_empty b1 = False" using b1(2,3) ne by (simp_all add: is_empty_def)
    have d1: "distinct (b_reqs b1)" "set (b_reqs b1) \<subseteq> set live" using d live b1(2) by simp_all
    note now = retract_now_testing [OF iv, of "check_decode_mem ?M (b_reqs b1)" S]
    show ?thesis
    proof (cases "check_decode_mem ?M (b_reqs b1) \<and> \<not> testing C S")
      case True
      let ?S1 = "S\<lparr>sd_new_token_ratio := max (sd_new_token_ratio S - sa_new_token_ratio_decay C) (sa_min_new_token_ratio C)\<rparr>"
      obtain b' S' where p: "(let b2 = (if batch_size b1 < batch_size b then b1\<lparr>b_batch_is_full := False\<rparr> else b1)
          in bind_result (prepare_for_decode L b2 (sd_mem ?S1)) (\<lambda>(b3, M3). Inr (b3, ?S1\<lparr>sd_mem := M3\<rparr>))) = Inr (b', S')"
        "b_reqs b' = b_reqs b1" "kv_inv T R live (sd_mem S')" "sd_waiting S' = sd_waiting ?S1" "sd_new_token_ratio S' = sd_new_token_ratio ?S1"
        "rep_lens b' (map (m_store (sd_mem S')) (b_reqs b'))" "b_out_cache_loc b' = Some (map (\<lambda>x. last (owned (sd_mem S') x)) (b_reqs b'))"
        using decode_tail_runs [of T R live ?S1 b1 ed "batch_size b" L] inv d1 r1(1) room True b1(2) by auto
      have "update_running_batch C L b S = Inr (b', S')"
        unfolding update_running_batch_def b1(1) bind_result.simps r1(3) if_False now
        using True p(1) by simp
      then show ?thesis using p b1(2) ratio ne by (intro disjI2 exI [of _ "[]"] exI [of _ b'] exI [of _ S']) (auto simp: ratio_ok_def)
    next
      case False
      have mx: "\<forall>x \<in> set (b_reqs b1). \<exists>n \<ge> 0. max_new_tokens (sampling_params (m_store ?M x)) = Some n"
        using cap b1(2) by (fastforce simp: capped_def split: option.splits)
      from retract_decode_spec [OF inv d1 r1(2,1) mx, of "sa_retract_decode_steps C"] show ?thesis
      proof
        assume e: "retract_decode (sa_retract_decode_steps C) b1 ?M = Inl ValueError \<and>
          (\<exists>x ys M1. mset (b_reqs b1) = {#x#} + mset ys \<and> fold_result retract_req ys ?M = Inr M1 \<and> \<not> check_decode_mem M1 [x] \<and>
             kv_inv T R (filter (\<lambda>y. y \<notin> set ys) live) M1)"
        then have "update_running_batch C L b S = Inl ValueError"
          unfolding update_running_batch_def b1(1) bind_result.simps r1(3) if_False now using False by auto
        then show ?thesis using e b1(2) False by auto
      next
        assume "\<exists>gone ratio b2 M1. retract_decode (sa_retract_decode_steps C) b1 ?M = Inr (gone, ratio, b2, M1) \<and> fold_result retract_req gone ?M = Inr M1 \<and>
          (1 < length gone \<longrightarrow> (\<exists>M0. fold_result retract_req (butlast gone) ?M = Inr M0 \<and> \<not> check_decode_mem M0 (b_reqs b2 @ [last gone]))) \<and>
          mset (b_reqs b1) = mset (b_reqs b2) + mset gone \<and> b_reqs b2 \<noteq> [] \<and> (1 < length (b_reqs b1) \<longrightarrow> gone \<noteq> []) \<and>
          check_decode_mem M1 (b_reqs b2) \<and> represents ed (m_store M1) b2 \<and>
          kv_inv T R (filter (\<lambda>x. x \<notin> set gone) live) M1 \<and> (\<forall>y. y \<notin> set gone \<longrightarrow> m_store M1 y = m_store ?M y) \<and> 0 \<le> ratio \<and> ratio \<le> 1"
        then obtain gone rt b2 M1 where g: "retract_decode (sa_retract_decode_steps C) b1 ?M = Inr (gone, rt, b2, M1)"
          "mset (b_reqs b1) = mset (b_reqs b2) + mset gone" "b_reqs b2 \<noteq> []" "check_decode_mem M1 (b_reqs b2)" "represents ed (m_store M1) b2"
          "kv_inv T R (filter (\<lambda>x. x \<notin> set gone) live) M1" "\<forall>y. y \<notin> set gone \<longrightarrow> m_store M1 y = m_store ?M y" "0 \<le> rt" "rt \<le> 1"
          and g2: "1 < length gone \<longrightarrow> (\<exists>M0. fold_result retract_req (butlast gone) ?M = Inr M0 \<and> \<not> check_decode_mem M0 (b_reqs b2 @ [last gone]))" by blast
        have lazy: "gone \<noteq> [] \<longrightarrow> testing C S \<and> length gone = 1 \<or>
            (\<exists>M. fold_result retract_req (butlast gone) ?M = Inr M \<and> \<not> check_decode_mem M (b_reqs b2 @ [last gone]))"
          by (rule retracted_for_memory [OF g(2) False g2])
        obtain S1 where S1: "fold_result (add_request_to_queue C) gone (S\<lparr>sd_mem := M1, sd_new_token_ratio := rt\<rparr>) = Inr S1" "sd_waiting S1 = sd_waiting S @ gone"
          "sd_mem S1 = M1" "sd_new_token_ratio S1 = rt" using add_requests_open [OF q, of gone "S\<lparr>sd_mem := M1, sd_new_token_ratio := rt\<rparr>"] by auto
        have ds: "distinct (b_reqs b2 @ gone)"
          using d1(1) g(2) mset_eq_imp_distinct_iff [of "b_reqs b1" "b_reqs b2 @ gone"] by simp
        have sub: "set (b_reqs b2) \<subseteq> set (b_reqs b1)" using mset_eq_setD [of "b_reqs b1" "b_reqs b2 @ gone"] g(2) by simp
        have lv: "set (b_reqs b2) \<subseteq> set (filter (\<lambda>x. x \<notin> set gone) live)" using sub d1(2) ds by auto
        have rm: "\<forall>x \<in> set (b_reqs b2). kv_allocated_len (m_store M1 x) < int (max_context_len (m_pool M1))"
        proof
          fix x assume x: "x \<in> set (b_reqs b2)"
          then have "x \<notin> set gone" "x \<in> set ?u" using ds sub b1(2) by auto
          then show "kv_allocated_len (m_store M1 x) < int (max_context_len (m_pool M1))"
            using room g(7) retract_decode_ctx [OF g(1)] by metis
        qed
        obtain b' S' where p: "(let b3 = (if batch_size b2 < batch_size b then b2\<lparr>b_batch_is_full := False\<rparr> else b2)
            in bind_result (prepare_for_decode L b3 (sd_mem S1)) (\<lambda>(b3, M3). Inr (b3, S1\<lparr>sd_mem := M3\<rparr>))) = Inr (b', S')"
          "b_reqs b' = b_reqs b2" "kv_inv T R (filter (\<lambda>x. x \<notin> set gone) live) (sd_mem S')" "sd_waiting S' = sd_waiting S1" "sd_new_token_ratio S' = sd_new_token_ratio S1"
          "rep_lens b' (map (m_store (sd_mem S')) (b_reqs b'))" "b_out_cache_loc b' = Some (map (\<lambda>x. last (owned (sd_mem S') x)) (b_reqs b'))"
          using decode_tail_runs [of T R "filter (\<lambda>x. x \<notin> set gone) live" S1 b2 ed "batch_size b" L] g(4-6) ds lv rm S1(3) by auto
        have "update_running_batch C L b S = Inr (b', S')"
          unfolding update_running_batch_def b1(1) bind_result.simps r1(3) if_False now
          using False g(1) S1(1) p(1) by auto
        then show ?thesis using p S1(2,4) g(2,3,8,9) b1(2) False lazy
          by (intro disjI2 exI [of _ gone] exI [of _ b'] exI [of _ S']) auto
      qed
    qed
  qed
qed

section \<open>Properties\<close>

text \<open>C9. Updating the running batch drops exactly the finished requests, retracts requests to the waiting queue only as far as the
  memory demands, and prepares the rest for its next token, with one slot at the end of each row; slots and rows stay
  balanced and the estimate of new tokens stays a ratio.  If the memory suffices nothing is retracted, and otherwise the
  last request retracted was one for which, together with those kept, the memory was still too small; a batch in
  which the retraction is tested (\<open>TEST_RETRACT\<close>, with a positive interval) may retract one request more.  \<open>ValueError\<close> is
  raised only if one request alone has not enough memory after all the others were retracted.  The queue takes every
  request back (no priority scheduling and no queue limit), pages are single tokens, every request
  has a token limit that is not negative and room for one more token in its row.\<close>

theorem decode_scheduling_safe:
  assumes "kv_inv T R live (sd_mem S)" and "represents_unfinished ed (m_store (sd_mem S)) b" and "distinct (b_reqs b)"
    and "set (unfinished (m_store (sd_mem S)) (b_reqs b)) \<subseteq> set live"
    and "\<forall>x \<in> set (unfinished (m_store (sd_mem S)) (b_reqs b)). kv_allocated_len (m_store (sd_mem S) x) < int (max_context_len (m_pool (sd_mem S)))"
    and "\<forall>x \<in> set (unfinished (m_store (sd_mem S)) (b_reqs b)). capped (m_store (sd_mem S) x)"
    and "open_queue C" and "ratio_ok C S" and "0 < sa_test_retract_interval C"
  shows "(update_running_batch C L b S = Inl ValueError \<and> (check_decode_mem (sd_mem S) (unfinished (m_store (sd_mem S)) (b_reqs b)) \<longrightarrow> testing C S) \<and>
      (\<exists>x ys M. mset (unfinished (m_store (sd_mem S)) (b_reqs b)) = {#x#} + mset ys \<and> fold_result retract_req ys (sd_mem S) = Inr M \<and>
         \<not> check_decode_mem M [x] \<and> kv_inv T R (filter (\<lambda>y. y \<notin> set ys) live) M)) \<or>
    (\<exists>gone b' S'. update_running_batch C L b S = Inr (b', S') \<and>
      mset (unfinished (m_store (sd_mem S)) (b_reqs b)) = mset (b_reqs b') + mset gone \<and> (b_reqs b' = [] \<longrightarrow> gone = []) \<and>
      (check_decode_mem (sd_mem S) (unfinished (m_store (sd_mem S)) (b_reqs b)) \<and> \<not> testing C S \<longrightarrow> gone = []) \<and>
      (gone \<noteq> [] \<longrightarrow> testing C S \<and> length gone = 1 \<or>
         (\<exists>M. fold_result retract_req (butlast gone) (sd_mem S) = Inr M \<and> \<not> check_decode_mem M (b_reqs b' @ [last gone]))) \<and>
      kv_inv T R (filter (\<lambda>x. x \<notin> set gone) live) (sd_mem S') \<and> sd_waiting S' = sd_waiting S @ gone \<and>
      (b_reqs b' \<noteq> [] \<longrightarrow> rep_lens b' (map (m_store (sd_mem S')) (b_reqs b')) \<and> 
         b_out_cache_loc b' = Some (map (\<lambda>x. last (owned (sd_mem S') x)) (b_reqs b')) \<and> 0 \<le> sd_new_token_ratio S' \<and> sd_new_token_ratio S' \<le> 1))"
  by (rule update_running_batch_runs [OF assms])

definition decode_sched :: scheduler where
  "decode_sched = (waiting_sched 12 (m_store (two_mem [5])) [])\<lparr>sd_mem := two_mem [5]\<rparr>"

theorem decode_scheduling_safe_witness:
  "\<exists>b' S'. update_running_batch example_args kv_launch (example_batch [0, 1] (m_store (two_mem [5]))) decode_sched = Inr (b', S') \<and>
     b_reqs b' = [1] \<and> sd_waiting S' = [0] \<and> kv_inv (mset [5, 1, 2, 3, 4]) (mset [2, 3, 0, 1]) [1] (sd_mem S') \<and>
     rep_lens b' (map (m_store (sd_mem S')) [1])"
proof -
  let ?M = "two_mem [5]" and ?S = decode_sched
  let ?b = "example_batch [0, 1] (m_store ?M)"
  have mem: "sd_mem ?S = ?M" by (simp add: decode_sched_def)
  have rq: "b_reqs ?b = [0, 1]" by (rule two_mem_batch(2))
  have fin: "\<not> finished (m_store ?M x)" for x by (simp add: two_mem_def finished_def example_req_def init_req_def)
  have u: "unfinished (m_store ?M) (b_reqs ?b) = [0, 1]" unfolding rq by (simp add: fin)
  have inv: "kv_inv (mset [5, 1, 2, 3, 4]) (mset [2, 3, 0, 1]) [0, 1] ?M" using two_mem_inv [of "[5]"] by simp
  have rep: "represents_unfinished False (m_store ?M) ?b" using two_mem_batch(1) [of "[5]"] by (auto simp: represents_unfinished_def)
  have d: "distinct (b_reqs ?b)" "set (unfinished (m_store ?M) (b_reqs ?b)) \<subseteq> set [0, 1]" unfolding u rq by simp_all
  have room: "\<forall>x \<in> set (unfinished (m_store ?M) (b_reqs ?b)). kv_allocated_len (m_store ?M x) < int (max_context_len (m_pool ?M))"
    by (simp add: two_mem_def rt_write_def rt_init_def)
  have "max_new_tokens (sampling_params example_req) = Some 128" by code_simp
  then have cap: "\<forall>x \<in> set (unfinished (m_store ?M) (b_reqs ?b)). capped (m_store ?M x)" by (simp add: two_mem_def capped_def)
  have args: "open_queue example_args" "ratio_ok example_args ?S" "0 < sa_test_retract_interval example_args" by (simp_all add: open_queue_def ratio_ok_def example_args_def decode_sched_def waiting_sched_def)
  have "(case update_running_batch example_args kv_launch ?b ?S of Inr (b', S') \<Rightarrow> sd_waiting S' = [0] | Inl _ \<Rightarrow> False)" by code_simp
  then obtain b' S' where run: "update_running_batch example_args kv_launch ?b ?S = Inr (b', S')" "sd_waiting S' = [0]" by (auto split: sum.splits prod.splits)
  from decode_scheduling_safe [where S = decode_sched and b = ?b, unfolded mem, OF inv rep d room cap args, of kv_launch]
  obtain gone where g: "mset [0, 1] = mset (b_reqs b') + mset gone" "kv_inv (mset [5, 1, 2, 3, 4]) (mset [2, 3, 0, 1]) (filter (\<lambda>x. x \<notin> set gone) [0, 1]) (sd_mem S')"
    "sd_waiting S' = sd_waiting ?S @ gone" "b_reqs b' \<noteq> [] \<longrightarrow> rep_lens b' (map (m_store (sd_mem S')) (b_reqs b'))"
    unfolding run(1) u by (auto simp only: sum.inject sum.distinct prod.inject simp_thms)
  have "gone = [0]" using g(3) run(2) by (simp add: decode_sched_def waiting_sched_def)
  moreover then have "mset (b_reqs b') = {#1#}" using g(1) by simp
  then have "b_reqs b' = [1]" by simp
  ultimately show ?thesis using run g(2,4) by auto
qed

end
