(* ===== verification/Scheduling_Faults.thy ===== *)
theory Scheduling_Faults
  imports Prefill_Schedule
begin

text \<open>
  Where scheduling does not keep its promises: situations the comments of the source exclude or do not consider, each
  with the conditions under which it happens and a state that meets them.
\<close>

section \<open>The chunked request\<close>

text \<open>A chunked request holds the last row, and nothing runs.\<close>

definition row_starved :: "ref \<Rightarrow> scheduler \<Rightarrow> bool" where
  "row_starved x S \<longleftrightarrow>
     sd_chunked S = Some x \<and> req_pool_idx (sd_req S x) \<noteq> None \<and> free_slots (m_pool (sd_mem S)) = [] \<and> b_reqs (sd_running S) = [] \<and> sd_last S = None"

text \<open>C35. The guard that should let a chunked request pass stops exactly the chunked request: when no row is free and nothing
  runs, the scheduler returns no batch and stays in this situation, although the chunked request needs no new row.\<close>

theorem chunked_request_starves:
  assumes "row_starved x S" "\<not> try_preemption C" "sa_waiting_timeout C \<le> 0" "sa_running_timeout C \<le> 0"
  shows "\<exists>S'. get_next_batch_to_run C L key delayer S = Inr (None, S') \<and> row_starved x S' \<and> sd_waiting S' = sd_waiting S"
proof -
  obtain i where i: "req_pool_idx (sd_req S x) = Some i" using assms(1) by (auto simp: row_starved_def)
  define r where "r = (sd_req S x)\<lparr>prefix_indices := rt_slice (m_pool (sd_mem S)) i 0 (length (fill_ids (sd_req S x)))\<rparr>"
  have st: "stash_chunked_request (abort_on_running_timeout C (abort_on_waiting_timeout C S)) = Inr (sd_put x r S)"
    using assms i by (simp add: stash_chunked_request_def row_starved_def abort_on_running_timeout_def abort_on_waiting_timeout_def chunk_cache_unfinished_req_def r_def)
  have starved: "row_starved x (sd_put x r S\<lparr>sd_running := (sd_running S)\<lparr>b_batch_is_full := True\<rparr>\<rparr>)"
    using assms(1) by (simp add: row_starved_def sd_put_def sd_req_def r_def)
  have m: "merge_last_batch (sd_put x r S) = Inr (sd_put x r S)" using assms(1) by (simp add: merge_last_batch_def row_starved_def sd_put_def)
  have g: "get_new_batch_prefill C L key delayer (sd_put x r S) = Inr (None, sd_put x r S\<lparr>sd_running := (sd_running S)\<lparr>b_batch_is_full := True\<rparr>\<rparr>)"
    using assms(1,2) by (simp add: get_new_batch_prefill_def row_starved_def sd_put_def get_num_allocatable_reqs_def rt_available_size_def)
  have e: "is_empty (sd_running (sd_put x r S\<lparr>sd_running := (sd_running S)\<lparr>b_batch_is_full := True\<rparr>\<rparr>))"
    using assms(1) by (simp add: is_empty_def row_starved_def)
  have "get_next_batch_to_run C L key delayer S = Inr (None, sd_put x r S\<lparr>sd_running := (sd_running S)\<lparr>b_batch_is_full := True\<rparr>\<rparr>)"
    unfolding get_next_batch_to_run_def st bind_result.simps m g prod.case option.case using e by simp
  then show ?thesis using starved by (auto simp: sd_put_def)
qed

definition starved_sched :: scheduler where
  "starved_sched =
     (waiting_sched 30 (\<lambda>_. (prompt_req 9)\<lparr>req_pool_idx := Some 0, fill_ids := [1, 2, 3], kv_committed_len := 3, kv_allocated_len := 3\<rparr>) [])
     \<lparr>sd_chunked := Some 0, sd_mem := \<lparr>m_store = (\<lambda>_. (prompt_req 9)\<lparr>req_pool_idx := Some 0, fill_ids := [1, 2, 3], kv_committed_len := 3, kv_allocated_len := 3\<rparr>),
        m_pool = (rt_write (rt_init 1 16) 0 0 [1, 2, 3])\<lparr>free_slots := []\<rparr>, m_alloc = (token_init 30 False)\<lparr>free_pages := map int [4..<31]\<rparr>\<rparr>\<rparr>"

theorem chunked_request_starves_witness:
  "row_starved 0 starved_sched \<and>
   (\<exists>S'. get_next_batch_to_run example_args kv_launch (\<lambda>_. None) None starved_sched = Inr (None, S') \<and> row_starved 0 S')"
proof -
  have s: "row_starved 0 starved_sched"
    by (simp add: row_starved_def starved_sched_def waiting_sched_def sd_req_def new_batch_def rt_init_def rt_write_def)
  have "\<not> try_preemption example_args" "sa_waiting_timeout example_args \<le> 0" "sa_running_timeout example_args \<le> 0"
    by (simp_all add: try_preemption_def example_args_def)
  from chunked_request_starves [OF s this, of kv_launch "\<lambda>_. None" None] s show ?thesis by blast
qed

text \<open>C37. \<open>add_one_req_ignore_eos\<close> does not ask whether the batch has a chunked request already.  Let \<open>y\<close> be a request of the
  batch with a part of its prompt, remembered as the new chunked request, and let some of the chunk budget be left, as
  the alignment of chunks leaves it.  A request \<open>x\<close> that ignores the end-of-sequence token, is longer than this rest and
  passes the memory checks is then cut as well and overwrites \<open>new_chunked_req\<close>: both requests are in the batch with a part of their
  prompts, and only \<open>x\<close> is remembered as unfinished.  (The batch has no limit on its number of requests, and the attention does not split
  batches.)\<close>

theorem second_chunk_overwrites_first:
  assumes "new_chunked_req A = Some y" "y \<in> set (can_run_list A)" "x \<noteq> y" "length (fill_ids (m_store M y)) < seqlen (m_store M y)"
    and "ignore_eos (sampling_params (m_store M x))" "extend_input_len (m_store M x) \<le> int (seqlen (m_store M x))"
    and "pa_rem_chunk A = Some c" "0 < c" "c < extend_input_len (m_store M x)" "\<not> pa_nsa_split A" "prefill_max_requests A = None"
    and "real_of_int (ceil_paged_tokens (pa_page_size A) (extend_input_len (m_store M x))) \<le>
      min (real_of_int (cur_rem_tokens A (m_alloc M))) (rem_total_tokens A (m_alloc M))"
    and "update_req_states x A (m_store M) = Inr ss"
      "states_fit (cur_rem_tokens A (m_alloc M) - ceil_paged_tokens (pa_page_size A) (extend_input_len (m_store M x))) 0 ss"
  shows "\<exists>res A' M'. add_one_req align x A M = Inr (res, A', M') \<and> can_run_list A' = can_run_list A @ [x] \<and> new_chunked_req A' = Some x \<and>
    length (fill_ids (m_store M' x)) < seqlen (m_store M' x) \<and> y \<in> set (can_run_list A') \<and> length (fill_ids (m_store M' y)) < seqlen (m_store M' y)"
proof -
  let ?r = "m_store M x"
  have len: "length (fill_ids (cut_chunk 0 c ?r)) \<le> nat c"
    using assms(8) by (simp add: cut_chunk_def set_extend_input_len_def take_int_def py_clip_def Let_def)
  have sl: "seqlen (cut_chunk 0 c ?r) = seqlen ?r" by (simp add: cut_chunk_def set_extend_input_len_def seqlen_def Let_def)
  have "nat c < seqlen ?r" using assms(6,8,9) by linarith
  then show ?thesis
    using assms len sl by (simp add: add_one_req_def add_one_req_ignore_eos_def Let_def min_less_iff_disj not_less)
qed

text \<open>Requests of four and of two tokens, the second ignoring the end-of-sequence token, with a chunk budget of three tokens and chunks
  aligned to two: the first chunk leaves one token of the budget.\<close>

definition two_chunks :: scheduler where
  "two_chunks = waiting_sched 30 (\<lambda>x. init_next_round_input (Some chunk_match_prefix) (if x = 0 then prompt_req 4
     else (prompt_req 2)\<lparr>sampling_params := (sampling_params (prompt_req 2))\<lparr>ignore_eos := True\<rparr>\<rparr>)) [0, 1]"

definition two_chunks_adder :: "(add_req_result \<times> prefill_adder \<times> mem) result" where
  "two_chunks_adder =
     bind_result (adder_init 1 (new_batch [] False) (1 / 2) 64 (Some 3) 0 0 False None None (m_store (sd_mem two_chunks))) (\<lambda>A.
       add_one_req (Some 2) 0 A (sd_mem two_chunks))"

lemma two_chunks_state:
  "(case two_chunks_adder of Inl _ \<Rightarrow> False
    | Inr (res, A, M) \<Rightarrow>
        res = ADD_CONTINUE \<and> new_chunked_req A = Some 0 \<and> can_run_list A = [0] \<and> length (fill_ids (m_store M 0)) < seqlen (m_store M 0) \<and>
        ignore_eos (sampling_params (m_store M 1)) \<and> extend_input_len (m_store M 1) = 2 \<and> seqlen (m_store M 1) = 2 \<and> pa_rem_chunk A = Some 1 \<and>
        \<not> pa_nsa_split A \<and> prefill_max_requests A = None \<and> pa_page_size A = 1 \<and> cur_rem_tokens A (m_alloc M) = 28 \<and> rem_total_tokens A (m_alloc M) = 28 \<and>
        (case update_req_states 1 A (m_store M) of Inl _ \<Rightarrow> False | Inr ss \<Rightarrow> states_fit 26 0 ss))"
  by code_simp

theorem second_chunk_overwrites_first_witness:
  "\<exists>A M res A' M'. two_chunks_adder = Inr (ADD_CONTINUE, A, M) \<and> add_one_req (Some 2) 1 A M = Inr (res, A', M') \<and>
     can_run_list A' = [0, 1] \<and> new_chunked_req A' = Some 1 \<and> length (fill_ids (m_store M' 0)) < seqlen (m_store M' 0)"
proof -
  obtain res A M where r: "two_chunks_adder = Inr (res, A, M)" using two_chunks_state by (auto split: sum.splits)
  have res: "res = ADD_CONTINUE" and a: "new_chunked_req A = Some 0" "can_run_list A = [0]" "length (fill_ids (m_store M 0)) < seqlen (m_store M 0)"
      "ignore_eos (sampling_params (m_store M 1))" "extend_input_len (m_store M 1) = 2" "seqlen (m_store M 1) = 2" "pa_rem_chunk A = Some 1"
      "\<not> pa_nsa_split A" "prefill_max_requests A = None" "pa_page_size A = 1" "cur_rem_tokens A (m_alloc M) = 28" "rem_total_tokens A (m_alloc M) = 28"
    and st: "(case update_req_states 1 A (m_store M) of Inl _ \<Rightarrow> False | Inr ss \<Rightarrow> states_fit 26 0 ss)"
    using two_chunks_state unfolding r sum.case prod.case by blast+
  obtain ss where ss: "update_req_states 1 A (m_store M) = Inr ss" "states_fit 26 0 ss"
    using st by (cases "update_req_states 1 A (m_store M)") auto
  have c: "ceil_paged_tokens (pa_page_size A) (extend_input_len (m_store M 1)) = 2" using a by (simp add: ceil_paged_tokens_def)
  have "\<exists>res A' M'. add_one_req (Some 2) 1 A M = Inr (res, A', M') \<and> can_run_list A' = can_run_list A @ [1] \<and> new_chunked_req A' = Some 1 \<and>
    length (fill_ids (m_store M' 1)) < seqlen (m_store M' 1) \<and> 0 \<in> set (can_run_list A') \<and> length (fill_ids (m_store M' 0)) < seqlen (m_store M' 0)"
    by (rule second_chunk_overwrites_first [where c = 1 and ss = ss]) (use a c ss in simp_all)
  then show ?thesis using r res a(2) by fastforce
qed

section \<open>Preempted requests\<close>

text \<open>A request of the running batch \<open>rs\<close> that was preempted is unfinished and has left the running batch.\<close>

definition preempt_inv :: "ref list \<Rightarrow> prefill_adder \<Rightarrow> mem \<Rightarrow> bool" where
  "preempt_inv rs A M \<longleftrightarrow>
     set (b_reqs (pa_running A)) \<subseteq> set rs \<and> set (preempt_list A) \<subseteq> set rs - set (b_reqs (pa_running A)) \<and>
     (\<forall>y \<in> set (preempt_list A). \<not> finished (m_store M y))"

lemma preempt_inv_keeps:
  assumes "preempt_inv rs A M" "b_reqs (pa_running A') = b_reqs (pa_running A)" "preempt_list A' = preempt_list A" "same_flags M M'"
  shows "preempt_inv rs A' M'"
  using assms by (simp add: preempt_inv_def same_flags_def finished_def)

lemma preempt_select_sub:
  "preempt_select ratio h diff threshold xs need chosen = Inr (chosen', need') \<Longrightarrow> set chosen' \<subseteq> set chosen \<union> set xs"
proof (induction ratio h diff threshold xs need chosen rule: preempt_select.induct)
  case (2 ratio h diff threshold x xs need chosen)
  then show ?case by (fastforce simp: Let_def split: if_splits)
qed simp

lemma preempt_release_keep:
  assumes "preempt_release ratio chosen (length pre) xs off M keep = Inr (off', M', keep')"
  shows "length keep' = length keep + length (filter (\<lambda>x. x \<notin> set chosen) xs) \<and>
    (\<forall>j \<in> set keep'. j \<in> set keep \<or> (pre @ xs) ! j \<notin> set chosen \<and> j < length (pre @ xs))"
  using assms
proof (induction xs arbitrary: pre off M keep)
  case (Cons x xs)
  show ?case
  proof (cases "x \<in> set chosen")
    case True
    then obtain off1 M1 where "preempt_release ratio chosen (length (pre @ [x])) xs off1 M1 keep = Inr (off', M', keep')"
      using Cons.prems by auto
    from Cons.IH [OF this] show ?thesis using True by simp
  next
    case False
    then have "preempt_release ratio chosen (length (pre @ [x])) xs off M (keep @ [length pre]) = Inr (off', M', keep')"
      using Cons.prems by simp
    from Cons.IH [OF this] show ?thesis using False by auto
  qed
qed simp

lemma filter_batch_some:
  assumes "filter_batch h ex (Some keep) b = Inr d" "length keep \<noteq> length (b_reqs b)"
  shows "b_reqs d = map ((!) (b_reqs b)) keep"
  using assms by (auto simp: filter_batch_def select_def Let_def split: if_splits)

lemma preempt_to_schedule_inv:
  assumes inv: "preempt_inv rs A M" and so: "\<forall>xs. set (so xs) = set xs"
    and run: "preempt_to_schedule so low Q x A M = Inr (go, A', M')"
  shows "preempt_inv rs A' M'"
proof (cases "A' = A \<and> M' = M")
  case False
  let ?reqs = "b_reqs (pa_running A)"
  obtain diff thr need chosen need' off keep b where
    sel: "preempt_select (pa_new_token_ratio A) (m_store M) diff thr
      (sort_key (\<lambda>y. (the (priority Q y) * - (if low then 1 else -1), - wait_queue_entry_time Q y))
        (filter (\<lambda>y. y \<notin> set (preempt_list A) \<and> \<not> finished (m_store M y)) ?reqs)) need [] = Inr (chosen, need')"
    and ne: "chosen \<noteq> []" and rel: "preempt_release (pa_new_token_ratio A) chosen 0 ?reqs (pa_rem_total_offset A) M [] = Inr (off, M', keep)"
    and fb: "filter_batch (m_store M') [] (Some keep) (pa_running A) = Inr b"
    and A': "A' = A\<lparr>pa_rem_total_offset := off, pa_running := b, preempt_list := preempt_list A @ so chosen\<rparr>"
    using run False unfolding preempt_to_schedule_def Let_def by (auto split: if_splits prod.splits)
  have ch: "set chosen \<subseteq> set ?reqs" "\<forall>y \<in> set chosen. \<not> finished (m_store M y)" using preempt_select_sub [OF sel] by auto
  have keep: "length keep = length (filter (\<lambda>x. x \<notin> set chosen) ?reqs)" "\<forall>j \<in> set keep. ?reqs ! j \<notin> set chosen \<and> j < length ?reqs"
    using preempt_release_keep [where pre = "[]"] rel by fastforce+
  have "length (filter (\<lambda>x. x \<notin> set chosen) ?reqs) < length ?reqs"
    using ch(1) ne by (intro length_filter_less [of "hd chosen"]) auto
  then have "b_reqs b = map ((!) ?reqs) keep" using filter_batch_some [OF fb] keep(1) by simp
  then have "set (b_reqs b) \<subseteq> set ?reqs - set chosen" using keep(2) by auto
  moreover have "same_flags M M'" using preempt_release_flags [OF rel] .
  ultimately show ?thesis using inv ch so unfolding preempt_inv_def A' by (auto simp: same_flags_def finished_def)
qed (use inv in simp)

lemma find_place_inv:
  assumes inv: "preempt_inv rs A M" and so: "\<forall>xs. set (sa_set_order C xs) = set xs" and run: "find_place C Q x A M = Inr (go, A', M')"
  shows "preempt_inv rs A' M'"
proof -
  have full: "preempt_inv rs (A\<lparr>pa_running := (pa_running A)\<lparr>b_batch_is_full := f\<rparr>\<rparr>) M" for f
    by (rule preempt_inv_keeps [OF inv]) simp_all
  show ?thesis using run full preempt_to_schedule_inv [OF full so] by (auto simp: find_place_def Let_def split: if_splits)
qed

lemma fill_prefill_inv:
  assumes "fill_prefill C Q xs det A M = Inr (A', M')" "preempt_inv rs A M" "\<forall>xs. set (sa_set_order C xs) = set xs"
  shows "preempt_inv rs A' M'"
  using assms
proof (induction xs arbitrary: det A M)
  case (Cons x xs)
  show ?case
  proof (cases "sa_enable_llm42 C \<and> (det \<or> 0 < length (can_run_list A) \<and> is_deterministic (m_store M x))")
    case True
    then show ?thesis using Cons.prems Cons.IH [of det A M] by (auto split: if_splits)
  next
    case nskip: False
    then obtain go A2 M2 where f: "find_place C Q x A M = Inr (go, A2, M2)" using Cons.prems(1) by (auto split: if_splits)
    have i2: "preempt_inv rs A2 M2" by (rule find_place_inv [OF Cons.prems(2,3) f])
    show ?thesis
    proof (cases go)
      case False
      then show ?thesis using Cons.prems(1) nskip f i2 by (auto split: if_splits)
    next
      case True
      let ?M = "M2\<lparr>m_store := (m_store M2)(x := init_next_round_input (Some chunk_match_prefix) (m_store M2 x))\<rparr>"
      obtain res A3 M3 where a: "add_one_req (sa_truncation_align_size C) x A2 ?M = Inr (res, A3, M3)"
        using Cons.prems(1) nskip f True by (auto split: if_splits)
      have a3: "adds x A2 A3" "same_flags ?M M3" using add_one_req_adds [OF a] by auto
      have "same_flags M2 M3" using a3(2) same_flags_trans [of M2 ?M M3] by simp
      then have i3: "preempt_inv rs A3 M3" using preempt_inv_keeps [OF i2] a3(1) by (simp add: adds_def)
      then have i4: "preempt_inv rs (A3\<lparr>pa_running := (pa_running A3)\<lparr>b_batch_is_full := True\<rparr>\<rparr>) M3"
        using preempt_inv_keeps [OF i3] by simp
      show ?thesis using Cons.prems(1,3) nskip f True a i3 i4 Cons.IH [OF _ i3]
        by (cases res) (auto split: if_splits)
    qed
  qed
qed simp

text \<open>C36. A preempted request is lost whenever the pass that preempted it admits nobody: the function returns before it puts the
  preempted requests back into the queue, and they have left the running batch already.  The request is unfinished and in no batch,
  in no queue and not the chunked request.  This happens because the preemption is decided with the input length of an
  earlier round (zero for a new request), so the admission that follows can still fail for lack of memory.  The hypotheses say
  what the state of a scheduler is: the running and the waiting requests are different, and so is the chunked one.\<close>

theorem preempted_request_lost:
  assumes "calc_priority C (sd_arrival S) key (m_store (sd_mem S)) (b_reqs (sd_running S)) (sd_waiting S) = Inr waiting"
    and "choose_requests C delayer ((sd_running S)\<lparr>b_batch_is_full := False\<rparr>)
      (S\<lparr>sd_waiting := waiting, sd_running := (sd_running S)\<lparr>b_batch_is_full := False\<rparr>\<rparr>) = Inr (chunked, A, M)"
    and "can_run_list A = []" "y \<in> set (preempt_list A)"
    and "try_preemption C" "\<not> sa_test_retract C" "\<forall>xs. set (sa_set_order C xs) = set xs"
    and "set waiting = set (sd_waiting S)" "sd_waiting S \<noteq> []" "set (sd_waiting S) \<inter> set (b_reqs (sd_running S)) = {}" "sd_chunked S = None"
  shows "\<exists>S'. get_new_batch_prefill C L key delayer S = Inr (None, S') \<and>
    y \<in> set (b_reqs (sd_running S)) \<and> \<not> finished (sd_req S' y) \<and>
    y \<notin> set (b_reqs (sd_running S')) \<and> y \<notin> set (sd_waiting S') \<and> sd_chunked S' \<noteq> Some y \<and> sd_grammar_queue S' = sd_grammar_queue S"
proof -
  let ?run = "(sd_running S)\<lparr>b_batch_is_full := False\<rparr>"
  let ?S' = "S\<lparr>sd_waiting := waiting, sd_running := pa_running A, sd_mem := M, sd_chunked := chunked\<rparr>"
  obtain A0 where ai: "adder_init (page_size (m_alloc (sd_mem S))) ?run (sd_new_token_ratio S) (sa_max_prefill_tokens C)
      (chunk_size C (S\<lparr>sd_waiting := waiting, sd_running := ?run\<rparr>)) (if is_mixed_chunk C then length (b_reqs ?run) else 0) (sa_preemption_threshold C)
      (sa_nsa_split C) (sa_prefill_max_requests C) delayer (m_store (sd_mem S)) = Inr A0"
    and f: "fill_prefill C (sd_arrival S) waiting False A0 (sd_mem S) = Inr (A, M)" and ch: "chunked = None"
    using assms(2,11) by (auto simp: choose_requests_def continue_chunked_def split: if_splits)
  have "preempt_inv (b_reqs (sd_running S)) A0 (sd_mem S)" using ai by (auto simp: adder_init_def preempt_inv_def)
  from fill_prefill_inv [OF f this assms(7)] have i: "preempt_inv (b_reqs (sd_running S)) A M" .
  have "get_new_batch_prefill C L key delayer S = Inr (None, ?S')"
    using assms(1-3,5,6,9,11) by (simp add: get_new_batch_prefill_def build_prefill_def Let_def)
  moreover have "y \<in> set (b_reqs (sd_running S))" "y \<notin> set (b_reqs (pa_running A))" "\<not> finished (m_store M y)"
    using i assms(4) by (auto simp: preempt_inv_def)
  ultimately show ?thesis using assms(8,10) ch by (intro exI [of _ ?S']) (auto simp: sd_req_def)
qed

text \<open>A pool of twenty slots, so the longest request has fifteen tokens and the longest prompt nine.  Request \<open>0\<close> runs with low
  priority and five slots, request \<open>2\<close> with high priority and nine; request \<open>1\<close>, with a prompt of nine tokens and a priority in
  between, waits.  The batch may hold two requests.\<close>

definition preempt_args :: sched_args where
  "preempt_args = example_args\<lparr>sa_enable_priority_scheduling := True, sa_pp_max_micro_batch_size := 2, sa_chunked_prefill_size := None\<rparr>"

definition preempt_store :: store where
  "preempt_store x =
     (if x = 0 then (prompt_req 4)\<lparr>output_ids := [9, 9], req_pool_idx := Some 0, kv_committed_len := 5, kv_allocated_len := 5\<rparr>
      else if x = 2 then (prompt_req 9)\<lparr>output_ids := [9], req_pool_idx := Some 1, kv_committed_len := 9, kv_allocated_len := 9\<rparr>
      else prompt_req 9)"

definition preempt_sched :: scheduler where
  "preempt_sched =
     (waiting_sched 20 preempt_store [1])
     \<lparr>sd_arrival := \<lparr>priority = (\<lambda>x. Some (int x)), wait_queue_entry_time = real\<rparr>, sd_running := example_batch [0, 2] preempt_store,
      sd_mem := \<lparr>m_store = preempt_store,
        m_pool = (rt_write (rt_write (rt_init 4 16) 0 0 (map int [1..<6])) 1 0 (map int [6..<15]))\<lparr>free_slots := [2, 3]\<rparr>,
        m_alloc = (token_init 20 False)\<lparr>free_pages := map int [15..<21]\<rparr>\<rparr>\<rparr>"

lemma preempt_choice:
  "worker_limits 16 20 = Inr (sa_max_req_len preempt_args, sa_max_req_input_len preempt_args)"
  "(case choose_requests preempt_args None ((sd_running preempt_sched)\<lparr>b_batch_is_full := False\<rparr>)
        (preempt_sched\<lparr>sd_waiting := [1], sd_running := (sd_running preempt_sched)\<lparr>b_batch_is_full := False\<rparr>\<rparr>) of
      Inr (_, A, _) \<Rightarrow> can_run_list A = [] \<and> preempt_list A = [0] | Inl _ \<Rightarrow> False)"
  by code_simp+

theorem preempted_request_lost_witness:
  "\<exists>S'. get_new_batch_prefill preempt_args kv_launch (\<lambda>_. None) None preempt_sched = Inr (None, S') \<and>
     0 \<in> set (b_reqs (sd_running preempt_sched)) \<and> \<not> finished (sd_req S' 0) \<and> 0 \<notin> set (b_reqs (sd_running S')) \<and> 0 \<notin> set (sd_waiting S')"
proof -
  let ?S = preempt_sched
  obtain c A M where ch: "choose_requests preempt_args None ((sd_running ?S)\<lparr>b_batch_is_full := False\<rparr>)
        (?S\<lparr>sd_waiting := [1], sd_running := (sd_running ?S)\<lparr>b_batch_is_full := False\<rparr>\<rparr>) = Inr (c, A, M)" "can_run_list A = []" "0 \<in> set (preempt_list A)"
    using preempt_choice by (auto split: sum.splits)
  have w: "calc_priority preempt_args (sd_arrival ?S) (\<lambda>_. None) (m_store (sd_mem ?S)) (b_reqs (sd_running ?S)) (sd_waiting ?S) = Inr [1]"
    by (simp add: calc_priority_def validate_and_adjust_policy_def sort_by_priority_and_fcfs_def preempt_args_def example_args_def
        preempt_sched_def waiting_sched_def)
  have "try_preemption preempt_args" "\<not> sa_test_retract preempt_args" "\<forall>xs. set (sa_set_order preempt_args xs) = set xs"
    by (simp_all add: try_preemption_def preempt_args_def example_args_def)
  moreover have "sd_waiting ?S = [1]" "b_reqs (sd_running ?S) = [0, 2]" "sd_chunked ?S = None"
    by (simp_all add: preempt_sched_def waiting_sched_def example_batch_def init_new_def new_batch_def)
  ultimately show ?thesis using preempted_request_lost [OF w ch, of kv_launch] by auto
qed

section \<open>Budgets\<close>

text \<open>C38. The token limit of a received request is computed from its prompt before the prompt is checked.  It is at most
  \<open>max_req_len\<close> minus the length of the prompt minus one, so with a requested limit that is not negative it is negative exactly
  when the prompt has at least \<open>max_req_len\<close> tokens, whether such a request is then rejected or truncated.  In particular a request
  that is truncated fits afterwards, and still has the negative limit.  (There is no session and the input is given as
  tokens.)\<close>

theorem overlong_prompt_negative_limit:
  assumes "handle_generate_request C x t S = Inr S'" "tk_session_id t = None" "tk_input_embeds_len t = None"
    and "(case max_new_tokens (tk_sampling_params t) of None \<Rightarrow> True | Some n \<Rightarrow> 0 \<le> n)" "0 < sa_max_req_input_len C"
  shows "\<exists>n. max_new_tokens (sampling_params (sd_req S' x)) = Some n \<and> n \<le> sa_max_req_len C - int (length (tk_input_ids t)) - 1 \<and>
    (n < 0 \<longleftrightarrow> sa_max_req_len C \<le> int (length (tk_input_ids t))) \<and>
    (sa_allow_auto_truncate C \<longrightarrow> int (length (origin_input_ids (sd_req S' x))) \<le> sa_max_req_input_len C)"
proof -
  obtain r where r: "sd_req S' x = r"
    "same_request (snd (validate_input_length C (init_req_max_new_tokens C (init_req (tk_rid t) (tk_input_ids t) [] (tk_sampling_params t)
       (tk_return_logprob t) (tk_top_logprobs_num t) (tk_token_ids_logprob t) (tk_stream t) (sa_eos_token_ids C) (Some (sa_vocab_size C)))))) r"
    using handled_req [OF assms(1,2)] assms(3) by (auto simp: sd_req_def)
  have "int (length (origin_input_ids (sd_req S' x))) \<le> sa_max_req_input_len C" if "sa_allow_auto_truncate C"
    using r assms(5) that
    by (auto simp: same_request_def validate_input_length_def init_req_max_new_tokens_def init_req_def take_int_def py_clip_def split: if_splits)
  then show ?thesis using handled_params [OF assms(1,2)] assms(3,4) by (auto simp: min_def split: option.splits)
qed

definition generate_req :: "nat \<Rightarrow> tokenized_req" where
  "generate_req n =
     \<lparr>tk_rid = ''r'', tk_input_ids = map int [1..<Suc n], tk_input_embeds_len = None, tk_sampling_params = default_sampling_params\<lparr>max_new_tokens := Some 4\<rparr>,
      tk_return_logprob = False, tk_logprob_start_len = -1, tk_top_logprobs_num = 0, tk_token_ids_logprob = None, tk_stream = False,
      tk_priority = None, tk_session_id = None\<rparr>"

theorem overlong_prompt_negative_limit_witness:
  "\<exists>S'. handle_generate_request (example_args\<lparr>sa_allow_auto_truncate := True\<rparr>) 0 (generate_req 20) (waiting_sched 30 (\<lambda>_. prompt_req 1) []) = Inr S' \<and>
     (\<exists>n. n < 0 \<and> max_new_tokens (sampling_params (sd_req S' 0)) = Some n) \<and> length (origin_input_ids (sd_req S' 0)) \<le> 10"
proof -
  have "(case handle_generate_request (example_args\<lparr>sa_allow_auto_truncate := True\<rparr>) 0 (generate_req 20) (waiting_sched 30 (\<lambda>_. prompt_req 1) []) of
      Inr S' \<Rightarrow> sd_waiting S' = [0] | Inl _ \<Rightarrow> False)" by code_simp
  then obtain S' where r: "handle_generate_request (example_args\<lparr>sa_allow_auto_truncate := True\<rparr>) 0 (generate_req 20) (waiting_sched 30 (\<lambda>_. prompt_req 1) []) = Inr S'"
    by (auto split: sum.splits)
  have t: "tk_session_id (generate_req 20) = None" "tk_input_embeds_len (generate_req 20) = None" "length (tk_input_ids (generate_req 20)) = 20"
    "(case max_new_tokens (tk_sampling_params (generate_req 20)) of None \<Rightarrow> True | Some n \<Rightarrow> 0 \<le> n)"
    by (simp_all add: generate_req_def)
  have C: "0 < sa_max_req_input_len (example_args\<lparr>sa_allow_auto_truncate := True\<rparr>)" by (simp add: example_args_def)
  from overlong_prompt_negative_limit [OF r t(1,2,4) C] r t(3) show ?thesis by (fastforce simp: example_args_def)
qed

lemma alloc_token_slots_oom:
  "\<not> is_paged a \<Longrightarrow> page_size a = 1 \<Longrightarrow> available_size a < n \<Longrightarrow> alloc_token_slots a n = Inl RuntimeError"
  by (simp add: alloc_token_slots_def alloc_def token_alloc_def Let_def available_size_def merge_and_sort_free_def)

lemma prepare_for_extend_oom:
  assumes d: "distinct xs" and none: "\<forall>x \<in> set xs. req_pool_idx (m_store M x) = None" and rows: "length xs \<le> length (free_slots (m_pool M))"
    and a: "\<not> is_paged (m_alloc M)" "page_size (m_alloc M) = 1"
      "available_size (m_alloc M) < length (concat (map (\<lambda>x. drop (length (prefix_indices (m_store M x))) (fill_ids (m_store M x))) xs))"
  shows "prepare_for_extend L ed vocab (init_new (m_store M) xs ov ch) M = Inl RuntimeError"
proof -
  have f: "filter (\<lambda>x. req_pool_idx (m_store M x) = None) xs = xs" "filter (\<lambda>x. req_pool_idx (m_store M x) \<noteq> None) xs = []"
    using none by (simp_all add: filter_id_conv filter_empty_conv)
  obtain rs p h where r: "alloc_req_slots (m_pool M) (m_store M) xs = Inr (rs, p, h)"
    using alloc_req_slots_ok [OF d, of "m_store M" "m_pool M"] none rows unfolding f by fastforce
  have reqs: "b_reqs (init_new (m_store M) xs ov ch) = xs" by (simp add: init_new_def new_batch_def)
  show ?thesis
    using a by (simp add: prepare_for_extend_def alloc_for_extend_def Let_def reqs r alloc_token_slots_oom comp_def)
qed

lemma add_one_req_whole:
  fixes A M x defines "r \<equiv> m_store M x"
  assumes "pa_page_size A = 1" "\<not> pa_nsa_split A" "prefill_max_requests A = None" "pa_delayer A \<noteq> Some False"
    and "\<not> ignore_eos (sampling_params r)" "max_new_tokens (sampling_params r) = Some mn"
    and "real_of_int (extend_input_len r + min (max (mn - int (length (output_ids r))) 0) CLIP_MAX_NEW_TOKENS) < rem_total_tokens A (m_alloc M)"
    and "can_run_list A = [] \<or> extend_input_len r < pa_rem_input A" "(case pa_rem_chunk A of None \<Rightarrow> True | Some c \<Rightarrow> extend_input_len r \<le> c)"
  shows "add_one_req al x A M =
    (let A2 = update_prefill_budget (length (prefix_indices r)) (extend_input_len r) (min mn CLIP_MAX_NEW_TOKENS) (A\<lparr>can_run_list := can_run_list A @ [x]\<rparr>)
     in Inr (budget_state A2 (m_alloc M), A2, M))"
  using assms by (auto simp: add_one_req_def max_new_def Let_def split: option.splits)

text \<open>A pass that looks at the queue in its order: first come, first served, without preemption, mixed chunks, limits on the number of requests, a
  delayer that holds the prefill back, or a chunked request, with places and rows for two more requests and a cache of
  single tokens.  Running requests have not exceeded their limits.\<close>

definition open_pass :: "sched_args \<Rightarrow> bool option \<Rightarrow> scheduler \<Rightarrow> bool" where
  "open_pass C delayer S \<longleftrightarrow>
     \<not> try_preemption C \<and> \<not> is_mixed_chunk C \<and> \<not> sa_test_retract C \<and> \<not> sa_nsa_split C \<and> sa_prefill_max_requests C = None \<and>
     sa_schedule_policy C = ''fcfs'' \<and> delayer \<noteq> Some False \<and> sd_chunked S = None \<and> \<not> b_batch_is_full (sd_running S) \<and>
     2 \<le> get_num_allocatable_reqs C (sd_mem S) (length (b_reqs (sd_running S))) \<and>
     \<not> is_paged (m_alloc (sd_mem S)) \<and> page_size (m_alloc (sd_mem S)) = 1 \<and>
     (\<forall>z \<in> set (b_reqs (sd_running S)). running_ok (m_store (sd_mem S) z))"

text \<open>A waiting request that holds no row and is neither deterministic under LLM-42 nor one that ignores the end-of-sequence token.\<close>

definition plain_waiting :: "sched_args \<Rightarrow> req \<Rightarrow> bool" where
  "plain_waiting C r \<longleftrightarrow> \<not> (sa_enable_llm42 C \<and> is_deterministic r) \<and> \<not> ignore_eos (sampling_params r) \<and> req_pool_idx r = None"

text \<open>What the memory and the budgets have to be for the second request \<open>r\<close>, when the limit \<open>n\<close> of the first is negative: the estimated
  budget has room for the first request of one token and, inflated by \<open>- n\<close>, for \<open>r\<close> with all its new tokens; the free slots
  suffice for the first but not for both; and neither the input budget nor the chunk size stops \<open>r\<close>.\<close>

definition overcommitted :: "sched_args \<Rightarrow> scheduler \<Rightarrow> int \<Rightarrow> req \<Rightarrow> bool" where
  "overcommitted C S n r \<longleftrightarrow>
     (let avail = available_size (m_alloc (sd_mem S)); len = seqlen r;
          budget = real avail - reserved (sd_new_token_ratio S) (m_store (sd_mem S)) (b_reqs (sd_running S))
      in n < 0 \<and> 2 \<le> avail \<and> avail < 1 + len \<and> 1 < budget \<and>
         (\<exists>m \<ge> 0. max_new_tokens (sampling_params r) = Some m \<and> real_of_int (int len + m) < budget - 1 - real_of_int n) \<and>
         1 + int len < sa_max_prefill_tokens C \<and> (case sa_chunked_prefill_size C of None \<Rightarrow> True | Some c \<Rightarrow> 1 + int len \<le> c))"

lemma not_full_update [simp]: "\<not> b_batch_is_full b \<Longrightarrow> b\<lparr>b_batch_is_full := False\<rparr> = b"
  by (cases b) simp

lemma fill_two:
  fixes M defines "h \<equiv> m_store M"
  assumes A: "can_run_list A = []" "preempt_list A = []" "new_chunked_req A = None" "pa_page_size A = 1" "pa_cur_rem_offset A = 0"
      "\<not> pa_nsa_split A" "prefill_max_requests A = None" "pa_delayer A \<noteq> Some False" "\<not> b_batch_is_full (pa_running A)"
    and C: "\<not> try_preemption C" "2 \<le> get_num_allocatable_reqs C M (length (b_reqs (pa_running A)))"
    and p: "x \<noteq> y" "plain_waiting C (h x)" "plain_waiting C (h y)"
    and x: "seqlen (h x) = 1" "output_ids (h x) = []" "max_new_tokens (sampling_params (h x)) = Some n" "n < 0"
    and y: "max_new_tokens (sampling_params (h y)) = Some m" "0 \<le> m" "real_of_int (int (seqlen (h y)) + m) < rem_total_tokens A (m_alloc M) - 1 - real_of_int n"
    and mem: "2 \<le> available_size (m_alloc M)" "available_size (m_alloc M) < 1 + seqlen (h y)" "1 < rem_total_tokens A (m_alloc M)"
    and bud: "1 + int (seqlen (h y)) < pa_rem_input A" "(case pa_rem_chunk A of None \<Rightarrow> True | Some c \<Rightarrow> 1 + int (seqlen (h y)) \<le> c)"
  shows "\<exists>A'. fill_prefill C Q (x # y # ys) False A M = Inr (A', M\<lparr>m_store := h(x := first_round (h x), y := first_round (h y))\<rparr>) \<and>
    can_run_list A' = [x, y] \<and> preempt_list A' = [] \<and> new_chunked_req A' = None"
proof -
  let ?al = "sa_truncation_align_size C" and ?a = "m_alloc M"
  define M1 where "M1 = M\<lparr>m_store := h(x := first_round (h x))\<rparr>"
  define M2 where "M2 = M\<lparr>m_store := h(x := first_round (h x), y := first_round (h y))\<rparr>"
  define A1 where "A1 = update_prefill_budget (length (prefix_indices (first_round (h x)))) 1 n (A\<lparr>can_run_list := [x]\<rparr>)"
  define A2 where "A2 = update_prefill_budget (length (prefix_indices (first_round (h y)))) (int (seqlen (h y))) (min m CLIP_MAX_NEW_TOKENS) (A1\<lparr>can_run_list := [x, y]\<rparr>)"
  have clip: "min n CLIP_MAX_NEW_TOKENS = n" "min 0 CLIP_MAX_NEW_TOKENS = 0" using x(4) by (simp_all add: CLIP_MAX_NEW_TOKENS_def)
  have a1: "can_run_list A1 = [x]" "pa_page_size A1 = 1" "\<not> pa_nsa_split A1" "prefill_max_requests A1 = None" "pa_delayer A1 \<noteq> Some False"
    "pa_running A1 = pa_running A" "rem_total_tokens A1 ?a = rem_total_tokens A ?a - 1 - real_of_int n" "cur_rem_tokens A1 ?a = int (available_size ?a) - 1"
    "pa_rem_input A1 = pa_rem_input A - 1" "pa_rem_chunk A1 = map_option (\<lambda>c. c - 1) (pa_rem_chunk A)"
    using A by (simp_all add: A1_def update_prefill_budget_def Let_def ceil_paged_tokens_def rem_total_tokens_def cur_rem_tokens_def)
  have r1: "add_one_req ?al x A M1 = Inr (budget_state A1 ?a, A1, M1)"
    using add_one_req_whole [of A M1 x n ?al] A p x mem bud clip
    by (auto simp: M1_def plain_waiting_def A1_def Let_def split: option.splits)
  have b1: "budget_state A1 ?a = ADD_CONTINUE"
    using a1 mem y bud by (auto simp: budget_state_def split: option.splits)
  have r2: "add_one_req ?al y A1 M2 = Inr (budget_state A2 ?a, A2, M2)"
    using add_one_req_whole [of A1 M2 y m ?al] a1 p y bud
    by (auto simp: M2_def plain_waiting_def A2_def Let_def split: option.splits)
  have "cur_rem_tokens A2 ?a \<le> 0"
    using a1(2,8) mem(2) by (simp add: A2_def update_prefill_budget_def Let_def ceil_paged_tokens_def cur_rem_tokens_def)
  then have b2: "budget_state A2 ?a = ADD_NO_TOKEN" by (simp add: budget_state_def)
  have pl: "find_place C Q x A M = Inr (True, A, M)" "find_place C Q y A1 M1 = Inr (True, A1, M1)"
  proof -
    have g: "\<not> get_num_allocatable_reqs C M (length (b_reqs (pa_running A))) \<le> 0"
      "\<not> get_num_allocatable_reqs C M1 (length (b_reqs (pa_running A1))) \<le> 1"
      using C(2) unfolding a1(6) by (simp_all add: get_num_allocatable_reqs_def M1_def min_le_iff_disj)
    have "\<not> b_batch_is_full (pa_running A1)" using A(9) unfolding a1(6) .
    then show "find_place C Q x A M = Inr (True, A, M)" "find_place C Q y A1 M1 = Inr (True, A1, M1)"
      using A(1,9) a1(1) g by (simp_all add: find_place_def Let_def)
  qed
  have m1: "M\<lparr>m_store := (m_store M)(x := first_round (m_store M x))\<rparr> = M1" by (simp add: M1_def h_def)
  have m2: "M1\<lparr>m_store := (m_store M1)(y := first_round (m_store M1 y))\<rparr> = M2" using p(1) by (simp add: M1_def M2_def)
  have det: "\<not> (sa_enable_llm42 C \<and> is_deterministic (m_store M1 z))" if "z = x \<or> z = y" for z
    using that p by (auto simp: plain_waiting_def M1_def)
  have "fill_prefill C Q (x # y # ys) False A M = Inr (A2\<lparr>pa_running := (pa_running A2)\<lparr>b_batch_is_full := True\<rparr>\<rparr>, M2)"
    using A(1) det [of x] det [of y] by (auto simp: pl r1 r2 b1 b2 m1 m2 Let_def simp del: fun_upd_apply)
  moreover have "can_run_list A2 = [x, y]" "preempt_list A2 = []" "new_chunked_req A2 = None" using A by (simp_all add: A2_def A1_def)
  ultimately show ?thesis by (auto simp: M2_def)
qed

lemma overcommitted_choice:
  fixes S defines "h \<equiv> m_store (sd_mem S)"
  assumes pass: "open_pass C delayer S" and w: "sd_waiting S = x # y # ys" "x \<noteq> y" and p: "plain_waiting C (h x)" "plain_waiting C (h y)"
    and x: "seqlen (h x) = 1" "output_ids (h x) = []" "max_new_tokens (sampling_params (h x)) = Some n"
    and over: "overcommitted C S n (h y)"
  shows "\<exists>A. choose_requests C delayer (sd_running S) S = Inr (None, A, (sd_mem S)\<lparr>m_store := h(x := first_round (h x), y := first_round (h y))\<rparr>) \<and>
    can_run_list A = [x, y] \<and> preempt_list A = [] \<and> new_chunked_req A = None"
proof -
  obtain A0 where A0: "adder_init (page_size (m_alloc (sd_mem S))) (sd_running S) (sd_new_token_ratio S) (sa_max_prefill_tokens C)
      (sa_chunked_prefill_size C) 0 (sa_preemption_threshold C) (sa_nsa_split C) (sa_prefill_max_requests C) delayer h = Inr A0"
    "can_run_list A0 = []" "preempt_list A0 = []" "new_chunked_req A0 = None" "pa_page_size A0 = page_size (m_alloc (sd_mem S))" "pa_running A0 = sd_running S"
    "pa_rem_chunk A0 = sa_chunked_prefill_size C" "pa_cur_rem_offset A0 = 0" "pa_rem_total_offset A0 = reserved (sd_new_token_ratio S) h (b_reqs (sd_running S))"
    using adder_init_runs [of "sd_running S" h] pass unfolding open_pass_def h_def by metis
  have f0: "pa_rem_input A0 = sa_max_prefill_tokens C" "pa_nsa_split A0 = sa_nsa_split C" "prefill_max_requests A0 = sa_prefill_max_requests C" "pa_delayer A0 = delayer"
    using A0(1) by (auto simp: adder_init_def)
  obtain m where m: "max_new_tokens (sampling_params (h y)) = Some m" "0 \<le> m"
      "real_of_int (int (seqlen (h y)) + m) < rem_total_tokens A0 (m_alloc (sd_mem S)) - 1 - real_of_int n"
    using over A0(9) unfolding overcommitted_def rem_total_tokens_def Let_def h_def by auto
  have "\<exists>A'. fill_prefill C (sd_arrival S) (x # y # ys) False A0 (sd_mem S) = Inr (A', (sd_mem S)\<lparr>m_store := h(x := first_round (h x), y := first_round (h y))\<rparr>) \<and>
    can_run_list A' = [x, y] \<and> preempt_list A' = [] \<and> new_chunked_req A' = None"
    unfolding h_def by (rule fill_two [where n = n and m = m])
      (use A0 f0 pass over w p x m in \<open>simp_all add: open_pass_def overcommitted_def rem_total_tokens_def Let_def h_def\<close>)
  then show ?thesis using A0(1) pass w(1)
    by (auto simp: choose_requests_def continue_chunked_def chunk_size_def open_pass_def h_def)
qed

text \<open>C39. One rejected request can make the scheduler run out of memory.  The first request of the queue, of a single token as a
  rejected request is, has a negative token limit; its limit is added to the budget of the batch.  A second request
  with more tokens than the memory has slots besides the first is then admitted when it is within the inflated budget,
  and the preparation of the batch raises, which nothing on the way catches.\<close>

theorem rejected_request_exhausts_memory:
  assumes "open_pass C delayer S" "sd_waiting S = x # y # ys" "x \<noteq> y"
    and "plain_waiting C (sd_req S x)" "plain_waiting C (sd_req S y)"
    and "seqlen (sd_req S x) = 1" "output_ids (sd_req S x) = []" "max_new_tokens (sampling_params (sd_req S x)) = Some n"
    and "overcommitted C S n (sd_req S y)"
  shows "get_new_batch_prefill C L key delayer S = Inl RuntimeError"
proof -
  define h where "h = m_store (sd_mem S)"
  let ?h = "h(x := first_round (h x), y := first_round (h y))"
  let ?M = "(sd_mem S)\<lparr>m_store := ?h\<rparr>"
  obtain A where c: "choose_requests C delayer (sd_running S) S = Inr (None, A, ?M)" and A: "can_run_list A = [x, y]" "preempt_list A = []" "new_chunked_req A = None"
    using overcommitted_choice [OF assms(1-3)] assms(4-9) unfolding sd_req_def h_def by blast
  have cp: "calc_priority C (sd_arrival S) key (m_store (sd_mem S)) (b_reqs (sd_running S)) (sd_waiting S) = Inr (sd_waiting S)"
    using assms(1) by (simp add: open_pass_def try_preemption_def calc_priority_def validate_and_adjust_policy_def)
  define S1 where "S1 = note_entry C [x, y] (S\<lparr>sd_mem := ?M, sd_waiting := filter (\<lambda>z. z \<notin> set [x, y]) (sd_waiting S), sd_running := pa_running A, sd_chunked := None\<rparr>)"
  have S1: "sd_mem S1 = ?M" "sd_chunked S1 = None" by (simp_all add: S1_def)
  have rows: "length [x, y] \<le> length (free_slots (m_pool ?M))"
    using assms(1) by (simp add: open_pass_def get_num_allocatable_reqs_def rt_available_size_def)
  have "available_size (m_alloc ?M) < length (concat (map (\<lambda>z. drop (length (prefix_indices (m_store ?M z))) (fill_ids (m_store ?M z))) [x, y]))"
    using assms(3,6,9) by (simp add: overcommitted_def h_def sd_req_def seqlen_def Let_def)
  moreover have "\<forall>z \<in> set [x, y]. req_pool_idx (m_store ?M z) = None" "distinct [x, y]"
    using assms(3-5) by (simp_all add: plain_waiting_def h_def sd_req_def)
  ultimately have oom: "prepare_for_extend L ed v (init_new (m_store ?M) [x, y] ov None) ?M = Inl RuntimeError" for ed v ov
    using assms(1) prepare_for_extend_oom [of "[x, y]" ?M, OF _ _ rows] by (simp add: open_pass_def)
  have "build_prefill C L A (S\<lparr>sd_mem := ?M, sd_running := pa_running A, sd_chunked := None\<rparr>) = Inl RuntimeError"
    unfolding build_prefill_def Let_def A fold_result.simps bind_result.simps option.case
    using oom S1 by (simp add: S1_def)
  moreover have "S\<lparr>sd_waiting := sd_waiting S, sd_running := sd_running S\<rparr> = S" "sd_waiting S \<noteq> []" using assms(2) by simp_all
  ultimately show ?thesis using c cp assms(1) by (simp add: get_new_batch_prefill_def open_pass_def Let_def)
qed


text \<open>A pool of twenty slots with the limits the worker derives from it.  Request \<open>0\<close> had a prompt of thirty tokens and was rejected,
  request \<open>1\<close> waits behind it with nine tokens, and request \<open>2\<close> runs with eleven slots.\<close>

definition oom_args :: sched_args where
  "oom_args = example_args\<lparr>sa_chunked_prefill_size := Some 16\<rparr>"

definition oom_store :: store where
  "oom_store x =
     (if x = 0 then set_finish_with_abort ''Input length exceeds the maximum allowed length'' (init_req_max_new_tokens oom_args (prompt_req 30))
      else if x = 1 then init_req_max_new_tokens oom_args (prompt_req 9)
      else (prompt_req 9)\<lparr>output_ids := [9, 9, 9], req_pool_idx := Some 0, kv_committed_len := 11, kv_allocated_len := 11\<rparr>)"

definition oom_sched :: scheduler where
  "oom_sched =
     (waiting_sched 20 oom_store [0, 1])
     \<lparr>sd_running := example_batch [2] oom_store,
      sd_mem := \<lparr>m_store = oom_store, m_pool = (rt_write (rt_init 4 16) 0 0 (map int [1..<12]))\<lparr>free_slots := [1, 2, 3]\<rparr>,
        m_alloc = (token_init 20 False)\<lparr>free_pages := map int [12..<21]\<rparr>\<rparr>\<rparr>"

theorem rejected_request_exhausts_memory_witness:
  "worker_limits 16 20 = Inr (sa_max_req_len oom_args, sa_max_req_input_len oom_args) \<and>
   get_new_batch_prefill oom_args kv_launch (\<lambda>_. None) None oom_sched = Inl RuntimeError"
proof -
  let ?S = oom_sched
  have w: "sd_waiting ?S = 0 # 1 # []" "sd_req ?S = oom_store" "b_reqs (sd_running ?S) = [2]"
    by (simp_all add: oom_sched_def waiting_sched_def sd_req_def fun_eq_iff example_batch_def init_new_def new_batch_def)
  have lim: "worker_limits 16 20 = Inr (sa_max_req_len oom_args, sa_max_req_input_len oom_args)" by code_simp
  have run: "running_ok (oom_store 2)" by code_simp
  have pass: "open_pass oom_args None ?S"
    using run by (simp add: open_pass_def w) (simp add: oom_sched_def waiting_sched_def oom_args_def example_args_def try_preemption_def
        is_mixed_chunk_def get_num_allocatable_reqs_def rt_available_size_def rt_write_def token_init_def token_clear_def init_base_def example_batch_def init_new_def new_batch_def)
  have reqs: "plain_waiting oom_args (oom_store 0)" "plain_waiting oom_args (oom_store 1)" "seqlen (oom_store 0) = 1" "output_ids (oom_store 0) = []"
    "max_new_tokens (sampling_params (oom_store 0)) = Some (-16)" "seqlen (oom_store 1) = 9" "max_new_tokens (sampling_params (oom_store 1)) = Some 4"
    by code_simp+
  have mem: "available_size (m_alloc (sd_mem ?S)) = 9" by code_simp
  have res: "reserved (1 / 2) oom_store [2] = 1 / 2" by code_simp
  have "overcommitted oom_args ?S (-16) (oom_store 1)"
    using reqs mem res w by (simp add: overcommitted_def Let_def) (simp add: oom_sched_def waiting_sched_def oom_args_def example_args_def)
  from rejected_request_exhausts_memory [OF pass w(1), unfolded w(2), OF _ reqs(1-5) this] show ?thesis using lim by simp
qed

end
