(* ===== verification/Request_Intake.thy ===== *)
theory Request_Intake
  imports Scheduling_Faults
begin

text \<open>What the scheduler may rely on for a request it has received, and the order of the estimates the adder keeps.\<close>

section \<open>Requests in the queue\<close>

text \<open>C33. A received request whose prompt is within the limit is well-formed: it holds no row and no KV slots, its prompt is
  not empty and fits the table, and prompt and generated tokens together stay below the maximal length of a request.\<close>

theorem received_request_wellformed:
  assumes "handle_generate_request C x t S = Inr S'" "tk_session_id t = None" "tk_input_embeds_len t = None"
    and "worker_limits context_len token_pool = Inr (sa_max_req_len C, sa_max_req_input_len C)" "context_len \<le> int (max_context_len (m_pool (sd_mem S)))"
    and "tk_input_ids t \<noteq> []" "int (length (tk_input_ids t)) < sa_max_req_input_len C"
    and "case max_new_tokens (tk_sampling_params t) of None \<Rightarrow> True | Some n \<Rightarrow> 0 \<le> n"
  shows "waiting_ok (sd_mem S') x \<and>
    (\<exists>n. max_new_tokens (sampling_params (sd_req S' x)) = Some n \<and> 0 \<le> n \<and> int (seqlen (sd_req S' x)) + n < sa_max_req_len C)"
proof -
  let ?n = "int (length (tk_input_ids t))"
  have lim: "sa_max_req_input_len C = sa_max_req_len C - 5" "sa_max_req_len C \<le> context_len - 1"
    using assms(4) by (auto simp: worker_limits_def Let_def split: if_splits)
  obtain r where r: "sd_mem S' = (sd_mem S)\<lparr>m_store := (m_store (sd_mem S))(x := r)\<rparr>"
    "req_pool_idx r = None" "\<not> kv_committed_freed r" "\<not> kv_overallocated_freed r" "output_ids r = []"
    "origin_input_ids r = tk_input_ids t \<or> origin_input_ids r = [0]"
    using handled_req [OF assms(1,2)] assms(3,7)
    by (auto simp: same_request_def validate_input_length_def init_req_max_new_tokens_def init_req_def split: if_splits)
  define n where "n = min (case max_new_tokens (tk_sampling_params t) of Some n \<Rightarrow> n | None \<Rightarrow> 2 ^ 30) (sa_max_req_len C - ?n - 1)"
  have mn: "max_new_tokens (sampling_params r) = Some n" using handled_params [OF assms(1,2)] assms(3) r(1) by (simp add: sd_req_def n_def)
  have n: "0 \<le> n" "n \<le> sa_max_req_len C - ?n - 1" using assms(7,8) lim by (auto simp: n_def split: option.splits)
  have s: "1 \<le> seqlen r" "int (seqlen r) \<le> ?n" using r(5,6) assms(6) by (auto simp: seqlen_def Suc_le_eq)
  then have "int (seqlen r) \<le> int (max_context_len (m_pool (sd_mem S)))" using assms(5,7) lim by linarith
  then have "waiting_ok (sd_mem S') x" using r(2-4) mn n(1) s(1) by (simp add: waiting_ok_def r(1) capped_def Let_def)
  moreover have "int (seqlen r) + n < sa_max_req_len C" using s(2) n(2) by linarith
  ultimately show ?thesis using mn n(1) by (simp add: sd_req_def r(1))
qed

theorem received_request_wellformed_witness:
  "worker_limits 16 100 = Inr (sa_max_req_len example_args, sa_max_req_input_len example_args) \<and>
   (\<exists>S'. handle_generate_request example_args 0 (generate_req 3) (waiting_sched 30 (\<lambda>_. prompt_req 1) []) = Inr S' \<and> waiting_ok (sd_mem S') 0)"
proof -
  let ?S = "waiting_sched 30 (\<lambda>_. prompt_req 1) []"
  have "(case handle_generate_request example_args 0 (generate_req 3) ?S of Inr S' \<Rightarrow> sd_waiting S' = [0] | Inl _ \<Rightarrow> False)" by code_simp
  then obtain S' where r: "handle_generate_request example_args 0 (generate_req 3) ?S = Inr S'" by (auto split: sum.splits)
  have w: "worker_limits 16 100 = Inr (sa_max_req_len example_args, sa_max_req_input_len example_args)" by code_simp
  have "waiting_ok (sd_mem S') 0"
    using received_request_wellformed [OF r _ _ w] by (simp add: generate_req_def waiting_sched_def rt_init_def example_args_def)
  then show ?thesis using w r by blast
qed

section \<open>The order of the estimates\<close>

lemma insert_state_last:
  assumes "\<forall>t \<in> set (us @ [v]). fst t < fst s"
  shows "insert_state s (us @ [v]) = us @ [s, v]"
proof -
  have "takeWhile (\<lambda>t. \<not> fst s \<le> fst t) (us @ [v]) = us @ [v]" using assms by (intro takeWhile_eq_all_conv [THEN iffD2]) auto
  then show ?thesis by (simp add: insert_state_def)
qed

lemma insert_state_before:
  assumes "\<forall>t \<in> set us. fst t < fst s" "fst s \<le> fst v"
  shows "insert_state s (us @ v # vs) = us @ s # v # vs"
proof -
  have "takeWhile (\<lambda>t. \<not> fst s \<le> fst t) (us @ v # vs) = us" using assms by (subst takeWhile_append2) auto
  then show ?thesis by (simp add: insert_state_def)
qed

text \<open>C40. Inserting an estimate keeps the list sorted exactly when some entry is at least as large (or there is none): a new largest
  estimate is put before the last entry.\<close>

theorem insert_state_order:
  assumes "sorted (map fst ss)"
  shows "sorted (map fst (insert_state s ss)) \<longleftrightarrow> ss = [] \<or> (\<exists>t \<in> set ss. fst s \<le> fst t)"
proof (cases "\<exists>t \<in> set ss. fst s \<le> fst t")
  case True
  then obtain us v vs where ss: "ss = us @ v # vs" "fst s \<le> fst v" "\<forall>t \<in> set us. \<not> fst s \<le> fst t"
    using split_list_first_prop [OF True] by blast
  then have "insert_state s ss = us @ s # v # vs" using insert_state_before [of us s v vs] by (simp add: not_le)
  moreover have "sorted (map fst (us @ s # v # vs))"
  proof -
    have "\<forall>t \<in> set us. fst t \<le> fst s" using ss(3) by auto
    moreover have "\<forall>t \<in> set vs. fst v \<le> fst t" using assms ss(1) by (simp add: sorted_append)
    then have "\<forall>t \<in> set (v # vs). fst s \<le> fst t" using ss(2) by auto
    ultimately show ?thesis using assms unfolding ss(1) by (auto simp: sorted_append)
  qed
  ultimately show ?thesis using True by simp
next
  case False
  show ?thesis
  proof (cases ss rule: rev_cases)
    case (snoc us v)
    then have lt: "\<forall>t \<in> set (us @ [v]). fst t < fst s" using False by auto
    then have "\<not> sorted (map fst (us @ [s, v]))" by (simp add: sorted_append)
    then show ?thesis using False snoc insert_state_last [OF lt] by simp
  qed (simp add: insert_state_def)
qed

theorem insert_state_order_witness:
  "insert_state (5, 0) [(1, 0), (2, 0)] = [(1, 0), (5, 0), (2, 0)] \<and> \<not> sorted (map fst (insert_state (5 :: real, 0 :: int) [(1, 0), (2, 0)]))"
proof -
  have "sorted (map fst [(1 :: real, 0 :: int), (2, 0)])" by simp
  from insert_state_order [OF this, of "(5, 0)"] show ?thesis by (simp add: insert_state_def)
qed

end
