(* ===== verification/Prefill_Delayer.thy ===== *)
theory Prefill_Delayer
  imports Prelude Complex_Main
begin

text \<open>
  \<open>PrefillDelayer\<close> (\<open>managers/prefill_delayer.py\<close>): with data-parallel attention a prefill is held back while only some of the ranks could
  prefill.  The exchange between the ranks is a parameter: a pass is given the reports of all ranks, each saying whether the rank could
  prefill and whether its memory is nearly empty.  The start time of a wait, the counters for logging and the metrics are left out.
\<close>

record prefill_delayer =
  pd_max_delay_passes :: int
  pd_low_watermark :: "real option"
  pd_delayed :: "nat option"

text \<open>\<open>pd_delayed\<close> is the \<open>delayed_count\<close> of the current state, absent when no wait is under way.\<close>

type_synonym rank_report = "bool \<times> bool"

definition local_report :: "prefill_delayer \<Rightarrow> bool \<Rightarrow> real \<Rightarrow> rank_report" where
  "local_report D local_prefillable token_usage =
     (local_prefillable, local_prefillable \<and> (case pd_low_watermark D of None \<Rightarrow> False | Some w \<Rightarrow> token_usage < w))"

datatype output_reason = NO_WAIT | WAIT_SUCCESS | NONE_PREFILLABLE | TOKEN_WATERMARK | DELAY | WAIT_TIMEOUT

definition negotiate_should_allow_prefill :: "rank_report list \<Rightarrow> prefill_delayer \<Rightarrow> (bool \<times> output_reason) \<times> prefill_delayer" where
  "negotiate_should_allow_prefill reports D =
     (if list_all fst reports then ((True, if pd_delayed D \<noteq> None then WAIT_SUCCESS else NO_WAIT), D\<lparr>pd_delayed := None\<rparr>)
      else if list_all (\<lambda>r. \<not> fst r) reports then ((True, NONE_PREFILLABLE), D\<lparr>pd_delayed := None\<rparr>)
      else if list_ex snd reports then ((True, TOKEN_WATERMARK), D\<lparr>pd_delayed := None\<rparr>)
      else
        (let n = (case pd_delayed D of None \<Rightarrow> 0 | Some k \<Rightarrow> k)
         in if int n < pd_max_delay_passes D - 1 then ((False, DELAY), D\<lparr>pd_delayed := Some (n + 1)\<rparr>)
            else ((True, WAIT_TIMEOUT), D\<lparr>pd_delayed := None\<rparr>)))"

text \<open>The answers of a sequence of passes.\<close>

fun negotiate_passes :: "rank_report list list \<Rightarrow> prefill_delayer \<Rightarrow> bool list" where
  "negotiate_passes [] D = []"
| "negotiate_passes (rs # rss) D =
     (let (out, D') = negotiate_should_allow_prefill rs D in fst out # negotiate_passes rss D')"

text \<open>A single pass asks once and keeps the answer; when no request asked, it negotiates at the end as a rank that cannot
  prefill.  \<open>others\<close> maps the report of this rank to the reports of all.\<close>

record single_pass =
  sp_delayer :: prefill_delayer
  sp_token_usage :: real
  sp_result :: "(bool \<times> output_reason) option"

definition sp_negotiate :: "(rank_report \<Rightarrow> rank_report list) \<Rightarrow> bool \<Rightarrow> single_pass \<Rightarrow> bool \<times> single_pass" where
  "sp_negotiate others local_prefillable P =
     (case sp_result P of Some out \<Rightarrow> (fst out, P)
      | None \<Rightarrow>
          (let (out, D) = negotiate_should_allow_prefill (others (local_report (sp_delayer P) local_prefillable (sp_token_usage P))) (sp_delayer P)
           in (fst out, P\<lparr>sp_delayer := D, sp_result := Some out\<rparr>)))"

definition sp_finalize :: "(rank_report \<Rightarrow> rank_report list) \<Rightarrow> single_pass \<Rightarrow> single_pass" where
  "sp_finalize others P = (if sp_result P = None then snd (sp_negotiate others False P) else P)"

section \<open>Waiting is bounded\<close>

definition delayed_count :: "prefill_delayer \<Rightarrow> nat" where
  "delayed_count D = (case pd_delayed D of None \<Rightarrow> 0 | Some k \<Rightarrow> k)"

lemma negotiate_refusal:
  assumes "negotiate_should_allow_prefill rs D = ((False, why), D')"
  shows "int (delayed_count D) < pd_max_delay_passes D - 1 \<and> delayed_count D' = delayed_count D + 1 \<and> pd_max_delay_passes D' = pd_max_delay_passes D"
  using assms by (auto simp: negotiate_should_allow_prefill_def delayed_count_def Let_def split: if_splits option.splits)

lemma refusals_bounded:
  assumes "list_all Not (negotiate_passes rss D)" "rss \<noteq> []"
  shows "int (length rss) \<le> pd_max_delay_passes D - 1 - int (delayed_count D)"
  using assms
proof (induction rss arbitrary: D)
  case (Cons rs rss)
  obtain out D' where n: "negotiate_should_allow_prefill rs D = (out, D')" by (cases "negotiate_should_allow_prefill rs D")
  then obtain why where "out = (False, why)" using Cons.prems(1) by (cases out) auto
  note s = negotiate_refusal [OF n [unfolded this]]
  show ?case
  proof (cases "rss = []")
    case False
    then show ?thesis using Cons.IH [of D'] Cons.prems(1) n s by auto
  qed (use s in simp)
qed simp

text \<open>C34. A prefill is held back in fewer than \<open>max_delay_passes\<close> passes in a row, whatever the ranks report.\<close>

theorem prefill_delay_bounded:
  assumes "negotiate_passes rss D = before @ replicate k False @ after" "0 < k"
  shows "int k < pd_max_delay_passes D"
proof -
  have "\<exists>D'. pd_max_delay_passes D' = pd_max_delay_passes D \<and> negotiate_passes (drop n rss) D' = drop n (negotiate_passes rss D)" for n
  proof (induction rss arbitrary: D n)
    case (Cons rs rss)
    obtain out D1 where s: "negotiate_should_allow_prefill rs D = (out, D1)" by (cases "negotiate_should_allow_prefill rs D")
    have "pd_max_delay_passes D1 = pd_max_delay_passes D" using s by (auto simp: negotiate_should_allow_prefill_def Let_def split: if_splits)
    then show ?case using Cons.IH [of D1 "n - 1"] s by (cases n) (auto intro: exI [of _ D])
  qed auto
  from this [of "length before"] obtain D1 where D1: "pd_max_delay_passes D1 = pd_max_delay_passes D"
    "negotiate_passes (drop (length before) rss) D1 = replicate k False @ after" using assms(1) by auto
  have tk: "negotiate_passes (take m xs) E = take m (negotiate_passes xs E)" for m xs E
  proof (induction xs arbitrary: m E)
    case (Cons x xs)
    then show ?case by (cases m) (auto simp: Let_def split: prod.splits)
  qed simp
  let ?rs = "take k (drop (length before) rss)"
  have r: "negotiate_passes ?rs D1 = replicate k False" using D1(2) by (simp add: tk)
  have len: "length (negotiate_passes xs E) = length xs" for xs E by (induction xs arbitrary: E) (auto simp: Let_def split: prod.splits)
  have k: "length ?rs = k" using len [of ?rs D1] r by simp
  then have "?rs \<noteq> []" using assms(2) by (metis less_irrefl list.size(3))
  moreover have "list_all Not (negotiate_passes ?rs D1)" unfolding r by (simp add: list_all_iff)
  ultimately have "int (length ?rs) \<le> pd_max_delay_passes D1 - 1 - int (delayed_count D1)" by (intro refusals_bounded)
  then show ?thesis unfolding k D1(1) by linarith
qed

theorem prefill_delay_bounded_witness:
  "negotiate_passes (replicate 3 [(True, False), (False, False)]) \<lparr>pd_max_delay_passes = 3, pd_low_watermark = None, pd_delayed = None\<rparr> = [] @ replicate 2 False @ [True] \<and>
   int 2 < pd_max_delay_passes \<lparr>pd_max_delay_passes = 3, pd_low_watermark = None, pd_delayed = None\<rparr>"
proof -
  have r: "negotiate_passes (replicate 3 [(True, False), (False, False)]) \<lparr>pd_max_delay_passes = 3, pd_low_watermark = None, pd_delayed = None\<rparr> = [] @ replicate 2 False @ [True]"
    by code_simp
  from prefill_delay_bounded [OF r] show ?thesis using r by simp
qed

end
