(* ===== verification/Spec2Isabelle.thy ===== *)
theory Spec2Isabelle
  imports Serving Retraction Decode_Schedule Request_Intake Prefill_Delayer
begin

text \<open>
  Verification of the scheduler and the decode-verify-rollback protocol of LLM-42, an inference server derived
  from SGLang.  Paths below are relative to \<open>src/python/sglang/srt/\<close>.

  \<^bold>\<open>The program.\<close>  A scheduler process keeps a queue of requests and chooses, step by step, a prefill or a decode
  batch.  It hands out rows of the request-to-token table and KV-cache slots to the requests of the batch, lets the
  model worker run it, and processes the sampled tokens: they are appended to the requests, stop conditions are
  checked, memory of finished requests is given back, and output is streamed.  The fast decode path is not
  deterministic, since the order of floating-point reductions depends on the batch.  For requests marked
  deterministic LLM-42 therefore prefills each alone, replays windows of their output in batches of a fixed shape,
  compares the tokens, rolls a request back to its first mismatch, and streams verified tokens only.

  \<^bold>\<open>Conventions.\<close>  A Python class is a record, an object a reference \<open>ref\<close> into a store of requests, an exception the
  left side of \<open>'a result\<close>; mutation is explicit state passing.  Python integers are \<open>int\<close> or, where they cannot be
  negative, \<open>nat\<close>; floats of budgets and ratios are \<open>real\<close>.  Tensors are lists.  The allocators are used with the
  integers the source computes with; slots never come near the width of a tensor element.  Code outside the repository and
  GPU computations are parameters: the forward pass of the verifier (a function of the tokens each request has in the KV cache and
  of the batch), the tokenizer, the regex parser, the grammar backend, sampled
  tokens and log-probabilities, clocks, \<open>random.shuffle\<close>, the iteration order of sets, the
  predictor of dynamic chunk sizes, and the order of GPU programs and what each lane of their masked loads holds (the record
  \<open>launch\<close> and the type \<open>lanes\<close>).

  \<^bold>\<open>Theories and what they model.\<close>

  \<^item> \<open>Prelude\<close>: results, Python slicing and indexing, shared list facts.
  \<^item> \<open>Allocator\<close> (\<open>mem_cache/allocator.py\<close>): the token and the paged slot allocator, with free groups.  The locale \<open>slot_pool\<close>
    is the contract of an allocator; it is interpreted for both allocators and for their union.
  \<^item> \<open>Paged_Kernels\<close>, \<open>Paged_Alloc\<close> (the same file): the Triton kernels of extend and decode allocation, the sequential
    routine, and \<open>alloc_extend\<close> and \<open>alloc_decode\<close>.  The kernels compute the sequential result in every order of their programs;
    the extend kernel does so if its two masked loads of lengths hold the same in the masked lanes, over which it sums.
  \<^item> \<open>Sampling_Params\<close> (\<open>sampling/sampling_params.py\<close>): construction, checks, normalisation, and the length bound of stop regexes.
  \<^item> \<open>Req\<close> (\<open>managers/schedule_batch.py\<close>, class \<open>Req\<close>): stop checks, KV counters, detokenisation, retraction.
  \<^item> \<open>Input_Logprobs\<close> (\<open>managers/scheduler_output_processor_mixin.py\<close>): token, top and selected-token log-probabilities of
    prompts over chunks, for regular and multi-item scoring.
  \<^item> \<open>Mem_Pools\<close>, \<open>Batch\<close> (\<open>mem_cache/memory_pool.py\<close>, \<open>mem_cache/chunk_cache.py\<close>, \<open>mem_cache/common.py\<close>,
    \<open>model_executor/forward_batch_info.py\<close>, \<open>sampling/sampling_batch_info.py\<close>): the table, the cache without prefix sharing,
    release of memory, forward modes, the tensors of the sampling parameters with the logit bias, and the batch record.
  \<^item> \<open>Schedule_Batch\<close>, \<open>Batch_Refinement\<close>, \<open>Table_Writes\<close> (\<open>managers/schedule_batch.py\<close>, \<open>mem_cache/common.py\<close>): preparing, filtering,
    merging, mixing and retracting batches.  A batch is a struct of arrays; \<open>represents\<close> says that it stands for a list of
    requests, and filtering and merging refine the operations on lists.
  \<^item> \<open>LLM42_Info\<close>, \<open>LLM42_Compare\<close> (\<open>llm42/llm42_info.py\<close>): the layout of a verification batch and the comparison.
  \<^item> \<open>LLM42_Worker\<close>, \<open>LLM42_DVR\<close>, \<open>LLM42_Round\<close> (\<open>llm42/llm42_worker.py\<close>): the pool of dummies, the grouping of requests, a
    verification pass and a round of passes.
  \<^item> \<open>Output_Processor\<close> (\<open>managers/scheduler_output_processor_mixin.py\<close>, \<open>abort_request\<close> of \<open>managers/scheduler.py\<close>): results
    of prefill, decode and idle batches, streaming, aborts.
  \<^item> \<open>Output_Stream\<close>, \<open>Output_Decode\<close>, \<open>Decode_Step\<close>, \<open>Prefill_Step\<close>, \<open>Serving\<close>: what clients of deterministic requests receive.
    \<open>serve\<close> is the step relation over batch results, \<open>run\<close> its executions.
  \<^item> \<open>KV_Ownership\<close>, \<open>KV_Extend\<close>, \<open>KV_Conservation\<close>, \<open>KV_System\<close>, \<open>Retraction\<close>: the balance \<open>kv_inv\<close> of slots and rows over
    the operations, over the step relation \<open>kv_step\<close>, and the end of \<open>retract_decode\<close>.
  \<^item> \<open>Prefill_Adder\<close> (\<open>managers/schedule_policy.py\<close>, class \<open>PrefillAdder\<close>): budgets, admission, chunking, preemption.
  \<^item> \<open>Request_Queue\<close> (\<open>managers/scheduler.py\<close>, \<open>managers/utils.py\<close>, \<open>managers/tp_worker.py\<close>, \<open>constrained/grammar_manager.py\<close>):
    the way of a request into the waiting queue, the limit of the queue, timeouts.
  \<^item> \<open>Scheduler\<close> (\<open>managers/scheduler.py\<close>, class \<open>SchedulePolicy\<close> of \<open>managers/schedule_policy.py\<close>): the order of the queue,
    \<open>_get_new_batch_prefill_raw\<close>, \<open>update_running_batch\<close> and \<open>get_next_batch_to_run\<close>.
  \<^item> \<open>Scheduling_Examples\<close>, \<open>Isolation\<close>, \<open>Prefill_Memory\<close>, \<open>Prefill_Schedule\<close>, \<open>Decode_Schedule\<close>, \<open>Request_Intake\<close>,
    \<open>Scheduling_Faults\<close>: properties of scheduling.
  \<^item> \<open>Prefill_Delayer\<close> (\<open>managers/prefill_delayer.py\<close>): holding back prefills while only some ranks could prefill.

  \<^bold>\<open>What is shown.\<close>

  \<^item> Determinism.  If the verifier, given the tokens before a window in the KV cache, replays every window as a reference
    function of the token sequence would continue it, and the first token of a deterministic request, sampled by its
    isolated prefill, is the reference's too, then in every execution the tokens sent for a deterministic request are the reference output of its
    prompt, two executions agree up to the length of what they have sent, and the number of decode batches of a request is
    bounded.  Underneath: the layout of the verification batch, the comparison, a pass and a round.
  \<^item> Memory.  Allocators lend every slot once; over all operations each slot and each row is free or held by one request;
    rollbacks give back exactly the discarded slots; retraction ends with enough memory or with the documented error, and retracts
    no more than the memory demands.
  \<^item> Scheduling.  A deterministic prefill is alone in its batch; building a prefill batch, and updating the running
    batch, raises no error other than the documented one and loses no request; this closes the gap between the guards of
    \<open>kv_step\<close> and what the scheduler checks.  A received request is well-formed.
  \<^item> Error paths.  Windows larger than the fixed size, a failed pool constructor, and the situations of \<open>Scheduling_Faults\<close>
    (a chunked request that starves, preempted requests that are lost, a second chunk that replaces the first, token limits that
    become negative and the memory error that follows) are stated as theorems about the code as it is, with the conditions under
    which they occur and a state, within the limits the worker derives from its pool, in which they do.

  \<^bold>\<open>Bounds and termination.\<close>  All definitions are total functions.  The one loop of the source that may not end, the grouping
  of requests in fixed-size mode, is \<open>group_batches\<close> with a termination proof; its result \<open>None\<close> stands for the
  loop that makes no progress when the fixed size is zero, and the theorems show that it returns when the size is positive.  No fuel is used.

  \<^bold>\<open>Assumptions of the theorems.\<close>  The theorems on determinism assume that verification is enabled, fixed-size mode with a
  positive size and window, aligned windows and no skipped mismatches, and the verifier above; for every reference function \<open>model_verifier\<close> is
  a verifier that meets the assumption, and the witnesses take one whose prediction depends on the whole sequence.  They also assume
  that the first token of a deterministic prefill is the reference's, and the guards of \<open>decode_ready\<close> for every decode batch:
  unfinished requests that are not retracted, with open windows, a row and room for a token, and ids that are not shared.  The theorems
  on memory assume an allocator of single slots (pages of one token) and the cache without prefix sharing.  The theorem on prefill
  batches assumes no preemption and no mixed chunks, token limits that are not negative, and room for one token of the chunked request;
  \<open>Scheduling_Faults\<close> shows what happens with preemption and with negative limits.  The theorem on decode batches assumes a
  queue without priorities and without a limit.

  \<^bold>\<open>Not modelled.\<close>  GPU code of models, attention, sampling and logits, since floating-point kernels have no exact
  meaning here; radix, hierarchical, sliding-window and Mamba caches, for which the fixed cache without sharing stands in;
  speculative decoding, disaggregation, pipeline and data parallelism (apart from the delayer), LoRA, diffusion and multimodal models,
  sessions and embeddings, which are other configurations of the same process; event loops, sockets, tokenizer and detokenizer
  processes and HTTP entry points, which are input and output (the step relations leave the order of events open); argument
  parsing; the penalizers, custom logit processors and vocabulary masks of the batched sampling parameters; metrics, logging, cached-token statistics and profiling.  Texts of error messages at intake are shortened.  Polling of the grammar
  queue across ranks is left out: the model of \<open>_get_new_batch_prefill_raw\<close> has an empty grammar queue.
\<close>

end
